(* ===== verification/Wadi_Prelude.thy ===== *)
theory Wadi_Prelude
  imports Main "HOL-Library.Word" "HOL-Library.Sublist"
begin

text \<open>
  The shared vocabulary of the development: machine widths, C++ exceptions as values of
  a sum type, the part of \<^verbatim>\<open>std::string\<close> that the sources use, and the
  generic list and word lemmas of the component theories.

  A \<^verbatim>\<open>char\<close> of a \<^verbatim>\<open>std::string\<close> and a
  \<^verbatim>\<open>std::uint8_t\<close> of a byte vector are both one byte, and \<^typ>\<open>char\<close> is a
  type of exactly 256 bytes.  Both are modelled by \<^typ>\<open>char\<close>, so the copies between
  strings and byte vectors (\<^verbatim>\<open>std::vector<uint8_t>(body.begin(), body.end())\<close>,
  \<^verbatim>\<open>static_cast<char>\<close>) are the identity of the model.
\<close>

unbundle bit_operations_syntax

section \<open>Machine widths\<close>

type_synonym u8 = "8 word"
type_synonym u16 = "16 word"
type_synonym u32 = "32 word"
type_synonym u64 = "64 word"
type_synonym bytes = "char list"

abbreviation CR :: char where "CR \<equiv> CHR 0x0D"
abbreviation LF :: char where "LF \<equiv> CHR 0x0A"
abbreviation crlf :: bytes where "crlf \<equiv> [CR, LF]"

section \<open>Collections of rewrite rules\<close>

text \<open>
  \<open>result_simps\<close> unfolds the sequencing of fallible computations, \<open>string_simps\<close>
  the string searches, \<open>io_simps\<close> the interaction with the operating system.
\<close>

named_theorems result_simps
named_theorems string_simps
named_theorems io_simps

section \<open>Exceptions as values\<close>

text \<open>
  Every exception class the sources throw, with the message it carries.
  \<open>SystemError\<close> also has the error number of \<^verbatim>\<open>std::system_error\<close>;
  \<open>OutOfRange\<close> (\<^verbatim>\<open>std::string::substr\<close>), \<open>LengthError\<close> and
  \<open>BadAlloc\<close> (\<^verbatim>\<open>std::vector::reserve\<close>) are thrown by the standard library;
  \<open>AssertFailed\<close> is a failed \<^verbatim>\<open>assert\<close>.
\<close>

datatype exn =
    RequestError string
  | ResponseError string
  | SystemError int string
  | RuntimeError string
  | OutOfRange
  | LengthError
  | BadAlloc
  | AssertFailed

type_synonym 'a result = "exn + 'a"

definition rbind :: "'e + 'a \<Rightarrow> ('a \<Rightarrow> 'e + 'b) \<Rightarrow> 'e + 'b" where
  "rbind m f = (case m of Inl e \<Rightarrow> Inl e | Inr x \<Rightarrow> f x)"

lemma rbind_Inl [simp, result_simps]: "rbind (Inl e) f = Inl e"
  by (simp add: rbind_def)

lemma rbind_Inr [simp, result_simps]: "rbind (Inr x) f = f x"
  by (simp add: rbind_def)

lemma rbind_eq_Inr [result_simps]:
  "rbind m f = Inr y \<longleftrightarrow> (\<exists>x. m = Inr x \<and> f x = Inr y)"
  by (cases m) auto

lemma rbind_eq_Inl [result_simps]:
  "rbind m f = Inl e \<longleftrightarrow> m = Inl e \<or> (\<exists>x. m = Inr x \<and> f x = Inl e)"
  by (cases m) auto

lemma rbind_pair_eq_Inr [result_simps]:
  "rbind m (\<lambda>(a, b). f a b) = Inr y \<longleftrightarrow> (\<exists>a b. m = Inr (a, b) \<and> f a b = Inr y)"
  by (cases m) auto

lemma rbind_cong [fundef_cong]:
  "m = m' \<Longrightarrow> (\<And>x. m' = Inr x \<Longrightarrow> f x = g x) \<Longrightarrow> rbind m f = rbind m' g"
  by (cases m') auto

section \<open>Searching a string\<close>

text \<open>
  \<^verbatim>\<open>std::string::find\<close> for one character, with \<^verbatim>\<open>npos\<close> as
  \<^const>\<open>None\<close>.
\<close>

fun find_char :: "char \<Rightarrow> string \<Rightarrow> nat option" where
  "find_char c [] = None"
| "find_char c (x # xs) = (if x = c then Some 0 else map_option Suc (find_char c xs))"

lemma find_char_None [string_simps]: "find_char c s = None \<longleftrightarrow> c \<notin> set s"
  by (induction s) auto

lemma find_char_append_first [simp]:
  "c \<notin> set a \<Longrightarrow> find_char c (a @ c # b) = Some (length a)"
  by (induction a) auto

lemma find_char_SomeD:
  "find_char c s = Some p \<Longrightarrow> s = take p s @ c # drop (Suc p) s \<and> c \<notin> set (take p s) \<and> p < length s"
proof (induction s arbitrary: p)
  case Nil
  then show ?case by simp
next
  case (Cons x xs)
  show ?case
  proof (cases "x = c")
    case True
    with Cons.prems show ?thesis by auto
  next
    case False
    with Cons.prems obtain q where "find_char c xs = Some q" and "p = Suc q"
      by auto
    with Cons.IH False show ?thesis by auto
  qed
qed

lemma find_char_SomeE:
  assumes "find_char c s = Some p"
  obtains a b where "s = a @ c # b" "c \<notin> set a" "take p s = a" "drop (Suc p) s = b" "p = length a"
proof -
  let ?a = "take p s"
  from find_char_SomeD [OF assms] have "s = ?a @ c # drop (Suc p) s" "c \<notin> set ?a" "p < length s"
    by auto
  then show thesis using that [of ?a "drop (Suc p) s"] by simp
qed

text \<open>
  \<^verbatim>\<open>std::search\<close> for a fixed pattern: the offset of its first occurrence.
\<close>

fun search :: "bytes \<Rightarrow> bytes \<Rightarrow> nat option" where
  "search pat [] = (if pat = [] then Some 0 else None)"
| "search pat (x # xs) =
     (if prefix pat (x # xs) then Some 0 else map_option Suc (search pat xs))"

lemma search_SomeD:
  "search pat s = Some p \<Longrightarrow> p + length pat \<le> length s \<and> take (length pat) (drop p s) = pat"
proof (induction s arbitrary: p)
  case Nil
  then show ?case by (auto split: if_splits)
next
  case (Cons x xs)
  show ?case
  proof (cases "prefix pat (x # xs)")
    case True
    then obtain zs where "x # xs = pat @ zs" by (auto simp: prefix_def)
    then have "length pat \<le> length (x # xs)" and "take (length pat) (x # xs) = pat"
      by simp_all
    with True Cons.prems show ?thesis by auto
  next
    case False
    with Cons.prems Cons.IH show ?thesis by auto
  qed
qed

lemma search_first:
  "search pat s = Some p \<Longrightarrow> q < p \<Longrightarrow> take (length pat) (drop q s) \<noteq> pat"
proof (induction s arbitrary: p q)
  case Nil
  then show ?case by (auto split: if_splits)
next
  case (Cons x xs)
  from Cons.prems obtain p' where p': "search pat xs = Some p'" "p = Suc p'"
    and np: "\<not> prefix pat (x # xs)"
    by (auto split: if_splits)
  show ?case
  proof (cases q)
    case 0
    from np show ?thesis unfolding 0 by (metis drop0 take_is_prefix)
  next
    case (Suc q')
    with Cons.IH [OF p'(1)] Cons.prems(2) p'(2) show ?thesis by simp
  qed
qed

lemma search_None:
  "search pat s = None \<Longrightarrow> pat \<noteq> [] \<Longrightarrow> take (length pat) (drop q s) \<noteq> pat"
proof (induction s arbitrary: q)
  case Nil
  then show ?case by simp
next
  case (Cons x xs)
  then have np: "\<not> prefix pat (x # xs)" and n: "search pat xs = None"
    by (auto split: if_splits)
  show ?case
  proof (cases q)
    case 0
    from np show ?thesis unfolding 0 by (metis drop0 take_is_prefix)
  next
    case (Suc q')
    with Cons.IH [OF n Cons.prems(2)] show ?thesis by simp
  qed
qed

text \<open>More input never moves the first occurrence of a pattern.\<close>

lemma search_append:
  "search pat s = Some p \<Longrightarrow> search pat (s @ t) = Some p"
proof (induction s arbitrary: p)
  case Nil
  then show ?case by (cases t) (auto split: if_splits)
next
  case (Cons x xs)
  show ?case
  proof (cases "prefix pat (x # xs)")
    case True
    then have "prefix pat ((x # xs) @ t)" by (rule prefix_prefix)
    with True Cons.prems show ?thesis by simp
  next
    case False
    with Cons.prems obtain p' where p': "search pat xs = Some p'" "p = Suc p'"
      by auto
    from search_SomeD [OF p'(1)] have len: "length pat \<le> length (x # xs)" by simp
    have "\<not> prefix pat ((x # xs) @ t)"
      using False len prefix_length_prefix [OF _ prefixI [OF refl], of pat "x # xs" t] by blast
    with p' Cons.IH show ?thesis by simp
  qed
qed

section \<open>Words\<close>

lemma unat_of_nat_u64 [simp]: "n < 2 ^ 64 \<Longrightarrow> unat (of_nat n :: u64) = n"
  by (simp add: unat_of_nat take_bit_nat_eq_self)

lemma unat_drop_bit: "unat (drop_bit n (w :: 'a::len word)) = unat w div 2 ^ n"
  unfolding unat_drop_bit_eq by (rule drop_bit_eq_div)

lemma unat_take_bit: "unat (take_bit n (w :: 'a::len word)) = unat w mod 2 ^ n"
  unfolding unsigned_take_bit_eq by (rule take_bit_eq_mod)

lemma drop_bit_and_mask:
  fixes w :: "'a::len word"
  assumes "n + m = LENGTH('a)"
  shows "drop_bit n w AND mask m = drop_bit n w"
proof -
  have "drop_bit n w AND mask m = take_bit m (drop_bit n w)" by (simp add: take_bit_eq_mask)
  also have "\<dots> = drop_bit n (take_bit (m + n) w)" by (rule take_bit_drop_bit)
  also have "take_bit (m + n) w = w" using assms by (simp add: take_bit_word_eq_self)
  finally show ?thesis .
qed

end
