(* ===== verification/Http_Chars.thy ===== *)
theory Http_Chars
  imports Wadi_Prelude
begin

text \<open>
  The character classes and digit conversions of \<^verbatim>\<open>include/HTTPRequest/Request.hpp\<close>
  (\<^verbatim>\<open>toLower\<close> to \<^verbatim>\<open>hexStringToUint\<close>), and the
  number formats they read.  The templates are instantiated with \<^verbatim>\<open>char\<close> and
  with \<^verbatim>\<open>std::uint8_t\<close>; a byte from 0x80 on is negative in the first case and
  large in the second, and fails every range test below either way
  (\<^verbatim>\<open>isObsoleteTextChar\<close> casts to unsigned first), so one definition over the
  byte's value serves both.
\<close>

section \<open>Characters\<close>

definition ord :: "char \<Rightarrow> nat" where
  "ord c = of_char c"

lemma ord_less_256 [simp]: "ord c < 256"
  by (simp add: ord_def)

lemma ord_inject [simp]: "ord c = ord d \<longleftrightarrow> c = d"
  by (simp add: ord_def)

lemma char_of_ord [simp]: "char_of (ord c) = c"
  by (simp add: ord_def)

lemma ord_char_of [simp]: "n < 256 \<Longrightarrow> ord (char_of n) = n"
  by (simp add: ord_def)

definition isWhiteSpaceChar :: "char \<Rightarrow> bool" where
  "isWhiteSpaceChar c \<longleftrightarrow> ord c = 0x20 \<or> ord c = 0x09"

definition isDigitChar :: "char \<Rightarrow> bool" where
  "isDigitChar c \<longleftrightarrow> ord c \<ge> 0x30 \<and> ord c \<le> 0x39"

definition isAlphaChar :: "char \<Rightarrow> bool" where
  "isAlphaChar c \<longleftrightarrow> (ord c \<ge> 0x61 \<and> ord c \<le> 0x7A) \<or> (ord c \<ge> 0x41 \<and> ord c \<le> 0x5A)"

definition isTokenChar :: "char \<Rightarrow> bool" where
  "isTokenChar c \<longleftrightarrow>
     ord c = 0x21 \<or> ord c = 0x23 \<or> ord c = 0x24 \<or> ord c = 0x25 \<or> ord c = 0x26 \<or>
     ord c = 0x27 \<or> ord c = 0x2A \<or> ord c = 0x2B \<or> ord c = 0x2D \<or> ord c = 0x2E \<or>
     ord c = 0x5E \<or> ord c = 0x5F \<or> ord c = 0x60 \<or> ord c = 0x7C \<or> ord c = 0x7E \<or>
     isDigitChar c \<or> isAlphaChar c"

definition isVisibleChar :: "char \<Rightarrow> bool" where
  "isVisibleChar c \<longleftrightarrow> ord c \<ge> 0x21 \<and> ord c \<le> 0x7E"

definition isObsoleteTextChar :: "char \<Rightarrow> bool" where
  "isObsoleteTextChar c \<longleftrightarrow> ord c \<ge> 0x80 \<and> ord c \<le> 0xFF"

text \<open>The test of the field-value and reason-phrase loops.\<close>

definition isFieldChar :: "char \<Rightarrow> bool" where
  "isFieldChar c \<longleftrightarrow> isWhiteSpaceChar c \<or> isVisibleChar c \<or> isObsoleteTextChar c"

lemmas char_class_defs =
  isWhiteSpaceChar_def isDigitChar_def isAlphaChar_def isTokenChar_def isVisibleChar_def
  isObsoleteTextChar_def isFieldChar_def ord_def

definition toLowerChar :: "char \<Rightarrow> char" where
  "toLowerChar c = (if ord c \<ge> ord CHR ''A'' \<and> ord c \<le> ord CHR ''Z''
     then char_of (ord c + (ord CHR ''a'' - ord CHR ''A'')) else c)"

fun toLower :: "string \<Rightarrow> string" where
  "toLower [] = []"
| "toLower (c # s) = toLowerChar c # toLower s"

fun skipWhiteSpaces :: "bytes \<Rightarrow> bytes" where
  "skipWhiteSpaces [] = []"
| "skipWhiteSpaces (c # i) = (if \<not> isWhiteSpaceChar c then c # i else skipWhiteSpaces i)"

lemma toLower_map: "toLower s = map toLowerChar s"
  by (induction s) auto

lemma skipWhiteSpaces_dropWhile: "skipWhiteSpaces s = dropWhile isWhiteSpaceChar s"
  by (induction s) auto

lemma ord_toLowerChar:
  "ord (toLowerChar c) = (if 0x41 \<le> ord c \<and> ord c \<le> 0x5A then ord c + 32 else ord c)"
proof -
  have "ord CHR ''A'' = 0x41" "ord CHR ''Z'' = 0x5A" "ord CHR ''a'' = 0x61"
    by (simp_all add: ord_def)
  then show ?thesis by (simp add: toLowerChar_def)
qed

lemma toLowerChar_idem [simp]: "toLowerChar (toLowerChar c) = toLowerChar c"
  by (simp add: ord_inject [symmetric] ord_toLowerChar del: ord_inject)

lemma toLower_idem: "toLower (toLower s) = toLower s"
  by (simp add: toLower_map comp_def)

lemma isTokenChar_toLowerChar: "isTokenChar c \<Longrightarrow> isTokenChar (toLowerChar c)"
  by (auto simp: isTokenChar_def isDigitChar_def isAlphaChar_def ord_toLowerChar)

text \<open>Tokens hold neither a separator nor a line end, and field values hold no line end.\<close>

lemma isTokenChar_no_sep:
  "isTokenChar c \<Longrightarrow> c \<noteq> CHR '':'' \<and> c \<noteq> CHR '' '' \<and> c \<noteq> CHR 0x0D \<and> c \<noteq> CHR 0x0A"
  by (auto simp: char_class_defs)

lemma isFieldChar_no_crlf: "isFieldChar c \<Longrightarrow> c \<noteq> CHR 0x0D \<and> c \<noteq> CHR 0x0A"
  by (auto simp: char_class_defs)

lemma isTokenChar_isFieldChar: "isTokenChar c \<Longrightarrow> isFieldChar c"
  by (auto simp: isTokenChar_def isFieldChar_def isVisibleChar_def isDigitChar_def isAlphaChar_def)

section \<open>Digits and numbers\<close>

definition digitToUint :: "char \<Rightarrow> 'w::len word result" where
  "digitToUint c = (if ord c \<ge> 0x30 \<and> ord c \<le> 0x39 then Inr (of_nat (ord c - 0x30))
     else Inl (ResponseError ''Invalid digit''))"

definition hexDigitToUint :: "char \<Rightarrow> 'w::len word result" where
  "hexDigitToUint c =
     (if ord c \<ge> 0x30 \<and> ord c \<le> 0x39 then Inr (of_nat (ord c - 0x30))
      else if ord c \<ge> 0x41 \<and> ord c \<le> 0x46 then Inr (of_nat (ord c - 0x41) + 10)
      else if ord c \<ge> 0x61 \<and> ord c \<le> 0x66 then Inr (of_nat (ord c - 0x61) + 10)
      else Inl (ResponseError ''Invalid hex digit''))"

text \<open>
  The accumulating loops.  \<^verbatim>\<open>T\<close> is an unsigned type, so the products and sums
  wrap around at its width.
\<close>

fun uint_loop :: "'w::len word \<Rightarrow> (char \<Rightarrow> 'w word result) \<Rightarrow> 'w word \<Rightarrow> bytes \<Rightarrow> 'w word result" where
  "uint_loop base dig acc [] = Inr acc"
| "uint_loop base dig acc (c # i) = rbind (dig c) (\<lambda>d. uint_loop base dig (base * acc + d) i)"

definition stringToUint :: "bytes \<Rightarrow> 'w::len word result" where
  "stringToUint s = uint_loop 10 digitToUint 0 s"

definition hexStringToUint :: "bytes \<Rightarrow> 'w::len word result" where
  "hexStringToUint s = uint_loop 16 hexDigitToUint 0 s"

text \<open>
  What the loops compute: the number the digits write down, modulo the width.  The
  reference reads the digits as a natural number of unbounded size.
\<close>

definition isHexChar :: "char \<Rightarrow> bool" where
  "isHexChar c \<longleftrightarrow> isDigitChar c \<or> (ord c \<ge> 0x41 \<and> ord c \<le> 0x46) \<or> (ord c \<ge> 0x61 \<and> ord c \<le> 0x66)"

definition hex_value :: "char \<Rightarrow> nat" where
  "hex_value c = (if isDigitChar c then ord c - 0x30
     else if ord c \<le> 0x46 then ord c - 0x37 else ord c - 0x57)"

definition numeral_value :: "nat \<Rightarrow> (char \<Rightarrow> nat) \<Rightarrow> string \<Rightarrow> nat" where
  "numeral_value b v s = foldl (\<lambda>a c. b * a + v c) 0 s"

lemma digitToUint_eq:
  "isDigitChar c \<Longrightarrow> digitToUint c = (Inr (of_nat (hex_value c)) :: 'w::len word result)"
  by (simp add: digitToUint_def isDigitChar_def hex_value_def)

lemma digitToUint_error: "\<not> isDigitChar c \<Longrightarrow> digitToUint c = Inl (ResponseError ''Invalid digit'')"
  by (auto simp: digitToUint_def isDigitChar_def)

lemma digitToUint_InrD: "digitToUint c = Inr d \<Longrightarrow> isDigitChar c"
  by (auto simp: digitToUint_def isDigitChar_def split: if_splits)

lemma hexDigitToUint_eq:
  "isHexChar c \<Longrightarrow> hexDigitToUint c = (Inr (of_nat (hex_value c)) :: 'w::len word result)"
proof -
  assume h: "isHexChar c"
  have up: "of_nat (ord c - 0x41) + 10 = (of_nat (ord c - 0x37) :: 'w word)" if "0x41 \<le> ord c"
  proof -
    from that have e: "ord c - 0x37 = ord c - 0x41 + 10" by simp
    show ?thesis unfolding e of_nat_add by simp
  qed
  have lo: "of_nat (ord c - 0x61) + 10 = (of_nat (ord c - 0x57) :: 'w word)" if "0x61 \<le> ord c"
  proof -
    from that have e: "ord c - 0x57 = ord c - 0x61 + 10" by simp
    show ?thesis unfolding e of_nat_add by simp
  qed
  from h consider "isDigitChar c" | "0x41 \<le> ord c" "ord c \<le> 0x46" | "0x61 \<le> ord c" "ord c \<le> 0x66"
    by (auto simp: isHexChar_def)
  then show ?thesis
  proof cases
    case 1
    then show ?thesis by (simp add: hexDigitToUint_def hex_value_def isDigitChar_def del: of_nat_diff)
  next
    case 2
    then show ?thesis
      using up by (simp add: hexDigitToUint_def hex_value_def isDigitChar_def del: of_nat_diff)
  next
    case 3
    then show ?thesis
      using lo by (simp add: hexDigitToUint_def hex_value_def isDigitChar_def del: of_nat_diff)
  qed
qed

lemma hexDigitToUint_error:
  "\<not> isHexChar c \<Longrightarrow> hexDigitToUint c = Inl (ResponseError ''Invalid hex digit'')"
  by (auto simp: hexDigitToUint_def isHexChar_def isDigitChar_def)

lemma uint_loop_value:
  assumes "\<And>c. c \<in> set s \<Longrightarrow> dig c = Inr (of_nat (v c))"
  shows "uint_loop (of_nat b) dig (of_nat a) s = Inr (of_nat (foldl (\<lambda>a c. b * a + v c) a s))"
  using assms
proof (induction s arbitrary: a)
  case Nil
  then show ?case by simp
next
  case (Cons c s)
  from Cons.prems have d: "dig c = Inr (of_nat (v c))" by simp
  have "uint_loop (of_nat b) dig (of_nat (b * a + v c)) s =
      Inr (of_nat (foldl (\<lambda>a c. b * a + v c) (b * a + v c) s))"
    using Cons.prems by (intro Cons.IH) simp
  with d show ?case by simp
qed

lemma uint_loop_error:
  assumes "c \<in> set s" and "dig c = Inl e" and "\<And>c e'. dig c = Inl e' \<Longrightarrow> e' = e"
  shows "uint_loop b dig a s = Inl e"
  using assms(1)
proof (induction s arbitrary: a)
  case Nil
  then show ?case by simp
next
  case (Cons x s)
  show ?case
  proof (cases "dig x")
    case (Inl e')
    with assms(3) show ?thesis by simp
  next
    case (Inr d)
    with Cons assms(2) show ?thesis by auto
  qed
qed

lemma stringToUint_value:
  assumes "\<And>c. c \<in> set s \<Longrightarrow> isDigitChar c"
  shows "stringToUint s = (Inr (of_nat (numeral_value 10 hex_value s)) :: 'w::len word result)"
  using uint_loop_value [of s digitToUint hex_value 10 0] assms
  by (simp add: stringToUint_def numeral_value_def digitToUint_eq)

lemma hexStringToUint_value:
  assumes "\<And>c. c \<in> set s \<Longrightarrow> isHexChar c"
  shows "hexStringToUint s = (Inr (of_nat (numeral_value 16 hex_value s)) :: 'w::len word result)"
  using uint_loop_value [of s hexDigitToUint hex_value 16 0] assms
  by (simp add: hexStringToUint_def numeral_value_def hexDigitToUint_eq)

lemma stringToUint_error:
  assumes "c \<in> set s" and "\<not> isDigitChar c"
  shows "stringToUint s = Inl (ResponseError ''Invalid digit'')"
  unfolding stringToUint_def using assms
  by (intro uint_loop_error [of c]) (auto simp: digitToUint_def isDigitChar_def split: if_splits)

lemma hexStringToUint_error:
  assumes "c \<in> set s" and "\<not> isHexChar c"
  shows "hexStringToUint s = Inl (ResponseError ''Invalid hex digit'')"
  unfolding hexStringToUint_def using assms
  by (intro uint_loop_error [of c])
    (auto simp: hexDigitToUint_def isHexChar_def isDigitChar_def split: if_splits)

section \<open>Printing numbers\<close>

text \<open>\<^verbatim>\<open>std::to_string\<close> of an unsigned number.\<close>

fun to_string :: "nat \<Rightarrow> string" where
  "to_string n = (if n < 10 then [char_of (48 + n)] else to_string (n div 10) @ [char_of (48 + n mod 10)])"

declare to_string.simps [simp del]

definition digit_char :: "nat \<Rightarrow> char" where
  "digit_char n = char_of (48 + n)"

lemma digit_char_facts:
  assumes "n < 10"
  shows "isDigitChar (digit_char n)" and "hex_value (digit_char n) = n" and "ord (digit_char n) = 48 + n"
  using assms by (simp_all add: digit_char_def isDigitChar_def hex_value_def)

lemma numeral_value_snoc: "numeral_value b v (s @ [c]) = b * numeral_value b v s + v c"
  by (simp add: numeral_value_def)

lemma to_string_digits: "c \<in> set (to_string n) \<Longrightarrow> isDigitChar c"
proof (induction n rule: to_string.induct)
  case (1 n)
  then show ?case
    using digit_char_facts(1) [of n] digit_char_facts(1) [of "n mod 10"]
    by (auto simp: to_string.simps [of n] digit_char_def split: if_splits)
qed

lemma to_string_value: "numeral_value 10 hex_value (to_string n) = n"
proof (induction n rule: to_string.induct)
  case (1 n)
  then show ?case
    using digit_char_facts(2) [of n] digit_char_facts(2) [of "n mod 10"]
    by (auto simp: to_string.simps [of n] digit_char_def numeral_value_snoc)
      (simp add: numeral_value_def)
qed

lemma stringToUint_to_string: "stringToUint (to_string n) = (Inr (of_nat n) :: 'w::len word result)"
  by (simp add: stringToUint_value to_string_digits to_string_value)

lemma digit_isFieldChar: "isDigitChar c \<Longrightarrow> isFieldChar c \<and> isTokenChar c \<and> \<not> isWhiteSpaceChar c"
  by (auto simp: isFieldChar_def isVisibleChar_def isDigitChar_def isTokenChar_def isWhiteSpaceChar_def)

lemma to_string_nonempty [simp]: "to_string n \<noteq> []"
  by (subst to_string.simps) simp

end
