(* ===== verification/Http_Uri.thy ===== *)
theory Http_Uri
  imports Http_Chars
begin

text \<open>
  \<^verbatim>\<open>struct Uri\<close> and \<^verbatim>\<open>parseUri\<close> of
  \<^verbatim>\<open>include/HTTPRequest/Request.hpp\<close>: which strings are accepted, what the
  components of an accepted string can hold, and that printing and parsing are inverse.
  An iterator pair \<^verbatim>\<open>(i, end)\<close> is the list of the characters between them.
\<close>

section \<open>Definitions\<close>

record Uri =
  scheme :: string
  user :: string
  password :: string
  host :: string
  port :: string
  path :: string
  query :: string
  fragment :: string

text \<open>
  The idiom \<^verbatim>\<open>if (i == end || *i++ != c) throw e;\<close> of all parsers of the file:
  the remaining input, or the error.
\<close>

definition expect :: "exn \<Rightarrow> char \<Rightarrow> bytes \<Rightarrow> bytes result" where
  "expect e c i = (case i of [] \<Rightarrow> Inl e | x # i' \<Rightarrow> if x \<noteq> c then Inl e else Inr i')"

definition isSchemeChar :: "char \<Rightarrow> bool" where
  "isSchemeChar c \<longleftrightarrow> isAlphaChar c \<or> isDigitChar c \<or> c = CHR ''+'' \<or> c = CHR ''-'' \<or> c = CHR ''.''"

text \<open>
  \<^verbatim>\<open>auto p = s.find(c); if (p != npos) { tail = s.substr(p + 1); s.resize(p); }\<close>
\<close>

definition cut_at :: "char \<Rightarrow> string \<Rightarrow> string \<times> string" where
  "cut_at c s = (case find_char c s of
       Some p \<Rightarrow> (take p s, drop (p + 1) s)
     | None \<Rightarrow> (s, []))"

definition cut_path :: "string \<Rightarrow> string \<times> string" where
  "cut_path authority = (case find_char CHR ''/'' authority of
       Some p \<Rightarrow> (take p authority, drop p authority)
     | None \<Rightarrow> (authority, ''/''))"

definition cut_userinfo :: "string \<Rightarrow> string \<times> string \<times> string" where
  "cut_userinfo authority = (case find_char CHR ''@'' authority of
       Some hostPosition \<Rightarrow>
         (let userinfo = take hostPosition authority; (us, pw) = cut_at CHR '':'' userinfo
          in (us, pw, drop (hostPosition + 1) authority))
     | None \<Rightarrow> ([], [], authority))"

definition parseAuthority :: "string \<Rightarrow> string \<Rightarrow> Uri" where
  "parseAuthority sch authority =
     (let (authority, frag) = cut_at CHR ''#'' authority;
          (authority, qry) = cut_at CHR ''?'' authority;
          (authority, pth) = cut_path authority;
          (us, pw, hst) = cut_userinfo authority;
          (hst, prt) = cut_at CHR '':'' hst
      in \<lparr>scheme = sch, user = us, password = pw, host = hst, port = prt,
          path = pth, query = qry, fragment = frag\<rparr>)"

definition parseUri :: "bytes \<Rightarrow> Uri result" where
  "parseUri s =
     (let invalid = RequestError ''Invalid scheme'' in
      case s of
        [] \<Rightarrow> Inl invalid
      | c # i \<Rightarrow>
          if \<not> isAlphaChar c then Inl invalid
          else
            rbind (expect invalid CHR '':'' (dropWhile isSchemeChar i)) (\<lambda>i1.
            rbind (expect invalid CHR ''/'' i1) (\<lambda>i2.
            rbind (expect invalid CHR ''/'' i2) (\<lambda>i3.
              Inr (parseAuthority (c # takeWhile isSchemeChar i) i3)))))"

text \<open>The reference: how a URI is written, and which components can be written.\<close>

definition printUri :: "Uri \<Rightarrow> string" where
  "printUri u =
     scheme u @ ''://'' @
     (if user u = [] \<and> password u = [] then []
      else user u @ (if password u = [] then [] else CHR '':'' # password u) @ ''@'') @
     host u @
     (if port u = [] then [] else CHR '':'' # port u) @
     path u @
     (if query u = [] then [] else CHR ''?'' # query u) @
     (if fragment u = [] then [] else CHR ''#'' # fragment u)"

definition valid_scheme :: "string \<Rightarrow> bool" where
  "valid_scheme s \<longleftrightarrow> s \<noteq> [] \<and> isAlphaChar (hd s) \<and> list_all isSchemeChar (tl s)"

text \<open>
  \<open>avoids cs s\<close>: none of the delimiters \<open>cs\<close> occurs in the component \<open>s\<close>.
\<close>

definition avoids :: "string \<Rightarrow> string \<Rightarrow> bool" where
  "avoids cs s \<longleftrightarrow> list_all (\<lambda>c. c \<notin> set cs) s"

definition uri_wf :: "Uri \<Rightarrow> bool" where
  "uri_wf u \<longleftrightarrow>
     valid_scheme (scheme u) \<and>
     avoids ''#?/@:'' (user u) \<and> avoids ''#?/@'' (password u) \<and>
     avoids ''#?/:'' (host u) \<and> avoids ''#?/'' (port u) \<and>
     path u \<noteq> [] \<and> hd (path u) = CHR ''/'' \<and> avoids ''#?'' (path u) \<and>
     avoids ''#'' (query u)"

section \<open>Lemmas\<close>

lemma expect_Inr [result_simps]: "expect e c i = Inr i' \<longleftrightarrow> i = c # i'"
  by (auto simp: expect_def split: list.splits if_splits)

lemma expect_Inl [result_simps]: "expect e c i = Inl e' \<longleftrightarrow> e' = e \<and> (\<forall>i'. i \<noteq> c # i')"
  by (auto simp: expect_def split: list.splits if_splits)

lemma expect_Cons [simp]: "expect e c (c # i) = Inr i"
  by (simp add: expect_def)

lemma avoids_alt: "avoids cs s \<longleftrightarrow> set cs \<inter> set s = {}"
  by (auto simp: avoids_def list_all_iff)

lemma avoids_append [simp]: "avoids cs (s @ t) \<longleftrightarrow> avoids cs s \<and> avoids cs t"
  by (simp add: avoids_def)

lemma avoids_Nil [simp]: "avoids cs []"
  by (simp add: avoids_def)

lemma avoids_Cons [simp]: "avoids cs (c # s) \<longleftrightarrow> c \<notin> set cs \<and> avoids cs s"
  by (simp add: avoids_def)

lemma avoidsD: "avoids cs s \<Longrightarrow> c \<in> set cs \<Longrightarrow> c \<notin> set s"
  by (auto simp: avoids_alt)

text \<open>Both outcomes of a cut, as equations on a string put together from its parts.\<close>

lemma cut_at_found [simp]: "c \<notin> set a \<Longrightarrow> cut_at c (a @ c # b) = (a, b)"
  by (simp add: cut_at_def)

lemma cut_at_absent: "c \<notin> set a \<Longrightarrow> cut_at c a = (a, [])"
  by (simp add: cut_at_def find_char_None [THEN iffD2])

lemma cut_at_cases:
  obtains (absent) "c \<notin> set s" "cut_at c s = (s, [])"
  | (found) a b where "s = a @ c # b" "c \<notin> set a" "cut_at c s = (a, b)"
proof (cases "find_char c s")
  case None
  then show thesis using absent by (simp add: find_char_None cut_at_absent)
next
  case (Some p)
  from Some show thesis
    by (rule find_char_SomeE) (use found cut_at_found in metis)
qed

lemma cut_at_print: "c \<notin> set a \<Longrightarrow> cut_at c (a @ (if b = [] then [] else c # b)) = (a, b)"
  by (simp add: cut_at_absent)

lemma cut_at_fst: "cut_at c s = (a, b) \<Longrightarrow> c \<notin> set a \<and> set a \<subseteq> set s \<and> set b \<subseteq> set s"
  by (rule cut_at_cases [of c s]) auto

lemma cut_path_found: "CHR ''/'' \<notin> set a \<Longrightarrow> cut_path (a @ CHR ''/'' # b) = (a, CHR ''/'' # b)"
  by (simp add: cut_path_def)

lemma cut_path_fst:
  assumes "cut_path s = (a, b)"
  shows "CHR ''/'' \<notin> set a \<and> set a \<subseteq> set s \<and> set b \<subseteq> insert CHR ''/'' (set s)
    \<and> b \<noteq> [] \<and> hd b = CHR ''/''"
proof (cases "find_char CHR ''/'' s")
  case None
  with assms show ?thesis by (auto simp: cut_path_def find_char_None)
next
  case (Some p)
  from Some show ?thesis
  proof (rule find_char_SomeE)
    fix a' b' assume s: "s = a' @ CHR ''/'' # b'" and n: "CHR ''/'' \<notin> set a'"
    with assms cut_path_found [OF n] show ?thesis by auto
  qed
qed

lemma cut_userinfo_fst:
  assumes "cut_userinfo s = (us, pw, h)"
  shows "avoids ''@:'' us \<and> avoids ''@'' pw \<and> set us \<subseteq> set s \<and> set pw \<subseteq> set s \<and> set h \<subseteq> set s"
proof (cases "find_char CHR ''@'' s")
  case None
  with assms show ?thesis by (auto simp: cut_userinfo_def)
next
  case (Some p)
  from Some show ?thesis
  proof (rule find_char_SomeE)
    fix a b assume s: "s = a @ CHR ''@'' # b" and n: "CHR ''@'' \<notin> set a" "take p s = a"
      "drop (Suc p) s = b"
    from assms Some n have c: "cut_at CHR '':'' a = (us, pw)" and h: "h = b"
      by (auto simp: cut_userinfo_def Let_def split: prod.splits)
    from cut_at_fst [OF c] s n h show ?thesis by (auto simp: avoids_alt)
  qed
qed

lemma cut_userinfo_print:
  assumes "avoids ''@:'' us" "avoids ''@'' pw" "CHR ''@'' \<notin> set h"
  shows "cut_userinfo ((if us = [] \<and> pw = [] then []
     else us @ (if pw = [] then [] else CHR '':'' # pw) @ ''@'') @ h) = (us, pw, h)"
proof (cases "us = [] \<and> pw = []")
  case True
  with assms(3) show ?thesis by (simp add: cut_userinfo_def find_char_None [THEN iffD2])
next
  case False
  let ?ui = "us @ (if pw = [] then [] else CHR '':'' # pw)"
  have n: "CHR ''@'' \<notin> set ?ui" using assms by (auto simp: avoids_alt)
  have c: "cut_at CHR '':'' ?ui = (us, pw)"
    using assms(1) by (intro cut_at_print) (auto simp: avoids_alt)
  have "cut_userinfo (?ui @ CHR ''@'' # h) = (us, pw, h)"
    unfolding cut_userinfo_def find_char_append_first [OF n] using c by simp
  with False show ?thesis by auto
qed

lemma parseUri_Inr_iff:
  "parseUri s = Inr u \<longleftrightarrow>
     (\<exists>sch rest. valid_scheme sch \<and> s = sch @ ''://'' @ rest \<and> u = parseAuthority sch rest)"
proof
  assume "parseUri s = Inr u"
  then obtain c i rest where s: "s = c # i" "isAlphaChar c"
    and i: "dropWhile isSchemeChar i = CHR '':'' # CHR ''/'' # CHR ''/'' # rest"
    and u: "u = parseAuthority (c # takeWhile isSchemeChar i) rest"
    by (auto simp: parseUri_def Let_def result_simps split: list.splits if_splits)
  let ?sch = "c # takeWhile isSchemeChar i"
  have "valid_scheme ?sch" using s by (auto simp: valid_scheme_def list_all_iff dest: set_takeWhileD)
  moreover have "s = ?sch @ ''://'' @ rest" using s i takeWhile_dropWhile_id [of isSchemeChar i] by simp
  ultimately show "\<exists>sch rest. valid_scheme sch \<and> s = sch @ ''://'' @ rest \<and> u = parseAuthority sch rest"
    using u by blast
next
  assume "\<exists>sch rest. valid_scheme sch \<and> s = sch @ ''://'' @ rest \<and> u = parseAuthority sch rest"
  then obtain c sch rest where sch: "isAlphaChar c" "list_all isSchemeChar sch"
    and s: "s = (c # sch) @ ''://'' @ rest" and u: "u = parseAuthority (c # sch) rest"
    unfolding valid_scheme_def by (metis list.collapse)
  have ns: "\<not> isSchemeChar CHR '':''" by (simp add: isSchemeChar_def char_class_defs)
  have "takeWhile isSchemeChar (sch @ CHR '':'' # t) = sch"
    and "dropWhile isSchemeChar (sch @ CHR '':'' # t) = CHR '':'' # t" for t
    using sch(2) ns by (simp_all add: takeWhile_append dropWhile_append list_all_iff)
  with s u sch(1) show "parseUri s = Inr u" by (simp add: parseUri_def)
qed

lemma parseAuthority_wf: "valid_scheme sch \<Longrightarrow> uri_wf (parseAuthority sch a)"
proof -
  assume sch: "valid_scheme sch"
  obtain a1 fr where c1: "cut_at CHR ''#'' a = (a1, fr)" by force
  obtain a2 qr where c2: "cut_at CHR ''?'' a1 = (a2, qr)" by force
  obtain a3 pt where c3: "cut_path a2 = (a3, pt)" by force
  obtain us pw h where c4: "cut_userinfo a3 = (us, pw, h)" by (metis prod_cases3)
  obtain h' pr where c5: "cut_at CHR '':'' h = (h', pr)" by force
  note facts = cut_at_fst [OF c1] cut_at_fst [OF c2] cut_path_fst [OF c3]
    cut_userinfo_fst [OF c4] cut_at_fst [OF c5]
  have eq: "parseAuthority sch a = \<lparr>scheme = sch, user = us, password = pw, host = h', port = pr,
      path = pt, query = qr, fragment = fr\<rparr>"
    by (simp add: parseAuthority_def c1 c2 c3 c4 c5)
  have a1: "CHR ''#'' \<notin> set a1" and a2: "CHR ''#'' \<notin> set a2" "CHR ''?'' \<notin> set a2"
    and a3: "CHR ''#'' \<notin> set a3" "CHR ''?'' \<notin> set a3" "CHR ''/'' \<notin> set a3"
    and qr: "CHR ''#'' \<notin> set qr" and pt: "CHR ''#'' \<notin> set pt" "CHR ''?'' \<notin> set pt"
    using facts by auto
  show ?thesis
    unfolding uri_wf_def eq using sch facts a3 qr pt by (auto simp: avoids_alt)
qed

lemma parseAuthority_print:
  assumes "uri_wf u" "CHR ''@'' \<notin> set (host u)"  "CHR ''@'' \<notin> set (port u)"
  shows "parseUri (printUri u) = Inr u"
proof -
  let ?ui = "if user u = [] \<and> password u = [] then []
     else user u @ (if password u = [] then [] else CHR '':'' # password u) @ ''@''"
  let ?hp = "host u @ (if port u = [] then [] else CHR '':'' # port u)"
  let ?q = "if query u = [] then [] else CHR ''?'' # query u"
  let ?f = "if fragment u = [] then [] else CHR ''#'' # fragment u"
  let ?a3 = "?ui @ ?hp" and ?a2 = "?ui @ ?hp @ path u"
  obtain p where p: "path u = CHR ''/'' # p" using assms(1) unfolding uri_wf_def by (metis list.collapse)
  have n1: "CHR ''#'' \<notin> set (?a2 @ ?q)" and n2: "CHR ''?'' \<notin> set ?a2" and n3: "CHR ''/'' \<notin> set ?a3"
    using assms(1) by (auto simp: uri_wf_def avoids_alt)
  have c1: "cut_at CHR ''#'' ((?a2 @ ?q) @ ?f) = (?a2 @ ?q, fragment u)" using n1 by (rule cut_at_print)
  have c2: "cut_at CHR ''?'' (?a2 @ ?q) = (?a2, query u)" using n2 by (rule cut_at_print)
  have c3: "cut_path ?a2 = (?a3, path u)"
    using cut_path_found [OF n3, of p] p by simp
  have c4: "cut_userinfo ?a3 = (user u, password u, ?hp)"
    using assms by (intro cut_userinfo_print) (auto simp: uri_wf_def avoids_alt)
  have c5: "cut_at CHR '':'' ?hp = (host u, port u)"
    using assms(1) by (intro cut_at_print) (auto simp: uri_wf_def avoids_alt)
  have "parseAuthority (scheme u) ((?a2 @ ?q) @ ?f) = u"
    unfolding parseAuthority_def c1 Let_def case_prod_conv c2 c3 c4 c5 by simp
  moreover have "printUri u = scheme u @ ''://'' @ ((?a2 @ ?q) @ ?f)" by (simp add: printUri_def)
  ultimately show ?thesis
    unfolding parseUri_Inr_iff using assms(1) by (auto simp: uri_wf_def)
qed

end
