(* ===== verification/Http_Parse.thy ===== *)
theory Http_Parse
  imports Http_Uri
begin

text \<open>
  The response parsers of \<^verbatim>\<open>include/HTTPRequest/Request.hpp\<close>
  (\<^verbatim>\<open>parseVersion\<close> to \<^verbatim>\<open>parseStatusLine\<close>).  A parser takes
  the characters between \<^verbatim>\<open>begin\<close> and \<^verbatim>\<open>end\<close> and returns the
  ones its result iterator leaves, with the value, or the exception.  The locales state what
  the loops around a parser rely on: it returns a suffix of its input, and it makes progress.
\<close>

section \<open>Data\<close>

record Version =
  major :: u16
  minor :: u16

record Status =
  version :: Version
  status_code :: u16
  reason :: string

type_synonym HeaderField = "string \<times> string"
type_synonym HeaderFields = "HeaderField list"
type_synonym 'a parser = "bytes \<Rightarrow> (bytes \<times> 'a) result"

section \<open>Parsers\<close>

text \<open>\<^verbatim>\<open>if (i == end) throw e; ... *i++\<close>\<close>

definition next_char :: "exn \<Rightarrow> char parser" where
  "next_char e i = (case i of [] \<Rightarrow> Inl e | c # i' \<Rightarrow> Inr (i', c))"

lemma next_char_Inr [result_simps]: "next_char e i = Inr (i', c) \<longleftrightarrow> i = c # i'"
  by (auto simp: next_char_def split: list.splits)

definition parseVersion :: "Version parser" where
  "parseVersion i =
     (let bad = ResponseError ''Invalid HTTP version'' in
      rbind (expect bad CHR ''H'' i) (\<lambda>i.
      rbind (expect bad CHR ''T'' i) (\<lambda>i.
      rbind (expect bad CHR ''T'' i) (\<lambda>i.
      rbind (expect bad CHR ''P'' i) (\<lambda>i.
      rbind (expect bad CHR ''/'' i) (\<lambda>i.
      rbind (next_char bad i) (\<lambda>(i, c).
      rbind (digitToUint c) (\<lambda>majorVersion.
      rbind (expect bad CHR ''.'' i) (\<lambda>i.
      rbind (next_char bad i) (\<lambda>(i, c).
      rbind (digitToUint c) (\<lambda>minorVersion.
        Inr (i, \<lparr>major = majorVersion, minor = minorVersion\<rparr>))))))))))))"

fun statusCode_loop :: "u16 \<Rightarrow> u16 parser" where
  "statusCode_loop result [] = Inr ([], result)"
| "statusCode_loop result (c # i) =
     (if isDigitChar c
      then rbind (digitToUint c) (\<lambda>d. statusCode_loop (result * 10 + d) i)
      else Inr (c # i, result))"

definition parseStatusCode :: "u16 parser" where
  "parseStatusCode begin_it =
     rbind (statusCode_loop 0 begin_it) (\<lambda>(i, result).
       if length begin_it - length i \<noteq> 3 then Inl (ResponseError ''Invalid status code'')
       else Inr (i, result))"

definition parseReasonPhrase :: "bytes \<Rightarrow> bytes \<times> string" where
  "parseReasonPhrase i = (dropWhile isFieldChar i, takeWhile isFieldChar i)"

definition parseToken :: "string parser" where
  "parseToken i =
     (let result = takeWhile isTokenChar i in
      if result = [] then Inl (ResponseError ''Invalid token'')
      else Inr (dropWhile isTokenChar i, result))"

definition trim_end :: "string \<Rightarrow> string" where
  "trim_end s = rev (dropWhile isWhiteSpaceChar (rev s))"

definition parseFieldValue :: "bytes \<Rightarrow> bytes \<times> string" where
  "parseFieldValue i = (dropWhile isFieldChar i, trim_end (takeWhile isFieldChar i))"

text \<open>
  The three tests on \<^verbatim>\<open>obsoleteFoldIterator\<close>: a line end followed by white space
  continues the value on the next line.
\<close>

definition obsolete_fold :: "bytes \<Rightarrow> bytes option" where
  "obsolete_fold i = (case i of
       a # b # c # i' \<Rightarrow> if a = CR \<and> b = LF \<and> isWhiteSpaceChar c then Some i' else None
     | _ \<Rightarrow> None)"

lemma obsolete_fold_Some:
  "obsolete_fold i = Some i' \<longleftrightarrow> (\<exists>c. isWhiteSpaceChar c \<and> i = CR # LF # c # i')"
  by (auto simp: obsolete_fold_def split: list.splits if_splits)

function fieldContent_loop :: "string \<Rightarrow> bytes \<Rightarrow> bytes \<times> string" where
  "fieldContent_loop result i =
     (let (i1, v) = parseFieldValue i in
      case obsolete_fold i1 of
        None \<Rightarrow> (i1, result @ v)
      | Some i2 \<Rightarrow> fieldContent_loop (result @ v @ '' '') i2)"
  by pat_completeness auto
termination
proof (relation "measure (\<lambda>(result, i). length i)", goal_cases)
  case (2 result i x i1 v i2)
  then have "length i2 < length i1" and "i1 = dropWhile isFieldChar i"
    by (auto simp: obsolete_fold_Some parseFieldValue_def)
  then show ?case using length_dropWhile_le [of isFieldChar i] by simp
qed simp

declare fieldContent_loop.simps [simp del]

definition parseFieldContent :: "bytes \<Rightarrow> bytes \<times> string" where
  "parseFieldContent i = fieldContent_loop [] i"

definition parseHeaderField :: "HeaderField parser" where
  "parseHeaderField i =
     (let bad = ResponseError ''Invalid header'' in
      rbind (parseToken i) (\<lambda>(i, name).
      rbind (expect bad CHR '':'' i) (\<lambda>i.
        let (i, fieldValue) = parseFieldContent (skipWhiteSpaces i) in
        rbind (expect bad CR i) (\<lambda>i.
        rbind (expect bad LF i) (\<lambda>i.
          Inr (i, (toLower name, fieldValue)))))))"

definition parseStatusLine :: "Status parser" where
  "parseStatusLine i =
     (let bad = ResponseError ''Invalid status line'' in
      rbind (parseVersion i) (\<lambda>(i, ver).
      rbind (expect bad CHR '' '' i) (\<lambda>i.
      rbind (parseStatusCode i) (\<lambda>(i, cod).
      rbind (expect bad CHR '' '' i) (\<lambda>i.
        let (i, rsn) = parseReasonPhrase i in
        rbind (expect bad CR i) (\<lambda>i.
        rbind (expect bad LF i) (\<lambda>i.
          Inr (i, \<lparr>version = ver, status_code = cod, reason = rsn\<rparr>))))))))"

section \<open>What the loops rely on\<close>

locale consuming_parser =
  fixes p :: "bytes \<Rightarrow> (bytes \<times> 'a) result"
  assumes consumes: "p s = Inr (i, v) \<Longrightarrow> suffix i s"
begin

lemma length_le: "p s = Inr (i, v) \<Longrightarrow> length i \<le> length s"
  by (blast dest: consumes suffix_length_le)

lemma set_le: "p s = Inr (i, v) \<Longrightarrow> set i \<subseteq> set s"
  by (drule consumes) (rule set_mono_suffix)

lemma split_input: "p s = Inr (i, v) \<Longrightarrow> \<exists>used. s = used @ i"
  by (drule consumes) (auto simp: suffix_def)

end

locale progressing_parser = consuming_parser +
  assumes advances: "p s = Inr (i, v) \<Longrightarrow> i \<noteq> s"
begin

lemma length_less: "p s = Inr (i, v) \<Longrightarrow> length i < length s"
proof -
  assume a: "p s = Inr (i, v)"
  from split_input [OF a] obtain used where "s = used @ i" ..
  with advances [OF a] show ?thesis by (cases used) auto
qed

lemma empty_fails: "\<exists>e. p [] = Inl e"
proof (cases "p []")
  case (Inr r)
  obtain i v where "r = (i, v)" by force
  with Inr length_less [of "[]" i v] show ?thesis by simp
qed blast

end

lemma suffix_of_Cons: "s = c # t \<Longrightarrow> suffix t s \<and> t \<noteq> s"
  by (auto intro: suffix_ConsI)

lemma suffix_less_trans: "suffix a b \<Longrightarrow> a \<noteq> b \<Longrightarrow> suffix b c \<Longrightarrow> suffix a c \<and> a \<noteq> c"
  by (metis suffix_order.antisym suffix_order.trans)

lemma parseVersion_used:
  assumes "parseVersion s = Inr (i, v)"
  shows "\<exists>x y. s = ''HTTP/'' @ [x] @ ''.'' @ [y] @ i \<and> isDigitChar x \<and> isDigitChar y
    \<and> v = \<lparr>major = of_nat (hex_value x), minor = of_nat (hex_value y)\<rparr>"
proof -
  from assms obtain x y mj mn where "s = ''HTTP/'' @ [x] @ ''.'' @ [y] @ i"
    and d: "digitToUint x = (Inr mj :: u16 result)" "digitToUint y = (Inr mn :: u16 result)"
    and v: "v = \<lparr>major = mj, minor = mn\<rparr>"
    by (auto simp: parseVersion_def Let_def result_simps)
  moreover have "isDigitChar x" "isDigitChar y"
    using d by (auto dest: digitToUint_InrD)
  ultimately show ?thesis by (auto simp: digitToUint_eq)
qed

interpretation version_parser: progressing_parser parseVersion
  by unfold_locales (auto dest!: parseVersion_used simp: suffix_def)

lemma statusCode_loop_used:
  "statusCode_loop a s = Inr (i, v) \<Longrightarrow>
     \<exists>ds. s = ds @ i \<and> list_all isDigitChar ds \<and>
       v = of_nat (foldl (\<lambda>a c. 10 * a + hex_value c) (unat a) ds)"
proof (induction s arbitrary: a)
  case Nil
  then show ?case by simp
next
  case (Cons c s)
  show ?case
  proof (cases "isDigitChar c")
    case True
    let ?a = "a * 10 + of_nat (hex_value c)"
    from True Cons.prems have "statusCode_loop ?a s = Inr (i, v)"
      by (simp add: digitToUint_eq)
    from Cons.IH [OF this] obtain ds where ds: "s = ds @ i" "list_all isDigitChar ds"
      and v: "v = of_nat (foldl (\<lambda>a c. 10 * a + hex_value c) (unat ?a) ds)" by blast
    have *: "(of_nat (foldl (\<lambda>a c. 10 * a + hex_value c) m xs) :: u16) =
       of_nat (foldl (\<lambda>a c. 10 * a + hex_value c) n xs)" if "(of_nat m :: u16) = of_nat n" for m n xs
      using that by (induction xs arbitrary: m n) auto
    have "v = of_nat (foldl (\<lambda>a c. 10 * a + hex_value c) (10 * unat a + hex_value c) ds)"
      unfolding v by (rule *) (simp add: mult.commute)
    with ds True show ?thesis by (intro exI [of _ "c # ds"]) simp
  next
    case False
    with Cons.prems show ?thesis by auto
  qed
qed

lemma parseStatusCode_used:
  assumes "parseStatusCode s = Inr (i, v)"
  shows "\<exists>x y z. s = [x, y, z] @ i \<and> isDigitChar x \<and> isDigitChar y \<and> isDigitChar z \<and>
    v = of_nat (100 * hex_value x + 10 * hex_value y + hex_value z)"
proof -
  from assms have l: "statusCode_loop 0 s = Inr (i, v)" and d: "length s - length i = 3"
    by (auto simp: parseStatusCode_def result_simps split: if_splits)
  from statusCode_loop_used [OF l] obtain ds where ds: "s = ds @ i" "list_all isDigitChar ds"
    "v = of_nat (foldl (\<lambda>a c. 10 * a + hex_value c) 0 ds)" by auto
  from d ds(1) have "length ds = 3" by simp
  then obtain x y z where "ds = [x, y, z]" by (auto simp: numeral_3_eq_3 length_Suc_conv)
  with ds show ?thesis by (auto simp: algebra_simps)
qed

interpretation statusCode_parser: progressing_parser parseStatusCode
  by unfold_locales (auto dest!: parseStatusCode_used simp: suffix_def)

lemma parseToken_used:
  assumes "parseToken s = Inr (i, v)"
  shows "s = v @ i \<and> v \<noteq> [] \<and> list_all isTokenChar v"
  using assms
  by (auto simp: parseToken_def Let_def list_all_iff dest: set_takeWhileD split: if_splits)

interpretation token_parser: progressing_parser parseToken
  by unfold_locales (auto dest!: parseToken_used simp: suffix_def)

lemma set_trim_end: "set (trim_end s) \<subseteq> set s"
  by (auto simp: trim_end_def dest: set_dropWhileD)

lemma fieldContent_loop_used:
  "fieldContent_loop r s = (i, v) \<Longrightarrow> suffix i s \<and> (list_all isFieldChar r \<longrightarrow> list_all isFieldChar v)"
proof (induction r s rule: fieldContent_loop.induct)
  case (1 r s)
  let ?i1 = "dropWhile isFieldChar s" and ?v = "trim_end (takeWhile isFieldChar s)"
  have v: "list_all isFieldChar ?v"
    using set_trim_end [of "takeWhile isFieldChar s"] by (auto simp: list_all_iff dest: set_takeWhileD)
  have sp: "isFieldChar CHR '' ''" by (simp add: char_class_defs)
  show ?case
  proof (cases "obsolete_fold ?i1")
    case None
    with "1.prems" v show ?thesis
      by (simp add: fieldContent_loop.simps [of r s] parseFieldValue_def)
        (metis list_all_append suffix_dropWhile)
  next
    case (Some i2)
    with "1.prems" have "fieldContent_loop (r @ ?v @ '' '') i2 = (i, v)"
      by (simp add: fieldContent_loop.simps [of r s] parseFieldValue_def)
    with "1.IH" [of _ ?i1 ?v i2] Some have ih: "suffix i i2"
      "list_all isFieldChar (r @ ?v @ '' '') \<longrightarrow> list_all isFieldChar v"
      by (auto simp: parseFieldValue_def)
    from Some have "suffix i2 ?i1" by (auto simp: obsolete_fold_Some intro!: suffix_ConsI)
    then have "suffix i s"
      using ih(1) suffix_dropWhile [of isFieldChar s] suffix_order.trans by blast
    with ih v sp show ?thesis by (simp add: sp)
  qed
qed

lemma parseHeaderField_used:
  assumes "parseHeaderField s = Inr (i, (n, v))"
  shows "\<exists>name rest. s = name @ CHR '':'' # rest \<and> suffix (crlf @ i) rest \<and> name \<noteq> [] \<and>
    list_all isTokenChar name \<and> n = toLower name \<and> list_all isFieldChar v"
proof -
  from assms obtain i1 name rest where t: "parseToken s = Inr (i1, name)"
    and i1: "i1 = CHR '':'' # rest"
    and "fst (fieldContent_loop [] (skipWhiteSpaces rest)) = crlf @ i"
    and "snd (fieldContent_loop [] (skipWhiteSpaces rest)) = v" and n: "n = toLower name"
    by (auto simp: parseHeaderField_def parseFieldContent_def Let_def result_simps case_prod_unfold)
  then have c: "fieldContent_loop [] (skipWhiteSpaces rest) = (crlf @ i, v)"
    by (simp add: prod_eq_iff)
  from fieldContent_loop_used [OF c] have "suffix (crlf @ i) rest" "list_all isFieldChar v"
    by (auto simp: skipWhiteSpaces_dropWhile intro: suffix_order.trans [OF _ suffix_dropWhile])
  with parseToken_used [OF t] i1 n show ?thesis by blast
qed

interpretation headerField_parser: progressing_parser parseHeaderField
proof
  fix s i v
  assume a: "parseHeaderField s = Inr (i, v)"
  obtain n w where v: "v = (n, w)" by force
  from parseHeaderField_used [OF a [unfolded v]] obtain name rest where
    s: "s = name @ CHR '':'' # rest" and su: "suffix (crlf @ i) rest" by blast
  from su have "length i < length s" using s by (auto dest!: suffix_length_le)
  moreover have "suffix i s" using su s by (auto simp: suffix_def)
  ultimately show "suffix i s" and "i \<noteq> s" by auto
qed

lemma parseStatusLine_used:
  assumes "parseStatusLine s = Inr (i, st)"
  shows "\<exists>i1 i2. parseVersion s = Inr (CHR '' '' # i1, version st) \<and>
    parseStatusCode i1 = Inr (CHR '' '' # i2, status_code st) \<and>
    i2 = reason st @ crlf @ i \<and> list_all isFieldChar (reason st)"
proof -
  from assms obtain i1 i2 ver cod where
    v: "parseVersion s = Inr (CHR '' '' # i1, ver)"
    and c: "parseStatusCode i1 = Inr (CHR '' '' # i2, cod)"
    and r: "dropWhile isFieldChar i2 = crlf @ i"
    and st: "st = \<lparr>version = ver, status_code = cod, reason = takeWhile isFieldChar i2\<rparr>"
    by (auto simp: parseStatusLine_def parseReasonPhrase_def Let_def result_simps)
  have "i2 = takeWhile isFieldChar i2 @ crlf @ i"
    using takeWhile_dropWhile_id [of isFieldChar i2] r by simp
  moreover have "list_all isFieldChar (takeWhile isFieldChar i2)"
    by (auto simp: list_all_iff dest: set_takeWhileD)
  ultimately show ?thesis using v c st by auto
qed

interpretation statusLine_parser: progressing_parser parseStatusLine
proof
  fix s i v
  assume "parseStatusLine s = Inr (i, v)"
  from parseStatusLine_used [OF this] obtain i1 i2 where
    v: "parseVersion s = Inr (CHR '' '' # i1, version v)"
    and c: "parseStatusCode i1 = Inr (CHR '' '' # i2, status_code v)"
    and i2: "i2 = reason v @ crlf @ i" by blast
  have s1: "suffix i i2" using i2 by (auto simp: suffix_def)
  have s2: "suffix i2 i1" using statusCode_parser.consumes [OF c] by (auto dest: suffix_ConsD)
  have s3: "suffix i1 s" using version_parser.consumes [OF v] by (auto dest: suffix_ConsD)
  show "suffix i s" using s1 s2 s3 suffix_order.trans by blast
  show "i \<noteq> s"
    using suffix_length_le [OF s1] i2 suffix_length_le [OF s2] version_parser.length_less [OF v] by auto
qed

section \<open>Parsing what was printed\<close>

definition header_line :: "string \<Rightarrow> string \<Rightarrow> bytes" where
  "header_line n v = n @ '': '' @ v @ crlf"

definition trim :: "string \<Rightarrow> string" where
  "trim v = trim_end (skipWhiteSpaces v)"

lemma takeWhile_field: "list_all isFieldChar v \<Longrightarrow> takeWhile isFieldChar (v @ CR # t) = v"
  and dropWhile_field: "list_all isFieldChar v \<Longrightarrow> dropWhile isFieldChar (v @ CR # t) = CR # t"
  using isFieldChar_no_crlf by (auto simp: takeWhile_append dropWhile_append list_all_iff)

lemma fieldContent_loop_line:
  assumes "list_all isFieldChar v" and "i = [] \<or> \<not> isWhiteSpaceChar (hd i)"
  shows "fieldContent_loop r (v @ CR # LF # i) = (CR # LF # i, r @ trim_end v)"
proof -
  have "obsolete_fold (CR # LF # i) = None"
    using assms(2) by (cases i) (auto simp: obsolete_fold_def)
  with assms(1) show ?thesis
    by (simp add: fieldContent_loop.simps [of r] parseFieldValue_def takeWhile_field dropWhile_field)
qed

lemma skipWhiteSpaces_append:
  "skipWhiteSpaces (v @ CR # t) = skipWhiteSpaces v @ CR # t"
  by (induction v) (auto simp: char_class_defs)

lemma list_all_skipWhiteSpaces: "list_all P v \<Longrightarrow> list_all P (skipWhiteSpaces v)"
  by (auto simp: skipWhiteSpaces_dropWhile list_all_iff dest: set_dropWhileD)

lemma parseToken_append:
  assumes "n \<noteq> []" "list_all isTokenChar n" "\<not> isTokenChar c"
  shows "parseToken (n @ c # t) = Inr (c # t, n)"
  using assms by (simp add: parseToken_def takeWhile_append dropWhile_append list_all_iff)

lemma parseHeaderField_line:
  assumes "n \<noteq> []" "list_all isTokenChar n" "list_all isFieldChar v"
    and "i = [] \<or> \<not> isWhiteSpaceChar (hd i)"
  shows "parseHeaderField (header_line n v @ i) = Inr (i, (toLower n, trim v))"
proof -
  have colon: "\<not> isTokenChar CHR '':''" and sp: "isWhiteSpaceChar CHR '' ''"
    by (simp_all add: char_class_defs)
  have t: "parseToken (n @ CHR '':'' # t) = Inr (CHR '':'' # t, n)" for t
    using assms colon by (intro parseToken_append)
  have s: "skipWhiteSpaces (CHR '' '' # v @ CR # LF # i) = skipWhiteSpaces v @ CR # LF # i"
    using sp by (simp add: skipWhiteSpaces_append)
  have f: "fieldContent_loop [] (skipWhiteSpaces v @ CR # LF # i) = (CR # LF # i, trim_end (skipWhiteSpaces v))"
    using fieldContent_loop_line [OF list_all_skipWhiteSpaces [OF assms(3)] assms(4), of "[]"] by simp
  show ?thesis
    using t [of "CHR '' '' # v @ CR # LF # i"] s f
    by (simp add: header_line_def parseHeaderField_def parseFieldContent_def trim_def)
qed

definition status_line :: "nat \<Rightarrow> nat \<Rightarrow> nat \<Rightarrow> string \<Rightarrow> bytes" where
  "status_line mj mn cod rsn = ''HTTP/'' @ [digit_char mj] @ ''.'' @ [digit_char mn] @ '' '' @
     [digit_char (cod div 100), digit_char (cod div 10 mod 10), digit_char (cod mod 10)] @ '' '' @
     rsn @ crlf"

lemma parseVersion_line:
  "mj < 10 \<Longrightarrow> mn < 10 \<Longrightarrow>
     parseVersion (''HTTP/'' @ [digit_char mj] @ ''.'' @ [digit_char mn] @ i) =
       Inr (i, \<lparr>major = of_nat mj, minor = of_nat mn\<rparr>)"
  by (simp add: parseVersion_def next_char_def digitToUint_eq digit_char_facts)

lemma parseStatusCode_line:
  assumes "cod < 1000" "\<not> isDigitChar c"
  shows "parseStatusCode ([digit_char (cod div 100), digit_char (cod div 10 mod 10), digit_char (cod mod 10)] @ c # i)
    = Inr (c # i, of_nat cod)"
proof -
  have "cod div 100 = cod div 10 div 10" by (simp add: div_mult2_eq [symmetric])
  then have e: "(cod div 100 * 10 + cod div 10 mod 10) * 10 + cod mod 10 = cod"
    by (simp only: div_mult_mod_eq)
  have d: "cod div 100 < 10" "cod div 10 mod 10 < 10" "cod mod 10 < 10" using assms(1) by auto
  have v: "(of_nat (cod div 100) * 10 + of_nat (cod div 10 mod 10)) * 10 + of_nat (cod mod 10)
      = (of_nat cod :: u16)"
    using arg_cong [OF e, of "of_nat :: nat \<Rightarrow> u16"]
    by (simp only: of_nat_add of_nat_mult of_nat_numeral)
  have "statusCode_loop 0 ([digit_char (cod div 100), digit_char (cod div 10 mod 10), digit_char (cod mod 10)] @ c # i)
      = Inr (c # i, of_nat cod)"
    using d assms(2) v [symmetric]
    by (simp only: append.simps statusCode_loop.simps digitToUint_eq digit_char_facts rbind_Inr
        if_True if_False mult_zero_left add_0)
  then show ?thesis by (simp add: parseStatusCode_def)
qed

lemma parseStatusLine_line:
  assumes "mj < 10" "mn < 10" "cod < 1000" "list_all isFieldChar rsn"
  shows "parseStatusLine (status_line mj mn cod rsn @ i) =
    Inr (i, \<lparr>version = \<lparr>major = of_nat mj, minor = of_nat mn\<rparr>, status_code = of_nat cod, reason = rsn\<rparr>)"
proof -
  let ?code = "[digit_char (cod div 100), digit_char (cod div 10 mod 10), digit_char (cod mod 10)]"
  let ?t2 = "rsn @ CR # LF # i" and ?v = "\<lparr>major = of_nat mj, minor = of_nat mn\<rparr>"
  let ?t1 = "?code @ CHR '' '' # ?t2"
  have v: "parseVersion (status_line mj mn cod rsn @ i) = Inr (CHR '' '' # ?t1, ?v)"
    using parseVersion_line [OF assms(1,2), of "CHR '' '' # ?t1"] by (simp add: status_line_def)
  have c: "parseStatusCode ?t1 = Inr (CHR '' '' # ?t2, of_nat cod)"
    using assms(3) by (intro parseStatusCode_line) (simp_all add: char_class_defs)
  show ?thesis
    unfolding parseStatusLine_def v Let_def rbind_Inr case_prod_conv expect_Cons c
    using assms(4) by (simp add: parseReasonPhrase_def takeWhile_field dropWhile_field)
qed

end
