(* ===== verification/Http_Encode.thy ===== *)
theory Http_Encode
  imports Http_Parse
begin

text \<open>
  The request encoders of \<^verbatim>\<open>include/HTTPRequest/Request.hpp\<close>:
  \<^verbatim>\<open>encodeRequestLine\<close>, \<^verbatim>\<open>encodeHeaderFields\<close>,
  \<^verbatim>\<open>encodeBase64\<close> and \<^verbatim>\<open>encodeHtml\<close>, with the round trips to
  the parsers and to a Base 64 decoder, and the framing of the encoded request.
\<close>

section \<open>Definitions\<close>

definition encodeRequestLine :: "string \<Rightarrow> string \<Rightarrow> string" where
  "encodeRequestLine meth target = meth @ '' '' @ target @ '' HTTP/1.1'' @ crlf"

fun encodeHeaderFields_loop :: "string \<Rightarrow> HeaderFields \<Rightarrow> string result" where
  "encodeHeaderFields_loop result [] = Inr result"
| "encodeHeaderFields_loop result ((n, v) # hfs) =
     (if n = [] then Inl (RequestError ''Invalid header field name'')
      else if list_ex (\<lambda>c. \<not> isTokenChar c) n then Inl (RequestError ''Invalid header field name'')
      else if list_ex (\<lambda>c. \<not> isWhiteSpaceChar c \<and> \<not> isVisibleChar c \<and> \<not> isObsoleteTextChar c) v
        then Inl (RequestError ''Invalid header field value'')
      else encodeHeaderFields_loop (result @ n @ '': '' @ v @ crlf) hfs)"

definition encodeHeaderFields :: "HeaderFields \<Rightarrow> string result" where
  "encodeHeaderFields hfs = encodeHeaderFields_loop [] hfs"

definition base64_chars :: string where
  "base64_chars = ''ABCDEFGHIJKLMNOPQRSTUVWXYZabcdefghijklmnopqrstuvwxyz0123456789+/''"

definition base64_char :: "u8 \<Rightarrow> char" where
  "base64_char i = base64_chars ! unat i"

definition to_u8 :: "char \<Rightarrow> u8" where
  "to_u8 c = of_nat (ord c)"

text \<open>
  The table index of each output position: the high bits of one byte, the low bits of one
  byte and the high bits of the next, or the low bits alone.
\<close>

definition sextet1 :: "u8 \<Rightarrow> char" where
  "sextet1 a = base64_char (drop_bit 2 (a AND 0xFC))"

definition sextet2 :: "u8 \<Rightarrow> u8 \<Rightarrow> char" where
  "sextet2 a b = base64_char (push_bit 4 (a AND 0x03) + drop_bit 4 (b AND 0xF0))"

definition sextet3 :: "u8 \<Rightarrow> u8 \<Rightarrow> char" where
  "sextet3 b c = base64_char (push_bit 2 (b AND 0x0F) + drop_bit 6 (c AND 0xC0))"

definition sextet4 :: "u8 \<Rightarrow> char" where
  "sextet4 c = base64_char (c AND 0x3F)"

definition sextet2_last :: "u8 \<Rightarrow> char" where
  "sextet2_last a = base64_char (push_bit 4 (a AND 0x03))"

definition sextet3_last :: "u8 \<Rightarrow> char" where
  "sextet3_last b = base64_char (push_bit 2 (b AND 0x0F))"

text \<open>
  The loop over the input.  \<open>charArray\<close> holds the first \<^verbatim>\<open>c\<close> entries of
  the three-byte buffer.
\<close>

fun encodeBase64_loop :: "string \<Rightarrow> u8 list \<Rightarrow> bytes \<Rightarrow> string \<times> u8 list" where
  "encodeBase64_loop result charArray [] = (result, charArray)"
| "encodeBase64_loop result charArray (x # i) =
     (let charArray = charArray @ [to_u8 x] in
      if length charArray = 3 then
        encodeBase64_loop (result @
          [sextet1 (charArray ! 0), sextet2 (charArray ! 0) (charArray ! 1),
           sextet3 (charArray ! 1) (charArray ! 2), sextet4 (charArray ! 2)]) [] i
      else encodeBase64_loop result charArray i)"

definition encodeBase64 :: "bytes \<Rightarrow> string" where
  "encodeBase64 s =
     (let (result, charArray) = encodeBase64_loop [] [] s; c = length charArray in
      if c \<noteq> 0 then
        let result = result @ [sextet1 (charArray ! 0)];
            result =
              (if c = 1 then result @ [sextet2_last (charArray ! 0)]
               else result @ [sextet2 (charArray ! 0) (charArray ! 1), sextet3_last (charArray ! 1)])
        in result @ replicate (3 - c) CHR ''=''
      else result)"

definition requestTarget :: "Uri \<Rightarrow> string" where
  "requestTarget uri = path uri @ (if query uri = [] then [] else CHR ''?'' # query uri)"

definition requestHeaders :: "Uri \<Rightarrow> bytes \<Rightarrow> HeaderFields \<Rightarrow> HeaderFields" where
  "requestHeaders uri body headerFields =
     (let hfs = headerFields @ [(''Host'', host uri)] @ [(''Content-Length'', to_string (length body))]
      in if user uri \<noteq> [] \<or> password uri \<noteq> []
         then hfs @ [(''Authorization'', ''Basic '' @ encodeBase64 (user uri @ '':'' @ password uri))]
         else hfs)"

definition encodeHtml :: "Uri \<Rightarrow> string \<Rightarrow> bytes \<Rightarrow> HeaderFields \<Rightarrow> bytes result" where
  "encodeHtml uri meth body headerFields =
     (if scheme uri \<noteq> ''http'' then Inl (RequestError ''Only HTTP scheme is supported'')
      else
        rbind (encodeHeaderFields (requestHeaders uri body headerFields)) (\<lambda>hdr.
          Inr ((encodeRequestLine meth (requestTarget uri) @ hdr @ crlf) @ body)))"

section \<open>Header fields\<close>

definition valid_field :: "HeaderField \<Rightarrow> bool" where
  "valid_field f \<longleftrightarrow> fst f \<noteq> [] \<and> list_all isTokenChar (fst f) \<and> list_all isFieldChar (snd f)"

definition header_block :: "HeaderFields \<Rightarrow> bytes" where
  "header_block hfs = concat (map (\<lambda>(n, v). header_line n v) hfs)"

lemma encodeHeaderFields_loop_step:
  "valid_field (n, v) \<Longrightarrow>
     encodeHeaderFields_loop r ((n, v) # hfs) = encodeHeaderFields_loop (r @ header_line n v) hfs"
  by (auto simp: valid_field_def header_line_def list_ex_iff list_all_iff isFieldChar_def)

lemma encodeHeaderFields_loop_stop:
  "\<not> valid_field (n, v) \<Longrightarrow> \<exists>m. encodeHeaderFields_loop r ((n, v) # hfs) = Inl (RequestError m)"
  by (auto simp: valid_field_def list_ex_iff list_all_iff isFieldChar_def)

lemma encodeHeaderFields_loop_valid:
  "list_all valid_field hfs \<Longrightarrow> encodeHeaderFields_loop r hfs = Inr (r @ header_block hfs)"
  by (induction hfs arbitrary: r)
    (auto simp: header_block_def encodeHeaderFields_loop_step simp del: encodeHeaderFields_loop.simps(2))

lemma encodeHeaderFields_loop_invalid:
  "\<not> list_all valid_field hfs \<Longrightarrow> \<exists>m. encodeHeaderFields_loop r hfs = Inl (RequestError m)"
proof (induction hfs arbitrary: r)
  case Nil
  then show ?case by simp
next
  case (Cons f hfs)
  obtain n v where f: "f = (n, v)" by force
  show ?case
  proof (cases "valid_field f")
    case True
    with Cons show ?thesis by (simp add: f encodeHeaderFields_loop_step del: encodeHeaderFields_loop.simps(2))
  next
    case False
    then show ?thesis unfolding f by (rule encodeHeaderFields_loop_stop)
  qed
qed

lemma encodeHeaderFields_valid:
  "list_all valid_field hfs \<Longrightarrow> encodeHeaderFields hfs = Inr (header_block hfs)"
  by (simp add: encodeHeaderFields_def encodeHeaderFields_loop_valid)

lemma encodeHeaderFields_invalid:
  "\<not> list_all valid_field hfs \<Longrightarrow> \<exists>m. encodeHeaderFields hfs = Inl (RequestError m)"
  by (simp add: encodeHeaderFields_def encodeHeaderFields_loop_invalid)

lemma header_block_Cons [simp]: "header_block ((n, v) # fs) = header_line n v @ header_block fs"
  by (simp add: header_block_def)

lemma header_block_Nil [simp]: "header_block [] = []"
  by (simp add: header_block_def)

lemma hd_header_block:
  "list_all valid_field fs \<Longrightarrow> header_block fs = [] \<or> isTokenChar (hd (header_block fs))"
  by (cases fs) (auto simp: valid_field_def header_line_def list_all_iff)

lemma isTokenChar_not_ws: "isTokenChar c \<Longrightarrow> \<not> isWhiteSpaceChar c"
  by (auto simp: char_class_defs)

section \<open>Base 64\<close>

lemma u8_drop_bit_and:
  fixes a :: u8
  shows "drop_bit 2 (a AND 0xFC) = drop_bit 2 a"
    and "drop_bit 4 (a AND 0xF0) = drop_bit 4 a"
    and "drop_bit 6 (a AND 0xC0) = drop_bit 6 a"
  using drop_bit_and_mask [of 2 6 a] drop_bit_and_mask [of 4 4 a] drop_bit_and_mask [of 6 2 a]
  by (simp_all only: drop_bit_and) (simp_all add: mask_eq_exp_minus_1)

lemma u8_and_low:
  fixes a :: u8
  shows "a AND 0x3F = take_bit 6 a" and "a AND 0x03 = take_bit 2 a" and "a AND 0x0F = take_bit 4 a"
  by (simp_all add: take_bit_eq_mask mask_eq_exp_minus_1)

lemma u8_push_bit_and:
  fixes a :: u8
  shows "unat (push_bit 4 (a AND 0x03)) = 16 * (unat a mod 4)"
    and "unat (push_bit 2 (a AND 0x0F)) = 4 * (unat a mod 16)"
  by (simp_all add: push_bit_eq_mult unat_word_ariths u8_and_low unat_take_bit)

lemma unat_to_u8 [simp]: "unat (to_u8 c) = ord c"
  by (simp add: to_u8_def unat_of_nat take_bit_nat_eq_self)

text \<open>The four six-bit indices of a three-byte group, as numbers.\<close>

lemma base64_index:
  fixes a b :: u8
  shows "unat (drop_bit 2 (a AND 0xFC)) = unat a div 4"
    and "unat (push_bit 4 (a AND 0x03) + drop_bit 4 (b AND 0xF0)) = 16 * (unat a mod 4) + unat b div 16"
    and "unat (push_bit 2 (a AND 0x0F) + drop_bit 6 (b AND 0xC0)) = 4 * (unat a mod 16) + unat b div 64"
    and "unat (a AND 0x3F) = unat a mod 64"
proof -
  have lt: "unat b < 256" using unsigned_less [of b] by simp
  show "unat (drop_bit 2 (a AND 0xFC)) = unat a div 4"
    unfolding u8_drop_bit_and by (simp only: unat_drop_bit) simp
  have d4: "unat (drop_bit 4 (b AND 0xF0)) = unat b div 16"
    unfolding u8_drop_bit_and by (simp only: unat_drop_bit) simp
  have d6: "unat (drop_bit 6 (b AND 0xC0)) = unat b div 64"
    unfolding u8_drop_bit_and by (simp only: unat_drop_bit) simp
  show "unat (push_bit 4 (a AND 0x03) + drop_bit 4 (b AND 0xF0)) = 16 * (unat a mod 4) + unat b div 16"
    unfolding unat_word_ariths u8_push_bit_and d4 using lt by simp
  show "unat (push_bit 2 (a AND 0x0F) + drop_bit 6 (b AND 0xC0)) = 4 * (unat a mod 16) + unat b div 64"
    unfolding unat_word_ariths u8_push_bit_and d6 using lt by simp
  show "unat (a AND 0x3F) = unat a mod 64"
    unfolding u8_and_low by (simp only: unat_take_bit) simp
qed

text \<open>
  The reference encoder reads each group as a number of 24 bits (the missing bytes of the
  last group are zero) and writes its digits to the base 64.
\<close>

definition base64_digit :: "nat \<Rightarrow> char" where
  "base64_digit n = base64_chars ! n"

fun base64_ref :: "bytes \<Rightarrow> string" where
  "base64_ref [] = []"
| "base64_ref [x] = (let n = 65536 * ord x in
     [base64_digit (n div 262144), base64_digit (n div 4096 mod 64), CHR ''='', CHR ''=''])"
| "base64_ref [x, y] = (let n = 65536 * ord x + 256 * ord y in
     [base64_digit (n div 262144), base64_digit (n div 4096 mod 64), base64_digit (n div 64 mod 64), CHR ''=''])"
| "base64_ref (x # y # z # s) = (let n = 65536 * ord x + 256 * ord y + ord z in
     [base64_digit (n div 262144), base64_digit (n div 4096 mod 64), base64_digit (n div 64 mod 64),
      base64_digit (n mod 64)] @ base64_ref s)"

lemma encodeBase64_loop_acc:
  "encodeBase64_loop r buf s =
     (r @ fst (encodeBase64_loop [] buf s), snd (encodeBase64_loop [] buf s))"
proof (induction s arbitrary: r buf)
  case Nil
  then show ?case by simp
next
  case (Cons x s)
  show ?case
  proof (cases "length (buf @ [to_u8 x]) = 3")
    case True
    then show ?thesis by (simp add: Let_def) (subst (1 2 3) Cons.IH, simp)
  next
    case False
    then show ?thesis by (simp add: Let_def) (subst Cons.IH, simp)
  qed
qed

lemma mod_of_split: "(n :: nat) = k * q + r \<Longrightarrow> r < k \<Longrightarrow> n mod k = r"
  by simp

lemma group_digits:
  fixes a b c :: nat
  assumes "a < 256" "b < 256" "c < 256"
  defines "n \<equiv> 65536 * a + 256 * b + c"
  shows "n div 262144 = a div 4" and "n div 4096 mod 64 = 16 * (a mod 4) + b div 16"
    and "n div 64 mod 64 = 4 * (b mod 16) + c div 64" and "n mod 64 = c mod 64"
proof -
  show "n div 262144 = a div 4" unfolding n_def using assms by linarith
  have "n div 4096 = 16 * a + b div 16" unfolding n_def using assms by linarith
  also have "\<dots> = 64 * (a div 4) + (16 * (a mod 4) + b div 16)"
    using mult_div_mod_eq [of 4 a] by linarith
  finally show "n div 4096 mod 64 = 16 * (a mod 4) + b div 16"
    by (rule mod_of_split) (use assms in linarith)
  have "n div 64 = 1024 * a + 4 * b + c div 64" unfolding n_def using assms by linarith
  also have "\<dots> = 1024 * a + 4 * (16 * (b div 16) + b mod 16) + c div 64"
    by (simp only: mult_div_mod_eq)
  also have "\<dots> = 64 * (16 * a + b div 16) + (4 * (b mod 16) + c div 64)"
    by (simp only: distrib_left)
  finally show "n div 64 mod 64 = 4 * (b mod 16) + c div 64"
    by (rule mod_of_split) (use assms in linarith)
  have "n = 64 * (1024 * a + 4 * b) + c" unfolding n_def by simp
  then show "n mod 64 = c mod 64" by (simp only: mod_mult_self4)
qed

lemma base64_char_digit: "unat i = n \<Longrightarrow> base64_char i = base64_digit n"
  by (simp add: base64_char_def base64_digit_def)

lemma sextet_digits:
  "sextet1 (to_u8 x) = base64_digit (ord x div 4)"
  "sextet2 (to_u8 x) (to_u8 y) = base64_digit (16 * (ord x mod 4) + ord y div 16)"
  "sextet3 (to_u8 y) (to_u8 z) = base64_digit (4 * (ord y mod 16) + ord z div 64)"
  "sextet4 (to_u8 z) = base64_digit (ord z mod 64)"
  "sextet2_last (to_u8 x) = base64_digit (16 * (ord x mod 4))"
  "sextet3_last (to_u8 y) = base64_digit (4 * (ord y mod 16))"
  unfolding sextet1_def sextet2_def sextet3_def sextet4_def sextet2_last_def sextet3_last_def
  by (rule base64_char_digit; simp only: base64_index u8_push_bit_and unat_to_u8)+

lemma encodeBase64_group:
  "encodeBase64 (x # y # z # s) =
     [base64_digit (ord x div 4), base64_digit (16 * (ord x mod 4) + ord y div 16),
      base64_digit (4 * (ord y mod 16) + ord z div 64), base64_digit (ord z mod 64)] @ encodeBase64 s"
proof -
  let ?g = "[base64_digit (ord x div 4), base64_digit (16 * (ord x mod 4) + ord y div 16),
      base64_digit (4 * (ord y mod 16) + ord z div 64), base64_digit (ord z mod 64)]"
  have "encodeBase64_loop [] [] (x # y # z # s) = encodeBase64_loop ?g [] s"
    by (simp add: sextet_digits)
  also have "\<dots> = (?g @ fst (encodeBase64_loop [] [] s), snd (encodeBase64_loop [] [] s))"
    by (rule encodeBase64_loop_acc)
  finally have l: "encodeBase64_loop [] [] (x # y # z # s) =
    (?g @ fst (encodeBase64_loop [] [] s), snd (encodeBase64_loop [] [] s))" .
  show ?thesis unfolding encodeBase64_def Let_def l by (simp add: case_prod_unfold)
qed

lemma encodeBase64_ref: "encodeBase64 s = base64_ref s"
proof (induction s rule: base64_ref.induct)
  case 1
  show ?case by (simp add: encodeBase64_def)
next
  case (2 x)
  show ?case
    using group_digits [of "ord x" 0 0] by (simp add: encodeBase64_def sextet_digits numeral_2_eq_2)
next
  case (3 x y)
  show ?case
    using group_digits [of "ord x" "ord y" 0] by (simp add: encodeBase64_def sextet_digits)
next
  case (4 x y z s)
  then show ?case
    using group_digits [of "ord x" "ord y" "ord z"]
    by (simp add: encodeBase64_group Let_def)
qed

text \<open>The decoder of the round trip: the inverse of the table, then the three bytes of a group.\<close>

definition base64_value :: "char \<Rightarrow> nat" where
  "base64_value c = (case find_char c base64_chars of Some i \<Rightarrow> i | None \<Rightarrow> 0)"

definition group_bytes :: "nat \<Rightarrow> bytes" where
  "group_bytes n = [char_of (n div 65536), char_of (n div 256 mod 256), char_of (n mod 256)]"

fun decodeBase64 :: "string \<Rightarrow> bytes" where
  "decodeBase64 (p # q # r # t # s) =
     (let n = 262144 * base64_value p + 4096 * base64_value q + 64 * base64_value r + base64_value t in
      if t = CHR ''='' then (if r = CHR ''='' then take 1 (group_bytes n) else take 2 (group_bytes n))
      else group_bytes n @ decodeBase64 s)"
| "decodeBase64 s = []"

lemma base64_table:
  "list_all (\<lambda>i. find_char (base64_chars ! i) base64_chars = Some i \<and> base64_chars ! i \<noteq> CHR ''=''
     \<and> isFieldChar (base64_chars ! i)) [0..<64]"
  by code_simp

lemma base64_digit_facts:
  assumes "n < 64"
  shows "base64_value (base64_digit n) = n" and "base64_digit n \<noteq> CHR ''=''"
    and "isFieldChar (base64_digit n)"
proof -
  have "n \<in> set [0..<64]" using assms by simp
  with base64_table [unfolded list_all_iff] have
    "find_char (base64_chars ! n) base64_chars = Some n \<and> base64_chars ! n \<noteq> CHR ''=''
     \<and> isFieldChar (base64_chars ! n)" by blast
  then show "base64_value (base64_digit n) = n" and "base64_digit n \<noteq> CHR ''=''"
    and "isFieldChar (base64_digit n)" by (simp_all add: base64_value_def base64_digit_def)
qed

lemma base64_value_pad: "base64_value CHR ''='' = 0"
  by code_simp

lemma digits_value:
  fixes n :: nat
  shows "262144 * (n div 262144) + 4096 * (n div 4096 mod 64) + 64 * (n div 64 mod 64) + n mod 64 = n"
proof -
  have "n div 262144 = n div 4096 div 64" "n div 4096 = n div 64 div 64"
    by (simp_all add: div_mult2_eq [symmetric])
  then show ?thesis
    using mult_div_mod_eq [of 64 n] mult_div_mod_eq [of 64 "n div 64"] mult_div_mod_eq [of 64 "n div 4096"]
    by linarith
qed

lemma group_bytes_value:
  assumes "a < 256" "b < 256" "c < 256"
  shows "group_bytes (65536 * a + 256 * b + c) = [char_of a, char_of b, char_of c]"
proof -
  have "(65536 * a + 256 * b + c) div 65536 = a" using assms by linarith
  moreover have "(65536 * a + 256 * b + c) div 256 = 256 * a + b" using assms by linarith
  moreover have "(65536 * a + 256 * b + c) mod 256 = c"
    using assms mod_of_split [of "65536 * a + 256 * b + c" 256 "256 * a + b" c] by simp
  ultimately show ?thesis using assms by (simp add: group_bytes_def)
qed

lemma decodeBase64_ref: "decodeBase64 (base64_ref s) = s"
proof (induction s rule: base64_ref.induct)
  case 1
  show ?case by simp
next
  case (2 x)
  let ?n = "65536 * ord x"
  have "?n div 262144 < 64" "?n div 64 mod 64 = 0" "?n mod 64 = 0"
    using ord_less_256 [of x] by (linarith, simp_all)
  with digits_value [of ?n] group_bytes_value [of "ord x" 0 0] show ?case
    by (simp add: Let_def base64_digit_facts base64_value_pad del: ord_less_256)
next
  case (3 x y)
  let ?n = "65536 * ord x + 256 * ord y"
  have "?n div 262144 < 64" "?n mod 64 = 0"
    using ord_less_256 [of x] ord_less_256 [of y] by (linarith, simp)
  with digits_value [of ?n] group_bytes_value [of "ord x" "ord y" 0] show ?case
    by (simp add: Let_def base64_digit_facts base64_value_pad)
next
  case (4 x y z s)
  let ?n = "65536 * ord x + 256 * ord y + ord z"
  have "?n div 262144 < 64" using ord_less_256 [of x] ord_less_256 [of y] ord_less_256 [of z] by linarith
  with 4 digits_value [of ?n] group_bytes_value [of "ord x" "ord y" "ord z"] show ?case
    by (simp add: Let_def base64_digit_facts)
qed

lemma length_base64_ref: "length (base64_ref s) = 4 * ((length s + 2) div 3)"
proof (induction s rule: base64_ref.induct)
  case (4 x y z s)
  have "(length (x # y # z # s) + 2) div 3 = Suc ((length s + 2) div 3)" by simp
  with 4 show ?case by (simp only: base64_ref.simps Let_def) simp
qed (simp_all only: base64_ref.simps Let_def list.size, simp_all)

lemma base64_ref_field: "list_all isFieldChar (base64_ref s)"
proof (induction s rule: base64_ref.induct)
  case (2 x)
  have "65536 * ord x div 262144 < 64" using ord_less_256 [of x] by linarith
  then show ?case by (simp add: Let_def base64_digit_facts) (simp add: char_class_defs)
next
  case (3 x y)
  have "(65536 * ord x + 256 * ord y) div 262144 < 64" using ord_less_256 [of x] ord_less_256 [of y] by linarith
  then show ?case by (simp add: Let_def base64_digit_facts) (simp add: char_class_defs)
next
  case (4 x y z s)
  have "(65536 * ord x + 256 * ord y + ord z) div 262144 < 64"
    using ord_less_256 [of x] ord_less_256 [of y] ord_less_256 [of z] by linarith
  with 4 show ?case by (simp add: Let_def base64_digit_facts)
qed simp

end
