(* ===== verification/Http_Response.thy ===== *)
theory Http_Response
  imports Http_Encode
begin

text \<open>
  The receiving half of \<^verbatim>\<open>Request::send\<close> of
  \<^verbatim>\<open>include/HTTPRequest/Request.hpp\<close> (from the declaration of
  \<^verbatim>\<open>response\<close> on): the state of the read loop, what one received block does to
  it, and the whole loop over a sequence of received blocks.  A block is what one call of
  \<^verbatim>\<open>socket.recv\<close> delivered; the empty block is a closed connection.
\<close>

section \<open>State\<close>

text \<open>
  \<^verbatim>\<open>Response response;\<close> leaves the numbers of the status indeterminate until a
  status line was parsed: \<open>status\<close> is \<^const>\<open>None\<close> until then.
\<close>

record Response =
  status :: "Status option"
  headerFields :: HeaderFields
  body :: bytes

record recv_state =
  response :: Response
  responseData :: bytes
  parsingBody :: bool
  contentLengthReceived :: bool
  contentLength :: u64
  chunkedResponse :: bool
  expectedChunkSize :: u64
  removeCrlfAfterChunk :: bool

definition init_recv :: recv_state where
  "init_recv = \<lparr>response = \<lparr>status = None, headerFields = [], body = []\<rparr>, responseData = [],
     parsingBody = False, contentLengthReceived = False, contentLength = 0,
     chunkedResponse = False, expectedChunkSize = 0, removeCrlfAfterChunk = False\<rparr>"

text \<open>One pass of the loop either asks for more data or returns the response.\<close>

datatype step = NeedMore recv_state | Finished Response

section \<open>The header section\<close>

text \<open>
  \<^verbatim>\<open>std::vector<std::uint8_t>::reserve\<close>: beyond \<^verbatim>\<open>max_size()\<close>
  it throws \<^verbatim>\<open>std::length_error\<close>; whether the memory is there is up to the
  allocator, the parameter \<open>can_reserve\<close>.
\<close>

definition vector_reserve :: "(nat \<Rightarrow> bool) \<Rightarrow> nat \<Rightarrow> unit result" where
  "vector_reserve can_reserve n =
     (if n > 2 ^ 63 - 1 then Inl LengthError
      else if can_reserve n then Inr () else Inl BadAlloc)"

definition on_field :: "(nat \<Rightarrow> bool) \<Rightarrow> string \<Rightarrow> string \<Rightarrow> recv_state \<Rightarrow> recv_state result" where
  "on_field can_reserve fieldName fieldValue st =
     (if fieldName = ''transfer-encoding'' then
        (if fieldValue = ''chunked'' then Inr (st\<lparr>chunkedResponse := True\<rparr>)
         else Inl (ResponseError (''Unsupported transfer encoding: '' @ fieldValue)))
      else if fieldName = ''content-length'' then
        rbind (stringToUint fieldValue) (\<lambda>len.
        rbind (vector_reserve can_reserve (unat len)) (\<lambda>_.
          Inr (st\<lparr>contentLength := len, contentLengthReceived := True\<rparr>)))
      else Inr st)"

definition push_field :: "HeaderField \<Rightarrow> recv_state \<Rightarrow> recv_state" where
  "push_field f st =
     st\<lparr>response := (response st)\<lparr>headerFields := headerFields (response st) @ [f]\<rparr>\<rparr>"

function header_loop :: "(nat \<Rightarrow> bool) \<Rightarrow> bytes \<Rightarrow> recv_state \<Rightarrow> recv_state result" where
  "header_loop can_reserve i st =
     rbind (parseHeaderField i) (\<lambda>(i', (fieldName, fieldValue)).
     rbind (on_field can_reserve fieldName fieldValue st) (\<lambda>st.
       let st = push_field (fieldName, fieldValue) st in
       if i' = [] then Inr st else header_loop can_reserve i' st))"
  by pat_completeness auto
termination
  by (relation "measure (\<lambda>(r, i, st). length i)") (auto dest: headerField_parser.length_less)

declare header_loop.simps [simp del]

definition on_head :: "(nat \<Rightarrow> bool) \<Rightarrow> nat \<Rightarrow> recv_state \<Rightarrow> recv_state result" where
  "on_head can_reserve endPos st =
     (let header = take (endPos + 2) (responseData st) in
      rbind (parseStatusLine header) (\<lambda>(i, sta).
      rbind (header_loop can_reserve i (st\<lparr>response := (response st)\<lparr>status := Some sta\<rparr>\<rparr>)) (\<lambda>st.
        Inr (st\<lparr>responseData := drop (endPos + 4) (responseData st), parsingBody := True\<rparr>))))"

section \<open>The body\<close>

text \<open>Copying the available part of the current chunk.\<close>

definition write_chunk :: "recv_state \<Rightarrow> recv_state" where
  "write_chunk st =
     (let data = responseData st;
          toWrite = min (unat (expectedChunkSize st)) (length data);
          st = st\<lparr>response := (response st)\<lparr>body := body (response st) @ take toWrite data\<rparr>,
                  responseData := drop toWrite data,
                  expectedChunkSize := expectedChunkSize st - of_nat toWrite\<rparr>
      in if expectedChunkSize st = 0 then st\<lparr>removeCrlfAfterChunk := True\<rparr> else st)"

text \<open>
  Removing the line end after a chunk; \<^term>\<open>Inr None\<close> is the \<^verbatim>\<open>break\<close>
  when its two bytes have not arrived.
\<close>

definition strip_crlf :: "recv_state \<Rightarrow> recv_state option result" where
  "strip_crlf st =
     (if removeCrlfAfterChunk st then
        (if length (responseData st) < 2 then Inr None
         else if take 2 (responseData st) \<noteq> crlf then Inl (ResponseError ''Invalid chunk'')
         else Inr (Some (st\<lparr>removeCrlfAfterChunk := False, responseData := drop 2 (responseData st)\<rparr>)))
      else Inr (Some st))"

lemma responseData_write_chunk:
  "responseData (write_chunk st) =
     drop (min (unat (expectedChunkSize st)) (length (responseData st))) (responseData st)"
  by (simp add: write_chunk_def Let_def)

lemma strip_crlf_length:
  "strip_crlf st = Inr (Some st') \<Longrightarrow> length (responseData st') \<le> length (responseData st)"
  by (auto simp: strip_crlf_def split: if_splits)

function chunk_loop :: "recv_state \<Rightarrow> step result" where
  "chunk_loop st =
     (if expectedChunkSize st > 0 then
        (if responseData (write_chunk st) = [] then Inr (NeedMore (write_chunk st))
         else chunk_loop (write_chunk st))
      else
        (case strip_crlf st of
           Inl e \<Rightarrow> Inl e
         | Inr None \<Rightarrow> Inr (NeedMore st)
         | Inr (Some st') \<Rightarrow>
             (case search crlf (responseData st') of
                None \<Rightarrow> Inr (NeedMore st')
              | Some i \<Rightarrow>
                  (case hexStringToUint (take i (responseData st')) of
                     Inl e \<Rightarrow> Inl e
                   | Inr n \<Rightarrow>
                       if n = 0 then Inr (Finished (response st'))
                       else chunk_loop (st'\<lparr>expectedChunkSize := n,
                              responseData := drop (i + 2) (responseData st')\<rparr>)))))"
  by pat_completeness auto
termination
proof (relation "measure (\<lambda>st. length (responseData st))", goal_cases)
  case 1
  then show ?case by simp
next
  case (2 st)
  then have "0 < unat (expectedChunkSize st)" by (simp add: word_less_nat_alt)
  with 2 show ?case by (auto simp: responseData_write_chunk)
next
  case (3 st x st' i n)
  then have "i + 2 \<le> length (responseData st')" using search_SomeD by fastforce
  moreover have "length (responseData st') \<le> length (responseData st)" using 3 by (blast intro: strip_crlf_length)
  ultimately show ?case by simp
qed

declare chunk_loop.simps [simp del]

definition on_body :: "recv_state \<Rightarrow> step result" where
  "on_body st =
     (if chunkedResponse st then chunk_loop st
      else
        let st = st\<lparr>response := (response st)\<lparr>body := body (response st) @ responseData st\<rparr>,
                    responseData := []\<rparr>
        in if contentLengthReceived st \<and> length (body (response st)) \<ge> unat (contentLength st)
           then Inr (Finished (response st)) else Inr (NeedMore st))"

section \<open>The read loop\<close>

text \<open>
  One received block.  When the end of the header section is not in the data received so
  far, the \<^verbatim>\<open>break\<close> leaves the read loop itself and the response is returned.
\<close>

definition on_data :: "(nat \<Rightarrow> bool) \<Rightarrow> bytes \<Rightarrow> recv_state \<Rightarrow> step result" where
  "on_data can_reserve data st =
     (let st = st\<lparr>responseData := responseData st @ data\<rparr> in
      if \<not> parsingBody st then
        (case search (crlf @ crlf) (responseData st) of
           None \<Rightarrow> Inr (Finished (response st))
         | Some endPos \<Rightarrow> rbind (on_head can_reserve endPos st) on_body)
      else on_body st)"

text \<open>
  The loop over the received blocks; \<^const>\<open>None\<close>: it waits for the next one.
\<close>

fun read_blocks :: "(nat \<Rightarrow> bool) \<Rightarrow> recv_state \<Rightarrow> bytes list \<Rightarrow> Response result option" where
  "read_blocks can_reserve st [] = None"
| "read_blocks can_reserve st (data # blocks) =
     (if data = [] then Some (Inr (response st))
      else case on_data can_reserve data st of
        Inl e \<Rightarrow> Some (Inl e)
      | Inr (Finished r) \<Rightarrow> Some (Inr r)
      | Inr (NeedMore st') \<Rightarrow> read_blocks can_reserve st' blocks)"

section \<open>Chunked bodies and how the stream is cut into blocks\<close>

text \<open>
  \<open>feed d st\<close> appends received data.  The decoder does not see where the stream was cut:
  running it on a longer input is running it on the first part and, when that asks for more,
  running it again on the rest.
\<close>

definition feed :: "bytes \<Rightarrow> recv_state \<Rightarrow> recv_state" where
  "feed d st = st\<lparr>responseData := responseData st @ d\<rparr>"

lemma feed_sel [simp]:
  "responseData (feed d st) = responseData st @ d" "response (feed d st) = response st"
  "expectedChunkSize (feed d st) = expectedChunkSize st"
  "removeCrlfAfterChunk (feed d st) = removeCrlfAfterChunk st"
  "chunkedResponse (feed d st) = chunkedResponse st" "parsingBody (feed d st) = parsingBody st"
  by (simp_all add: feed_def)

definition after :: "step result \<Rightarrow> bytes \<Rightarrow> step result" where
  "after r d = (case r of Inr (NeedMore st) \<Rightarrow> chunk_loop (feed d st) | _ \<Rightarrow> r)"

lemma after_simps [simp]:
  "after (Inl e) d = Inl e" "after (Inr (Finished r)) d = Inr (Finished r)"
  "after (Inr (NeedMore st)) d = chunk_loop (feed d st)"
  by (simp_all add: after_def)

lemma write_chunk_feed_full:
  "unat (expectedChunkSize st) \<le> length (responseData st) \<Longrightarrow>
     write_chunk (feed d st) = feed d (write_chunk st)"
  by (simp add: write_chunk_def feed_def Let_def)

lemma write_chunk_partial:
  assumes "length (responseData st) < unat (expectedChunkSize st)"
  shows "expectedChunkSize (write_chunk st) > 0" and "responseData (write_chunk st) = []"
    and "write_chunk (feed d (write_chunk st)) = write_chunk (feed d st)"
proof -
  let ?l = "length (responseData st)" and ?e = "expectedChunkSize st"
  have l: "?l < 2 ^ 64" using assms unsigned_less [of ?e, where ?'a = nat] by simp
  have ul: "unat (of_nat ?l :: u64) = ?l" using l by simp
  have sub: "unat (?e - of_nat ?l) = unat ?e - ?l"
    using assms ul by (subst unat_sub) (simp_all add: word_le_nat_alt)
  then have pos: "?e - of_nat ?l > 0" using assms by (simp add: word_less_nat_alt)
  have w: "write_chunk st = st\<lparr>response := (response st)\<lparr>body := body (response st) @ responseData st\<rparr>,
      responseData := [], expectedChunkSize := ?e - of_nat ?l\<rparr>"
  proof -
    have "min (unat ?e) ?l = ?l" "?e - of_nat ?l \<noteq> 0" using assms pos by auto
    then show ?thesis by (simp only: write_chunk_def Let_def) simp
  qed
  show "expectedChunkSize (write_chunk st) > 0" "responseData (write_chunk st) = []"
    using pos by (simp_all add: w)
  have m: "min (unat ?e) (?l + length d) = ?l + min (unat ?e - ?l) (length d)"
    using assms by (auto simp: min_def)
  show "write_chunk (feed d (write_chunk st)) = write_chunk (feed d st)"
    unfolding w using assms m sub by (simp add: write_chunk_def feed_def Let_def diff_diff_eq)
qed

lemma strip_crlf_feed:
  "strip_crlf st = Inl e \<Longrightarrow> strip_crlf (feed d st) = Inl e"
  "strip_crlf st = Inr (Some st') \<Longrightarrow> strip_crlf (feed d st) = Inr (Some (feed d st'))"
  by (auto simp: strip_crlf_def feed_def split: if_splits)

lemma strip_crlf_done: "strip_crlf st = Inr (Some st') \<Longrightarrow> strip_crlf st' = Inr (Some st')"
  "strip_crlf st = Inr (Some st') \<Longrightarrow> expectedChunkSize st' = expectedChunkSize st"
  by (auto simp: strip_crlf_def split: if_splits)

lemma chunk_loop_copy:
  "expectedChunkSize st > 0 \<Longrightarrow> chunk_loop st =
     (if responseData (write_chunk st) = [] then Inr (NeedMore (write_chunk st))
      else chunk_loop (write_chunk st))"
  by (subst chunk_loop.simps) simp

lemma chunk_loop_feed_copy:
  assumes "expectedChunkSize st > 0"
    and IH: "responseData (write_chunk st) \<noteq> [] \<Longrightarrow>
      chunk_loop (feed d (write_chunk st)) = after (chunk_loop (write_chunk st)) d"
  shows "chunk_loop (feed d st) = after (chunk_loop st) d"
proof (cases "length (responseData st) < unat (expectedChunkSize st)")
  case True
  note p = write_chunk_partial [OF True]
  show ?thesis
    using assms(1) p chunk_loop_copy [of "feed d st"] chunk_loop_copy [of "feed d (write_chunk st)"]
    by (simp add: chunk_loop_copy [of st])
next
  case False
  then have w: "write_chunk (feed d st) = feed d (write_chunk st)" by (intro write_chunk_feed_full) simp
  show ?thesis
  proof (cases "responseData (write_chunk st) = []")
    case True
    with False assms(1) have "expectedChunkSize (write_chunk st) = 0" "removeCrlfAfterChunk (write_chunk st)"
      by (auto simp: write_chunk_def Let_def min_def not_less split: if_splits)
    then have "chunk_loop (feed [] (write_chunk st)) = Inr (NeedMore (feed [] (write_chunk st)))"
      using True by (subst chunk_loop.simps) (simp add: strip_crlf_def)
    with True w assms(1) show ?thesis
      by (simp add: chunk_loop_copy [of st] chunk_loop_copy [of "feed d st"]) (auto simp: feed_def)
  next
    case nonempty: False
    with w assms(1) IH show ?thesis
      by (simp add: chunk_loop_copy [of st] chunk_loop_copy [of "feed d st"])
  qed
qed

lemma chunk_loop_line:
  assumes "\<not> expectedChunkSize st > 0" "strip_crlf st = Inr (Some st')" "search crlf (responseData st') = Some i"
  shows "chunk_loop st = (case hexStringToUint (take i (responseData st')) of
       Inl e \<Rightarrow> Inl e
     | Inr n \<Rightarrow> if n = 0 then Inr (Finished (response st'))
         else chunk_loop (st'\<lparr>expectedChunkSize := n, responseData := drop (i + 2) (responseData st')\<rparr>))"
  using assms by (subst chunk_loop.simps) simp

lemma chunk_loop_feed_line:
  assumes e: "\<not> expectedChunkSize st > 0" and s: "strip_crlf st = Inr (Some st')"
    and i: "search crlf (responseData st') = Some i"
    and IH: "\<And>n. hexStringToUint (take i (responseData st')) = Inr n \<Longrightarrow> n \<noteq> 0 \<Longrightarrow>
      chunk_loop (feed d (st'\<lparr>expectedChunkSize := n, responseData := drop (i + 2) (responseData st')\<rparr>)) =
      after (chunk_loop (st'\<lparr>expectedChunkSize := n, responseData := drop (i + 2) (responseData st')\<rparr>)) d"
  shows "chunk_loop (feed d st) = after (chunk_loop st) d"
proof -
  from search_SomeD [OF i] have l: "i + 2 \<le> length (responseData st')" by simp
  have e': "\<not> expectedChunkSize (feed d st) > 0" using e by simp
  have i': "search crlf (responseData (feed d st')) = Some i" using search_append [OF i, of d] by simp
  have t: "take i (responseData (feed d st')) = take i (responseData st')" using l by simp
  have nf: "(feed d st')\<lparr>expectedChunkSize := n, responseData := drop (i + 2) (responseData (feed d st'))\<rparr> =
      feed d (st'\<lparr>expectedChunkSize := n, responseData := drop (i + 2) (responseData st')\<rparr>)" for n
    using l by (simp add: feed_def)
  have f: "chunk_loop (feed d st) = (case hexStringToUint (take i (responseData st')) of
       Inl e \<Rightarrow> Inl e
     | Inr n \<Rightarrow> if n = 0 then Inr (Finished (response st'))
         else chunk_loop (feed d (st'\<lparr>expectedChunkSize := n, responseData := drop (i + 2) (responseData st')\<rparr>)))"
    by (simp only: chunk_loop_line [OF e' strip_crlf_feed(2) [OF s, of d] i'] t nf feed_sel(2))
  show ?thesis
    unfolding f chunk_loop_line [OF e s i]
    using IH by (cases "hexStringToUint (take i (responseData st')) :: u64 result") auto
qed

lemma chunk_loop_feed: "chunk_loop (feed d st) = after (chunk_loop st) d"
proof (induction st rule: chunk_loop.induct)
  case (1 st)
  show ?case
  proof (cases "expectedChunkSize st > 0")
    case True
    then show ?thesis by (rule chunk_loop_feed_copy) (rule "1.IH"(1) [OF True])
  next
    case e: False
    consider (error) x where "strip_crlf st = Inl x" | (wait) "strip_crlf st = Inr None"
      | (wait_line) st' where "strip_crlf st = Inr (Some st')" "search crlf (responseData st') = None"
      | (line) st' i where "strip_crlf st = Inr (Some st')" "search crlf (responseData st') = Some i"
      by (metis obj_sumE option.exhaust)
    then show ?thesis
    proof cases
      case error
      with e strip_crlf_feed(1) [OF error, of d] show ?thesis
        by (simp add: chunk_loop.simps [of st] chunk_loop.simps [of "feed d st"])
    next
      case wait
      with e show ?thesis by (simp add: chunk_loop.simps [of st])
    next
      case wait_line
      note s = wait_line(1)
      from e wait_line strip_crlf_feed(2) [OF s, of d]
        strip_crlf_feed(2) [OF strip_crlf_done(1) [OF s], of d] strip_crlf_done(2) [OF s]
      show ?thesis
        by (simp add: chunk_loop.simps [of st] chunk_loop.simps [of "feed d st"]
            chunk_loop.simps [of "feed d st'"])
    next
      case line
      show ?thesis
        by (rule chunk_loop_feed_line [OF e line]) (rule "1.IH"(2) [OF e line(1) refl line(2)])
    qed
  qed
qed


lemma feed_Nil [simp]: "feed [] st = st"
  by (simp add: feed_def)

lemma chunk_loop_stable: "chunk_loop st = Inr (NeedMore st') \<Longrightarrow> chunk_loop st' = Inr (NeedMore st')"
  using chunk_loop_feed [of "[]" st] by simp

lemma write_chunk_frame [simp]:
  "parsingBody (write_chunk st) = parsingBody st" "chunkedResponse (write_chunk st) = chunkedResponse st"
  by (simp_all add: write_chunk_def Let_def)

lemma strip_crlf_frame:
  "strip_crlf st = Inr (Some st') \<Longrightarrow> parsingBody st' = parsingBody st \<and> chunkedResponse st' = chunkedResponse st"
  by (auto simp: strip_crlf_def split: if_splits)

lemma chunk_loop_frame:
  "chunk_loop st = Inr (NeedMore st') \<Longrightarrow>
     parsingBody st' = parsingBody st \<and> chunkedResponse st' = chunkedResponse st"
proof (induction st rule: chunk_loop.induct)
  case (1 st)
  show ?case
  proof (cases "expectedChunkSize st > 0")
    case True
    with 1 show ?thesis by (auto simp: chunk_loop_copy split: if_splits)
  next
    case False
    with 1 show ?thesis
      by (auto simp: chunk_loop.simps [of st] dest!: strip_crlf_frame
          split: sum.splits option.splits if_splits)
  qed
qed

lemma read_blocks_chunked:
  assumes "parsingBody st" "chunkedResponse st" "chunk_loop st = Inr (NeedMore st)"
    and "[] \<notin> set blocks" "chunk_loop (feed (concat blocks) st) = Inr (Finished r)"
  shows "read_blocks can_reserve st blocks = Some (Inr r)"
  using assms
proof (induction blocks arbitrary: st)
  case Nil
  then show ?case by simp
next
  case (Cons d ds)
  have od: "on_data can_reserve d st = chunk_loop (feed d st)"
    using Cons.prems by (simp add: on_data_def on_body_def feed_def)
  have ff: "feed (d @ concat ds) st = feed (concat ds) (feed d st)" by (simp add: feed_def)
  with Cons.prems(5) have fin: "after (chunk_loop (feed d st)) (concat ds) = Inr (Finished r)"
    by (simp add: chunk_loop_feed [symmetric])
  show ?case
  proof (cases "chunk_loop (feed d st)")
    case (Inl e)
    with fin show ?thesis by simp
  next
    case (Inr s)
    show ?thesis
    proof (cases s)
      case (Finished r')
      with Inr fin od Cons.prems(4) show ?thesis by auto
    next
      case (NeedMore st')
      with Inr have n: "chunk_loop (feed d st) = Inr (NeedMore st')" by simp
      from chunk_loop_frame [OF n] Cons.prems have "parsingBody st'" "chunkedResponse st'" by auto
      moreover from fin n have "chunk_loop (feed (concat ds) st') = Inr (Finished r)" by simp
      ultimately have "read_blocks can_reserve st' ds = Some (Inr r)"
        using Cons.IH chunk_loop_stable [OF n] Cons.prems(4) by simp
      with n od Cons.prems(4) show ?thesis by auto
    qed
  qed
qed

text \<open>A chunk-encoded body: each chunk with its size line, then the last chunk, then anything.\<close>

definition chunk :: "string \<times> bytes \<Rightarrow> bytes" where
  "chunk hc = fst hc @ crlf @ snd hc @ crlf"

definition valid_chunk :: "string \<times> bytes \<Rightarrow> bool" where
  "valid_chunk hc \<longleftrightarrow> list_all isHexChar (fst hc) \<and> snd hc \<noteq> [] \<and> length (snd hc) < 2 ^ 64 \<and>
     numeral_value 16 hex_value (fst hc) = length (snd hc)"

definition last_chunk :: "string \<Rightarrow> bool" where
  "last_chunk z \<longleftrightarrow> list_all isHexChar z \<and> numeral_value 16 hex_value z = 0"

definition chunk_stream :: "(string \<times> bytes) list \<Rightarrow> string \<Rightarrow> bytes \<Rightarrow> bytes" where
  "chunk_stream cs z t = concat (map chunk cs) @ z @ crlf @ t"

lemma search_skip:
  "c \<notin> set l \<Longrightarrow> search (c # p) (l @ s) = map_option (\<lambda>i. length l + i) (search (c # p) s)"
  by (induction l; cases "search (c # p) s") auto

lemma isHexChar_not_CR: "isHexChar c \<Longrightarrow> c \<noteq> CR"
  by (auto simp: isHexChar_def char_class_defs)

lemma search_hex_line: "list_all isHexChar h \<Longrightarrow> search crlf (h @ crlf @ t) = Some (length h)"
  using search_skip [of CR h "[LF]" "crlf @ t"] isHexChar_not_CR
  by (auto simp: list_all_iff prefix_def)

lemma hex_line_value:
  "list_all isHexChar h \<Longrightarrow> hexStringToUint h = (Inr (of_nat (numeral_value 16 hex_value h)) :: u64 result)"
  by (intro hexStringToUint_value) (simp add: list_all_iff)

lemma write_chunk_exact:
  assumes "expectedChunkSize st = of_nat (length c)" "c \<noteq> []" "length c < 2 ^ 64" "responseData st = c @ t"
  shows "write_chunk st = st\<lparr>response := (response st)\<lparr>body := body (response st) @ c\<rparr>,
    responseData := t, expectedChunkSize := 0, removeCrlfAfterChunk := True\<rparr>"
  using assms by (simp add: write_chunk_def Let_def)

lemma strip_crlf_ready:
  assumes "responseData st = (if removeCrlfAfterChunk st then crlf else []) @ d"
  shows "strip_crlf st = Inr (Some (st\<lparr>removeCrlfAfterChunk := False, responseData := d\<rparr>))"
  using assms by (cases "removeCrlfAfterChunk st") (simp_all add: strip_crlf_def)

lemma chunk_loop_stream:
  assumes "list_all valid_chunk cs" "last_chunk z"
    and "expectedChunkSize st = 0"
    and "responseData st = (if removeCrlfAfterChunk st then crlf else []) @ chunk_stream cs z t"
  shows "chunk_loop st = Inr (Finished ((response st)\<lparr>body := body (response st) @ concat (map snd cs)\<rparr>))"
  using assms
proof (induction cs arbitrary: st)
  case Nil
  let ?st' = "st\<lparr>removeCrlfAfterChunk := False, responseData := z @ crlf @ t\<rparr>"
  have s: "strip_crlf st = Inr (Some ?st')"
    using Nil(4) by (intro strip_crlf_ready) (simp add: chunk_stream_def)
  have "hexStringToUint z = (Inr 0 :: u64 result)" using Nil(2) by (simp add: last_chunk_def hex_line_value)
  with Nil search_hex_line [of z t] show ?case
    by (subst chunk_loop_line [OF _ s, where i = "length z"]) (simp_all add: last_chunk_def)
next
  case (Cons hc cs)
  obtain h c where hc: "hc = (h, c)" by force
  with Cons.prems(1) have v: "list_all isHexChar h" "c \<noteq> []" "length c < 2 ^ 64"
    "numeral_value 16 hex_value h = length c" by (simp_all add: valid_chunk_def)
  let ?rest = "chunk_stream cs z t"
  have d: "responseData st = (if removeCrlfAfterChunk st then crlf else []) @ h @ crlf @ c @ crlf @ ?rest"
    using Cons.prems(4) by (simp add: hc chunk_stream_def chunk_def)
  let ?st1 = "st\<lparr>removeCrlfAfterChunk := False, responseData := h @ crlf @ c @ crlf @ ?rest\<rparr>"
  have s: "strip_crlf st = Inr (Some ?st1)" using d by (rule strip_crlf_ready)
  let ?st2 = "?st1\<lparr>expectedChunkSize := of_nat (length c), responseData := c @ crlf @ ?rest\<rparr>"
  have n: "hexStringToUint h = (Inr (of_nat (length c)) :: u64 result)" using v by (simp add: hex_line_value)
  have nz: "(of_nat (length c) :: u64) \<noteq> 0"
    using v(2,3) unat_of_nat_u64 [of "length c"] by (metis length_0_conv unat_0)
  have "chunk_loop st = chunk_loop ?st2"
    using Cons.prems(3) n nz search_hex_line [OF v(1), of "c @ crlf @ ?rest"]
    by (subst chunk_loop_line [OF _ s, where i = "length h"]) simp_all
  also have "\<dots> = chunk_loop (write_chunk ?st2)"
    using nz v write_chunk_exact [of ?st2 c "crlf @ ?rest"]
    by (subst chunk_loop_copy) (auto simp: word_neq_0_conv)
  also have "write_chunk ?st2 = ?st2\<lparr>response := (response st)\<lparr>body := body (response st) @ c\<rparr>,
      responseData := crlf @ ?rest, expectedChunkSize := 0, removeCrlfAfterChunk := True\<rparr>"
    using v write_chunk_exact [of ?st2 c "crlf @ ?rest"] by simp
  also have "chunk_loop \<dots> = Inr (Finished ((response st)\<lparr>body := body (response st) @ concat (map snd (hc # cs))\<rparr>))"
    using Cons.prems by (subst Cons.IH) (simp_all add: hc)
  finally show ?case .
qed


section \<open>The header section of a whole message\<close>

text \<open>Lines that are not empty and hold no CR end the header section only at the empty line.\<close>

lemma search_lines:
  assumes "ls \<noteq> []" "\<And>l. l \<in> set ls \<Longrightarrow> l \<noteq> [] \<and> CR \<notin> set l"
  shows "search (crlf @ crlf) (concat (map (\<lambda>l. l @ crlf) ls) @ crlf @ t) =
    Some (length (concat (map (\<lambda>l. l @ crlf) ls)) - 2)"
  using assms
proof (induction ls)
  case Nil
  then show ?case by simp
next
  case (Cons l ls)
  have l: "CR \<notin> set l" "l \<noteq> []" using Cons.prems by auto
  show ?case
  proof (cases ls)
    case Nil
    with l search_skip [of CR l "[LF, CR, LF]" "crlf @ crlf @ t"] show ?thesis by (simp add: prefix_def)
  next
    case (Cons l' ls')
    let ?r = "concat (map (\<lambda>l. l @ crlf) ls)"
    have "l' \<noteq> [] \<and> CR \<notin> set l'" using Cons Cons.prems(2) [of l'] by simp
    then obtain x xs where x: "?r = x # xs" "x \<noteq> CR" using Cons by (cases l') auto
    have len: "length ?r \<ge> 2" using Cons by simp
    have "search (crlf @ crlf) (?r @ crlf @ t) = Some (length ?r - 2)"
      using Cons Cons.IH Cons.prems by simp
    moreover have "search (crlf @ crlf) (crlf @ ?r @ crlf @ t) =
        map_option (\<lambda>i. 2 + i) (search (crlf @ crlf) (?r @ crlf @ t))"
      using x by (cases "search (crlf @ crlf) (?r @ crlf @ t)") (auto simp: prefix_def)
    ultimately show ?thesis
      using l(1) len search_skip [of CR l "[LF, CR, LF]" "crlf @ ?r @ crlf @ t"] by simp
  qed
qed

definition norm_field :: "HeaderField \<Rightarrow> HeaderField" where
  "norm_field f = (toLower (fst f), trim (snd f))"

fun header_fold :: "(nat \<Rightarrow> bool) \<Rightarrow> HeaderFields \<Rightarrow> recv_state \<Rightarrow> recv_state result" where
  "header_fold can_reserve [] st = Inr st"
| "header_fold can_reserve (f # hfs) st =
     rbind (on_field can_reserve (fst f) (snd f) st) (\<lambda>st. header_fold can_reserve hfs (push_field f st))"

lemma header_loop_block:
  assumes "hfs \<noteq> []" "list_all valid_field hfs"
  shows "header_loop can_reserve (header_block hfs) st = header_fold can_reserve (map norm_field hfs) st"
  using assms
proof (induction hfs arbitrary: st)
  case Nil
  then show ?case by simp
next
  case (Cons f hfs)
  obtain n v where f: "f = (n, v)" by force
  have "header_block hfs = [] \<or> \<not> isWhiteSpaceChar (hd (header_block hfs))"
    using hd_header_block [of hfs] Cons.prems(2) isTokenChar_not_ws by auto
  then have p: "parseHeaderField (header_block (f # hfs)) = Inr (header_block hfs, norm_field f)"
    using Cons.prems(2) by (simp add: f valid_field_def norm_field_def parseHeaderField_line)
  have empty: "header_block hfs = [] \<longleftrightarrow> hfs = []"
    by (cases hfs) (auto simp: header_block_def header_line_def)
  show ?case
    using Cons p empty
    by (subst header_loop.simps)
      (auto simp: norm_field_def [of f] Let_def intro!: rbind_cong)
qed

definition message_head :: "nat \<Rightarrow> nat \<Rightarrow> nat \<Rightarrow> string \<Rightarrow> HeaderFields \<Rightarrow> bytes" where
  "message_head mj mn cod rsn hfs = status_line mj mn cod rsn @ header_block hfs @ crlf"

definition status_of :: "nat \<Rightarrow> nat \<Rightarrow> nat \<Rightarrow> string \<Rightarrow> Status" where
  "status_of mj mn cod rsn =
     \<lparr>version = \<lparr>major = of_nat mj, minor = of_nat mn\<rparr>, status_code = of_nat cod, reason = rsn\<rparr>"

definition valid_head :: "nat \<Rightarrow> nat \<Rightarrow> nat \<Rightarrow> string \<Rightarrow> HeaderFields \<Rightarrow> bool" where
  "valid_head mj mn cod rsn hfs \<longleftrightarrow> mj < 10 \<and> mn < 10 \<and> cod < 1000 \<and> list_all isFieldChar rsn \<and>
     hfs \<noteq> [] \<and> list_all valid_field hfs"

lemma digit_char_not_CR:
  assumes "n < 10"
  shows "digit_char n \<noteq> CR" and "CR \<noteq> digit_char n"
proof -
  have "isFieldChar (digit_char n)" using digit_char_facts(1) [OF assms] digit_isFieldChar by simp
  then show "digit_char n \<noteq> CR" by (rule isFieldChar_no_crlf [THEN conjunct1])
  then show "CR \<noteq> digit_char n" by (rule not_sym)
qed

lemma field_chars_no_CR: "list_all isFieldChar s \<Longrightarrow> CR \<notin> set s"
  using isFieldChar_no_crlf by (auto simp: list_all_iff)

lemma token_chars_no_CR: "list_all isTokenChar s \<Longrightarrow> CR \<notin> set s"
  using isTokenChar_no_sep by (auto simp: list_all_iff)

lemma search_head:
  assumes "valid_head mj mn cod rsn hfs"
  shows "search (crlf @ crlf) (message_head mj mn cod rsn hfs @ t) =
    Some (length (status_line mj mn cod rsn @ header_block hfs) - 2)"
proof -
  obtain l0 where l0: "status_line mj mn cod rsn = l0 @ crlf" "l0 \<noteq> []" "CR \<notin> set l0"
  proof
    let ?l = "''HTTP/'' @ [digit_char mj] @ ''.'' @ [digit_char mn] @ '' '' @
       [digit_char (cod div 100), digit_char (cod div 10 mod 10), digit_char (cod mod 10)] @ '' '' @ rsn"
    show "status_line mj mn cod rsn = ?l @ crlf" "?l \<noteq> []" by (simp_all add: status_line_def)
    have "cod div 100 < 10" "cod div 10 mod 10 < 10" "cod mod 10 < 10"
      using assms by (auto simp: valid_head_def)
    then show "CR \<notin> set ?l"
      using assms field_chars_no_CR [of rsn] by (simp add: valid_head_def digit_char_not_CR)
  qed
  let ?ls = "l0 # map (\<lambda>(n, v). n @ '': '' @ v) hfs"
  have hb: "header_block hfs = concat (map (\<lambda>l. l @ crlf) (map (\<lambda>(n, v). n @ '': '' @ v) hfs))"
    by (simp add: header_block_def header_line_def comp_def case_prod_unfold)
  have "l \<noteq> [] \<and> CR \<notin> set l" if "l \<in> set ?ls" for l
    using that l0 assms field_chars_no_CR token_chars_no_CR
    by (auto simp: valid_head_def valid_field_def list_all_iff)
  then have "search (crlf @ crlf) (concat (map (\<lambda>l. l @ crlf) ?ls) @ crlf @ t) =
      Some (length (concat (map (\<lambda>l. l @ crlf) ?ls)) - 2)"
    by (intro search_lines) auto
  then show ?thesis using l0 hb by (simp add: message_head_def)
qed

lemma on_data_head:
  assumes "valid_head mj mn cod rsn hfs"
    and f: "header_fold can_reserve (map norm_field hfs)
      (init_recv\<lparr>responseData := message_head mj mn cod rsn hfs @ b,
         response := (response init_recv)\<lparr>status := Some (status_of mj mn cod rsn)\<rparr>\<rparr>) = Inr st"
    and r: "responseData st = message_head mj mn cod rsn hfs @ b"
  shows "on_data can_reserve (message_head mj mn cod rsn hfs @ b) init_recv =
    on_body (st\<lparr>responseData := b, parsingBody := True\<rparr>)"
proof -
  let ?h = "message_head mj mn cod rsn hfs" and ?sl = "status_line mj mn cod rsn"
  let ?p = "length (?sl @ header_block hfs) - 2"
  have p2: "?p + 2 = length (?sl @ header_block hfs)" "?p + 4 = length ?h"
    by (simp_all add: status_line_def message_head_def)
  have hd: "take (?p + 2) (?h @ b) = ?sl @ header_block hfs"
    unfolding p2(1) by (simp add: message_head_def)
  have ps: "parseStatusLine (?sl @ header_block hfs) = Inr (header_block hfs, status_of mj mn cod rsn)"
    using assms(1) by (simp add: valid_head_def status_of_def parseStatusLine_line)
  have hl: "header_loop can_reserve (header_block hfs) s = header_fold can_reserve (map norm_field hfs) s" for s
    using assms(1) by (intro header_loop_block) (auto simp: valid_head_def)
  have "on_head can_reserve ?p (init_recv\<lparr>responseData := ?h @ b\<rparr>) =
      Inr (st\<lparr>responseData := b, parsingBody := True\<rparr>)"
    unfolding on_head_def Let_def
    using f r hd p2(2) by (simp add: ps hl)
  then show ?thesis
    using search_head [OF assms(1), of b] by (simp add: on_data_def init_recv_def)
qed


section \<open>Whole messages\<close>

definition plain_field :: "HeaderField \<Rightarrow> bool" where
  "plain_field f \<longleftrightarrow> fst f \<noteq> ''transfer-encoding'' \<and> fst f \<noteq> ''content-length''"

definition push_fields :: "HeaderFields \<Rightarrow> recv_state \<Rightarrow> recv_state" where
  "push_fields hfs st =
     st\<lparr>response := (response st)\<lparr>headerFields := headerFields (response st) @ hfs\<rparr>\<rparr>"

lemma push_fields_simps [simp]:
  "push_fields [] st = st" "push_fields hfs (push_field f st) = push_fields (f # hfs) st"
  "push_fields b (push_fields a st) = push_fields (a @ b) st"
  by (simp_all add: push_fields_def push_field_def)

lemma header_fold_append:
  "header_fold can_reserve (a @ b) st = rbind (header_fold can_reserve a st) (header_fold can_reserve b)"
proof (induction a arbitrary: st)
  case (Cons f a)
  then show ?case by (cases "on_field can_reserve (fst f) (snd f) st") auto
qed simp

lemma header_fold_plain:
  "list_all plain_field hfs \<Longrightarrow> header_fold can_reserve hfs st = Inr (push_fields hfs st)"
  by (induction hfs arbitrary: st) (auto simp: plain_field_def on_field_def)

lemma header_fold_chunked:
  assumes "list_all (\<lambda>f. plain_field f \<or> f = (''transfer-encoding'', ''chunked'')) hfs"
  shows "header_fold can_reserve hfs st = Inr ((push_fields hfs st)\<lparr>chunkedResponse :=
    chunkedResponse st \<or> (''transfer-encoding'', ''chunked'') \<in> set hfs\<rparr>)"
  using assms
proof (induction hfs arbitrary: st)
  case Nil
  then show ?case by simp
next
  case (Cons f hfs)
  show ?case
  proof (cases "f = (''transfer-encoding'', ''chunked'')")
    case True
    with Cons show ?thesis
      by (simp add: on_field_def) (simp add: push_fields_def push_field_def)
  next
    case False
    with Cons show ?thesis
      by (simp add: on_field_def plain_field_def) (auto simp: push_fields_def push_field_def)
  qed
qed

lemma header_fold_length:
  assumes "list_all plain_field pre" "list_all plain_field post"
    and "stringToUint v = (Inr (of_nat n) :: u64 result)" "n < 2 ^ 63" "can_reserve n"
  shows "header_fold can_reserve (pre @ (''content-length'', v) # post) st =
    Inr ((push_fields (pre @ (''content-length'', v) # post) st)
      \<lparr>contentLength := of_nat n, contentLengthReceived := True\<rparr>)"
proof -
  have r: "vector_reserve can_reserve (unat (of_nat n :: u64)) = Inr ()"
    using assms(4,5) by (simp add: vector_reserve_def)
  show ?thesis
    using assms r
    by (simp add: header_fold_append header_fold_plain on_field_def)
      (simp add: push_fields_def push_field_def)
qed

lemma read_blocks_length:
  assumes "parsingBody st" "\<not> chunkedResponse st" "contentLengthReceived st" "responseData st = []"
    and "length (body (response st)) < unat (contentLength st)" "[] \<notin> set blocks"
    and "length (body (response st)) + length (concat blocks) = unat (contentLength st)"
  shows "read_blocks can_reserve st blocks =
    Some (Inr ((response st)\<lparr>body := body (response st) @ concat blocks\<rparr>))"
  using assms
proof (induction blocks arbitrary: st)
  case Nil
  then show ?case by simp
next
  case (Cons d ds)
  let ?st = "st\<lparr>response := (response st)\<lparr>body := body (response st) @ d\<rparr>\<rparr>"
  show ?case
  proof (cases "ds = []")
    case True
    with Cons.prems show ?thesis by (simp add: on_data_def on_body_def Let_def)
  next
    case False
    then have "concat ds \<noteq> []" using Cons.prems(6) by (cases ds) auto
    then have lt: "length (body (response ?st)) < unat (contentLength ?st)"
      using Cons.prems(7) by (cases "concat ds") auto
    then have n: "on_data can_reserve d st = Inr (NeedMore ?st)"
      using Cons.prems by (simp add: on_data_def on_body_def Let_def)
    have "read_blocks can_reserve ?st ds =
        Some (Inr ((response ?st)\<lparr>body := body (response ?st) @ concat ds\<rparr>))"
      using Cons.prems lt by (intro Cons.IH) auto
    with n Cons.prems(6) show ?thesis by auto
  qed
qed

lemma read_chunked_blocks:
  assumes "valid_head mj mn cod rsn hfs"
    and "list_all (\<lambda>f. plain_field f \<or> f = (''transfer-encoding'', ''chunked'')) (map norm_field hfs)"
    and "(''transfer-encoding'', ''chunked'') \<in> set (map norm_field hfs)"
    and "list_all valid_chunk cs" "last_chunk z"
    and "b @ concat blocks = chunk_stream cs z t" "[] \<notin> set blocks"
  shows "read_blocks can_reserve init_recv ((message_head mj mn cod rsn hfs @ b) # blocks) =
    Some (Inr \<lparr>status = Some (status_of mj mn cod rsn), headerFields = map norm_field hfs,
      body = concat (map snd cs)\<rparr>)"
proof -
  let ?h = "message_head mj mn cod rsn hfs"
  let ?start = "init_recv\<lparr>responseData := ?h @ b,
    response := (response init_recv)\<lparr>status := Some (status_of mj mn cod rsn)\<rparr>\<rparr>"
  let ?parsed = "(push_fields (map norm_field hfs) ?start)\<lparr>chunkedResponse := True\<rparr>"
  let ?st = "?parsed\<lparr>responseData := b, parsingBody := True\<rparr>"
  let ?r = "\<lparr>status = Some (status_of mj mn cod rsn), headerFields = map norm_field hfs,
      body = concat (map snd cs)\<rparr>"
  have hf: "header_fold can_reserve (map norm_field hfs) ?start = Inr ?parsed"
    using header_fold_chunked [OF assms(2), of can_reserve ?start] assms(3) by simp
  have od: "on_data can_reserve (?h @ b) init_recv = chunk_loop ?st"
    using on_data_head [OF assms(1) hf] by (simp add: push_fields_def on_body_def)
  have st: "?st = feed b (?st\<lparr>responseData := []\<rparr>)" by (simp add: feed_def)
  have fin: "chunk_loop (feed (concat blocks) ?st) = Inr (Finished ?r)"
    using assms(4-6)
    by (subst chunk_loop_stream [of cs z _ t]) (simp_all add: init_recv_def push_fields_def)
  have ne: "?h \<noteq> []" by (simp add: message_head_def)
  from fin have fin': "after (chunk_loop ?st) (concat blocks) = Inr (Finished ?r)"
    by (simp add: chunk_loop_feed)
  show ?thesis
  proof (cases "chunk_loop ?st")
    case (Inl e)
    with fin' show ?thesis by simp
  next
    case (Inr s)
    show ?thesis
    proof (cases s)
      case (Finished r)
      with Inr fin' od ne show ?thesis by simp
    next
      case (NeedMore st')
      with Inr have n: "chunk_loop ?st = Inr (NeedMore st')" by simp
      have "read_blocks can_reserve st' blocks = Some (Inr ?r)"
        using chunk_loop_frame [OF n] chunk_loop_stable [OF n] assms(7) fin' n
        by (intro read_blocks_chunked) auto
      with n od ne show ?thesis by simp
    qed
  qed
qed

text \<open>
  (C1) A chunked response is decoded correctly however the network cuts it.  The status line
  and the header fields are complete in the first received block; after them the stream may be
  cut at any byte.  The loop returns, with the parsed status, the header fields (names in lower
  case, values trimmed) and exactly the concatenation of the chunks; what follows the last chunk
  is ignored.  Chunk sizes are hexadecimal numbers in either case, with any leading zeros.
\<close>

theorem read_chunked_message:
  assumes "valid_head mj mn cod rsn hfs"
    and "list_all (\<lambda>f. plain_field f \<or> f = (''transfer-encoding'', ''chunked'')) (map norm_field hfs)"
    and "(''transfer-encoding'', ''chunked'') \<in> set (map norm_field hfs)"
    and "list_all valid_chunk cs" "last_chunk z"
    and "b @ concat blocks = chunk_stream cs z t" "[] \<notin> set blocks"
  shows "read_blocks can_reserve init_recv ((message_head mj mn cod rsn hfs @ b) # blocks) =
    Some (Inr \<lparr>status = Some (status_of mj mn cod rsn), headerFields = map norm_field hfs,
      body = concat (map snd cs)\<rparr>)"
  using assms by (rule read_chunked_blocks)

lemma read_length_blocks:
  assumes "valid_head mj mn cod rsn hfs"
    and "map norm_field hfs = pre @ (''content-length'', v) # post"
    and "list_all plain_field pre" "list_all plain_field post"
    and "list_all isDigitChar v" "numeral_value 10 hex_value v = length payload"
    and "length payload < 2 ^ 63" "can_reserve (length payload)"
    and "b @ concat blocks = payload" "[] \<notin> set blocks"
  shows "read_blocks can_reserve init_recv ((message_head mj mn cod rsn hfs @ b) # blocks) =
    Some (Inr \<lparr>status = Some (status_of mj mn cod rsn), headerFields = map norm_field hfs,
      body = payload\<rparr>)"
proof -
  let ?h = "message_head mj mn cod rsn hfs" and ?n = "length payload"
  let ?start = "init_recv\<lparr>responseData := ?h @ b,
    response := (response init_recv)\<lparr>status := Some (status_of mj mn cod rsn)\<rparr>\<rparr>"
  let ?parsed = "(push_fields (map norm_field hfs) ?start)
    \<lparr>contentLength := of_nat ?n, contentLengthReceived := True\<rparr>"
  let ?st = "?parsed\<lparr>responseData := [], parsingBody := True,
    response := (response ?parsed)\<lparr>body := b\<rparr>\<rparr>"
  have v: "stringToUint v = (Inr (of_nat ?n) :: u64 result)"
    using assms(5,6) by (subst stringToUint_value) (auto simp: list_all_iff)
  have hf: "header_fold can_reserve (map norm_field hfs) ?start = Inr ?parsed"
    unfolding assms(2) by (rule header_fold_length [where n = ?n]) (use assms v in auto)
  have un: "unat (of_nat ?n :: u64) = ?n" using assms(7) by simp
  have od: "on_data can_reserve (?h @ b) init_recv =
      (if length b \<ge> ?n then Inr (Finished (response ?st)) else Inr (NeedMore ?st))"
    using on_data_head [OF assms(1) hf] un
    by (simp add: push_fields_def on_body_def init_recv_def Let_def)
  have ne: "?h \<noteq> []" by (simp add: message_head_def)
  show ?thesis
  proof (cases "length b \<ge> ?n")
    case True
    with assms(9) have "b = payload" by (auto dest: arg_cong [of _ _ length])
    with True od ne show ?thesis by (simp add: push_fields_def init_recv_def)
  next
    case False
    have "read_blocks can_reserve ?st blocks = Some (Inr ((response ?st)\<lparr>body := body (response ?st) @ concat blocks\<rparr>))"
      using False assms(9,10) un
      by (intro read_blocks_length) (auto simp: init_recv_def push_fields_def dest: arg_cong [of _ _ length])
    with False od ne assms(9) show ?thesis by (simp add: push_fields_def init_recv_def)
  qed
qed

text \<open>
  When the first block does not hold the end of the header section, the loop does not
  wait for the rest: it returns at once, with no header field, no body and a status that was
  never assigned, whatever the server sends next.
\<close>

theorem read_split_head:
  assumes "d \<noteq> []" "search (crlf @ crlf) d = None"
  shows "read_blocks can_reserve init_recv (d # blocks) =
    Some (Inr \<lparr>status = None, headerFields = [], body = []\<rparr>)"
  using assms by (simp add: on_data_def init_recv_def)

text \<open>
  (C2) A response with a Content-Length.  When the status line and the header fields are complete in the first received
  block, the loop returns with the status and header fields that were sent and exactly the announced number of bytes as the
  body, however the bytes after the header section are cut into blocks.  When the first block does not hold the
  end of the header section, the loop does not wait for the rest: it returns at once an empty response, whatever
  the server sends next.
\<close>

theorem read_length_message:
  assumes "valid_head mj mn cod rsn hfs"
    and "map norm_field hfs = pre @ (''content-length'', v) # post"
    and "list_all plain_field pre" "list_all plain_field post"
    and "list_all isDigitChar v" "numeral_value 10 hex_value v = length payload"
    and "length payload < 2 ^ 63" "can_reserve (length payload)"
    and "b @ concat blocks = payload" "[] \<notin> set blocks"
  shows "read_blocks can_reserve init_recv ((message_head mj mn cod rsn hfs @ b) # blocks) =
      Some (Inr \<lparr>status = Some (status_of mj mn cod rsn), headerFields = map norm_field hfs,
        body = payload\<rparr>) \<and>
    (\<forall>d later. d \<noteq> [] \<and> search (crlf @ crlf) d = None \<longrightarrow>
      read_blocks can_reserve init_recv (d # later) = Some (Inr \<lparr>status = None, headerFields = [], body = []\<rparr>))"
  using read_length_blocks [where payload = payload and can_reserve = can_reserve, OF assms] read_split_head by blast

end
