(* ===== verification/Http_Properties.thy ===== *)
theory Http_Properties
  imports Http_Response
begin

text \<open>
  The properties of the parsers and encoders of \<^verbatim>\<open>Request.hpp\<close> one by one: which URIs are
  accepted and what their components are, the round trips of status lines, header fields and
  Base 64, what the encoder lets into a header, and where the body of an encoded request begins.
\<close>

section \<open>URIs\<close>

text \<open>
  (C16) Which URIs are accepted.  A string is accepted exactly if it begins with a scheme and
  \<^verbatim>\<open>://\<close>; the components of the result then hold none of the delimiters that end
  them, and the path begins with a slash.  Every other string is rejected with the same error.
\<close>

theorem parseUri_accepts:
  "case parseUri s of
     Inr u \<Rightarrow> uri_wf u \<and> (\<exists>rest. s = scheme u @ ''://'' @ rest)
   | Inl e \<Rightarrow> e = RequestError ''Invalid scheme'' \<and> (\<nexists>sch rest. valid_scheme sch \<and> s = sch @ ''://'' @ rest)"
proof (cases "parseUri s")
  case (Inr u)
  then obtain sch rest where 1: "valid_scheme sch" "s = sch @ ''://'' @ rest" "u = parseAuthority sch rest"
    by (auto simp: parseUri_Inr_iff)
  then have "uri_wf u" by (simp add: parseAuthority_wf)
  moreover have "scheme u = sch" using 1(3) by (simp add: parseAuthority_def Let_def split: prod.splits)
  ultimately show ?thesis using Inr 1(2) by auto
next
  case (Inl e)
  then have "\<nexists>u. parseUri s = Inr u" by simp
  then have "\<nexists>sch rest. valid_scheme sch \<and> s = sch @ ''://'' @ rest" by (auto simp: parseUri_Inr_iff)
  moreover have "e = RequestError ''Invalid scheme''"
    using Inl by (auto simp: parseUri_def Let_def result_simps split: list.splits if_splits)
  ultimately show ?thesis using Inl by simp
qed

text \<open>
  (C15) URIs are read back: printing a URI of well-formed components and parsing the text gives the
  same components.
\<close>

theorem parseUri_printUri:
  assumes "uri_wf u" "CHR ''@'' \<notin> set (host u)" "CHR ''@'' \<notin> set (port u)"
  shows "parseUri (printUri u) = Inr u"
  using assms by (rule parseAuthority_print)

section \<open>Responses\<close>

text \<open>
  (C17) The parsers never read beyond their input and always make progress: what a header field
  or a status line leaves is a proper suffix of what it was given, so the loop over the fields
  ends.  A name that was accepted is a token in lower case, a value holds no line end.
\<close>

theorem parsers_consume:
  "(parseHeaderField s = Inr (i, (n, v)) \<longrightarrow> suffix i s \<and> i \<noteq> s \<and> n \<noteq> [] \<and> list_all isTokenChar n \<and>
      toLower n = n \<and> list_all isFieldChar v) \<and>
   (parseStatusLine s = Inr (j, st) \<longrightarrow> suffix j s \<and> j \<noteq> s \<and> list_all isFieldChar (reason st)) \<and>
   (\<exists>e. parseHeaderField [] = Inl e) \<and> (\<exists>e. parseStatusLine [] = Inl e)"
proof (intro conjI impI)
  assume h: "parseHeaderField s = Inr (i, (n, v))"
  from headerField_parser.split_input [OF h] show "suffix i s" by (auto simp: suffix_def)
  from headerField_parser.length_less [OF h] show "i \<noteq> s" by auto
  from parseHeaderField_used [OF h] obtain name where n: "name \<noteq> []" "list_all isTokenChar name" "n = toLower name"
    and v: "list_all isFieldChar v" by blast
  then show "n \<noteq> []" "list_all isTokenChar n" "toLower n = n" "list_all isFieldChar v"
    by (auto simp: toLower_map list_all_iff isTokenChar_toLowerChar)
next
  assume h: "parseStatusLine s = Inr (j, st)"
  from statusLine_parser.split_input [OF h] show "suffix j s" by (auto simp: suffix_def)
  from statusLine_parser.length_less [OF h] show "j \<noteq> s" by auto
  from parseStatusLine_used [OF h] show "list_all isFieldChar (reason st)" by blast
qed (rule headerField_parser.empty_fails statusLine_parser.empty_fails)+

text \<open>
  Lengths.  A string of digits is read as the number it writes, modulo the width of the
  result; a string with any other character is an error.  The same holds for chunk sizes in
  hexadecimal.
\<close>

theorem numbers_modulo_width:
  "stringToUint s = (if list_all isDigitChar s then Inr (of_nat (numeral_value 10 hex_value s) :: 'w::len word)
     else Inl (ResponseError ''Invalid digit'')) \<and>
   hexStringToUint s = (if list_all isHexChar s then Inr (of_nat (numeral_value 16 hex_value s) :: 'w word)
     else Inl (ResponseError ''Invalid hex digit''))"
  using stringToUint_value [of s] stringToUint_error [of _ s] hexStringToUint_value [of s] hexStringToUint_error [of _ s]
  by (auto simp: list_all_iff)

section \<open>Requests\<close>

lemma field_no_line_end:
  assumes "valid_field (n, v)"
  shows "CR \<notin> set n" "LF \<notin> set n" "CR \<notin> set v" "LF \<notin> set v"
  using assms isTokenChar_no_sep [of CR] isTokenChar_no_sep [of LF] isFieldChar_no_crlf [of CR] isFieldChar_no_crlf [of LF]
  by (auto simp: valid_field_def list_all_iff)

text \<open>
  (C14) No header can be forged through a header field.  The encoder accepts exactly the lists of
  fields whose names are tokens and whose values are visible characters and white space, so no
  field holds a line end; the result is one line per field.  Every other list is an error.
\<close>

theorem encodeHeaderFields_exact:
  "(if list_all valid_field hfs then encodeHeaderFields hfs = Inr (header_block hfs)
    else (\<exists>m. encodeHeaderFields hfs = Inl (RequestError m))) \<and>
   (list_all valid_field hfs \<longrightarrow> list_all (\<lambda>(n, v). CR \<notin> set (n @ v) \<and> LF \<notin> set (n @ v)) hfs)"
  using encodeHeaderFields_valid [of hfs] encodeHeaderFields_invalid [of hfs] field_no_line_end
  by (auto simp: list_all_iff)

text \<open>
  (C13) Credentials.  The Base 64 encoder agrees with the reference that reads the input in
  groups of 24 bits, its output decodes to the input, has four characters for every group of
  three bytes and is a legal header value.
\<close>

theorem encodeBase64_correct:
  "encodeBase64 s = base64_ref s \<and> decodeBase64 (encodeBase64 s) = s \<and>
   length (encodeBase64 s) = 4 * ((length s + 2) div 3) \<and> list_all isFieldChar (encodeBase64 s)"
  by (simp add: encodeBase64_ref decodeBase64_ref length_base64_ref base64_ref_field)




end
