(* ===== verification/Sys.thy ===== *)
theory Sys
  imports Wadi_Prelude
begin

text \<open>
  The world outside the program: the operating system, the camera driver, the classes of the
  prebuilt \<^verbatim>\<open>libwebrtc.a\<close> and the encoder of the Jetson multimedia API.  None of
  them is part of the program: their answers are a parameter, the list \<open>script\<close> of the results the system calls will return,
  in order.  Every call consumes one answer and is recorded in \<open>trace\<close> with it, so a
  property can speak about what the program asked of the system.  When the script is used up
  the program is \<open>Blocked\<close> in its next call: a run that never ends is seen through all its
  finite prefixes.
\<close>

section \<open>System calls\<close>

datatype SelectType = SelectRead | SelectWrite

text \<open>
  The structures the calls exchange: \<^verbatim>\<open>v4l2_capability\<close> and the \<^verbatim>\<open>pix\<close>
  member of \<^verbatim>\<open>v4l2_format\<close>, webrtc's capture capability, connection configuration,
  offer options and encoding parameters, each with the members the sources set or read.
\<close>

record v4l2_capability =
  driver :: string
  card :: string
  bus_info :: string
  capabilities :: u32

record v4l2_format =
  buf_type :: u32
  pix_width :: u32
  pix_height :: u32
  pixelformat :: u32

datatype VideoType =
    kUnknown | kI420 | kIYUV | kRGB24 | kABGR | kARGB | kARGB4444 | kRGB565 | kARGB1555
  | kYUY2 | kYV12 | kUYVY | kMJPEG | kNV21 | kNV12 | kBGRA

record VideoCaptureCapability =
  cap_width :: "32 word"
  cap_height :: "32 word"
  maxFPS :: "32 word"
  videoType :: VideoType

record RTCConfiguration =
  unified_plan :: bool
  enable_dtls_srtp :: bool
  servers :: "string list"

record RTCOfferAnswerOptions =
  offer_to_receive_video :: int
  offer_to_receive_audio :: int
  ice_restart :: bool

record RtpEncodingParameters =
  max_bitrate_bps :: "32 word option"
  max_framerate :: "32 word option"

datatype rtc_call =
    CreatePeerConnectionFactory
  | CreatePeerConnection RTCConfiguration
  | CreateCapturer string
  | RegisterCaptureDataCallback
  | StartCapture VideoCaptureCapability
  | CreateVideoTrack string
  | AddTrack "string list"
  | PostCreateOffer RTCOfferAnswerOptions
  | SetLocalDescription
  | GetSenders
  | GetParameters
  | SetParameters "RtpEncodingParameters list"
  | DescriptionToString
  | CreateSessionDescription string
  | SetRemoteDescription string

datatype ioctl_request = VIDIOC_QUERYCAP | VIDIOC_G_FMT | VIDIOC_S_FMT v4l2_format

datatype nv_call =
    CreateVideoEncoder string
  | SetCapturePlaneFormat u32 u32 u32 u32
  | SetOutputPlaneFormat u32 u32 u32 u32
  | SetBitrate u32
  | SetProfile u32
  | SetLevel u32
  | SetIDRInterval u32
  | SetIFrameInterval u32
  | SetFrameRate u32 u32
  | SetMaxPerfMode int
  | SetupOutputPlane u32
  | SetupCapturePlane u32
  | SubscribeEos
  | OutputStreamOn
  | CaptureStreamOn
  | StartDQThread
  | CaptureNumBuffers
  | CaptureQBuffer u32
  | OutputDqBuffer
  | CopyPlane nat bytes
  | SurfaceFromFd nat
  | SyncForDevice nat
  | OutputQBuffer u32
  | IsInError
  | EncoderAbort

datatype syscall =
    ClockNow
  | GetAddrInfo string string
  | FreeAddrInfo
  | SysSocket int
  | FcntlGetFl int
  | FcntlSetFl int int
  | SysConnect int
  | SysSelect int SelectType "(int \<times> int) option"
  | SysGetSockError int
  | SysSend int bytes
  | SysRecv int nat
  | SysClose int
  | SysOpen string
  | SysIoctl int ioctl_request
  | Rtc rtc_call
  | Nv nv_call

text \<open>
  The answer: the returned number, the \<^verbatim>\<open>errno\<close> after a failed call, the option
  value of \<^verbatim>\<open>getsockopt\<close>, the bytes of \<^verbatim>\<open>recv\<close> or the text of a
  description, and the structures that are filled in.  A pointer is returned as a number, 0 being
  null.
\<close>

record sysret =
  rv :: int
  err :: int
  optval :: int
  payload :: bytes
  dev_cap :: v4l2_capability
  dev_fmt :: v4l2_format
  encodings :: "RtpEncodingParameters list"
  buf_index :: u32
  buf_planes :: nat
  buf_bytesused :: "nat \<Rightarrow> nat"

record os =
  script :: "sysret list"
  trace :: "(syscall \<times> sysret) list"
  errno :: int

datatype 'a outcome = Ret 'a | Throw exn | Blocked | Undef

type_synonym 'a io = "os \<Rightarrow> 'a outcome \<times> os"

abbreviation "EINTR \<equiv> (4 :: int)"
abbreviation "EINPROGRESS \<equiv> (115 :: int)"
abbreviation "AF_INET \<equiv> (2 :: int)"
abbreviation "AF_INET6 \<equiv> (10 :: int)"
abbreviation "O_NONBLOCK \<equiv> (2048 :: int)"
abbreviation "FD_SETSIZE \<equiv> (1024 :: int)"

section \<open>Sequencing\<close>

definition io_ret :: "'a \<Rightarrow> 'a io" where
  "io_ret x = (\<lambda>s. (Ret x, s))"

definition io_throw :: "exn \<Rightarrow> 'a io" where
  "io_throw e = (\<lambda>s. (Throw e, s))"

definition io_undef :: "'a io" where
  "io_undef = (\<lambda>s. (Undef, s))"

definition io_bind :: "'a io \<Rightarrow> ('a \<Rightarrow> 'b io) \<Rightarrow> 'b io" where
  "io_bind m f = (\<lambda>s. case m s of
       (Ret x, s') \<Rightarrow> f x s'
     | (Throw e, s') \<Rightarrow> (Throw e, s')
     | (Blocked, s') \<Rightarrow> (Blocked, s')
     | (Undef, s') \<Rightarrow> (Undef, s'))"

definition io_lift :: "'a result \<Rightarrow> 'a io" where
  "io_lift r = (case r of Inl e \<Rightarrow> io_throw e | Inr x \<Rightarrow> io_ret x)"

text \<open>\<^verbatim>\<open>throw std::system_error{errno, std::system_category(), m}\<close>\<close>

definition throw_errno :: "string \<Rightarrow> 'a io" where
  "throw_errno m = (\<lambda>s. (Throw (SystemError (errno s) m), s))"

text \<open>
  A destructor: \<open>cleanup\<close> runs when \<open>m\<close> returns and when it throws, and the
  outcome of \<open>m\<close> is passed on.
\<close>

definition io_finally :: "'a io \<Rightarrow> unit io \<Rightarrow> 'a io" where
  "io_finally m cleanup = (\<lambda>s. case m s of
       (Ret x, s') \<Rightarrow> io_bind cleanup (\<lambda>_. io_ret x) s'
     | (Throw e, s') \<Rightarrow> io_bind cleanup (\<lambda>_. io_throw e) s'
     | (Blocked, s') \<Rightarrow> (Blocked, s')
     | (Undef, s') \<Rightarrow> (Undef, s'))"

definition sys :: "syscall \<Rightarrow> sysret io" where
  "sys c s = (case script s of
       [] \<Rightarrow> (Blocked, s)
     | r # rs \<Rightarrow> (Ret r, s\<lparr>script := rs, trace := trace s @ [(c, r)],
                       errno := if rv r < 0 then err r else errno s\<rparr>))"

text \<open>
  \<^verbatim>\<open>result = call; while (result == -1 && errno == EINTR) result = call;\<close>
\<close>

function sys_retry :: "syscall \<Rightarrow> sysret io" where
  "sys_retry c s = (case sys c s of
       (Ret r, s') \<Rightarrow> if rv r = -1 \<and> errno s' = EINTR then sys_retry c s' else (Ret r, s')
     | (Throw e, s') \<Rightarrow> (Throw e, s')
     | (Blocked, s') \<Rightarrow> (Blocked, s')
     | (Undef, s') \<Rightarrow> (Undef, s'))"
  by pat_completeness auto
termination
  by (relation "measure (\<lambda>(c, s). length (script s))") (auto simp: sys_def split: list.splits)

declare sys_retry.simps [simp del]

section \<open>Evaluation\<close>

lemma io_ret_apply [simp, io_simps]: "io_ret x s = (Ret x, s)"
  by (simp add: io_ret_def)

lemma io_throw_apply [simp, io_simps]: "io_throw e s = (Throw e, s)"
  by (simp add: io_throw_def)

lemma io_undef_apply [simp, io_simps]: "io_undef s = (Undef, s)"
  by (simp add: io_undef_def)

lemma throw_errno_apply [simp, io_simps]: "throw_errno m s = (Throw (SystemError (errno s) m), s)"
  by (simp add: throw_errno_def)

lemma io_lift_simps [simp, io_simps]: "io_lift (Inl e) = io_throw e" "io_lift (Inr x) = io_ret x"
  by (simp_all add: io_lift_def)

lemma io_bind_ret [simp, io_simps]: "m s = (Ret x, s') \<Longrightarrow> io_bind m f s = f x s'"
  by (simp add: io_bind_def)

lemma io_bind_Ret_iff:
  "io_bind m f s = (Ret y, s'') \<longleftrightarrow> (\<exists>x s'. m s = (Ret x, s') \<and> f x s' = (Ret y, s''))"
  by (auto simp: io_bind_def split: prod.splits outcome.splits)

lemma io_lift_Ret_iff: "io_lift r s = (Ret x, s') \<longleftrightarrow> r = Inr x \<and> s' = s"
  by (cases r) auto

lemma io_bind_cases:
  obtains (ret) x s' where "m s = (Ret x, s')" "io_bind m f s = f x s'"
  | (throw) e s' where "m s = (Throw e, s')" "io_bind m f s = (Throw e, s')"
  | (blocked) s' where "m s = (Blocked, s')" "io_bind m f s = (Blocked, s')"
  | (undef) s' where "m s = (Undef, s')" "io_bind m f s = (Undef, s')"
proof (cases "m s")
  case (Pair r s')
  then show thesis using that by (cases r) (auto simp: io_bind_def)
qed

lemma sys_cases:
  obtains (blocked) "script s = []" "sys c s = (Blocked, s)"
  | (ret) r rs where "script s = r # rs" "sys c s = (Ret r, s\<lparr>script := rs, trace := trace s @ [(c, r)],
      errno := if rv r < 0 then err r else errno s\<rparr>)"
  by (cases "script s") (auto simp: sys_def)

section \<open>Observing a run\<close>

text \<open>
  What a run adds to the trace, seen through \<open>obs\<close>, which maps a call and its answer to a
  list of observations.  \<open>emits obs m P\<close>: from every state the observations of \<open>m\<close>
  and its outcome satisfy \<open>P\<close>.  The rules follow the structure of the program, so the
  same reasoning serves for the bytes a run hands over, the resources it acquires and releases
  and the time limits it sets.
\<close>

definition observe :: "(syscall \<Rightarrow> sysret \<Rightarrow> 'o list) \<Rightarrow> os \<Rightarrow> 'o list" where
  "observe obs s = concat (map (\<lambda>(c, r). obs c r) (trace s))"

definition emits ::
    "(syscall \<Rightarrow> sysret \<Rightarrow> 'o list) \<Rightarrow> 'a io \<Rightarrow> ('a outcome \<Rightarrow> 'o list \<Rightarrow> bool) \<Rightarrow> bool" where
  "emits obs m P \<longleftrightarrow>
     (\<forall>s. \<exists>l. observe obs (snd (m s)) = observe obs s @ l \<and> P (fst (m s)) l)"

abbreviation silent :: "(syscall \<Rightarrow> sysret \<Rightarrow> 'o list) \<Rightarrow> 'a io \<Rightarrow> bool" where
  "silent obs m \<equiv> emits obs m (\<lambda>_ l. l = [])"

lemma emitsI:
  "(\<And>s. \<exists>l. observe obs (snd (m s)) = observe obs s @ l \<and> P (fst (m s)) l) \<Longrightarrow> emits obs m P"
  by (simp add: emits_def)

lemma emitsE:
  assumes "emits obs m P" "m s = (r, s')"
  obtains l where "observe obs s' = observe obs s @ l" "P r l"
  using assms unfolding emits_def by (metis fst_conv snd_conv)

lemma emits_weaken: "emits obs m P \<Longrightarrow> (\<And>r l. P r l \<Longrightarrow> Q r l) \<Longrightarrow> emits obs m Q"
  unfolding emits_def by blast

lemma emits_also:
  "emits obs m P \<Longrightarrow> emits obs' m P' \<Longrightarrow> (\<And>r l l'. P r l \<Longrightarrow> P' r l' \<Longrightarrow> Q r l) \<Longrightarrow> emits obs m Q"
  unfolding emits_def by blast

lemma emits_ret: "P (Ret x) [] \<Longrightarrow> emits obs (io_ret x) P"
  by (simp add: emits_def)

lemma emits_throw: "P (Throw e) [] \<Longrightarrow> emits obs (io_throw e) P"
  by (simp add: emits_def)

lemma emits_undef: "P Undef [] \<Longrightarrow> emits obs io_undef P"
  by (simp add: emits_def)

lemma emits_throw_errno: "(\<And>n. P (Throw (SystemError n m)) []) \<Longrightarrow> emits obs (throw_errno m) P"
  by (simp add: emits_def)

lemma emits_lift:
  "(\<And>x. r = Inr x \<Longrightarrow> P (Ret x) []) \<Longrightarrow> (\<And>e. r = Inl e \<Longrightarrow> P (Throw e) []) \<Longrightarrow> emits obs (io_lift r) P"
  by (cases r) (auto simp: emits_def)

lemma emits_if:
  "(c \<Longrightarrow> emits obs a P) \<Longrightarrow> (\<not> c \<Longrightarrow> emits obs b P) \<Longrightarrow> emits obs (if c then a else b) P"
  by simp

lemma emits_bind:
  assumes m: "emits obs m P"
    and f: "\<And>x l1. P (Ret x) l1 \<Longrightarrow> emits obs (f x) (\<lambda>r l2. R r (l1 @ l2))"
    and fail: "\<And>e l. P (Throw e) l \<Longrightarrow> R (Throw e) l" "\<And>l. P Blocked l \<Longrightarrow> R Blocked l"
      "\<And>l. P Undef l \<Longrightarrow> R Undef l"
  shows "emits obs (io_bind m f) R"
proof (rule emitsI)
  fix s
  show "\<exists>l. observe obs (snd (io_bind m f s)) = observe obs s @ l \<and> R (fst (io_bind m f s)) l"
  proof (rule io_bind_cases [of m s f])
    fix x s'
    assume 1: "m s = (Ret x, s')" "io_bind m f s = f x s'"
    from emitsE [OF m 1(1)] obtain l1 where l1: "observe obs s' = observe obs s @ l1" "P (Ret x) l1" .
    from emitsE [OF f [OF l1(2)], of s'] obtain l2 where
      "observe obs (snd (f x s')) = observe obs s' @ l2" "R (fst (f x s')) (l1 @ l2)"
      by (metis prod.collapse)
    with 1 l1 show ?thesis by (intro exI [of _ "l1 @ l2"]) simp
  qed (use fail emitsE [OF m] in \<open>metis fst_conv snd_conv\<close>)+
qed

lemma emits_finally:
  assumes m: "emits obs m P"
    and c: "\<And>x l. P (Ret x) l \<Longrightarrow> emits obs c (\<lambda>r l2. r \<noteq> Undef \<and> (\<forall>e. r \<noteq> Throw e) \<and>
        (r = Ret () \<longrightarrow> R (Ret x) (l @ l2)) \<and> (r = Blocked \<longrightarrow> R Blocked (l @ l2)))"
      "\<And>e l. P (Throw e) l \<Longrightarrow> emits obs c (\<lambda>r l2. r \<noteq> Undef \<and> (\<forall>e. r \<noteq> Throw e) \<and>
        (r = Ret () \<longrightarrow> R (Throw e) (l @ l2)) \<and> (r = Blocked \<longrightarrow> R Blocked (l @ l2)))"
    and fail: "\<And>l. P Blocked l \<Longrightarrow> R Blocked l" "\<And>l. P Undef l \<Longrightarrow> R Undef l"
  shows "emits obs (io_finally m c) R"
proof (rule emitsI)
  fix s
  obtain r s' where ms: "m s = (r, s')" by (cases "m s")
  from emitsE [OF m ms] obtain l where l: "observe obs s' = observe obs s @ l" "P r l" .
  obtain q s'' where cs: "c s' = (q, s'')" by (cases "c s'")
  show "\<exists>l. observe obs (snd (io_finally m c s)) = observe obs s @ l \<and> R (fst (io_finally m c s)) l"
  proof (cases r)
    case (Ret x)
    with l have "P (Ret x) l" by simp
    from emitsE [OF c(1) [OF this] cs] obtain l2 where "observe obs s'' = observe obs s' @ l2"
      "q \<noteq> Undef" "\<forall>e. q \<noteq> Throw e" "q = Ret () \<longrightarrow> R (Ret x) (l @ l2)" "q = Blocked \<longrightarrow> R Blocked (l @ l2)"
      by metis
    with Ret ms cs l show ?thesis by (cases q) (auto simp: io_finally_def io_bind_def)
  next
    case (Throw e)
    with l have "P (Throw e) l" by simp
    from emitsE [OF c(2) [OF this] cs] obtain l2 where "observe obs s'' = observe obs s' @ l2"
      "q \<noteq> Undef" "\<forall>e. q \<noteq> Throw e" "q = Ret () \<longrightarrow> R (Throw e) (l @ l2)" "q = Blocked \<longrightarrow> R Blocked (l @ l2)"
      by metis
    with Throw ms cs l show ?thesis by (cases q) (auto simp: io_finally_def io_bind_def)
  next
    case Blocked
    with ms l fail show ?thesis by (auto simp: io_finally_def)
  next
    case Undef
    with ms l fail show ?thesis by (auto simp: io_finally_def)
  qed
qed

lemma emits_sys:
  assumes "\<And>r. P (Ret r) (obs c r)" "P Blocked []"
  shows "emits obs (sys c) P"
proof (rule emitsI)
  fix s
  show "\<exists>l. observe obs (snd (sys c s)) = observe obs s @ l \<and> P (fst (sys c s)) l"
    by (rule sys_cases [of s c]) (use assms in \<open>auto simp: observe_def\<close>)
qed

text \<open>
  The repeated call: the interrupted calls add the observations of their answers, the last one
  its own.
\<close>

lemma emits_retry:
  assumes last: "\<And>r. P (Ret r) (obs c r)" and blocked: "P Blocked []"
    and again: "\<And>q r l. rv r = -1 \<Longrightarrow> P q l \<Longrightarrow> P q (obs c r @ l)"
  shows "emits obs (sys_retry c) P"
proof (rule emitsI)
  fix s
  show "\<exists>l. observe obs (snd (sys_retry c s)) = observe obs s @ l \<and> P (fst (sys_retry c s)) l"
  proof (induction c \<equiv> c s rule: sys_retry.induct)
    case (1 s)
    show ?case
    proof (rule sys_cases [of s c])
      assume "script s = []" "sys c s = (Blocked, s)"
      then show ?thesis using blocked by (simp add: sys_retry.simps)
    next
      fix r rs
      let ?s = "s\<lparr>script := rs, trace := trace s @ [(c, r)], errno := if rv r < 0 then err r else errno s\<rparr>"
      assume eq: "script s = r # rs" "sys c s = (Ret r, ?s)"
      have o: "observe obs ?s = observe obs s @ obs c r" by (simp add: observe_def)
      show ?thesis
      proof (cases "rv r = -1 \<and> errno ?s = EINTR")
        case True
        with 1 [OF eq(2) [symmetric]] obtain l where
          l: "observe obs (snd (sys_retry c ?s)) = observe obs ?s @ l" "P (fst (sys_retry c ?s)) l" by auto
        have st: "sys_retry c s = sys_retry c ?s"
          using True by (subst sys_retry.simps) (auto simp: eq(2))
        from l(1) o have "observe obs (snd (sys_retry c s)) = observe obs s @ (obs c r @ l)"
          unfolding st by simp
        moreover from True l(2) have "P (fst (sys_retry c s)) (obs c r @ l)"
          unfolding st by (blast intro: again)
        ultimately show ?thesis by blast
      next
        case False
        have "sys_retry c s = (Ret r, ?s)"
          using False by (subst sys_retry.simps) (auto simp: eq(2))
        with last o show ?thesis by auto
      qed
    qed
  qed
qed

lemmas emits_intros = emits_ret emits_throw emits_undef emits_throw_errno emits_if

end
