(* ===== verification/Http_Socket.thy ===== *)
theory Http_Socket
  imports Sys Http_Response
begin

text \<open>
  The class \<^verbatim>\<open>Socket\<close> of \<^verbatim>\<open>Request.hpp\<close> on a POSIX system: a non-blocking
  TCP socket whose operations wait with \<^verbatim>\<open>select\<close> up to a time limit and repeat
  interrupted calls.  A socket is its descriptor; the calls go to the operating system of
  theory \<^verbatim>\<open>Sys\<close>.  The lemmas say what each operation adds to a run: the bytes
  handed to the kernel, the bytes received, the resources acquired and released, the time limits.
\<close>

section \<open>Operations\<close>

datatype InternetProtocol = V4 | V6 | OtherProtocol u8

definition getAddressFamily :: "InternetProtocol \<Rightarrow> int result" where
  "getAddressFamily internetProtocol =
     (if internetProtocol = V4 then Inr AF_INET
      else if internetProtocol = V6 then Inr AF_INET6
      else Inl (RequestError ''Unsupported protocol''))"

definition socket_close :: "int \<Rightarrow> unit io" where
  "socket_close endpoint = io_bind (sys (SysClose endpoint)) (\<lambda>_. io_ret ())"

text \<open>
  The constructor.  When the flags cannot be read or set, \<^verbatim>\<open>errno\<close> is read after
  \<^verbatim>\<open>close()\<close>, so the exception carries the error of \<^verbatim>\<open>close\<close> when that
  fails too.
\<close>

definition Socket_new :: "InternetProtocol \<Rightarrow> int io" where
  "Socket_new internetProtocol =
     io_bind (io_lift (getAddressFamily internetProtocol)) (\<lambda>family.
     io_bind (sys (SysSocket family)) (\<lambda>r.
       if rv r = -1 then throw_errno ''Failed to create socket''
       else
         let endpoint = rv r in
         io_bind (sys (FcntlGetFl endpoint)) (\<lambda>flags.
           if rv flags = -1 then
             io_bind (socket_close endpoint) (\<lambda>_. throw_errno ''Failed to get socket flags'')
           else
             io_bind (sys (FcntlSetFl endpoint (rv flags OR O_NONBLOCK))) (\<lambda>q.
               if rv q = -1 then
                 io_bind (socket_close endpoint) (\<lambda>_. throw_errno ''Failed to set socket flags'')
               else io_ret endpoint))))"

text \<open>The destructor: the moved-from value \<^verbatim>\<open>invalid\<close> is -1.\<close>

definition Socket_delete :: "int \<Rightarrow> unit io" where
  "Socket_delete endpoint = (if endpoint \<noteq> -1 then socket_close endpoint else io_ret ())"

definition select_timeout :: "int \<Rightarrow> (int \<times> int) option" where
  "select_timeout timeout =
     (if timeout \<ge> 0 then Some (timeout div 1000, (timeout mod 1000) * 1000) else None)"

text \<open>
  \<^verbatim>\<open>FD_SET\<close> is undefined for a descriptor of \<^verbatim>\<open>FD_SETSIZE\<close> or more.
\<close>

definition socket_select :: "int \<Rightarrow> SelectType \<Rightarrow> int \<Rightarrow> unit io" where
  "socket_select endpoint type timeout =
     (if endpoint < 0 \<or> endpoint \<ge> FD_SETSIZE then io_undef
      else
        io_bind (sys_retry (SysSelect endpoint type (select_timeout timeout))) (\<lambda>count.
          if rv count = -1 then throw_errno ''Failed to select socket''
          else if rv count = 0 then io_throw (ResponseError ''Request timed out'')
          else io_ret ()))"

definition socket_connect :: "int \<Rightarrow> int \<Rightarrow> unit io" where
  "socket_connect endpoint timeout =
     io_bind (sys_retry (SysConnect endpoint)) (\<lambda>result.
       if rv result = -1 then
         (\<lambda>s. (if errno s = EINPROGRESS then
            io_bind (socket_select endpoint SelectWrite timeout) (\<lambda>_.
            io_bind (sys (SysGetSockError endpoint)) (\<lambda>r.
              if rv r = -1 then throw_errno ''Failed to get socket option''
              else if optval r \<noteq> 0 then io_throw (SystemError (optval r) ''Failed to connect'')
              else io_ret ()))
          else throw_errno ''Failed to connect'') s)
       else io_ret ())"

text \<open>\<^verbatim>\<open>static_cast<std::size_t>(result)\<close> of a 64-bit \<^verbatim>\<open>ssize_t\<close>.\<close>

definition socket_send :: "int \<Rightarrow> bytes \<Rightarrow> int \<Rightarrow> u64 io" where
  "socket_send endpoint buffer timeout =
     io_bind (socket_select endpoint SelectWrite timeout) (\<lambda>_.
     io_bind (sys_retry (SysSend endpoint buffer)) (\<lambda>result.
       if rv result = -1 then throw_errno ''Failed to send data''
       else io_ret (word_of_int (rv result))))"

text \<open>
  \<^verbatim>\<open>recv\<close> fills a buffer of \<open>len\<close> bytes.  A kernel that reports another
  number of bytes than it stored, or stores more than the buffer holds, breaks the contract of
  the call: the run is undefined from there.
\<close>

definition socket_recv :: "int \<Rightarrow> nat \<Rightarrow> int \<Rightarrow> bytes io" where
  "socket_recv endpoint len timeout =
     io_bind (socket_select endpoint SelectRead timeout) (\<lambda>_.
     io_bind (sys_retry (SysRecv endpoint len)) (\<lambda>result.
       if rv result = -1 then throw_errno ''Failed to read data''
       else if rv result \<noteq> int (length (payload result)) \<or> length (payload result) > len then io_undef
       else io_ret (payload result)))"

section \<open>Observations\<close>

text \<open>Bytes the kernel accepted and blocks it delivered.\<close>

fun sent_bytes :: "syscall \<Rightarrow> sysret \<Rightarrow> bytes" where
  "sent_bytes (SysSend fd b) r = (if rv r = -1 then [] else take (unat (word_of_int (rv r) :: u64)) b)"
| "sent_bytes _ r = []"

fun received_blocks :: "syscall \<Rightarrow> sysret \<Rightarrow> bytes list" where
  "received_blocks (SysRecv fd n) r = (if rv r = -1 then [] else [payload r])"
| "received_blocks _ r = []"

text \<open>Resources: the address list of \<^verbatim>\<open>getaddrinfo\<close> and descriptors.\<close>

datatype resource = AddressInfo | Descriptor int

datatype resource_event = Acquire resource | Release resource

fun resource_events :: "syscall \<Rightarrow> sysret \<Rightarrow> resource_event list" where
  "resource_events (GetAddrInfo h p) r = (if rv r = 0 then [Acquire AddressInfo] else [])"
| "resource_events FreeAddrInfo r = [Release AddressInfo]"
| "resource_events (SysSocket f) r = (if rv r = -1 then [] else [Acquire (Descriptor (rv r))])"
| "resource_events (SysClose fd) r = [Release (Descriptor fd)]"
| "resource_events (SysOpen p) r = (if rv r < 0 then [] else [Acquire (Descriptor (rv r))])"
| "resource_events _ r = []"

text \<open>Waiting and transferring: what a call may block on.\<close>

fun time_limits :: "syscall \<Rightarrow> sysret \<Rightarrow> (int \<times> int) option list" where
  "time_limits (SysSelect fd t tv) r = [tv]"
| "time_limits _ r = []"

section \<open>What the operations add to a run\<close>

lemma silent_sys: "(\<And>r. obs c r = []) \<Longrightarrow> silent obs (sys c)"
  by (rule emits_sys) auto

lemma silent_retry: "(\<And>r. obs c r = []) \<Longrightarrow> silent obs (sys_retry c)"
  by (rule emits_retry) auto

lemma silent_bind: "silent obs m \<Longrightarrow> (\<And>x. silent obs (f x)) \<Longrightarrow> silent obs (io_bind m f)"
  by (rule emits_bind) auto

lemma silent_apply: "silent obs a \<Longrightarrow> silent obs b \<Longrightarrow> silent obs (\<lambda>s. (if P s then a else b) s)"
  by (auto simp: emits_def)

lemma silent_let: "silent obs (f x) \<Longrightarrow> silent obs (let y = x in f y)"
  by simp

lemmas silent_intros = emits_intros silent_bind silent_apply silent_sys silent_retry

lemma silent_close: "(\<And>r. obs (SysClose fd) r = []) \<Longrightarrow> silent obs (socket_close fd)"
  unfolding socket_close_def by (intro silent_intros) auto

lemma silent_Socket_new:
  assumes "\<And>f r. obs (SysSocket f) r = []" "\<And>fd r. obs (FcntlGetFl fd) r = []"
    and "\<And>fd n r. obs (FcntlSetFl fd n) r = []" "\<And>fd r. obs (SysClose fd) r = []"
  shows "silent obs (Socket_new p)"
  unfolding Socket_new_def Let_def
  by (intro silent_intros silent_close emits_lift) (simp_all add: assms)

lemma silent_select:
  "(\<And>t tv r. obs (SysSelect fd t tv) r = []) \<Longrightarrow> silent obs (socket_select fd t tmo)"
  unfolding socket_select_def by (intro silent_intros) auto

lemma silent_connect:
  assumes "\<And>r. obs (SysConnect fd) r = []" "\<And>t tv r. obs (SysSelect fd t tv) r = []"
    and "\<And>r. obs (SysGetSockError fd) r = []"
  shows "silent obs (socket_connect fd tmo)"
  unfolding socket_connect_def by (intro silent_intros silent_select) (simp_all add: assms)

lemma socket_send_emits:
  "emits sent_bytes (socket_send fd b tmo)
     (\<lambda>r l. case r of Ret n \<Rightarrow> l = take (unat n) b | _ \<Rightarrow> l = [])"
  unfolding socket_send_def
  apply (rule emits_bind [OF silent_select], simp)
     apply (rule emits_bind [where P = "\<lambda>r l. case r of
       Ret a \<Rightarrow> l = (if rv a = -1 then [] else take (unat (word_of_int (rv a) :: u64)) b) | _ \<Rightarrow> l = []"])
        apply (rule emits_retry)
          apply (auto intro!: emits_intros split: outcome.splits)
  done

text \<open>The received block is what \<open>recv\<close> returns; errors deliver nothing.\<close>

lemma socket_recv_emits:
  "emits received_blocks (socket_recv fd n tmo)
     (\<lambda>r l. case r of Ret d \<Rightarrow> l = [d] | Undef \<Rightarrow> True | _ \<Rightarrow> l = [])"
  unfolding socket_recv_def
  apply (rule emits_bind [OF silent_select], simp)
     apply (rule emits_bind [where P = "\<lambda>r l. case r of
       Ret a \<Rightarrow> l = (if rv a = -1 then [] else [payload a]) | _ \<Rightarrow> l = []"])
        apply (rule emits_retry)
          apply (auto intro!: emits_intros split: outcome.splits)
  done

lemma socket_close_emits:
  "emits resource_events (socket_close fd)
     (\<lambda>r l. (r = Ret () \<and> l = [Release (Descriptor fd)]) \<or> (r = Blocked \<and> l = []))"
  unfolding socket_close_def
  by (rule emits_bind [OF emits_sys [where P = "\<lambda>r l. case r of Ret _ \<Rightarrow> l = [Release (Descriptor fd)]
       | Blocked \<Rightarrow> l = [] | _ \<Rightarrow> False"]])
    (auto intro!: emits_intros)

text \<open>A failed constructor releases the descriptor it opened.\<close>

definition ctor_events :: "int outcome \<Rightarrow> resource_event list \<Rightarrow> bool" where
  "ctor_events r l = (case r of
        Ret fd \<Rightarrow> fd \<noteq> -1 \<and> l = [Acquire (Descriptor fd)]
      | Throw e \<Rightarrow> l = [] \<or> (\<exists>fd. fd \<noteq> -1 \<and> l = [Acquire (Descriptor fd), Release (Descriptor fd)])
      | Blocked \<Rightarrow> l = [] \<or> (\<exists>fd. l = [Acquire (Descriptor fd)])
      | Undef \<Rightarrow> False)"

lemma quiet_fcntl:
  "emits resource_events (sys (FcntlGetFl fd)) (\<lambda>r l. l = [] \<and> (r = Blocked \<or> (\<exists>a. r = Ret a)))"
  "emits resource_events (sys (FcntlSetFl fd n)) (\<lambda>r l. l = [] \<and> (r = Blocked \<or> (\<exists>a. r = Ret a)))"
  by (rule emits_sys; simp)+

lemma Socket_new_emits: "emits resource_events (Socket_new p) ctor_events"
proof -
  have failed: "emits resource_events (io_bind (socket_close fd) (\<lambda>_. throw_errno m))
      (\<lambda>r l. ctor_events r (Acquire (Descriptor fd) # l))" if "fd \<noteq> -1" for fd m
    by (rule emits_bind [OF socket_close_emits]) (use that in \<open>auto intro!: emits_intros simp: ctor_events_def\<close>)
  have set_flags: "emits resource_events (io_bind (sys (FcntlSetFl fd n)) (\<lambda>q.
        if rv q = -1 then io_bind (socket_close fd) (\<lambda>_. throw_errno ''Failed to set socket flags'')
        else io_ret fd)) (\<lambda>r l. ctor_events r (Acquire (Descriptor fd) # l))" if "fd \<noteq> -1" for fd n
    by (rule emits_bind [OF quiet_fcntl(2)]) (use that in \<open>auto simp: ctor_events_def intro!: emits_ret failed [unfolded ctor_events_def, simplified]\<close>)
  have flags: "emits resource_events (io_bind (sys (FcntlGetFl fd)) (\<lambda>flags.
         if rv flags = -1 then io_bind (socket_close fd) (\<lambda>_. throw_errno ''Failed to get socket flags'')
         else io_bind (sys (FcntlSetFl fd (rv flags OR O_NONBLOCK))) (\<lambda>q.
           if rv q = -1 then io_bind (socket_close fd) (\<lambda>_. throw_errno ''Failed to set socket flags'')
           else io_ret fd))) (\<lambda>r l. ctor_events r (Acquire (Descriptor fd) # l))" if "fd \<noteq> -1" for fd
    by (rule emits_bind [OF quiet_fcntl(1)]) (use that failed set_flags in \<open>auto simp: ctor_events_def [of Blocked]\<close>)
  show ?thesis
    unfolding Socket_new_def Let_def
    apply (rule emits_bind [OF emits_lift [where P = "\<lambda>r l. l = [] \<and> r \<noteq> Undef \<and> r \<noteq> Blocked"]])
         apply simp_all
     apply (rule emits_bind [OF emits_sys [where P = "\<lambda>r l. case r of
        Ret a \<Rightarrow> l = (if rv a = -1 then [] else [Acquire (Descriptor (rv a))]) | Blocked \<Rightarrow> l = [] | _ \<Rightarrow> False"]])
         apply (use flags in \<open>auto intro!: emits_throw_errno simp: ctor_events_def [of "Throw e" for e] ctor_events_def [of Blocked]\<close>)
    done
qed

text \<open>
  Every wait has the limit the caller asked for: a well-formed \<^verbatim>\<open>timeval\<close> for a
  timeout, none for the timeout -1.
\<close>

definition limit_ok :: "bool \<Rightarrow> (int \<times> int) option \<Rightarrow> bool" where
  "limit_ok limited tv = (case tv of
       None \<Rightarrow> \<not> limited
     | Some (sec, usec) \<Rightarrow> limited \<and> 0 \<le> sec \<and> 0 \<le> usec \<and> usec < 1000000)"

lemma limit_ok_select_timeout: "limit_ok (tmo \<ge> 0) (select_timeout tmo)"
  by (auto simp: limit_ok_def select_timeout_def)

abbreviation limited_by :: "bool \<Rightarrow> 'a io \<Rightarrow> bool" where
  "limited_by b m \<equiv> emits time_limits m (\<lambda>_ l. list_all (limit_ok b) l)"

lemma limited_bind: "limited_by b m \<Longrightarrow> (\<And>x. limited_by b (f x)) \<Longrightarrow> limited_by b (io_bind m f)"
  by (rule emits_bind) (auto elim: emits_weaken)

lemma limited_silent: "silent time_limits m \<Longrightarrow> limited_by b m"
  by (erule emits_weaken) simp

lemma limited_select: "b = (tmo \<ge> 0) \<Longrightarrow> limited_by b (socket_select fd t tmo)"
  unfolding socket_select_def
  by (intro emits_if emits_undef limited_bind emits_retry emits_throw_errno emits_throw emits_ret)
    (auto simp: limit_ok_select_timeout)

lemma limited_apply: "limited_by b m \<Longrightarrow> limited_by b n \<Longrightarrow> limited_by b (\<lambda>s. (if P s then m else n) s)"
  by (auto simp: emits_def)

lemma limited_socket:
  assumes "b = (tmo \<ge> 0)"
  shows "limited_by b (socket_connect fd tmo)" "limited_by b (socket_send fd d tmo)"
    "limited_by b (socket_recv fd n tmo)"
  unfolding socket_connect_def socket_send_def socket_recv_def
  by (intro limited_bind limited_select emits_intros limited_apply
        limited_silent [OF silent_retry] limited_silent [OF silent_sys]; simp add: assms)+

end
