(* ===== verification/Http_Ownership.thy ===== *)
theory Http_Ownership
  imports Http_Socket "HOL-Library.Multiset"
begin

text \<open>
  The ownership of descriptors by \<^verbatim>\<open>Socket\<close> objects of \<^verbatim>\<open>Request.hpp\<close>: a program creates, moves, assigns and destroys
  sockets in any order; the kernel sees each descriptor closed at most once, and exactly once when its owner is gone.
\<close>

section \<open>Moving\<close>

text \<open>The move constructor: the endpoints of the new object and of the other one.\<close>

definition Socket_move :: "int \<Rightarrow> int \<times> int" where
  "Socket_move other = (other, -1)"

text \<open>Move assignment; \<open>same\<close> tells whether both are the same object.\<close>

definition Socket_assign :: "bool \<Rightarrow> int \<Rightarrow> int \<Rightarrow> (int \<times> int) io" where
  "Socket_assign same endpoint other =
     (if same then io_ret (endpoint, other)
      else io_bind (if endpoint \<noteq> -1 then socket_close endpoint else io_ret ()) (\<lambda>_. io_ret (other, -1)))"

section \<open>Programs\<close>

text \<open>
  Objects are numbered in the order of their creation; \<^const>\<open>None\<close> is an object that was destroyed or whose constructor
  threw.  The exception is caught and the program goes on.  Using such an object is undefined.
\<close>

datatype socket_op = SCreate InternetProtocol | SMove nat | SAssign nat nat | SDestroy nat

type_synonym sockets = "int option list"

definition io_catch :: "'a io \<Rightarrow> (exn \<Rightarrow> 'a io) \<Rightarrow> 'a io" where
  "io_catch m h = (\<lambda>s. case m s of (Throw e, s') \<Rightarrow> h e s' | r \<Rightarrow> r)"

definition endpoint_of :: "sockets \<Rightarrow> nat \<Rightarrow> int option" where
  "endpoint_of objs i = (if i < length objs then objs ! i else None)"

fun socket_step :: "socket_op \<Rightarrow> sockets \<Rightarrow> sockets io" where
  "socket_step (SCreate p) objs =
     io_catch (io_bind (Socket_new p) (\<lambda>fd. io_ret (objs @ [Some fd]))) (\<lambda>_. io_ret (objs @ [None]))"
| "socket_step (SMove j) objs =
     (case endpoint_of objs j of
        None \<Rightarrow> io_undef
      | Some e \<Rightarrow> let (mine, theirs) = Socket_move e in io_ret (objs[j := Some theirs] @ [Some mine]))"
| "socket_step (SAssign i j) objs =
     (case (endpoint_of objs i, endpoint_of objs j) of
        (Some e, Some other) \<Rightarrow>
          io_bind (Socket_assign (i = j) e other) (\<lambda>(mine, theirs). io_ret (objs[i := Some mine, j := Some theirs]))
      | _ \<Rightarrow> io_undef)"
| "socket_step (SDestroy i) objs =
     (case endpoint_of objs i of
        None \<Rightarrow> io_undef
      | Some e \<Rightarrow> io_bind (Socket_delete e) (\<lambda>_. io_ret (objs[i := None])))"

fun run_sockets :: "socket_op list \<Rightarrow> sockets \<Rightarrow> sockets io" where
  "run_sockets [] objs = io_ret objs"
| "run_sockets (op # ops) objs = io_bind (socket_step op objs) (run_sockets ops)"

section \<open>Counting\<close>

definition owners :: "int \<Rightarrow> sockets \<Rightarrow> nat" where
  "owners fd objs = count (mset objs) (Some fd)"

abbreviation acquired :: "int \<Rightarrow> resource_event list \<Rightarrow> nat" where
  "acquired fd l \<equiv> count_list l (Acquire (Descriptor fd))"

abbreviation released :: "int \<Rightarrow> resource_event list \<Rightarrow> nat" where
  "released fd l \<equiv> count_list l (Release (Descriptor fd))"

text \<open>
  What a part of a program does to the descriptors: never one more close than there are owners and openings, never a close
  of -1, and the owners at the end are those at the beginning and the openings without the closes.
\<close>

definition balanced :: "sockets \<Rightarrow> sockets outcome \<Rightarrow> resource_event list \<Rightarrow> bool" where
  "balanced objs r l \<longleftrightarrow>
     Release (Descriptor (-1)) \<notin> set l \<and>
     (\<forall>fd k. fd \<noteq> -1 \<longrightarrow> released fd (take k l) \<le> owners fd objs + acquired fd (take k l)) \<and>
     (\<forall>objs'. r = Ret objs' \<longrightarrow> (\<forall>fd. fd \<noteq> -1 \<longrightarrow> owners fd objs + acquired fd l = released fd l + owners fd objs'))"

lemma owners_append [simp]: "owners fd (objs @ objs') = owners fd objs + owners fd objs'"
  by (simp add: owners_def)

lemma owners_single [simp]: "owners fd [c] = (if c = Some fd then 1 else 0)" "owners fd [] = 0"
  by (simp_all add: owners_def)

lemma owners_update:
  assumes "endpoint_of objs i = Some e"
  shows "owners fd (objs[i := c]) + (if e = fd then 1 else 0) = owners fd objs + (if c = Some fd then 1 else 0)"
proof -
  have i: "i < length objs" "objs ! i = Some e" using assms by (auto simp: endpoint_of_def split: if_splits)
  then have "Some e \<in># mset objs" by (metis nth_mem set_mset_mset)
  then have "0 < count (mset objs) (Some e)" by simp
  then show ?thesis using i by (auto simp: owners_def mset_update)
qed

lemma owners_pos: "endpoint_of objs i = Some e \<Longrightarrow> 0 < owners e objs"
  using owners_update [of objs i e e None] by simp

lemma balanced_append:
  assumes "balanced objs (Ret objs') l" "balanced objs' r l'"
  shows "balanced objs r (l @ l')"
proof -
  have "released fd (take k (l @ l')) \<le> owners fd objs + acquired fd (take k (l @ l'))" if "fd \<noteq> -1" for fd k
  proof (cases "k \<le> length l")
    case True
    with assms(1) that show ?thesis by (simp add: balanced_def)
  next
    case False
    have "owners fd objs + acquired fd l = released fd l + owners fd objs'" using assms(1) that by (simp add: balanced_def)
    moreover have "released fd (take (k - length l) l') \<le> owners fd objs' + acquired fd (take (k - length l) l')"
      using assms(2) that by (simp add: balanced_def)
    ultimately show ?thesis using False by (simp add: take_append)
  qed
  with assms show ?thesis by (fastforce simp: balanced_def)
qed

lemma balanced_nil: "balanced objs r []" if "\<And>objs'. r = Ret objs' \<Longrightarrow> \<forall>fd. fd \<noteq> -1 \<longrightarrow> owners fd objs' = owners fd objs"
  using that by (auto simp: balanced_def)

lemma balanced_one:
  "balanced objs r [Acquire (Descriptor fd)]"
  if "\<And>objs'. r = Ret objs' \<Longrightarrow> \<forall>fd'. fd' \<noteq> -1 \<longrightarrow> owners fd' objs' = owners fd' objs + (if fd' = fd then 1 else 0)"
  using that by (auto simp: balanced_def take_Cons' split: if_splits)

lemma balanced_close:
  "balanced objs r [Release (Descriptor fd)]"
  if "fd \<noteq> -1" "0 < owners fd objs"
    "\<And>objs'. r = Ret objs' \<Longrightarrow> \<forall>fd'. fd' \<noteq> -1 \<longrightarrow> owners fd' objs' + (if fd' = fd then 1 else 0) = owners fd' objs"
  using that by (fastforce simp: balanced_def take_Cons' split: if_splits)

lemma emits_catch:
  assumes m: "emits obs m P"
    and h: "\<And>e l. P (Throw e) l \<Longrightarrow> emits obs (h e) (\<lambda>r l'. R r (l @ l'))"
    and ok: "\<And>x l. P (Ret x) l \<Longrightarrow> R (Ret x) l" "\<And>l. P Blocked l \<Longrightarrow> R Blocked l" "\<And>l. P Undef l \<Longrightarrow> R Undef l"
  shows "emits obs (io_catch m h) R"
proof (rule emitsI)
  fix s
  obtain r s' where ms: "m s = (r, s')" by force
  from emitsE [OF m ms] obtain l where l: "observe obs s' = observe obs s @ l" "P r l" .
  show "\<exists>l. observe obs (snd (io_catch m h s)) = observe obs s @ l \<and> R (fst (io_catch m h s)) l"
  proof (cases r)
    case (Throw e)
    with l have "emits obs (h e) (\<lambda>r l'. R r (l @ l'))" using h by blast
    then obtain l' where "observe obs (snd (h e s')) = observe obs s' @ l'" "R (fst (h e s')) (l @ l')"
      unfolding emits_def by blast
    with Throw ms l show ?thesis by (intro exI [of _ "l @ l'"]) (simp add: io_catch_def)
  qed (use ms l ok in \<open>auto simp: io_catch_def\<close>)
qed

section \<open>Ownership\<close>

lemma balanced_failed: "fd \<noteq> -1 \<Longrightarrow> balanced objs (Ret (objs @ [None])) [Acquire (Descriptor fd), Release (Descriptor fd)]"
  by (auto simp: balanced_def take_Cons' split: if_splits)

lemma create_balanced: "emits resource_events (socket_step (SCreate p) objs) (balanced objs)"
proof -
  have ctor: "emits resource_events (io_bind (Socket_new p) (\<lambda>fd. io_ret (objs @ [Some fd]))) (\<lambda>r l. case r of
      Ret objs' \<Rightarrow> \<exists>fd. fd \<noteq> -1 \<and> objs' = objs @ [Some fd] \<and> l = [Acquire (Descriptor fd)]
    | Throw e \<Rightarrow> l = [] \<or> (\<exists>fd. fd \<noteq> -1 \<and> l = [Acquire (Descriptor fd), Release (Descriptor fd)])
    | Blocked \<Rightarrow> l = [] \<or> (\<exists>fd. l = [Acquire (Descriptor fd)])
    | Undef \<Rightarrow> False)"
    by (rule emits_bind [OF Socket_new_emits]) (auto simp: ctor_events_def intro!: emits_ret)
  show ?thesis
    unfolding socket_step.simps
    by (rule emits_catch [OF ctor])
      (auto intro!: emits_ret balanced_nil balanced_one balanced_failed)
qed

lemma closing_balanced:
  assumes e: "endpoint_of objs i = Some e"
    and f: "\<And>fd'. fd' \<noteq> -1 \<Longrightarrow> owners fd' objs' + (if fd' = e then 1 else 0) = owners fd' objs"
  shows "emits resource_events (io_bind (Socket_delete e) (\<lambda>_. io_ret objs')) (balanced objs)"
proof (cases "e = -1")
  case True
  with f show ?thesis
    by (auto simp: Socket_delete_def io_bind_def io_ret_def emits_def intro!: balanced_nil)
next
  case False
  with f owners_pos [OF e] show ?thesis
    unfolding Socket_delete_def
    by (auto intro!: emits_bind [OF socket_close_emits] emits_ret balanced_nil balanced_close)
qed

lemma assign_then:
  "io_bind (Socket_assign False e other) (\<lambda>(mine, theirs). io_ret (f mine theirs)) =
   io_bind (Socket_delete e) (\<lambda>_. io_ret (f other (-1)))"
  by (rule ext) (auto simp: Socket_assign_def Socket_delete_def io_bind_def split: prod.splits outcome.splits)

lemma socket_step_balanced: "emits resource_events (socket_step op objs) (balanced objs)"
proof (cases op)
  case (SCreate p)
  then show ?thesis using create_balanced by simp
next
  case (SMove j)
  show ?thesis
  proof (cases "endpoint_of objs j")
    case (Some e)
    have "owners fd (objs[j := Some (-1)] @ [Some e]) = owners fd objs" if "fd \<noteq> -1" for fd
      using owners_update [OF Some, of fd "Some (-1)"] that by (auto split: if_splits)
    with SMove Some show ?thesis by (auto simp: Socket_move_def intro!: emits_ret balanced_nil)
  qed (use SMove in \<open>auto intro!: emits_undef balanced_nil\<close>)
next
  case (SAssign i j)
  show ?thesis
  proof (cases "\<exists>e other. endpoint_of objs i = Some e \<and> endpoint_of objs j = Some other")
    case True
    then obtain e other where eo: "endpoint_of objs i = Some e" "endpoint_of objs j = Some other" by blast
    show ?thesis
    proof (cases "i = j")
      case True
      then have "objs[i := Some e, j := Some other] = objs"
        using eo by (auto simp: endpoint_of_def split: if_splits) (metis list_update_id)
      with SAssign eo True show ?thesis
        by (auto simp: Socket_assign_def io_bind_def io_ret_def emits_def intro!: balanced_nil)
    next
      case False
      let ?o = "objs[i := Some other, j := Some (-1)]"
      have "endpoint_of (objs[i := Some other]) j = Some other" using eo(2) False by (auto simp: endpoint_of_def split: if_splits)
      then have "owners fd ?o + (if fd = e then 1 else 0) = owners fd objs" if "fd \<noteq> -1" for fd
        using owners_update [of "objs[i := Some other]" j other fd "Some (-1)"] owners_update [OF eo(1), of fd "Some other"] that
        by (auto split: if_splits)
      from closing_balanced [OF eo(1) this] SAssign eo False show ?thesis
        by (simp add: assign_then)
    qed
  next
    case False
    with SAssign show ?thesis
      by (auto split: option.splits intro!: emits_undef balanced_nil)
  qed
next
  case (SDestroy i)
  show ?thesis
  proof (cases "endpoint_of objs i")
    case (Some e)
    have "owners fd (objs[i := None]) + (if fd = e then 1 else 0) = owners fd objs" for fd
      using owners_update [OF Some, of fd None] by (auto split: if_splits)
    from closing_balanced [OF Some this] SDestroy Some show ?thesis by simp
  qed (use SDestroy in \<open>auto intro!: emits_undef balanced_nil\<close>)
qed

lemma run_sockets_balanced: "emits resource_events (run_sockets ops objs) (balanced objs)"
proof (induction ops arbitrary: objs)
  case Nil
  show ?case unfolding run_sockets.simps by (rule emits_ret, rule balanced_nil) simp
next
  case (Cons op ops)
  show ?case unfolding run_sockets.simps
  proof (rule emits_bind [OF socket_step_balanced])
    fix objs' l
    assume "balanced objs (Ret objs') l"
    then show "emits resource_events (run_sockets ops objs') (\<lambda>r l'. balanced objs r (l @ l'))"
      using Cons.IH [of objs'] by (auto elim!: emits_weaken intro: balanced_append)
  qed (auto simp: balanced_def)
qed

text \<open>
  (C5) Sockets own their descriptors.  However a program creates, moves, assigns and destroys sockets, and whatever the system
  answers, at no point has a descriptor been closed more often than opened, -1 is never closed, and at the end every
  descriptor has been closed once for each time it was opened, except for those that a remaining socket holds, which are held by
  exactly as many sockets as there are open ones.
\<close>

theorem sockets_own_descriptors:
  assumes "run_sockets ops [] s = (r, s')"
  shows "\<exists>l. observe resource_events s' = observe resource_events s @ l \<and> Release (Descriptor (-1)) \<notin> set l \<and>
    (\<forall>fd k. released fd (take k l) \<le> acquired fd (take k l)) \<and>
    (\<forall>objs. r = Ret objs \<longrightarrow> (\<forall>fd. fd \<noteq> -1 \<longrightarrow> acquired fd l = released fd l + owners fd objs))"
proof -
  from emitsE [OF run_sockets_balanced assms] obtain l where
    l: "observe resource_events s' = observe resource_events s @ l" "balanced [] r l" .
  have "released (-1) (take k l) = 0" for k
    using l(2) by (auto simp: balanced_def count_list_0_iff dest: in_set_takeD)
  then have "released fd (take k l) \<le> acquired fd (take k l)" for fd k
    using l(2) by (cases "fd = -1") (auto simp: balanced_def)
  with l show ?thesis by (intro exI [of _ l]) (auto simp: balanced_def)
qed

end
