(* ===== verification/Http_Send.thy ===== *)
theory Http_Send
  imports Http_Socket
begin

text \<open>
  \<^verbatim>\<open>Request::Request\<close> and \<^verbatim>\<open>Request::send\<close>: resolving the host, encoding the
  request, opening the socket, connecting, the loop that hands the request to the kernel and
  the loop that reads the response.  Times are nanoseconds of the steady clock, timeouts are
  milliseconds, -1 meaning none.
\<close>

section \<open>Computations that consume answers\<close>

text \<open>
  The loops go on as long as the system answers.  A pass that returns has made at least one
  system call, so a loop over a finite script ends.
\<close>

definition bounded :: "'a io \<Rightarrow> bool" where
  "bounded m \<longleftrightarrow> (\<forall>s. length (script (snd (m s))) \<le> length (script s))"

definition consuming :: "'a io \<Rightarrow> bool" where
  "consuming m \<longleftrightarrow> bounded m \<and>
     (\<forall>s x s'. m s = (Ret x, s') \<longrightarrow> length (script s') < length (script s))"

lemma bounded_simple [intro, simp]:
  "bounded (io_ret x)" "bounded (io_throw e)" "bounded io_undef" "bounded (throw_errno m)"
  by (simp_all add: bounded_def)

lemma bounded_lift [intro, simp]: "bounded (io_lift r)"
  by (cases r) auto

lemma bounded_bind [intro]: "bounded m \<Longrightarrow> (\<And>x. bounded (f x)) \<Longrightarrow> bounded (io_bind m f)"
  unfolding bounded_def
proof (rule allI)
  fix s
  assume m: "\<forall>s. length (script (snd (m s))) \<le> length (script s)"
    and f: "\<And>x. \<forall>s. length (script (snd (f x s))) \<le> length (script s)"
  show "length (script (snd (io_bind m f s))) \<le> length (script s)"
    by (rule io_bind_cases [of m s f]) (use m f in \<open>metis order_trans snd_conv\<close>)+
qed

lemma bounded_if [intro]: "bounded a \<Longrightarrow> bounded b \<Longrightarrow> bounded (if c then a else b)"
  by simp

lemma bounded_apply [intro]: "bounded a \<Longrightarrow> bounded b \<Longrightarrow> bounded (\<lambda>s. (if P s then a else b) s)"
  by (simp add: bounded_def)

lemma consuming_sys: "consuming (sys c)"
  by (auto simp: consuming_def bounded_def sys_def split: list.splits)

lemma bounded_sys [intro, simp]: "bounded (sys c)"
  using consuming_sys by (simp add: consuming_def)

lemma length_sys_retry:
  "length (script (snd (sys_retry c s))) \<le> length (script s) \<and>
   (\<forall>r. fst (sys_retry c s) = Ret r \<longrightarrow> length (script (snd (sys_retry c s))) < length (script s))"
proof (induction c s rule: sys_retry.induct)
  case (1 c s)
  show ?case
    by (rule sys_cases [of s c])
      (use 1 in \<open>auto simp: sys_retry.simps [of c s] dest: less_trans\<close>)
qed

lemma consuming_retry: "consuming (sys_retry c)"
  using length_sys_retry [of c] by (auto simp: consuming_def bounded_def) (metis fst_conv snd_conv)

lemma bounded_retry [intro, simp]: "bounded (sys_retry c)"
  using consuming_retry by (simp add: consuming_def)

lemma consuming_bind1:
  assumes "consuming m" "\<And>x. bounded (f x)"
  shows "consuming (io_bind m f)"
proof -
  have "length (script s') < length (script s)" if "io_bind m f s = (Ret y, s')" for s y s'
  proof -
    from that obtain x t where 1: "m s = (Ret x, t)" "f x t = (Ret y, s')" by (auto simp: io_bind_Ret_iff)
    from 1(1) assms(1) have "length (script t) < length (script s)" unfolding consuming_def by blast
    moreover from assms(2) 1(2) have "length (script s') \<le> length (script t)"
      unfolding bounded_def by (metis snd_conv)
    ultimately show ?thesis by simp
  qed
  with assms show ?thesis by (auto simp: consuming_def intro: bounded_bind)
qed

lemma consuming_bind2:
  assumes "bounded m" "\<And>x. consuming (f x)"
  shows "consuming (io_bind m f)"
proof -
  have "length (script s') < length (script s)" if "io_bind m f s = (Ret y, s')" for s y s'
  proof -
    from that obtain x t where 1: "m s = (Ret x, t)" "f x t = (Ret y, s')" by (auto simp: io_bind_Ret_iff)
    from assms(1) 1(1) have "length (script t) \<le> length (script s)"
      unfolding bounded_def by (metis snd_conv)
    moreover from 1(2) assms(2) have "length (script s') < length (script t)" unfolding consuming_def by blast
    ultimately show ?thesis by simp
  qed
  with assms show ?thesis by (auto simp: consuming_def intro: bounded_bind)
qed

lemma bounded_select [intro, simp]: "bounded (socket_select fd t tmo)"
  unfolding socket_select_def by (intro bounded_if bounded_bind) auto

lemma consuming_send: "consuming (socket_send fd d tmo)"
  unfolding socket_send_def
  by (intro consuming_bind2 consuming_bind1 consuming_retry bounded_select bounded_if) auto

lemma consuming_recv: "consuming (socket_recv fd n tmo)"
  unfolding socket_recv_def
  by (intro consuming_bind2 consuming_bind1 consuming_retry bounded_select bounded_if) auto

section \<open>The request\<close>

record Request =
  internetProtocol :: InternetProtocol
  uri :: Uri

definition Request_new :: "string \<Rightarrow> InternetProtocol \<Rightarrow> Request result" where
  "Request_new uriString protocol =
     rbind (parseUri uriString) (\<lambda>u. Inr \<lparr>internetProtocol = protocol, uri = u\<rparr>)"

definition getRemainingMilliseconds :: "int \<Rightarrow> int io" where
  "getRemainingMilliseconds time =
     io_bind (sys ClockNow) (\<lambda>now.
       let remainingTime = (time - rv now) div 1000000 in
       io_ret (if remainingTime > 0 then remainingTime else 0))"

definition remaining_time :: "int \<Rightarrow> int \<Rightarrow> int io" where
  "remaining_time timeout stopTime =
     (if timeout \<ge> 0 then getRemainingMilliseconds stopTime else io_ret (-1))"

lemma bounded_remaining_time [intro, simp]: "bounded (remaining_time tmo stop)"
  unfolding remaining_time_def getRemainingMilliseconds_def Let_def
  by (intro bounded_if bounded_bind) auto

text \<open>
  One pass of the send loop and the loop.  A kernel that reports more bytes than it was given
  makes \<^verbatim>\<open>remaining\<close> wrap around and \<^verbatim>\<open>sendData\<close> leave the buffer.
\<close>

definition send_pass :: "int \<Rightarrow> int \<Rightarrow> int \<Rightarrow> bytes \<Rightarrow> u64 io" where
  "send_pass sock timeout stopTime sendData =
     io_bind (remaining_time timeout stopTime) (\<lambda>t. socket_send sock sendData t)"

lemma consuming_send_pass: "consuming (send_pass sock tmo stop d)"
  unfolding send_pass_def by (intro consuming_bind2 consuming_send) auto

function send_loop :: "int \<Rightarrow> int \<Rightarrow> int \<Rightarrow> bytes \<Rightarrow> unit io" where
  "send_loop sock timeout stopTime sendData s =
     (if sendData = [] then (Ret (), s)
      else case send_pass sock timeout stopTime sendData s of
        (Ret sz, s') \<Rightarrow>
          if unat sz > length sendData then (Undef, s')
          else send_loop sock timeout stopTime (drop (unat sz) sendData) s'
      | (Throw e, s') \<Rightarrow> (Throw e, s')
      | (Blocked, s') \<Rightarrow> (Blocked, s')
      | (Undef, s') \<Rightarrow> (Undef, s'))"
  by pat_completeness auto
termination
  by (relation "measure (\<lambda>(sock, t, st, d, s). length (script s))")
    (auto dest: consuming_send_pass [unfolded consuming_def, THEN conjunct2, rule_format, OF sym])

declare send_loop.simps [simp del]

definition recv_pass :: "int \<Rightarrow> int \<Rightarrow> int \<Rightarrow> bytes io" where
  "recv_pass sock timeout stopTime =
     io_bind (remaining_time timeout stopTime) (\<lambda>t. socket_recv sock 4096 t)"

lemma consuming_recv_pass: "consuming (recv_pass sock tmo stop)"
  unfolding recv_pass_def by (intro consuming_bind2 consuming_recv) auto

function read_loop :: "(nat \<Rightarrow> bool) \<Rightarrow> int \<Rightarrow> int \<Rightarrow> int \<Rightarrow> recv_state \<Rightarrow> Response io" where
  "read_loop can_reserve sock timeout stopTime st s =
     (case recv_pass sock timeout stopTime s of
        (Ret data, s') \<Rightarrow>
          if data = [] then (Ret (response st), s')
          else (case on_data can_reserve data st of
            Inl e \<Rightarrow> (Throw e, s')
          | Inr (Finished r) \<Rightarrow> (Ret r, s')
          | Inr (NeedMore st') \<Rightarrow> read_loop can_reserve sock timeout stopTime st' s')
      | (Throw e, s') \<Rightarrow> (Throw e, s')
      | (Blocked, s') \<Rightarrow> (Blocked, s')
      | (Undef, s') \<Rightarrow> (Undef, s'))"
  by pat_completeness auto
termination
  by (relation "measure (\<lambda>(c, sock, t, sp, st, s). length (script s))")
    (auto dest: consuming_recv_pass [unfolded consuming_def, THEN conjunct2, rule_format, OF sym])

declare read_loop.simps [simp del]

text \<open>\<^verbatim>\<open>c_str()\<close> ends at the first NUL.\<close>

definition c_str :: "string \<Rightarrow> string" where
  "c_str s = takeWhile (\<lambda>c. c \<noteq> CHR 0x00) s"

text \<open>From the connection to the response, on an open socket.\<close>

definition exchange :: "(nat \<Rightarrow> bool) \<Rightarrow> int \<Rightarrow> int \<Rightarrow> int \<Rightarrow> bytes \<Rightarrow> Response io" where
  "exchange can_reserve sock timeout stopTime requestData =
     io_bind (remaining_time timeout stopTime) (\<lambda>t.
     io_bind (socket_connect sock t) (\<lambda>_.
     io_bind (send_loop sock timeout stopTime requestData) (\<lambda>_.
       read_loop can_reserve sock timeout stopTime init_recv)))"

text \<open>The scope of \<^verbatim>\<open>socket\<close>, and the scope of \<^verbatim>\<open>addressInfo\<close>.\<close>

definition with_socket :: "InternetProtocol \<Rightarrow> (int \<Rightarrow> 'a io) \<Rightarrow> 'a io" where
  "with_socket protocol scope =
     io_bind (Socket_new protocol) (\<lambda>sock. io_finally (scope sock) (Socket_delete sock))"

definition with_address :: "string \<Rightarrow> string \<Rightarrow> 'a io \<Rightarrow> 'a io" where
  "with_address hostName portName scope =
     io_bind (sys (GetAddrInfo (c_str hostName) portName)) (\<lambda>r.
       if rv r \<noteq> 0 then throw_errno (''Failed to get address info of '' @ hostName)
       else io_finally scope (io_bind (sys FreeAddrInfo) (\<lambda>_. io_ret ())))"

text \<open>
  \<^verbatim>\<open>Request::send\<close>.  The sum of the clock and the timeout is a signed 64-bit number of
  nanoseconds; its overflow is undefined.
\<close>

definition Request_send ::
    "(nat \<Rightarrow> bool) \<Rightarrow> Request \<Rightarrow> string \<Rightarrow> bytes \<Rightarrow> HeaderFields \<Rightarrow> int \<Rightarrow> Response io" where
  "Request_send can_reserve req meth bdy hfs timeout =
     io_bind (sys ClockNow) (\<lambda>now.
       let stopTime = rv now + timeout * 1000000 in
       if stopTime < - (2 ^ 63) \<or> stopTime \<ge> 2 ^ 63 then io_undef
       else if scheme (uri req) \<noteq> ''http'' then io_throw (RequestError ''Only HTTP scheme is supported'')
       else
         io_bind (io_lift (getAddressFamily (internetProtocol req))) (\<lambda>family.
           let portString = (if port (uri req) = [] then ''80'' else c_str (port (uri req))) in
           with_address (host (uri req)) portString
             (io_bind (io_lift (encodeHtml (uri req) meth bdy hfs)) (\<lambda>requestData.
              with_socket (internetProtocol req) (\<lambda>sock.
                exchange can_reserve sock timeout stopTime requestData)))))"

section \<open>The bytes handed to the kernel\<close>

lemma silent_remaining_time:
  "(\<And>r. obs ClockNow r = []) \<Longrightarrow> silent obs (remaining_time tmo stop)"
  unfolding remaining_time_def getRemainingMilliseconds_def Let_def
  by (intro silent_intros) auto

text \<open>
  The interface between the loops and the socket.  A \<open>byte_sink\<close> accepts a prefix of what it is
  offered and reports its length; the loop over it then hands over the data in order, and all
  of it when it returns.
\<close>

locale byte_sink =
  fixes put :: "bytes \<Rightarrow> u64 io"
    and loop :: "bytes \<Rightarrow> unit io"
  assumes put_prefix:
      "emits sent_bytes (put d) (\<lambda>r l. case r of Ret n \<Rightarrow> l = take (unat n) d | _ \<Rightarrow> l = [])"
    and loop_unfold: "loop d s =
      (if d = [] then (Ret (), s)
       else case put d s of
         (Ret n, s') \<Rightarrow> if unat n > length d then (Undef, s') else loop (drop (unat n) d) s'
       | (Throw e, s') \<Rightarrow> (Throw e, s')
       | (Blocked, s') \<Rightarrow> (Blocked, s')
       | (Undef, s') \<Rightarrow> (Undef, s'))"
    and put_consuming: "consuming (put d)"
begin

lemma loop_rule:
  assumes put: "\<And>d. emits obs (put d) (Q d)"
    and finished: "\<And>d. d = [] \<Longrightarrow> R d (Ret ()) []"
    and more: "\<And>d n l q l'. d \<noteq> [] \<Longrightarrow> Q d (Ret n) l \<Longrightarrow> unat n \<le> length d \<Longrightarrow>
      R (drop (unat n) d) q l' \<Longrightarrow> R d q (l @ l')"
    and fail: "\<And>d n l. Q d (Ret n) l \<Longrightarrow> length d < unat n \<Longrightarrow> R d Undef l"
      "\<And>d e l. Q d (Throw e) l \<Longrightarrow> R d (Throw e) l" "\<And>d l. Q d Blocked l \<Longrightarrow> R d Blocked l"
      "\<And>d l. Q d Undef l \<Longrightarrow> R d Undef l"
  shows "emits obs (loop d) (R d)"
proof (rule emitsI)
  fix s
  show "\<exists>l. observe obs (snd (loop d s)) = observe obs s @ l \<and> R d (fst (loop d s)) l"
  proof (induction "length (script s)" arbitrary: d s rule: less_induct)
    case less
    show ?case
    proof (cases "d = []")
      case True
      then show ?thesis using finished by (simp add: loop_unfold)
    next
      case False
      obtain r s' where eq: "put d s = (r, s')" by (cases "put d s")
      from emitsE [OF put eq] obtain l where l: "observe obs s' = observe obs s @ l" "Q d r l" .
      show ?thesis
      proof (cases "\<exists>n. r = Ret n \<and> unat n \<le> length d")
        case True
        then obtain n where n: "r = Ret n" "unat n \<le> length d" by blast
        have "length (script s') < length (script s)"
          using put_consuming eq n(1) unfolding consuming_def by blast
        from less [OF this, of "drop (unat n) d"] obtain l' where
          l': "observe obs (snd (loop (drop (unat n) d) s')) = observe obs s' @ l'"
          "R (drop (unat n) d) (fst (loop (drop (unat n) d) s')) l'" by blast
        have "loop d s = loop (drop (unat n) d) s'"
          using False eq n by (subst loop_unfold) simp
        with l l' n False show ?thesis by (intro exI [of _ "l @ l'"]) (auto intro: more)
      next
        case stop: False
        with False eq l fail show ?thesis
          by (intro exI [of _ l], cases r) (auto simp: loop_unfold [of d s])
      qed
    qed
  qed
qed

lemma loop_emits: "emits sent_bytes (loop d) (\<lambda>r l. prefix l d \<and> (r = Ret () \<longrightarrow> l = d))"
proof (rule loop_rule [OF put_prefix, where R = "\<lambda>d r l. prefix l d \<and> (r = Ret () \<longrightarrow> l = d)"])
  fix d :: bytes and n :: u64 and l q l'
  assume "case Ret n of Ret n \<Rightarrow> l = take (unat n) d | _ \<Rightarrow> l = []" "prefix l' (drop (unat n) d) \<and>
    (q = Ret () \<longrightarrow> l' = drop (unat n) d)"
  moreover have "prefix (take (unat n) d @ x) d" if "prefix x (drop (unat n) d)" for x
    using that by (metis append_take_drop_id same_prefix_prefix)
  ultimately show "prefix (l @ l') d \<and> (q = Ret () \<longrightarrow> l @ l' = d)" by auto
qed (auto simp: take_is_prefix)

end

lemma send_pass_emits:
  "emits sent_bytes (send_pass sock tmo stop d) (\<lambda>r l. case r of Ret n \<Rightarrow> l = take (unat n) d | _ \<Rightarrow> l = [])"
  unfolding send_pass_def
  by (rule emits_bind [OF silent_remaining_time]) (auto intro!: emits_weaken [OF socket_send_emits] split: outcome.splits)

interpretation request_sink: byte_sink "send_pass sock tmo stop" "send_loop sock tmo stop"
  by unfold_locales (rule send_pass_emits send_loop.simps consuming_send_pass)+

text \<open>The read loop, with the postcondition carried from state to state.\<close>

lemma read_loop_rule:
  assumes pass: "emits obs (recv_pass sock tmo stop) Q"
    and closed: "\<And>st l. Q (Ret []) l \<Longrightarrow> R st (Ret (response st)) l"
    and data: "\<And>st d l e. d \<noteq> [] \<Longrightarrow> Q (Ret d) l \<Longrightarrow> on_data cr d st = Inl e \<Longrightarrow> R st (Throw e) l"
      "\<And>st d l r. d \<noteq> [] \<Longrightarrow> Q (Ret d) l \<Longrightarrow> on_data cr d st = Inr (Finished r) \<Longrightarrow> R st (Ret r) l"
      "\<And>st d l st' q l'. d \<noteq> [] \<Longrightarrow> Q (Ret d) l \<Longrightarrow> on_data cr d st = Inr (NeedMore st') \<Longrightarrow>
        R st' q l' \<Longrightarrow> R st q (l @ l')"
    and fail: "\<And>st e l. Q (Throw e) l \<Longrightarrow> R st (Throw e) l" "\<And>st l. Q Blocked l \<Longrightarrow> R st Blocked l"
      "\<And>st l. Q Undef l \<Longrightarrow> R st Undef l"
  shows "emits obs (read_loop cr sock tmo stop st) (R st)"
proof (rule emitsI)
  fix s
  let ?loop = "read_loop cr sock tmo stop"
  show "\<exists>l. observe obs (snd (?loop st s)) = observe obs s @ l \<and> R st (fst (?loop st s)) l"
  proof (induction "length (script s)" arbitrary: st s rule: less_induct)
    case less
    obtain r s' where eq: "recv_pass sock tmo stop s = (r, s')" by (cases "recv_pass sock tmo stop s")
    from emitsE [OF pass eq] obtain l where l: "observe obs s' = observe obs s @ l" "Q r l" .
    show ?case
    proof (cases "\<exists>d st'. r = Ret d \<and> d \<noteq> [] \<and> on_data cr d st = Inr (NeedMore st')")
      case True
      then obtain d st' where d: "r = Ret d" "d \<noteq> []" "on_data cr d st = Inr (NeedMore st')" by blast
      have "length (script s') < length (script s)"
        using consuming_recv_pass eq d(1) unfolding consuming_def by blast
      from less [OF this, of st'] obtain l' where
        l': "observe obs (snd (?loop st' s')) = observe obs s' @ l'" "R st' (fst (?loop st' s')) l'" by blast
      have "?loop st s = ?loop st' s'" using eq d by (subst read_loop.simps) simp
      with l l' d show ?thesis by (intro exI [of _ "l @ l'"]) (auto intro: data)
    next
      case False
      have "snd (?loop st s) = s' \<and> R st (fst (?loop st s)) l"
      proof (cases r)
        case (Ret d)
        with False l eq show ?thesis
          by (auto simp: read_loop.simps [of _ _ _ _ st s] closed intro: data split: sum.split step.split)
      qed (use l eq fail in \<open>simp_all add: read_loop.simps [of _ _ _ _ st s]\<close>)
      with l show ?thesis by blast
    qed
  qed
qed

lemma recv_pass_silent:
  assumes "\<And>r. obs ClockNow r = []" "\<And>t tv r. obs (SysSelect sock t tv) r = []"
    "\<And>n r. obs (SysRecv sock n) r = []"
  shows "silent obs (recv_pass sock tmo stop)"
  unfolding recv_pass_def socket_recv_def
  by (intro silent_intros silent_remaining_time silent_select) (simp_all add: assms)

lemma read_loop_silent:
  assumes "\<And>r. obs ClockNow r = []" "\<And>t tv r. obs (SysSelect sock t tv) r = []"
    "\<And>n r. obs (SysRecv sock n) r = []"
  shows "silent obs (read_loop cr sock tmo stop st)"
  by (rule read_loop_rule [OF recv_pass_silent, where R = "\<lambda>_ _ l. l = []"]) (simp_all add: assms)

lemma send_loop_silent:
  assumes "\<And>r. obs ClockNow r = []" "\<And>t tv r. obs (SysSelect sock t tv) r = []"
    "\<And>d r. obs (SysSend sock d) r = []"
  shows "silent obs (send_loop sock tmo stop d)"
proof (rule request_sink.loop_rule [where Q = "\<lambda>_ _ l. l = []" and R = "\<lambda>_ _ l. l = []"])
  show "silent obs (send_pass sock tmo stop d)" for d
    unfolding send_pass_def socket_send_def
    by (intro silent_intros silent_remaining_time silent_select) (simp_all add: assms)
qed simp_all

lemma exchange_sent:
  "emits sent_bytes (exchange cr sock tmo stop d) (\<lambda>r l. prefix l d \<and> ((\<exists>x. r = Ret x) \<longrightarrow> l = d))"
  unfolding exchange_def
  apply (rule emits_bind [OF silent_remaining_time], simp)
     apply (rule emits_bind [OF silent_connect], simp_all)
  apply (rule emits_bind [OF request_sink.loop_emits], simp_all)
  apply (rule emits_weaken [OF read_loop_silent])
     apply simp_all
  done

text \<open>The blocks read and the response returned.\<close>

lemma recv_pass_received:
  "emits received_blocks (recv_pass sock tmo stop)
     (\<lambda>r l. case r of Ret d \<Rightarrow> l = [d] | Undef \<Rightarrow> True | _ \<Rightarrow> l = [])"
  unfolding recv_pass_def
  by (rule emits_bind [OF silent_remaining_time]) (auto intro!: emits_weaken [OF socket_recv_emits] split: outcome.splits)

lemma read_loop_received:
  "emits received_blocks (read_loop cr sock tmo stop st)
     (\<lambda>r l. (\<forall>x. r = Ret x \<longrightarrow> read_blocks cr st l = Some (Inr x)))"
  by (rule read_loop_rule [OF recv_pass_received, where R = "\<lambda>st r l. (\<forall>x. r = Ret x \<longrightarrow> read_blocks cr st l = Some (Inr x))"])
    auto

lemma exchange_received:
  "emits received_blocks (exchange cr sock tmo stop d)
     (\<lambda>r l. (\<forall>x. r = Ret x \<longrightarrow> read_blocks cr init_recv l = Some (Inr x)))"
  unfolding exchange_def
  apply (rule emits_bind [OF silent_remaining_time], simp)
     apply (rule emits_bind [OF silent_connect], simp_all)
  apply (rule emits_bind [OF send_loop_silent], simp_all)
  apply (rule read_loop_received)
  done

section \<open>Resources\<close>

lemma exchange_resources: "silent resource_events (exchange cr sock tmo stop d)"
  unfolding exchange_def
  by (intro silent_bind silent_remaining_time silent_connect send_loop_silent read_loop_silent) simp_all

definition socket_scope :: "'a outcome \<Rightarrow> resource_event list \<Rightarrow> bool" where
  "socket_scope r l = (case r of
       Ret x \<Rightarrow> \<exists>fd. l = [Acquire (Descriptor fd), Release (Descriptor fd)]
     | Throw e \<Rightarrow> l = [] \<or> (\<exists>fd. l = [Acquire (Descriptor fd), Release (Descriptor fd)])
     | _ \<Rightarrow> True)"

lemma with_socket_resources:
  assumes "\<And>fd. silent resource_events (scope fd)"
  shows "emits resource_events (with_socket p scope) socket_scope"
  unfolding with_socket_def
proof (rule emits_bind [OF Socket_new_emits])
  fix fd l
  assume "ctor_events (Ret fd) l"
  then have fd: "fd \<noteq> -1" "l = [Acquire (Descriptor fd)]" by (simp_all add: ctor_events_def)
  then have del: "Socket_delete fd = socket_close fd" by (simp add: Socket_delete_def)
  show "emits resource_events (io_finally (scope fd) (Socket_delete fd)) (\<lambda>r l2. socket_scope r (l @ l2))"
    unfolding del fd(2)
    by (rule emits_finally [OF assms]; (rule emits_weaken [OF socket_close_emits])?)
      (auto simp: socket_scope_def)
qed (auto simp: socket_scope_def ctor_events_def)

definition address_scope :: "'a outcome \<Rightarrow> resource_event list \<Rightarrow> bool" where
  "address_scope r l = (case r of
       Ret x \<Rightarrow> \<exists>q. l = [Acquire AddressInfo] @ q @ [Release AddressInfo] \<and> socket_scope r q
     | Throw e \<Rightarrow> l = [] \<or> (\<exists>q. l = [Acquire AddressInfo] @ q @ [Release AddressInfo] \<and> socket_scope r q)
     | _ \<Rightarrow> True)"

lemma with_address_resources:
  assumes "emits resource_events scope socket_scope"
  shows "emits resource_events (with_address h p scope) address_scope"
proof -
  have free: "emits resource_events (io_bind (sys FreeAddrInfo) (\<lambda>_. io_ret ()))
      (\<lambda>r l. (r = Ret () \<and> l = [Release AddressInfo]) \<or> (r = Blocked \<and> l = []))"
    by (rule emits_bind [OF emits_sys [where P = "\<lambda>r l. (\<exists>a. r = Ret a \<and> l = [Release AddressInfo])
       \<or> (r = Blocked \<and> l = [])"]]) (auto intro!: emits_intros)
  have scope: "emits resource_events (io_finally scope (io_bind (sys FreeAddrInfo) (\<lambda>_. io_ret ())))
      (\<lambda>r l. address_scope r (Acquire AddressInfo # l))"
    by (rule emits_finally [OF assms]; (rule emits_weaken [OF free])?)
      (auto simp: address_scope_def)
  show ?thesis
    unfolding with_address_def
    by (rule emits_bind [OF emits_sys [where P = "\<lambda>r l. case r of
        Ret a \<Rightarrow> l = (if rv a = 0 then [Acquire AddressInfo] else []) | Blocked \<Rightarrow> l = [] | _ \<Rightarrow> False"]])
      (use scope in \<open>auto intro!: emits_throw_errno simp: address_scope_def [of "Throw e" for e] address_scope_def [of Blocked]\<close>)
qed

text \<open>The prologue of \<^verbatim>\<open>send\<close> adds nothing; the rest is the scope of the address list.\<close>

lemma Request_send_rule:
  assumes clock: "\<And>r. obs ClockNow r = []"
    and fail: "\<And>e. P (Throw e) []" "P Blocked []" "P Undef []"
    and scope: "\<And>stop pn. emits obs (with_address (host (uri req)) pn
      (io_bind (io_lift (encodeHtml (uri req) meth bdy hfs)) (\<lambda>requestData.
        with_socket (internetProtocol req) (\<lambda>sock. exchange cr sock tmo stop requestData)))) P"
  shows "emits obs (Request_send cr req meth bdy hfs tmo) P"
proof -
  have family: "emits obs (io_lift (getAddressFamily (internetProtocol req))) (\<lambda>r l. l = [] \<and> r \<noteq> Undef \<and> r \<noteq> Blocked)"
    by (rule emits_lift) auto
  have rest: "emits obs (if c then io_undef else if c' then io_throw e
      else io_bind (io_lift (getAddressFamily (internetProtocol req))) (\<lambda>family.
        with_address (host (uri req)) pn (io_bind (io_lift (encodeHtml (uri req) meth bdy hfs)) (\<lambda>requestData.
          with_socket (internetProtocol req) (\<lambda>sock. exchange cr sock tmo stop requestData))))) P"
    for c c' e pn stop
    by (intro emits_if emits_undef emits_throw emits_bind [OF family]) (auto simp: fail scope)
  show ?thesis
    unfolding Request_send_def Let_def
    by (rule emits_bind [OF silent_sys]) (simp_all only: clock fail rest append_Nil)
qed

lemma Request_send_resources:
  "emits resource_events (Request_send cr req meth bdy hfs tmo) address_scope"
proof (rule Request_send_rule)
  fix stop pn
  have "emits resource_events (io_bind (io_lift (encodeHtml (uri req) meth bdy hfs)) (\<lambda>requestData.
      with_socket (internetProtocol req) (\<lambda>sock. exchange cr sock tmo stop requestData))) socket_scope"
    by (rule emits_bind [OF emits_lift [where P = "\<lambda>r l. l = [] \<and> r \<noteq> Undef \<and> r \<noteq> Blocked"]])
      (auto simp: socket_scope_def [of "Throw e" for e] intro!: with_socket_resources exchange_resources)
  then show "emits resource_events (with_address (host (uri req)) pn
      (io_bind (io_lift (encodeHtml (uri req) meth bdy hfs)) (\<lambda>requestData.
        with_socket (internetProtocol req) (\<lambda>sock. exchange cr sock tmo stop requestData)))) address_scope"
    by (rule with_address_resources)
qed (simp_all add: address_scope_def)

text \<open>For the other observations the scopes are transparent.\<close>

lemma with_scopes_rule:
  assumes quiet: "\<And>h p r. obs (GetAddrInfo h p) r = []" "\<And>r. obs FreeAddrInfo r = []"
      "\<And>f r. obs (SysSocket f) r = []" "\<And>fd r. obs (FcntlGetFl fd) r = []"
      "\<And>fd n r. obs (FcntlSetFl fd n) r = []" "\<And>fd r. obs (SysClose fd) r = []"
    and fail: "\<And>e. P (Throw e) []" "P Blocked []" "P Undef []"
    and blocked: "\<And>x l. P (Ret x) l \<Longrightarrow> P Blocked l" "\<And>e l. P (Throw e) l \<Longrightarrow> P Blocked l"
    and scope: "\<And>fd d. r = Inr d \<Longrightarrow> emits obs (work fd d) P"
  shows "emits obs (with_address h pn (io_bind (io_lift r) (\<lambda>d. with_socket ip (\<lambda>fd. work fd d)))) P"
proof -
  have close: "emits obs (Socket_delete fd) (\<lambda>r l. l = [] \<and> (r = Ret () \<or> r = Blocked))" for fd
    unfolding Socket_delete_def socket_close_def
    by (intro emits_if emits_ret emits_bind [OF emits_sys [where P = "\<lambda>r l. l = [] \<and> r \<noteq> Undef \<and> (\<forall>e. r \<noteq> Throw e)"]])
      (auto simp: quiet intro!: emits_ret)
  have free: "emits obs (io_bind (sys FreeAddrInfo) (\<lambda>_. io_ret ())) (\<lambda>r l. l = [] \<and> (r = Ret () \<or> r = Blocked))"
    by (rule emits_bind [OF emits_sys [where P = "\<lambda>r l. l = [] \<and> r \<noteq> Undef \<and> (\<forall>e. r \<noteq> Throw e)"]])
      (auto simp: quiet intro!: emits_ret)
  have fin: "emits obs (io_finally m c) P"
    if "emits obs m P" "emits obs c (\<lambda>r l. l = [] \<and> (r = Ret () \<or> r = Blocked))" for m :: "'b io" and c
    by (rule emits_finally [OF that(1)]; (rule emits_weaken [OF that(2)])?) (auto intro: blocked)
  have new: "emits obs (Socket_new ip) (\<lambda>r l. l = [] \<and> r \<noteq> Undef)"
    by (rule emits_also [OF silent_Socket_new Socket_new_emits]) (auto simp: quiet ctor_events_def)
  have sock: "emits obs (with_socket ip (\<lambda>fd. work fd d)) P" if "r = Inr d" for d
    unfolding with_socket_def
    by (rule emits_bind [OF new]) (use fin [OF scope [OF that] close] fail in auto)
  have enc: "emits obs (io_bind (io_lift r) (\<lambda>d. with_socket ip (\<lambda>fd. work fd d))) P"
    using sock fail by (cases r) (auto simp: io_bind_def io_ret_def io_throw_def emits_def)
  show ?thesis
    unfolding with_address_def
    by (rule emits_bind [OF emits_sys [where P = "\<lambda>r l. l = [] \<and> r \<noteq> Undef \<and> (\<forall>e. r \<noteq> Throw e)"]])
      (use fin [OF enc free] fail in \<open>auto simp: quiet intro!: emits_throw_errno\<close>)
qed

section \<open>Properties of a request\<close>

text \<open>
  (C4) Resources.  Whenever \<^verbatim>\<open>send\<close> returns or throws, everything it acquired has
  been released, exactly once and in the reverse order: the socket it opened is closed, then
  the address list is freed, whatever the system answered to any call.
\<close>

theorem send_releases_resources:
  assumes "Request_send cr req meth bdy hfs tmo s = (r, s')"
  shows "\<exists>l. observe resource_events s' = observe resource_events s @ l \<and>
    (case r of
       Ret x \<Rightarrow> \<exists>fd. l = [Acquire AddressInfo, Acquire (Descriptor fd), Release (Descriptor fd), Release AddressInfo]
     | Throw e \<Rightarrow> l = [] \<or> l = [Acquire AddressInfo, Release AddressInfo] \<or>
         (\<exists>fd. l = [Acquire AddressInfo, Acquire (Descriptor fd), Release (Descriptor fd), Release AddressInfo])
     | _ \<Rightarrow> True)"
proof -
  from emitsE [OF Request_send_resources assms] obtain l where
    "observe resource_events s' = observe resource_events s @ l" "address_scope r l" .
  then show ?thesis
    by (intro exI [of _ l]) (auto simp: address_scope_def socket_scope_def split: outcome.splits)
qed

definition transmits :: "bytes result \<Rightarrow> 'a outcome \<Rightarrow> bytes \<Rightarrow> bool" where
  "transmits enc r l = (case enc of
       Inl e \<Rightarrow> l = [] \<and> (\<forall>x. r \<noteq> Ret x)
     | Inr d \<Rightarrow> prefix l d \<and> ((\<exists>x. r = Ret x) \<longrightarrow> l = d))"

lemma Request_send_sent:
  "emits sent_bytes (Request_send cr req meth bdy hfs tmo) (transmits (encodeHtml (uri req) meth bdy hfs))"
  by (rule Request_send_rule; (rule with_scopes_rule)?)
    (auto simp: transmits_def split: sum.splits intro: emits_weaken [OF exchange_sent])

text \<open>
  (C3) The request reaches the kernel unaltered.  Whatever the system answers (short writes,
  interrupted calls, errors, timeouts), the bytes it accepted are a prefix of the encoded
  request, in order and without repetition; when \<^verbatim>\<open>send\<close> returns a response they
  are the whole request.  A request that cannot be encoded sends nothing.
\<close>

theorem send_transmits_request:
  assumes "Request_send cr req meth bdy hfs tmo s = (r, s')"
  shows "\<exists>l. observe sent_bytes s' = observe sent_bytes s @ l \<and>
    (case encodeHtml (uri req) meth bdy hfs of
       Inl e \<Rightarrow> l = [] \<and> (\<forall>x. r \<noteq> Ret x)
     | Inr d \<Rightarrow> prefix l d \<and> ((\<exists>x. r = Ret x) \<longrightarrow> l = d))"
  using emitsE [OF Request_send_sent assms] unfolding transmits_def by blast

lemma Request_send_received:
  "emits received_blocks (Request_send cr req meth bdy hfs tmo)
     (\<lambda>r l. \<forall>x. r = Ret x \<longrightarrow> read_blocks cr init_recv l = Some (Inr x))"
  by (rule Request_send_rule; (rule with_scopes_rule)?) (auto intro: exchange_received)

text \<open>
  (C6) The response is a function of the received blocks: when \<^verbatim>\<open>send\<close> returns, its
  result is what the response reader makes of exactly the blocks the kernel delivered.
\<close>

theorem send_returns_parsed_response:
  assumes "Request_send cr req meth bdy hfs tmo s = (Ret x, s')"
  shows "\<exists>blocks. observe received_blocks s' = observe received_blocks s @ blocks \<and>
    read_blocks cr init_recv blocks = Some (Inr x)"
  using emitsE [OF Request_send_received assms] by blast

lemma remaining_time_cases:
  assumes "remaining_time tmo stop s = (Ret t, s')"
  shows "(t \<ge> 0) = (tmo \<ge> 0)"
  using assms by (auto simp: remaining_time_def getRemainingMilliseconds_def io_bind_Ret_iff Let_def split: if_splits)

lemma remaining_time_limits:
  "emits time_limits (remaining_time tmo stop) (\<lambda>r l. l = [] \<and> (\<forall>t. r = Ret t \<longrightarrow> (t \<ge> 0) = (tmo \<ge> 0)))"
proof (rule emitsI)
  fix s
  have "observe time_limits (snd (remaining_time tmo stop s)) = observe time_limits s"
    using silent_remaining_time [of time_limits tmo stop] by (auto simp: emits_def)
  then show "\<exists>l. observe time_limits (snd (remaining_time tmo stop s)) = observe time_limits s @ l \<and>
      l = [] \<and> (\<forall>t. fst (remaining_time tmo stop s) = Ret t \<longrightarrow> (t \<ge> 0) = (tmo \<ge> 0))"
    using remaining_time_cases [of tmo stop s] by (metis append_Nil2 prod.collapse)
qed

lemma limited_timed:
  assumes "\<And>t. (t \<ge> 0) = (tmo \<ge> 0) \<Longrightarrow> limited_by (tmo \<ge> 0) (f t)"
  shows "limited_by (tmo \<ge> 0) (io_bind (remaining_time tmo stop) f)"
  by (rule emits_bind [OF remaining_time_limits]) (use assms in auto)

lemma limited_loops:
  "limited_by (tmo \<ge> 0) (send_loop sock tmo stop d)" "limited_by (tmo \<ge> 0) (read_loop cr sock tmo stop st)"
proof -
  have "limited_by (tmo \<ge> 0) (send_pass sock tmo stop d)" for d
    unfolding send_pass_def by (intro limited_timed limited_socket) simp
  then show "limited_by (tmo \<ge> 0) (send_loop sock tmo stop d)"
    by (rule request_sink.loop_rule [where Q = "\<lambda>_ _ l. list_all (limit_ok (tmo \<ge> 0)) l"]) simp_all
  have "limited_by (tmo \<ge> 0) (recv_pass sock tmo stop)"
    unfolding recv_pass_def by (intro limited_timed limited_socket) simp
  then show "limited_by (tmo \<ge> 0) (read_loop cr sock tmo stop st)"
    by (rule read_loop_rule) simp_all
qed

lemma limited_exchange: "limited_by (tmo \<ge> 0) (exchange cr sock tmo stop d)"
  unfolding exchange_def by (intro limited_timed limited_bind limited_socket limited_loops) simp

text \<open>
  Timeouts.  With a timeout, every wait of the request has a time limit that is a valid
  \<^verbatim>\<open>timeval\<close>; with the default -1, no wait has one.
\<close>

theorem send_time_limits:
  assumes "Request_send cr req meth bdy hfs tmo s = (r, s')"
  shows "\<exists>l. observe time_limits s' = observe time_limits s @ l \<and> list_all (limit_ok (tmo \<ge> 0)) l"
proof -
  have "limited_by (tmo \<ge> 0) (Request_send cr req meth bdy hfs tmo)"
    by (rule Request_send_rule; (rule with_scopes_rule)?) (auto intro: limited_exchange)
  from emitsE [OF this assms] show ?thesis by blast
qed

section \<open>A request that completes\<close>

text \<open>
  A cooperating system: the calls succeed, the connection is made at once or is pending and then made, the kernel takes
  the request in pieces of the sizes \<open>ns\<close> and delivers the given blocks.
\<close>

definition ans :: "int \<Rightarrow> sysret" where
  "ans n = \<lparr>rv = n, err = 0, optval = 0, payload = [],
     dev_cap = \<lparr>driver = [], card = [], bus_info = [], capabilities = 0\<rparr>,
     dev_fmt = \<lparr>buf_type = 0, pix_width = 0, pix_height = 0, pixelformat = 0\<rparr>, encodings = [],
     buf_index = 0, buf_planes = 0, buf_bytesused = (\<lambda>_. 0)\<rparr>"

definition accepting :: "nat list \<Rightarrow> sysret list" where
  "accepting ns = concat (map (\<lambda>n. [ans 1, ans (int n)]) ns)"

definition delivering :: "bytes list \<Rightarrow> sysret list" where
  "delivering blocks = concat (map (\<lambda>b. [ans 1, (ans (int (length b)))\<lparr>payload := b\<rparr>]) blocks)"

definition connecting :: "bool \<Rightarrow> sysret list" where
  "connecting pending = (if pending then [(ans (-1))\<lparr>err := EINPROGRESS\<rparr>, ans 1, ans 0] else [ans 0])"

definition cooperating :: "int \<Rightarrow> int \<Rightarrow> int \<Rightarrow> bool \<Rightarrow> nat list \<Rightarrow> bytes list \<Rightarrow> sysret list \<Rightarrow> sysret list" where
  "cooperating now fd flags pending ns blocks rest =
     [ans now, ans 0, ans fd, ans flags, ans 0] @ connecting pending @ accepting ns @ delivering blocks @ rest"

lemma ans_sel [simp]: "rv (ans n) = n" "payload (ans n) = []" "optval (ans n) = 0"
  by (simp_all add: ans_def)

lemma sys_Cons [simp]:
  "script s = r # rs \<Longrightarrow> sys c s = (Ret r, s\<lparr>script := rs, trace := trace s @ [(c, r)],
     errno := if rv r < 0 then err r else errno s\<rparr>)"
  by (simp add: sys_def)

lemma sys_next: "script s = r # rs \<Longrightarrow> \<exists>t. sys c s = (Ret r, t) \<and> script t = rs"
  by simp

lemma sys_retry_Cons:
  "script s = r # rs \<Longrightarrow> rv r \<noteq> -1 \<Longrightarrow> sys_retry c s = (Ret r, s\<lparr>script := rs, trace := trace s @ [(c, r)],
     errno := if rv r < 0 then err r else errno s\<rparr>)"
  by (subst sys_retry.simps) simp

lemma select_ready:
  assumes "script s = ans 1 # rs" "0 \<le> fd" "fd < FD_SETSIZE"
  shows "\<exists>s'. socket_select fd t tmo s = (Ret (), s') \<and> script s' = rs"
  using assms by (simp add: socket_select_def io_bind_def sys_retry_Cons)

lemma connect_completes:
  assumes "script s = connecting pending @ rs" "0 \<le> fd" "fd < FD_SETSIZE"
  shows "\<exists>s'. socket_connect fd tmo s = (Ret (), s') \<and> script s' = rs"
proof (cases pending)
  case True
  let ?s = "s\<lparr>script := ans 1 # ans 0 # rs, trace := trace s @ [(SysConnect fd, (ans (-1))\<lparr>err := EINPROGRESS\<rparr>)], errno := EINPROGRESS\<rparr>"
  have "sys_retry (SysConnect fd) s = (Ret ((ans (-1))\<lparr>err := EINPROGRESS\<rparr>), ?s)"
    using True assms(1) by (subst sys_retry.simps) (simp add: connecting_def)
  moreover from select_ready [of ?s "ans 0 # rs" fd SelectWrite tmo] assms(2,3) obtain t where
    "socket_select fd SelectWrite tmo ?s = (Ret (), t)" "script t = ans 0 # rs" by auto
  ultimately show ?thesis by (simp add: socket_connect_def)
next
  case False
  then show ?thesis using assms(1) by (simp add: connecting_def socket_connect_def sys_retry_Cons)
qed

lemma send_loop_completes:
  assumes "script s = accepting ns @ rst" "sum_list ns = length d" "0 \<notin> set ns" "length d < 2 ^ 63"
    and "0 \<le> fd" "fd < FD_SETSIZE" "tmo < 0"
  shows "\<exists>s'. send_loop fd tmo stop d s = (Ret (), s') \<and> script s' = rst"
  using assms(1-4)
proof (induction ns arbitrary: d s)
  case Nil
  then show ?case by (simp add: send_loop.simps accepting_def)
next
  case (Cons n ns)
  have n: "0 < n" "n \<le> length d" using Cons.prems by auto
  then have un: "unat (word_of_int (int n) :: u64) = n" using Cons.prems(4)
    by (simp add: unat_of_nat_u64)
  from Cons.prems(1) have "script s = ans 1 # ans (int n) # accepting ns @ rst"
    by (simp add: accepting_def)
  from select_ready [OF this assms(5,6)] obtain t where
    t: "socket_select fd SelectWrite (-1) s = (Ret (), t)" "script t = ans (int n) # accepting ns @ rst" by blast
  then obtain u where u: "send_pass fd tmo stop d s = (Ret (word_of_int (int n)), u)" "script u = accepting ns @ rst"
    using n assms(7) by (simp add: send_pass_def remaining_time_def socket_send_def sys_retry_Cons)
  have "\<exists>s'. send_loop fd tmo stop (drop n d) u = (Ret (), s') \<and> script s' = rst"
    using Cons.prems n u(2) by (intro Cons.IH) auto
  moreover have "send_loop fd tmo stop d s = send_loop fd tmo stop (drop n d) u"
    using n u(1) un by (subst send_loop.simps) auto
  ultimately show ?case by simp
qed

lemma read_loop_completes:
  assumes "script s = delivering blocks @ rest" "read_blocks cr st blocks = Some (Inr x)"
    and "list_all (\<lambda>b. length b \<le> 4096) blocks" "0 \<le> fd" "fd < FD_SETSIZE" "tmo < 0"
  shows "\<exists>s'. read_loop cr fd tmo stop st s = (Ret x, s') \<and> length (script s') \<ge> length rest"
  using assms(1-3)
proof (induction blocks arbitrary: st s)
  case Nil
  then show ?case by simp
next
  case (Cons b blocks)
  let ?r = "(ans (int (length b)))\<lparr>payload := b\<rparr>"
  from Cons.prems(1) have "script s = ans 1 # ?r # delivering blocks @ rest"
    by (simp add: delivering_def)
  from select_ready [OF this assms(4,5)] obtain t where
    t: "socket_select fd SelectRead (-1) s = (Ret (), t)" "script t = ?r # delivering blocks @ rest" by blast
  then obtain u where u: "recv_pass fd tmo stop s = (Ret b, u)" "script u = delivering blocks @ rest"
    using Cons.prems(3) assms(6) by (simp add: recv_pass_def remaining_time_def socket_recv_def sys_retry_Cons)
  have len: "length (script u) \<ge> length rest" using u(2) by simp
  show ?case
  proof (cases "b = [] \<or> (\<exists>r. on_data cr b st = Inr (Finished r))")
    case True
    with Cons.prems(2) u(1) len show ?thesis by (subst read_loop.simps) auto
  next
    case False
    with Cons.prems(2) obtain st' where n: "on_data cr b st = Inr (NeedMore st')"
      "read_blocks cr st' blocks = Some (Inr x)" by (auto split: sum.splits step.splits)
    with False u(1) have "read_loop cr fd tmo stop st s = read_loop cr fd tmo stop st' u"
      by (subst read_loop.simps) auto
    with Cons.IH [OF u(2) n(2)] Cons.prems(3) show ?thesis by simp
  qed
qed

lemma Request_send_completes:
  assumes "scheme (uri req) = ''http''" "internetProtocol req = V4 \<or> internetProtocol req = V6"
    and "encodeHtml (uri req) meth bdy hfs = Inr d" "sum_list ns = length d" "0 \<notin> set ns" "length d < 2 ^ 63"
    and "read_blocks cr init_recv blocks = Some (Inr x)" "list_all (\<lambda>b. length b \<le> 4096) blocks"
    and "0 \<le> fd" "fd < FD_SETSIZE" "0 \<le> flags" "0 \<le> now" "now < 2 ^ 63"
    and "script s = cooperating now fd flags pending ns blocks (c # f # rest)"
  shows "\<exists>s'. Request_send cr req meth bdy hfs (-1) s = (Ret x, s') \<and> length (script s') \<ge> length rest"
proof -
  obtain family where family: "getAddressFamily (internetProtocol req) = Inr family"
    using assms(2) by (auto simp: getAddressFamily_def)
  have ex: "\<exists>u. exchange cr fd (-1) stop d t = (Ret x, u) \<and> length (script u) \<ge> 2 + length rest"
    if t: "script t = connecting pending @ accepting ns @ delivering blocks @ c # f # rest" for stop t
  proof -
    from connect_completes [OF t assms(9,10)] obtain t1 where t1: "socket_connect fd (-1) t = (Ret (), t1)"
      "script t1 = accepting ns @ delivering blocks @ c # f # rest" by blast
    from send_loop_completes [OF t1(2) assms(4-6,9,10), of "-1"] obtain t2 where
      t2: "send_loop fd (-1) stop d t1 = (Ret (), t2)" "script t2 = delivering blocks @ c # f # rest" by auto
    from read_loop_completes [OF t2(2) assms(7-10), of "-1"] obtain u where
      "read_loop cr fd (-1) stop init_recv t2 = (Ret x, u)" "length (script u) \<ge> length (c # f # rest)" by auto
    with t1 t2 show ?thesis by (simp add: exchange_def remaining_time_def)
  qed
  have close: "\<exists>u'. Socket_delete fd u = (Ret (), u') \<and> length (script u') \<ge> 1 + length rest" if "length (script u) \<ge> 2 + length rest" for u
    using that assms(9) by (cases "script u") (auto simp: Socket_delete_def socket_close_def)
  have free: "\<exists>u'. io_bind (sys FreeAddrInfo) (\<lambda>_. io_ret ()) u = (Ret (), u') \<and> length (script u') \<ge> length rest" if "length (script u) \<ge> 1 + length rest" for u
    using that by (cases "script u") auto
  have sock: "\<exists>u. with_socket (internetProtocol req) (\<lambda>sock. exchange cr sock (-1) stop d) t = (Ret x, u)
      \<and> length (script u) \<ge> 1 + length rest"
    if t: "script t = [ans fd, ans flags, ans 0] @ connecting pending @ accepting ns @ delivering blocks @ c # f # rest" for stop t
  proof -
    from t assms(9,11) obtain t1 where t1: "Socket_new (internetProtocol req) t = (Ret fd, t1)"
      "script t1 = connecting pending @ accepting ns @ delivering blocks @ c # f # rest"
      by (simp add: Socket_new_def family)
    from ex [OF this(2)] obtain u where u: "exchange cr fd (-1) stop d t1 = (Ret x, u)" "length (script u) \<ge> 2 + length rest" by blast
    from close [OF u(2)] u t1 show ?thesis by (auto simp: with_socket_def io_finally_def)
  qed
  have addr: "\<exists>u. with_address h pn (io_bind (io_ret d) (\<lambda>d.
      with_socket (internetProtocol req) (\<lambda>sock. exchange cr sock (-1) stop d))) t = (Ret x, u) \<and> length (script u) \<ge> length rest"
    if t: "script t = ans 0 # [ans fd, ans flags, ans 0] @ connecting pending @ accepting ns @ delivering blocks @ c # f # rest"
    for h pn stop t
  proof -
    let ?t = "t\<lparr>script := tl (script t), trace := trace t @ [(GetAddrInfo (c_str h) pn, ans 0)]\<rparr>"
    have "script ?t = [ans fd, ans flags, ans 0] @ connecting pending @ accepting ns @ delivering blocks @ c # f # rest"
      using t by simp
    from sock [OF this] obtain u where
      u: "with_socket (internetProtocol req) (\<lambda>sock. exchange cr sock (-1) stop d) ?t = (Ret x, u)"
      "length (script u) \<ge> 1 + length rest" by blast
    from free [OF u(2)] u(1) t show ?thesis by (auto simp: with_address_def io_finally_def)
  qed
  from assms(14) have s: "script s = ans now # ans 0 # [ans fd, ans flags, ans 0] @ connecting pending @ accepting ns @ delivering blocks @ c # f # rest"
    by (simp add: cooperating_def)
  show ?thesis
    using s assms(1,3,12,13) family addr by (simp add: Request_send_def Let_def)
qed

text \<open>
  (C7) A request without a timeout succeeds on a system that lets it succeed: every call succeeds, the connection is made at
  once or after waiting for it, the kernel takes the request in pieces of any sizes, and it delivers blocks with which
  the reader finishes.  Then \<^verbatim>\<open>send\<close> terminates and returns what the reader makes of the blocks.  For a
  response with its header section in the first block this is the response that was sent, wherever the rest is cut; for a block that
  ends inside the header section the reader finishes too, with an empty response.
\<close>

theorem send_completes:
  assumes "scheme (uri req) = ''http''" "internetProtocol req = V4 \<or> internetProtocol req = V6"
    and "encodeHtml (uri req) meth bdy hfs = Inr d" "sum_list ns = length d" "0 \<notin> set ns" "length d < 2 ^ 63"
    and "read_blocks cr init_recv blocks = Some (Inr x)" "list_all (\<lambda>b. length b \<le> 4096) blocks"
    and "0 \<le> fd" "fd < FD_SETSIZE" "0 \<le> flags" "0 \<le> now" "now < 2 ^ 63"
    and "script s = cooperating now fd flags pending ns blocks (c # f # rest)"
  shows "\<exists>s'. Request_send cr req meth bdy hfs (-1) s = (Ret x, s')"
  using Request_send_completes [OF assms] by blast

end
