(* ===== verification/Sdp.thy ===== *)
theory Sdp
  imports Wadi_Prelude
begin

text \<open>
  \<^verbatim>\<open>WHIPSession::SDPForceCodecs\<close> (\<^verbatim>\<open>whip.cpp\<close>): the filter that leaves only
  the allowed codecs in the session description sent to the server.  String positions are
  64-bit words, as \<^verbatim>\<open>std::string::size_type\<close> is: \<^verbatim>\<open>npos\<close> is the largest
  one and the arithmetic on positions wraps around.
\<close>

section \<open>Strings with positions\<close>

abbreviation npos :: u64 where "npos \<equiv> - 1"

definition contains :: "string \<Rightarrow> string \<Rightarrow> bool" where
  "contains pat s \<longleftrightarrow> search pat s \<noteq> None"

definition find_first_of :: "char \<Rightarrow> string \<Rightarrow> u64" where
  "find_first_of c s = (case find_char c s of None \<Rightarrow> npos | Some p \<Rightarrow> of_nat p)"

definition find_from :: "char \<Rightarrow> string \<Rightarrow> u64 \<Rightarrow> u64" where
  "find_from c s pos =
     (if unat pos > length s then npos
      else case find_char c (drop (unat pos) s) of None \<Rightarrow> npos | Some p \<Rightarrow> pos + of_nat p)"

definition substr :: "string \<Rightarrow> u64 \<Rightarrow> u64 \<Rightarrow> string result" where
  "substr s pos n =
     (if unat pos > length s then Inl OutOfRange else Inr (take (unat n) (drop (unat pos) s)))"

text \<open>\<^verbatim>\<open>getline\<close> on a string stream until it fails.\<close>

function getlines :: "string \<Rightarrow> string list" where
  "getlines s =
     (if s = [] then []
      else takeWhile (\<lambda>c. c \<noteq> LF) s # getlines (drop (Suc (length (takeWhile (\<lambda>c. c \<noteq> LF) s))) s))"
  by pat_completeness auto
termination
  by (relation "measure length") auto

declare getlines.simps [simp del]

section \<open>The filter\<close>

record sdp_state =
  osdpstream :: string
  rtmapstream :: string
  midstream :: string
  current_mline :: string
  allowed_ids :: "string list"

definition sdp_init :: sdp_state where
  "sdp_init = \<lparr>osdpstream = [], rtmapstream = [], midstream = [], current_mline = [], allowed_ids = []\<rparr>"

definition rtpmap_id :: "string \<Rightarrow> string result" where
  "rtpmap_id line = (let space = find_first_of CHR '' '' line in substr line 9 (space - 9))"

definition rtpmap_codec :: "string \<Rightarrow> string result" where
  "rtpmap_codec line =
     (let space = find_first_of CHR '' '' line; slash = find_first_of CHR ''/'' line
      in substr line (space + 1) (slash - space - 1))"

definition on_rtpmap :: "string list \<Rightarrow> string \<Rightarrow> sdp_state \<Rightarrow> sdp_state result" where
  "on_rtpmap allowed_codecs line st =
     rbind (rtpmap_id line) (\<lambda>codec_id.
     rbind (rtpmap_codec line) (\<lambda>codec.
       if codec \<in> set allowed_codecs
       then Inr (st\<lparr>allowed_ids := allowed_ids st @ [codec_id], rtmapstream := rtmapstream st @ line @ crlf\<rparr>)
       else Inr st))"

definition param_id :: "string \<Rightarrow> string result" where
  "param_id line =
     (let space = find_first_of CHR '' '' line; dots = find_first_of CHR '':'' line
      in substr line (dots + 1) (space - dots - 1))"

definition on_param :: "string \<Rightarrow> sdp_state \<Rightarrow> sdp_state result" where
  "on_param line st =
     rbind (param_id line) (\<lambda>codec_id.
       if codec_id \<in> set (allowed_ids st)
       then Inr (st\<lparr>rtmapstream := rtmapstream st @ line @ crlf\<rparr>)
       else Inr st)"

definition mline_no_codecs :: "string \<Rightarrow> string result" where
  "mline_no_codecs mline =
     (let space = find_from CHR '' '' mline 0;
          space = find_from CHR '' '' mline (space + 1);
          space = find_from CHR '' '' mline (space + 1)
      in substr mline 0 space)"

text \<open>Closing the video section at its first \<^verbatim>\<open>a=ssrc\<close> line.\<close>

definition flush_section :: "sdp_state \<Rightarrow> sdp_state result" where
  "flush_section st =
     rbind (mline_no_codecs (current_mline st)) (\<lambda>m.
       Inr (st\<lparr>osdpstream := osdpstream st @ m @ concat (map (\<lambda>i. '' '' @ i) (allowed_ids st)) @ crlf
                            @ midstream st @ rtmapstream st,
              midstream := [], rtmapstream := [], current_mline := []\<rparr>))"

definition on_other :: "string \<Rightarrow> sdp_state \<Rightarrow> sdp_state" where
  "on_other line st =
     (if current_mline st \<noteq> [] then st\<lparr>midstream := midstream st @ line @ crlf\<rparr>
      else st\<lparr>osdpstream := osdpstream st @ line @ crlf\<rparr>)"

definition sdp_line :: "string list \<Rightarrow> string \<Rightarrow> sdp_state \<Rightarrow> sdp_state result" where
  "sdp_line allowed_codecs line st =
     (if contains ''m=video'' line then Inr (st\<lparr>current_mline := line\<rparr>)
      else if contains ''a=rtpmap'' line then on_rtpmap allowed_codecs line st
      else if contains ''a=rtcp-fb'' line \<or> contains ''a=fmtp'' line then on_param line st
      else
        rbind (if contains ''a=ssrc'' line \<and> current_mline st \<noteq> [] then flush_section st else Inr st)
          (\<lambda>st. Inr (on_other line st)))"

fun sdp_loop :: "string list \<Rightarrow> string list \<Rightarrow> sdp_state \<Rightarrow> sdp_state result" where
  "sdp_loop allowed_codecs [] st = Inr st"
| "sdp_loop allowed_codecs (line # lines) st =
     rbind (sdp_line allowed_codecs line st) (sdp_loop allowed_codecs lines)"

definition SDPForceCodecs :: "string \<Rightarrow> string list \<Rightarrow> string result" where
  "SDPForceCodecs sdp allowed_codecs =
     rbind (sdp_loop allowed_codecs (getlines sdp) sdp_init) (\<lambda>st. Inr (osdpstream st))"

section \<open>Lines and positions\<close>

definition unlines :: "string list \<Rightarrow> string" where
  "unlines ls = concat (map (\<lambda>l. l @ crlf) ls)"

lemma unlines_simps [simp]:
  "unlines [] = []" "unlines (l # ls) = l @ crlf @ unlines ls" "unlines (a @ b) = unlines a @ unlines b"
  by (simp_all add: unlines_def)

lemma getlines_Nil [simp]: "getlines [] = []"
  by (simp add: getlines.simps)

lemma getlines_line: "LF \<notin> set l \<Longrightarrow> getlines (l @ LF # s) = l # getlines s"
proof -
  assume "LF \<notin> set l"
  then have "takeWhile (\<lambda>c. c \<noteq> LF) (l @ LF # s) = l"
    by (subst takeWhile_append2) auto
  then show ?thesis by (subst getlines.simps) simp
qed

text \<open>What was written as lines is read back as lines, with the carriage return in the line.\<close>

lemma getlines_unlines:
  "\<forall>l\<in>set ls. LF \<notin> set l \<Longrightarrow> getlines (unlines ls) = map (\<lambda>l. l @ [CR]) ls"
proof (induction ls)
  case (Cons l ls)
  have "unlines (l # ls) = (l @ [CR]) @ LF # unlines ls" by simp
  moreover have "LF \<notin> set (l @ [CR])" using Cons.prems by simp
  ultimately have "getlines (unlines (l # ls)) = (l @ [CR]) # getlines (unlines ls)"
    using getlines_line [of "l @ [CR]"] by metis
  with Cons show ?case by simp
qed simp

lemma find_first_of_append:
  "c \<notin> set a \<Longrightarrow> find_first_of c (a @ c # b) = of_nat (length a)"
  by (simp add: find_first_of_def)

lemma substr_of_nat:
  "p < 2 ^ 64 \<Longrightarrow> n < 2 ^ 64 \<Longrightarrow>
     substr s (of_nat p) (of_nat n) = (if p > length s then Inl OutOfRange else Inr (take n (drop p s)))"
  by (simp add: substr_def)

text \<open>The parts of an rtpmap line \<^verbatim>\<open>a=rtpmap:<id> <codec>/...\<close>\<close>

lemma rtpmap_parts:
  assumes "CHR '' '' \<notin> set i" "CHR ''/'' \<notin> set i" "CHR ''/'' \<notin> set c"
    and "length i + length c < 2 ^ 32"
  shows "rtpmap_id (''a=rtpmap:'' @ i @ '' '' @ c @ ''/'' @ r) = Inr i"
    and "rtpmap_codec (''a=rtpmap:'' @ i @ '' '' @ c @ ''/'' @ r) = Inr c"
proof -
  let ?l = "''a=rtpmap:'' @ i @ '' '' @ c @ ''/'' @ r"
  have sp: "find_first_of CHR '' '' ?l = of_nat (9 + length i)"
    using find_first_of_append [of "CHR '' ''" "''a=rtpmap:'' @ i" "c @ ''/'' @ r"] assms(1) by simp
  have "?l = (''a=rtpmap:'' @ i @ '' '' @ c) @ CHR ''/'' # r" by simp
  moreover have "CHR ''/'' \<notin> set (''a=rtpmap:'' @ i @ '' '' @ c)" using assms(2,3) by simp
  ultimately have "find_first_of CHR ''/'' ?l = of_nat (length (''a=rtpmap:'' @ i @ '' '' @ c))"
    using find_first_of_append [of "CHR ''/''" "''a=rtpmap:'' @ i @ '' '' @ c"] by metis
  then have sl: "find_first_of CHR ''/'' ?l = of_nat (10 + length i + length c)" by simp
  have "(of_nat (9 + length i) :: u64) - 9 = of_nat (length i)" by simp
  then show "rtpmap_id ?l = Inr i"
    unfolding rtpmap_id_def Let_def sp substr_def using assms(4) by simp
  have dr: "drop (10 + length i) ?l = c @ ''/'' @ r" by (simp add: numeral_eq_Suc)
  have "(of_nat (10 + length i + length c) :: u64) - of_nat (9 + length i) - 1 = of_nat (length c)"
    and "(of_nat (9 + length i) :: u64) + 1 = of_nat (10 + length i)" by simp_all
  then show "rtpmap_codec ?l = Inr c"
    unfolding rtpmap_codec_def Let_def sp sl using assms(4) dr by (simp add: substr_of_nat del: of_nat_add)
qed

section \<open>Only allowed codecs leave the filter\<close>

text \<open>
  \<open>allowed_in L C i\<close>: a line of the offer maps the payload type \<open>i\<close> to one of the codecs
  \<open>C\<close>.  A line of the output is an input line that mentions no other codec, or the line of
  the video section with its payload types replaced by allowed ones.
\<close>

definition allowed_in :: "string list \<Rightarrow> string list \<Rightarrow> string \<Rightarrow> bool" where
  "allowed_in L C i \<longleftrightarrow> (\<exists>l\<in>set L. contains ''a=rtpmap'' l \<and> rtpmap_id l = Inr i \<and>
     (\<exists>c\<in>set C. rtpmap_codec l = Inr c))"

definition is_param :: "string \<Rightarrow> bool" where
  "is_param l \<longleftrightarrow> \<not> contains ''a=rtpmap'' l \<and> (contains ''a=rtcp-fb'' l \<or> contains ''a=fmtp'' l)"

definition kept_line :: "string list \<Rightarrow> string list \<Rightarrow> string \<Rightarrow> bool" where
  "kept_line L C l \<longleftrightarrow> l \<in> set L \<and> \<not> contains ''m=video'' l \<and>
     (contains ''a=rtpmap'' l \<longrightarrow> (\<exists>c\<in>set C. rtpmap_codec l = Inr c)) \<and>
     (is_param l \<longrightarrow> (\<exists>i. param_id l = Inr i \<and> allowed_in L C i))"

definition rewritten_mline :: "string list \<Rightarrow> string list \<Rightarrow> string \<Rightarrow> bool" where
  "rewritten_mline L C l \<longleftrightarrow> (\<exists>m\<in>set L. \<exists>p ids. contains ''m=video'' m \<and> mline_no_codecs m = Inr p \<and>
     l = p @ concat (map (\<lambda>i. '' '' @ i) ids) \<and> (\<forall>i\<in>set ids. allowed_in L C i))"

definition lines_of :: "(string \<Rightarrow> bool) \<Rightarrow> string \<Rightarrow> bool" where
  "lines_of P s \<longleftrightarrow> (\<exists>ls. s = unlines ls \<and> list_all P ls)"

lemma lines_of_Nil [simp]: "lines_of P []"
  unfolding lines_of_def by (intro exI [of _ "[]"]) simp

lemma lines_of_append [intro]: "lines_of P a \<Longrightarrow> lines_of P b \<Longrightarrow> lines_of P (a @ b)"
  unfolding lines_of_def by (metis list_all_append unlines_simps(3))

lemma lines_of_line [intro]: "P l \<Longrightarrow> lines_of P (l @ crlf)"
  unfolding lines_of_def by (intro exI [of _ "[l]"]) simp

lemma lines_of_mono: "lines_of P s \<Longrightarrow> (\<And>l. P l \<Longrightarrow> Q l) \<Longrightarrow> lines_of Q s"
  unfolding lines_of_def by (metis list.pred_mono_strong)

definition sdp_inv :: "string list \<Rightarrow> string list \<Rightarrow> sdp_state \<Rightarrow> bool" where
  "sdp_inv L C st \<longleftrightarrow>
     lines_of (\<lambda>l. kept_line L C l \<or> rewritten_mline L C l) (osdpstream st) \<and>
     lines_of (kept_line L C) (rtmapstream st) \<and> lines_of (kept_line L C) (midstream st) \<and>
     (current_mline st \<noteq> [] \<longrightarrow> current_mline st \<in> set L \<and> contains ''m=video'' (current_mline st)) \<and>
     (\<forall>i\<in>set (allowed_ids st). allowed_in L C i)"

lemma sdp_inv_rtpmap:
  assumes "sdp_inv L C st" "l \<in> set L" "\<not> contains ''m=video'' l" "contains ''a=rtpmap'' l"
    and "on_rtpmap C l st = Inr st'"
  shows "sdp_inv L C st'"
proof -
  from assms(5) obtain i c where ic: "rtpmap_id l = Inr i" "rtpmap_codec l = Inr c"
    "st' = (if c \<in> set C then st\<lparr>allowed_ids := allowed_ids st @ [i], rtmapstream := rtmapstream st @ l @ crlf\<rparr> else st)"
    by (auto simp: on_rtpmap_def rbind_eq_Inr split: if_splits)
  show ?thesis
  proof (cases "c \<in> set C")
    case True
    with assms ic have "allowed_in L C i" "kept_line L C l"
      by (auto simp: allowed_in_def kept_line_def is_param_def)
    with assms(1) ic True show ?thesis by (auto simp: sdp_inv_def)
  next
    case False
    with assms(1) ic show ?thesis by simp
  qed
qed

lemma sdp_inv_param:
  assumes "sdp_inv L C st" "l \<in> set L" "\<not> contains ''m=video'' l" "is_param l" "on_param l st = Inr st'"
  shows "sdp_inv L C st'"
proof -
  from assms(5) obtain i where i: "param_id l = Inr i"
    "st' = (if i \<in> set (allowed_ids st) then st\<lparr>rtmapstream := rtmapstream st @ l @ crlf\<rparr> else st)"
    by (auto simp: on_param_def rbind_eq_Inr split: if_splits)
  show ?thesis
  proof (cases "i \<in> set (allowed_ids st)")
    case True
    with assms i have "kept_line L C l" by (auto simp: kept_line_def is_param_def sdp_inv_def)
    with assms(1) i True show ?thesis by (auto simp: sdp_inv_def)
  next
    case False
    with assms(1) i show ?thesis by simp
  qed
qed

lemma sdp_inv_flush:
  assumes "sdp_inv L C st" "current_mline st \<noteq> []" "flush_section st = Inr st'"
  shows "sdp_inv L C st'"
proof -
  let ?P = "\<lambda>l. kept_line L C l \<or> rewritten_mline L C l"
  from assms(3) obtain m where m: "mline_no_codecs (current_mline st) = Inr m"
    "st' = st\<lparr>osdpstream := osdpstream st @ m @ concat (map (\<lambda>i. '' '' @ i) (allowed_ids st)) @ crlf
        @ midstream st @ rtmapstream st, midstream := [], rtmapstream := [], current_mline := []\<rparr>"
    by (auto simp: flush_section_def rbind_eq_Inr)
  have "?P (m @ concat (map (\<lambda>i. '' '' @ i) (allowed_ids st)))"
    using assms(1,2) m(1) by (auto simp: rewritten_mline_def sdp_inv_def)
  from lines_of_line [where P = ?P, OF this]
  have "lines_of ?P (m @ concat (map (\<lambda>i. '' '' @ i) (allowed_ids st)) @ crlf)" by simp
  moreover have "lines_of ?P (osdpstream st)" "lines_of ?P (midstream st)" "lines_of ?P (rtmapstream st)"
    using assms(1) lines_of_mono [of "kept_line L C" _ ?P] by (simp_all add: sdp_inv_def)
  ultimately have "lines_of ?P (osdpstream st @ (m @ concat (map (\<lambda>i. '' '' @ i) (allowed_ids st)) @ crlf)
      @ midstream st @ rtmapstream st)" by - ((rule lines_of_append, assumption)+, assumption)
  with assms(1) m(2) show ?thesis by (simp add: sdp_inv_def)
qed

lemma sdp_inv_other:
  assumes "sdp_inv L C st" "kept_line L C l"
  shows "sdp_inv L C (on_other l st)"
  using assms by (auto simp: sdp_inv_def on_other_def)

lemma sdp_inv_line:
  assumes "sdp_inv L C st" "l \<in> set L" "sdp_line C l st = Inr st'"
  shows "sdp_inv L C st'"
proof -
  consider (mline) "contains ''m=video'' l" | (rtpmap) "\<not> contains ''m=video'' l" "contains ''a=rtpmap'' l"
    | (param) "\<not> contains ''m=video'' l" "is_param l"
    | (other) "\<not> contains ''m=video'' l" "\<not> contains ''a=rtpmap'' l" "\<not> is_param l"
    by blast
  then show ?thesis
  proof cases
    case mline
    with assms show ?thesis by (auto simp: sdp_line_def sdp_inv_def)
  next
    case rtpmap
    with assms show ?thesis by (auto simp: sdp_line_def intro: sdp_inv_rtpmap)
  next
    case param
    with assms show ?thesis by (auto simp: sdp_line_def is_param_def intro: sdp_inv_param)
  next
    case other
    then have "kept_line L C l" using assms(2) by (simp add: kept_line_def)
    with other assms show ?thesis
      by (auto simp: sdp_line_def is_param_def rbind_eq_Inr split: if_splits
          intro: sdp_inv_other sdp_inv_flush)
  qed
qed

lemma sdp_inv_loop:
  "sdp_inv L C st \<Longrightarrow> set ls \<subseteq> set L \<Longrightarrow> sdp_loop C ls st = Inr st' \<Longrightarrow> sdp_inv L C st'"
  by (induction ls arbitrary: st) (auto simp: rbind_eq_Inr dest: sdp_inv_line)

lemma SDPForceCodecs_lines:
  assumes "SDPForceCodecs sdp C = Inr out"
  shows "\<exists>ls. out = unlines ls \<and>
    list_all (\<lambda>l. kept_line (getlines sdp) C l \<or> rewritten_mline (getlines sdp) C l) ls"
proof -
  from assms obtain st where st: "sdp_loop C (getlines sdp) sdp_init = Inr st" "out = osdpstream st"
    by (auto simp: SDPForceCodecs_def rbind_eq_Inr)
  have "sdp_inv (getlines sdp) C sdp_init" by (simp add: sdp_inv_def sdp_init_def)
  from sdp_inv_loop [OF this _ st(1)] st(2) show ?thesis by (simp add: sdp_inv_def lines_of_def)
qed

text \<open>
  (C9) The filter leaves no other codec.  Whatever the offer, every line of the result is
  either an unchanged line of the offer whose rtpmap names an allowed codec (or whose format
  parameters belong to the payload type of one, or that has neither), or the video line with
  its payload types replaced by payload types of allowed codecs.
\<close>

theorem SDPForceCodecs_only_allowed:
  assumes "SDPForceCodecs sdp C = Inr out"
  shows "\<exists>ls. out = unlines ls \<and>
    list_all (\<lambda>l. kept_line (getlines sdp) C l \<or> rewritten_mline (getlines sdp) C l) ls"
  using assms by (rule SDPForceCodecs_lines)

section \<open>Errors\<close>

lemma find_char_less: "find_char c s = Some p \<Longrightarrow> p < length s"
  by (drule find_char_SomeD) blast

lemma unat_of_nat_le: "unat (of_nat n :: 'a::len word) \<le> n"
  by (simp add: unat_of_nat take_bit_eq_mod)

lemma after_first_of: "unat (find_first_of c s + 1) \<le> length s"
proof (cases "find_char c s")
  case None
  then show ?thesis by (simp add: find_first_of_def)
next
  case (Some p)
  then have eq: "find_first_of c s + 1 = of_nat (Suc p)" by (simp add: find_first_of_def add.commute)
  show ?thesis unfolding eq
    using unat_of_nat_le [of "Suc p", where 'a = 64] find_char_less [OF Some] by linarith
qed

lemma rtpmap_codec_total: "\<exists>c. rtpmap_codec l = Inr c"
  using after_first_of [of "CHR '' ''" l] by (auto simp: rtpmap_codec_def substr_def Let_def)

lemma param_id_total: "\<exists>i. param_id l = Inr i"
  using after_first_of [of "CHR '':''" l] by (auto simp: param_id_def substr_def Let_def)

lemma mline_no_codecs_total: "\<exists>p. mline_no_codecs m = Inr p"
  by (auto simp: mline_no_codecs_def substr_def Let_def)

lemma rtpmap_id_throws:
  assumes "contains ''a=rtpmap'' l"
  shows "rtpmap_id l = (if l = ''a=rtpmap'' then Inl OutOfRange
     else Inr (take (unat (find_first_of CHR '' '' l - 9)) (drop 9 l)))"
proof -
  from assms obtain p where "search ''a=rtpmap'' l = Some p" by (auto simp: contains_def)
  from search_SomeD [OF this] have p: "p + 8 \<le> length l" "take 8 (drop p l) = ''a=rtpmap''"
    by (simp_all add: numeral_eq_Suc)
  have "length l < 9 \<longleftrightarrow> l = ''a=rtpmap''"
  proof
    assume "length l < 9"
    with p(1) have "p = 0" "length l = 8" by auto
    with p(2) show "l = ''a=rtpmap''" by simp
  qed simp
  then show ?thesis by (auto simp: rtpmap_id_def substr_def Let_def)
qed

lemma sdp_line_error:
  "sdp_line C l st = Inl e \<longleftrightarrow> e = OutOfRange \<and> l = ''a=rtpmap''"
proof (cases "\<not> contains ''m=video'' l \<and> contains ''a=rtpmap'' l")
  case True
  obtain c where "rtpmap_codec l = Inr c" using rtpmap_codec_total by blast
  with True show ?thesis by (auto simp: sdp_line_def on_rtpmap_def rtpmap_id_throws)
next
  case False
  obtain i p where "param_id l = Inr i" "mline_no_codecs (current_mline st) = Inr p"
    using param_id_total mline_no_codecs_total by blast
  moreover have "l \<noteq> ''a=rtpmap''" using False by (auto simp: contains_def)
  ultimately show ?thesis using False by (auto simp: sdp_line_def on_param_def flush_section_def)
qed

lemma sdp_loop_error:
  "sdp_loop C ls st = Inl e \<longleftrightarrow> e = OutOfRange \<and> ''a=rtpmap'' \<in> set ls"
proof (induction ls arbitrary: st)
  case (Cons l ls)
  show ?case
  proof (cases "sdp_line C l st")
    case (Inl x)
    then have "x = OutOfRange \<and> l = ''a=rtpmap''" by (simp add: sdp_line_error)
    with Inl show ?thesis by auto
  next
    case (Inr st')
    then have "l \<noteq> ''a=rtpmap''" using sdp_line_error [of C l st OutOfRange] by auto
    with Inr Cons show ?thesis by auto
  qed
qed simp

text \<open>
  (C11) When the filter throws.  The only exception is \<^verbatim>\<open>std::out_of_range\<close>, and it is
  thrown exactly for a description with a line that is the bare attribute \<^verbatim>\<open>a=rtpmap\<close>;
  every other input is filtered, also where a separator is missing and the arithmetic on
  positions wraps around.
\<close>

theorem SDPForceCodecs_throws_iff:
  "(\<exists>out. SDPForceCodecs sdp C = Inr out) = (''a=rtpmap'' \<notin> set (getlines sdp)) \<and>
   (SDPForceCodecs sdp C = Inl e) = (e = OutOfRange \<and> ''a=rtpmap'' \<in> set (getlines sdp))"
proof -
  have "(SDPForceCodecs sdp C = Inl e) = (e = OutOfRange \<and> ''a=rtpmap'' \<in> set (getlines sdp))" for e
    by (auto simp: SDPForceCodecs_def rbind_eq_Inl sdp_loop_error)
  then show ?thesis by (cases "SDPForceCodecs sdp C") auto
qed

section \<open>A video section\<close>


















end
