(* ===== verification/Config.thy ===== *)
theory Config
  imports Http_Chars
begin

text \<open>
  The command line (\<^verbatim>\<open>main.cpp\<close>): \<^verbatim>\<open>parse_args\<close>,
  \<^verbatim>\<open>WadiConfig\<close> with its defaults and \<^verbatim>\<open>FromArgs\<close>, and the way
  \<^verbatim>\<open>main\<close> turns the configured device into an index.
\<close>

section \<open>Arguments\<close>

record ParsedArgs =
  named :: "string \<rightharpoonup> string"
  positional :: "string list"

text \<open>\<^verbatim>\<open>token[0] == '-'\<close>; the element after the last one is NUL.\<close>

definition is_flag :: "string \<Rightarrow> bool" where
  "is_flag token \<longleftrightarrow> token \<noteq> [] \<and> hd token = CHR ''-''"

definition arg_step :: "string \<Rightarrow> ParsedArgs \<times> string option \<Rightarrow> ParsedArgs \<times> string option" where
  "arg_step token st = (case st of (args, key) \<Rightarrow>
     let args = (case key of
           Some k \<Rightarrow> args\<lparr>named := (named args)(k \<mapsto> (if is_flag token then ''true'' else token))\<rparr>
         | None \<Rightarrow> args)
     in if is_flag token then (args, Some (drop 1 token))
        else ((if key = None then args\<lparr>positional := positional args @ [token]\<rparr> else args), None))"

fun arg_loop :: "string list \<Rightarrow> ParsedArgs \<times> string option \<Rightarrow> ParsedArgs \<times> string option" where
  "arg_loop [] st = st"
| "arg_loop (token # ts) st = arg_loop ts (arg_step token st)"

definition parse_args :: "string list \<Rightarrow> ParsedArgs" where
  "parse_args argv = fst (arg_loop (drop 1 argv) (\<lparr>named = Map.empty, positional = []\<rparr>, None))"

section \<open>Numbers and characters of the C library\<close>

text \<open>
  \<^verbatim>\<open>atoi\<close>: white space, a sign, digits; \<^const>\<open>None\<close> when the value is not an
  \<^verbatim>\<open>int\<close>, where the C standard leaves the behaviour undefined.
\<close>

definition isspace :: "char \<Rightarrow> bool" where
  "isspace c \<longleftrightarrow> ord c = 0x20 \<or> (0x09 \<le> ord c \<and> ord c \<le> 0x0D)"

definition digits_prefix :: "string \<Rightarrow> int" where
  "digits_prefix s = int (numeral_value 10 hex_value (takeWhile isDigitChar s))"

definition atoi :: "string \<Rightarrow> int option" where
  "atoi s =
     (let s = dropWhile isspace s;
          n = (if s \<noteq> [] \<and> hd s = CHR ''-'' then - digits_prefix (tl s)
               else if s \<noteq> [] \<and> hd s = CHR ''+'' then digits_prefix (tl s)
               else digits_prefix s)
      in if - (2 ^ 31) \<le> n \<and> n < 2 ^ 31 then Some n else None)"

definition toUpperChar :: "char \<Rightarrow> char" where
  "toUpperChar c = (if 0x61 \<le> ord c \<and> ord c \<le> 0x7A then char_of (ord c - 32) else c)"

section \<open>Configuration\<close>

record CaptureTrackConfig =
  width :: u32
  height :: u32
  fps :: u32
  fourcc :: "char list"

record WadiConfig =
  whip_endpoint :: string
  video_device :: string
  capture_config :: CaptureTrackConfig

definition WadiConfig_default :: WadiConfig where
  "WadiConfig_default = \<lparr>whip_endpoint = ''http://localhost:8889/wadi/whip'', video_device = ''0'',
     capture_config = \<lparr>width = 1280, height = 720, fps = 30, fourcc = ''I420''\<rparr>\<rparr>"

text \<open>\<^verbatim>\<open>config.capture_config.width = atoi(args.named["w"].c_str())\<close> when the option is there.\<close>

definition numeric_option :: "ParsedArgs \<Rightarrow> string \<Rightarrow> u32 \<Rightarrow> u32 option" where
  "numeric_option args k dflt = (case named args k of
       None \<Rightarrow> Some dflt
     | Some v \<Rightarrow> map_option word_of_int (atoi v))"

text \<open>\<^verbatim>\<open>mempcpy\<close> of at most four characters over the default.\<close>

definition fourcc_option :: "ParsedArgs \<Rightarrow> char list \<Rightarrow> char list" where
  "fourcc_option args dflt = (case named args ''c'' of
       None \<Rightarrow> dflt
     | Some v \<Rightarrow> let n = (if length v > 4 then 4 else length v)
                 in take n (map toUpperChar v) @ drop n dflt)"

text \<open>\<^const>\<open>None\<close>: a numeric option is not an \<^verbatim>\<open>int\<close>.\<close>

definition FromArgs :: "string list \<Rightarrow> WadiConfig option" where
  "FromArgs argv =
     (let args = parse_args argv; config = WadiConfig_default; cc = capture_config config;
          config = (if length (positional args) > 0 then config\<lparr>whip_endpoint := positional args ! 0\<rparr> else config);
          config = (case named args ''d'' of Some v \<Rightarrow> config\<lparr>video_device := v\<rparr> | None \<Rightarrow> config)
      in case numeric_option args ''w'' (width cc) of
           None \<Rightarrow> None
         | Some w \<Rightarrow> (case numeric_option args ''h'' (height cc) of
             None \<Rightarrow> None
           | Some h \<Rightarrow> (case numeric_option args ''r'' (fps cc) of
               None \<Rightarrow> None
             | Some r \<Rightarrow> Some (config\<lparr>capture_config :=
                 \<lparr>width = w, height = h, fps = r, fourcc = fourcc_option args (fourcc cc)\<rparr>\<rparr>))))"

text \<open>
  \<^verbatim>\<open>main\<close>: the prefix \<^verbatim>\<open>/dev/video\<close> is cut off and the rest is converted to the
  8-bit index that \<^verbatim>\<open>AddCaptureDevice\<close> takes; there it becomes a path again.
\<close>

abbreviation BASE_VIDEO_PATH :: string where "BASE_VIDEO_PATH \<equiv> ''/dev/video''"

definition device_index :: "string \<Rightarrow> u8 option" where
  "device_index videoDevice =
     (let dev = (if search BASE_VIDEO_PATH videoDevice = Some 0
                 then drop (length BASE_VIDEO_PATH) videoDevice else videoDevice)
      in map_option word_of_int (atoi dev))"

definition device_path :: "u8 \<Rightarrow> string" where
  "device_path device_idx = ''/dev/video'' @ to_string (unat device_idx)"

section \<open>Reading back a command line\<close>

text \<open>
  A command line as the user means it: positional arguments, options with a value, and flags,
  which must be followed by an option or another flag to be recognised as such.
\<close>

datatype arg_item = Pos string | Opt string string | Flag string

fun item_tokens :: "arg_item \<Rightarrow> string list" where
  "item_tokens (Pos p) = [p]"
| "item_tokens (Opt k v) = [''-'' @ k, v]"
| "item_tokens (Flag k) = [''-'' @ k]"

fun items_ok :: "arg_item list \<Rightarrow> bool" where
  "items_ok [] = True"
| "items_ok (Pos p # items) = (\<not> is_flag p \<and> items_ok items)"
| "items_ok (Opt k v # items) = (\<not> is_flag v \<and> items_ok items)"
| "items_ok (Flag k # items) = (items_ok items \<and> (case items of Opt _ _ # _ \<Rightarrow> True | Flag _ # _ \<Rightarrow> True | _ \<Rightarrow> False))"

fun item_named :: "arg_item \<Rightarrow> (string \<times> string) list" where
  "item_named (Pos p) = []"
| "item_named (Opt k v) = [(k, v)]"
| "item_named (Flag k) = [(k, ''true'')]"

fun item_positional :: "arg_item \<Rightarrow> string list" where
  "item_positional (Pos p) = [p]"
| "item_positional _ = []"

definition items_args :: "arg_item list \<Rightarrow> ParsedArgs" where
  "items_args items = \<lparr>named = map_of (rev (concat (map item_named items))),
     positional = concat (map item_positional items)\<rparr>"

lemma is_flag_dash [simp]: "is_flag (CHR ''-'' # k)"
  by (simp add: is_flag_def)

lemma arg_loop_append: "arg_loop (a @ b) st = arg_loop b (arg_loop a st)"
  by (induction a arbitrary: st) auto

definition starts_flag :: "arg_item list \<Rightarrow> bool" where
  "starts_flag items \<longleftrightarrow> (case items of Opt _ _ # _ \<Rightarrow> True | Flag _ # _ \<Rightarrow> True | _ \<Rightarrow> False)"

lemma arg_loop_items:
  assumes "items_ok items" "key = None \<or> starts_flag items"
  shows "fst (arg_loop (concat (map item_tokens items)) (args, key)) = args\<lparr>
      named := named args ++ map_of (rev ((case key of None \<Rightarrow> [] | Some k \<Rightarrow> [(k, ''true'')])
        @ concat (map item_named items))),
      positional := positional args @ concat (map item_positional items)\<rparr>"
  using assms
proof (induction items arbitrary: args key rule: items_ok.induct)
  case 1
  then show ?case by (simp add: starts_flag_def)
next
  case (2 p items)
  then have "key = None" by (simp add: starts_flag_def)
  with 2 show ?case by (simp add: arg_step_def)
next
  case (3 k v items)
  then show ?case by (cases key) (simp_all add: arg_step_def map_add_assoc)
next
  case (4 k items)
  then have "starts_flag items" by (simp add: starts_flag_def)
  with 4 show ?case by (cases key) (simp_all add: arg_step_def)
qed

lemma parse_items:
  "items_ok items \<Longrightarrow> parse_args (prog # concat (map item_tokens items)) = items_args items"
  using arg_loop_items [of items None "\<lparr>named = Map.empty, positional = []\<rparr>"]
  by (simp add: parse_args_def items_args_def)

lemma arg_loop_key:
  assumes "items_ok items"
  shows "snd (arg_loop (concat (map item_tokens items)) (args, None)) = None"
proof -
  have "snd (arg_loop (concat (map item_tokens items)) (args, key)) = None"
    if "key = None \<or> starts_flag items" for key
    using assms that
    by (induction items arbitrary: args key rule: items_ok.induct)
      (auto simp: starts_flag_def arg_step_def split: list.splits arg_item.splits option.splits)
  then show ?thesis by simp
qed

text \<open>
  (C18) Command lines are read as meant: positional arguments in order, every option with its
  value, the last one winning, and a flag followed by another option as \<^verbatim>\<open>true\<close>.
  A flag at the end of the command line is lost.
\<close>

theorem parse_args_items:
  assumes "items_ok items"
  shows "parse_args (prog # concat (map item_tokens items)) = items_args items \<and>
    parse_args (prog # concat (map item_tokens items) @ [''-'' @ k]) = items_args items"
proof
  show "parse_args (prog # concat (map item_tokens items)) = items_args items"
    by (rule parse_items [OF assms])
  obtain args key where loop: "arg_loop (concat (map item_tokens items)) (\<lparr>named = Map.empty, positional = []\<rparr>, None) = (args, key)"
    by force
  moreover have "key = None"
    using arg_loop_key [OF assms] loop by (metis snd_conv)
  ultimately show "parse_args (prog # concat (map item_tokens items) @ [''-'' @ k]) = items_args items"
    using parse_items [OF assms, of prog] by (simp add: parse_args_def arg_loop_append arg_step_def)
qed

section \<open>Numbers\<close>

lemma isDigitChar_plain: "isDigitChar c \<Longrightarrow> \<not> isspace c \<and> c \<noteq> CHR ''-'' \<and> c \<noteq> CHR ''+''"
  by (auto simp: isDigitChar_def isspace_def ord_def)

lemma atoi_digits:
  assumes "list_all isDigitChar s" "numeral_value 10 hex_value s < 2 ^ 31"
  shows "atoi s = Some (int (numeral_value 10 hex_value s))"
proof (cases s)
  case Nil
  then show ?thesis by (simp add: atoi_def digits_prefix_def numeral_value_def)
next
  case (Cons c t)
  with assms(1) have "isDigitChar c" by simp
  then have "dropWhile isspace s = s" "hd s \<noteq> CHR ''-''" "hd s \<noteq> CHR ''+''"
    using isDigitChar_plain [of c] Cons by auto
  moreover have "takeWhile isDigitChar s = s" using assms(1) by (simp add: takeWhile_eq_all_conv list_all_iff)
  ultimately show ?thesis using assms(2) by (simp add: atoi_def digits_prefix_def del: takeWhile_eq_all_conv)
qed

lemma atoi_to_string: "n < 2 ^ 31 \<Longrightarrow> atoi (to_string n) = Some (int n)"
  using atoi_digits [of "to_string n"] by (simp add: to_string_value list_all_iff to_string_digits)

lemma numeric_option_number:
  "named args k = Some (to_string n) \<Longrightarrow> n < 2 ^ 31 \<Longrightarrow> numeric_option args k dflt = Some (of_nat n)"
  by (simp add: numeric_option_def atoi_to_string)

lemma FromArgs_none: "FromArgs [prog] = Some WadiConfig_default"
  by (simp add: FromArgs_def parse_args_def WadiConfig_default_def numeric_option_def fourcc_option_def Let_def)

text \<open>
  The configuration of a command line.  With an endpoint, a device, a size, a rate and a
  format given in any order among other options, every field is the value given; a format of
  four characters or more is cut to four and put in upper case, a shorter one keeps the end of
  the default \<^verbatim>\<open>I420\<close>.  Without arguments the defaults hold.
\<close>

theorem FromArgs_items:
  assumes "items_ok items" "positional (items_args items) = e # es"
    and "named (items_args items) ''d'' = Some d"
    and "named (items_args items) ''w'' = Some (to_string w)" "w < 2 ^ 31"
    and "named (items_args items) ''h'' = Some (to_string h)" "h < 2 ^ 31"
    and "named (items_args items) ''r'' = Some (to_string r)" "r < 2 ^ 31"
    and "named (items_args items) ''c'' = Some c"
  shows "FromArgs (prog # concat (map item_tokens items)) = Some
    \<lparr>whip_endpoint = e, video_device = d, capture_config =
      \<lparr>width = of_nat w, height = of_nat h, fps = of_nat r,
       fourcc = (if length c \<ge> 4 then map toUpperChar (take 4 c)
                 else map toUpperChar c @ drop (length c) ''I420'')\<rparr>\<rparr> \<and>
    FromArgs [prog] = Some WadiConfig_default"
proof
  have "fourcc_option (items_args items) ''I420'' =
      (if length c \<ge> 4 then map toUpperChar (take 4 c) else map toUpperChar c @ drop (length c) ''I420'')"
    using assms(10) by (cases "length c = 4") (auto simp: fourcc_option_def Let_def take_map)
  then show "FromArgs (prog # concat (map item_tokens items)) = Some
    \<lparr>whip_endpoint = e, video_device = d, capture_config =
      \<lparr>width = of_nat w, height = of_nat h, fps = of_nat r,
       fourcc = (if length c \<ge> 4 then map toUpperChar (take 4 c)
                 else map toUpperChar c @ drop (length c) ''I420'')\<rparr>\<rparr>"
    using assms(2,3) parse_items [OF assms(1), of prog]
    by (simp add: FromArgs_def WadiConfig_default_def Let_def numeric_option_number [OF assms(4,5)]
        numeric_option_number [OF assms(6,7)] numeric_option_number [OF assms(8,9)])
  show "FromArgs [prog] = Some WadiConfig_default" by (rule FromArgs_none)
qed

text \<open>
  The device.  A number, bare or after \<^verbatim>\<open>/dev/video\<close>, selects the device node of that
  number as long as it fits the 8-bit index; a larger one selects another node, the number
  modulo 256.
\<close>

lemma device_path_index:
  assumes "n < 2 ^ 31"
  shows "map_option device_path (device_index (to_string n)) = Some (BASE_VIDEO_PATH @ to_string (n mod 256)) \<and>
    map_option device_path (device_index (BASE_VIDEO_PATH @ to_string n)) =
      Some (BASE_VIDEO_PATH @ to_string (n mod 256))"
proof
  have path: "device_path (of_nat n) = BASE_VIDEO_PATH @ to_string (n mod 256)"
    by (simp add: device_path_def unat_of_nat take_bit_eq_mod)
  have "isDigitChar (hd (to_string n))" using to_string_digits [of "hd (to_string n)" n] by simp
  then have "\<not> prefix BASE_VIDEO_PATH (to_string n)"
    by (cases "to_string n") (auto simp: isDigitChar_def ord_def)
  then have "search BASE_VIDEO_PATH (to_string n) \<noteq> Some 0"
    by (cases "to_string n") (auto split: if_splits)
  with path assms show "map_option device_path (device_index (to_string n)) = Some (BASE_VIDEO_PATH @ to_string (n mod 256))"
    by (simp add: device_index_def atoi_to_string)
  have "search BASE_VIDEO_PATH (BASE_VIDEO_PATH @ to_string n) = Some 0" by simp
  with path assms show "map_option device_path (device_index (BASE_VIDEO_PATH @ to_string n)) =
      Some (BASE_VIDEO_PATH @ to_string (n mod 256))"
    by (simp add: device_index_def atoi_to_string)
qed

end
