(* ===== verification/V4l.thy ===== *)
theory V4l
  imports Http_Socket
begin

text \<open>
  The camera (\<^verbatim>\<open>v4l.h\<close>, \<^verbatim>\<open>v4l.cpp\<close>): the class \<^verbatim>\<open>V4LDevice\<close>
  over the V4L2 driver, and pixel format codes.  \<^verbatim>\<open>framerate\<close> is an option: the
  constructor does not initialise it.
\<close>

section \<open>Pixel format codes\<close>

definition fourcc_to_string :: "u32 \<Rightarrow> string" where
  "fourcc_to_string pf =
     [char_of (unat (drop_bit 0 pf AND 0xFF)), char_of (unat (drop_bit 8 pf AND 0xFF)),
      char_of (unat (drop_bit 16 pf AND 0xFF)), char_of (unat (drop_bit 24 pf AND 0xFF))]"

text \<open>
  The macro \<^verbatim>\<open>v4l2_fourcc\<close> of \<^verbatim>\<open>linux/videodev2.h\<close>.  A \<^verbatim>\<open>char\<close> is
  signed, so its conversion to \<^verbatim>\<open>__u32\<close> extends the sign.
\<close>

definition char_u32 :: "char \<Rightarrow> u32" where
  "char_u32 c = word_of_int (if ord c < 128 then int (ord c) else int (ord c) - 256)"

definition v4l2_fourcc :: "char \<Rightarrow> char \<Rightarrow> char \<Rightarrow> char \<Rightarrow> u32" where
  "v4l2_fourcc a b c d =
     char_u32 a OR push_bit 8 (char_u32 b) OR push_bit 16 (char_u32 c) OR push_bit 24 (char_u32 d)"

section \<open>The device\<close>

abbreviation V4L2_BUF_TYPE_VIDEO_CAPTURE :: u32 where "V4L2_BUF_TYPE_VIDEO_CAPTURE \<equiv> 1"
abbreviation V4L2_CAP_VIDEO_CAPTURE :: u32 where "V4L2_CAP_VIDEO_CAPTURE \<equiv> 0x00000001"
abbreviation V4L2_CAP_VIDEO_CAPTURE_MPLANE :: u32 where "V4L2_CAP_VIDEO_CAPTURE_MPLANE \<equiv> 0x00001000"
abbreviation V4L2_CAP_STREAMING :: u32 where "V4L2_CAP_STREAMING \<equiv> 0x04000000"

record V4LDevice =
  cap :: v4l2_capability
  fmt :: v4l2_format
  framerate :: "u32 option"
  sysfs_path :: string
  dev_fd :: int

definition zero_cap :: v4l2_capability where
  "zero_cap = \<lparr>driver = [], card = [], bus_info = [], capabilities = 0\<rparr>"

definition zero_fmt :: v4l2_format where
  "zero_fmt = \<lparr>buf_type = 0, pix_width = 0, pix_height = 0, pixelformat = 0\<rparr>"

definition can_capture :: "V4LDevice \<Rightarrow> bool" where
  "can_capture dev \<longleftrightarrow> capabilities (cap dev) AND V4L2_CAP_VIDEO_CAPTURE \<noteq> 0 \<or>
     capabilities (cap dev) AND V4L2_CAP_VIDEO_CAPTURE_MPLANE \<noteq> 0"

definition can_stream :: "V4LDevice \<Rightarrow> bool" where
  "can_stream dev \<longleftrightarrow> capabilities (cap dev) AND V4L2_CAP_STREAMING \<noteq> 0"

definition v4l_open :: "V4LDevice \<Rightarrow> (V4LDevice \<times> int) io" where
  "v4l_open dev = io_bind (sys (SysOpen (sysfs_path dev))) (\<lambda>r.
     let dev = dev\<lparr>dev_fd := rv r\<rparr> in if dev_fd dev < 0 then io_ret (dev, -1) else io_ret (dev, 0))"

text \<open>A failed \<^verbatim>\<open>ioctl\<close> leaves the structure as it was.\<close>

definition fill_cap :: "V4LDevice \<Rightarrow> (V4LDevice \<times> int) io" where
  "fill_cap dev = io_bind (sys (SysIoctl (dev_fd dev) VIDIOC_QUERYCAP)) (\<lambda>r.
     if rv r < 0 then io_ret (dev, -1) else io_ret (dev\<lparr>cap := dev_cap r\<rparr>, 0))"

definition fill_format :: "V4LDevice \<Rightarrow> (V4LDevice \<times> int) io" where
  "fill_format dev =
     (let dev = dev\<lparr>fmt := (fmt dev)\<lparr>buf_type := V4L2_BUF_TYPE_VIDEO_CAPTURE\<rparr>\<rparr> in
      io_bind (sys (SysIoctl (dev_fd dev) VIDIOC_G_FMT)) (\<lambda>r.
        if rv r < 0 then io_ret (dev, 1) else io_ret (dev\<lparr>fmt := dev_fmt r\<rparr>, 0)))"

text \<open>\<^verbatim>\<open>VIDIOC_S_FMT\<close> writes the format the driver chose back into \<^verbatim>\<open>fmt\<close>.\<close>

definition sync_format :: "V4LDevice \<Rightarrow> (V4LDevice \<times> bool) io" where
  "sync_format dev =
     (let desired_format = fmt dev in
      io_bind (sys (SysIoctl (dev_fd dev) (VIDIOC_S_FMT (fmt dev)))) (\<lambda>r.
        if rv r < 0 then io_ret (dev, False)
        else io_bind (fill_format (dev\<lparr>fmt := dev_fmt r\<rparr>)) (\<lambda>(dev, _).
          io_ret (dev, pix_width (fmt dev) = pix_width desired_format \<and>
            pix_height (fmt dev) = pix_height desired_format \<and>
            pixelformat (fmt dev) = pixelformat desired_format))))"

text \<open>
  The constructor.  When it throws, the object was never complete and its destructor, which
  closes the descriptor, does not run.
\<close>

definition V4LDevice_new :: "string \<Rightarrow> V4LDevice io" where
  "V4LDevice_new devicePath =
     io_bind (v4l_open \<lparr>cap = zero_cap, fmt = zero_fmt, framerate = None, sysfs_path = devicePath, dev_fd = 0\<rparr>) (\<lambda>(dev, ret).
       if ret < 0 then io_throw (RuntimeError ''Failed to open video capture device'')
       else
         io_bind (fill_cap (dev\<lparr>fmt := zero_fmt, cap := zero_cap\<rparr>)) (\<lambda>(dev, _).
         io_bind (fill_format dev) (\<lambda>(dev, _).
           if \<not> can_capture dev then io_throw (RuntimeError ''Failed to capture video'')
           else if \<not> can_stream dev then io_throw (RuntimeError ''Failed to stream video'')
           else io_ret dev)))"

definition V4LDevice_delete :: "V4LDevice \<Rightarrow> unit io" where
  "V4LDevice_delete dev = io_bind (sys (SysClose (dev_fd dev))) (\<lambda>_. io_ret ())"

section \<open>Pixel format codes are reversible\<close>

lemma char_u32_ascii: "ord c < 128 \<Longrightarrow> char_u32 c = ucast (to_u8 c)"
  by (rule word_unat_eq_iff [THEN iffD2])
    (simp add: char_u32_def unsigned_ucast_eq unat_of_nat take_bit_nat_eq_self)

lemma u32_bytes:
  fixes a b c d :: u8
  defines "w \<equiv> (ucast a OR push_bit 8 (ucast b) OR push_bit 16 (ucast c) OR push_bit 24 (ucast d) :: u32)"
  shows "drop_bit 0 w AND 0xFF = ucast a" "drop_bit 8 w AND 0xFF = ucast b"
    "drop_bit 16 w AND 0xFF = ucast c" "drop_bit 24 w AND 0xFF = ucast d"
proof -
  have m: "(0xFF :: u32) = mask 8" by (simp add: mask_eq_exp_minus_1)
  show "drop_bit 0 w AND 0xFF = ucast a" "drop_bit 8 w AND 0xFF = ucast b"
    "drop_bit 16 w AND 0xFF = ucast c" "drop_bit 24 w AND 0xFF = ucast d"
    unfolding w_def m
    by (rule bit_word_eqI; auto simp: bit_simps not_le dest: bit_imp_le_length)+
qed

lemma fourcc_ascii:
  assumes "list_all (\<lambda>c. ord c < 128) [a, b, c, d]"
  shows "fourcc_to_string (v4l2_fourcc a b c d) = [a, b, c, d]"
proof -
  have u: "unat (ucast (to_u8 x) :: u32) = of_char x" for x
    using ord_less_256 [of x] by (simp add: unsigned_ucast_eq take_bit_nat_eq_self del: ord_less_256) (simp add: ord_def)
  have ascii: "char_u32 a = ucast (to_u8 a)" "char_u32 b = ucast (to_u8 b)"
    "char_u32 c = ucast (to_u8 c)" "char_u32 d = ucast (to_u8 d)"
    using assms by (simp_all add: char_u32_ascii)
  show ?thesis
    unfolding fourcc_to_string_def v4l2_fourcc_def ascii u32_bytes by (simp add: u)
qed

section \<open>Opening a device\<close>

lemmas device_defs = V4LDevice_new_def v4l_open_def fill_cap_def fill_format_def

text \<open>What the object holds after the three calls of the constructor.\<close>

definition opened_device :: "string \<Rightarrow> sysret \<Rightarrow> sysret \<Rightarrow> sysret \<Rightarrow> V4LDevice" where
  "opened_device p r c f = \<lparr>cap = (if rv c < 0 then zero_cap else dev_cap c),
     fmt = (if rv f < 0 then zero_fmt\<lparr>buf_type := V4L2_BUF_TYPE_VIDEO_CAPTURE\<rparr> else dev_fmt f),
     framerate = None, sysfs_path = p, dev_fd = rv r\<rparr>"

lemma V4LDevice_new_run:
  assumes "script s = r # c # f # rs" "rv r \<ge> 0"
  shows "\<exists>s'. V4LDevice_new p s = (
       (if \<not> can_capture (opened_device p r c f) then Throw (RuntimeError ''Failed to capture video'')
        else if \<not> can_stream (opened_device p r c f) then Throw (RuntimeError ''Failed to stream video'')
        else Ret (opened_device p r c f)), s') \<and> script s' = rs \<and>
     trace s' = trace s @ [(SysOpen p, r), (SysIoctl (rv r) VIDIOC_QUERYCAP, c), (SysIoctl (rv r) VIDIOC_G_FMT, f)]"
  using assms
  by (auto simp: device_defs io_bind_def sys_def observe_def Let_def can_capture_def can_stream_def
      opened_device_def)

text \<open>
  (C19) Opening a camera.  The constructor returns a device only if the driver reports capture and
  streaming, with the capabilities and the format it reported; a driver that cannot be
  queried counts as one without capabilities.  In every other case it throws, and then the
  descriptor it opened is still open: no close is issued and the object that held it is gone.
\<close>

theorem V4LDevice_new_outcome:
  assumes "script s = r # c # f # rs" "rv r \<ge> 0"
  shows "\<exists>s'. snd (V4LDevice_new p s) = s' \<and>
    observe resource_events s' = observe resource_events s @ [Acquire (Descriptor (rv r))] \<and>
    (if rv c \<ge> 0 \<and> capabilities (dev_cap c) AND (V4L2_CAP_VIDEO_CAPTURE OR V4L2_CAP_VIDEO_CAPTURE_MPLANE) \<noteq> 0
        \<and> capabilities (dev_cap c) AND V4L2_CAP_STREAMING \<noteq> 0
     then \<exists>dev. fst (V4LDevice_new p s) = Ret dev \<and> dev_fd dev = rv r \<and> sysfs_path dev = p \<and>
       cap dev = dev_cap c \<and> (rv f \<ge> 0 \<longrightarrow> fmt dev = dev_fmt f)
     else \<exists>m. fst (V4LDevice_new p s) = Throw (RuntimeError m))"
proof -
  have bits: "x AND (V4L2_CAP_VIDEO_CAPTURE OR V4L2_CAP_VIDEO_CAPTURE_MPLANE) \<noteq> 0 \<longleftrightarrow>
      x AND V4L2_CAP_VIDEO_CAPTURE \<noteq> 0 \<or> x AND V4L2_CAP_VIDEO_CAPTURE_MPLANE \<noteq> 0" for x :: u32
    by (simp only: bit.conj_disj_distrib or_eq_0_iff de_Morgan_conj)
  from V4LDevice_new_run [OF assms, of p] show ?thesis
    unfolding bits using assms(2)
    by (auto simp: can_capture_def can_stream_def zero_cap_def opened_device_def observe_def)
qed

end
