(* ===== verification/Whip.thy ===== *)
theory Whip
  imports Http_Send Sdp Config V4l
begin

text \<open>
  The streaming session (\<^verbatim>\<open>whip.h\<close>, \<^verbatim>\<open>whip.cpp\<close> and \<^verbatim>\<open>main\<close>): the video
  source built from a camera, the peer connection, the offer, and the exchange of the offer for
  the server's answer.  The objects of libwebrtc are reached through the calls of theory
  \<^verbatim>\<open>Sys\<close>; a smart pointer is modelled by whether it is null, and using a null one is
  undefined.
\<close>

section \<open>The video source\<close>

definition fourcc_to_videotype :: "string \<Rightarrow> VideoType result" where
  "fourcc_to_videotype fcc =
     (if length fcc \<noteq> 4 then Inl AssertFailed
      else if fcc = ''I420'' \<or> fcc = ''YU12'' then Inr kI420
      else if fcc = ''IYUV'' then Inr kIYUV
      else if fcc = ''RGB24'' then Inr kRGB24
      else if fcc = ''YUY2'' \<or> fcc = ''YUYV'' then Inr kYUY2
      else if fcc = ''YV12'' then Inr kYV12
      else if fcc = ''UYVY'' then Inr kUYVY
      else if fcc = ''NV21'' then Inr kNV21
      else if fcc = ''NV12'' then Inr kNV12
      else if fcc = ''BGRA'' then Inr kBGRA
      else Inr kUnknown)"

text \<open>
  The constructor of \<^verbatim>\<open>CapturerTrackSource\<close>.  It reads \<^verbatim>\<open>framerate\<close>, which is
  indeterminate unless the caller set it.
\<close>

definition CapturerTrackSource_new :: "V4LDevice \<Rightarrow> V4LDevice io" where
  "CapturerTrackSource_new dev =
     io_bind (sys (Rtc RegisterCaptureDataCallback)) (\<lambda>_.
     case framerate dev of
       None \<Rightarrow> io_undef
     | Some rate \<Rightarrow>
         io_bind (io_lift (fourcc_to_videotype (fourcc_to_string (pixelformat (fmt dev))))) (\<lambda>vtype.
         io_bind (sys (Rtc (StartCapture \<lparr>cap_width = pix_width (fmt dev), cap_height = pix_height (fmt dev),
             maxFPS = rate, videoType = vtype\<rparr>))) (\<lambda>res.
           if rv res < 0 then io_throw AssertFailed else io_ret dev)))"

text \<open>When no capturer is found the unique pointer to the device is destroyed.\<close>

definition make_source :: "V4LDevice \<Rightarrow> V4LDevice option io" where
  "make_source dev =
     io_bind (sys (Rtc (CreateCapturer (bus_info (cap dev))))) (\<lambda>capturer.
       if rv capturer = 0 then io_bind (V4LDevice_delete dev) (\<lambda>_. io_ret None)
       else io_bind (CapturerTrackSource_new dev) (\<lambda>dev. io_ret (Some dev)))"

definition Create :: "string \<Rightarrow> V4LDevice option io" where
  "Create video_device_path = io_bind (V4LDevice_new video_device_path) make_source"

definition configure_device :: "CaptureTrackConfig \<Rightarrow> V4LDevice \<Rightarrow> V4LDevice" where
  "configure_device config dev = dev\<lparr>
     fmt := (fmt dev)\<lparr>pix_width := width config, pix_height := height config,
       pixelformat := v4l2_fourcc (fourcc config ! 0) (fourcc config ! 1) (fourcc config ! 2) (fourcc config ! 3)\<rparr>,
     framerate := Some (fps config)\<rparr>"

definition CreateWithConfig :: "string \<Rightarrow> CaptureTrackConfig \<Rightarrow> V4LDevice option io" where
  "CreateWithConfig video_device_path config =
     io_bind (V4LDevice_new video_device_path) (\<lambda>dev. make_source (configure_device config dev))"

section \<open>The session\<close>

record WHIPSession =
  factory :: bool
  pc :: bool
  sdp :: string
  allowed_codecs :: "string list option"
  session_max_framerate :: "u32 option"
  session_max_bitrate :: "u32 option"
  url :: string

definition WHIPSession_new :: "string \<Rightarrow> WHIPSession" where
  "WHIPSession_new u = \<lparr>factory = False, pc = False, sdp = [], allowed_codecs = None,
     session_max_framerate = None, session_max_bitrate = None, url = u\<rparr>"

definition Initialize :: "WHIPSession \<Rightarrow> WHIPSession io" where
  "Initialize sess = io_bind (sys (Rtc CreatePeerConnectionFactory)) (\<lambda>r. io_ret (sess\<lparr>factory := rv r \<noteq> 0\<rparr>))"

definition CreateConnection :: "bool \<Rightarrow> WHIPSession \<Rightarrow> (WHIPSession \<times> bool) io" where
  "CreateConnection dtls sess =
     (if \<not> factory sess then io_undef
      else io_bind (sys (Rtc (CreatePeerConnection \<lparr>unified_plan = True, enable_dtls_srtp = dtls,
                servers = [''stun:stun.l.google.com:19302'']\<rparr>))) (\<lambda>r.
             io_ret (sess\<lparr>pc := rv r \<noteq> 0\<rparr>, rv r \<noteq> 0)))"

definition AddCaptureDevice :: "u8 \<Rightarrow> CaptureTrackConfig option \<Rightarrow> WHIPSession \<Rightarrow> WHIPSession io" where
  "AddCaptureDevice device_idx config sess =
     io_bind (case config of
         Some c \<Rightarrow> CreateWithConfig (device_path device_idx) c
       | None \<Rightarrow> Create (device_path device_idx)) (\<lambda>video_device.
       case video_device of
         None \<Rightarrow> io_throw (RuntimeError ''Failed to create video device'')
       | Some dev \<Rightarrow>
           if \<not> factory sess then io_undef
           else io_bind (sys (Rtc (CreateVideoTrack ''video_label''))) (\<lambda>_.
             if \<not> pc sess then io_undef
             else io_bind (sys (Rtc (AddTrack [''stream_id'']))) (\<lambda>_. io_ret sess)))"

text \<open>
  The task posted to the signaling thread.  \<^verbatim>\<open>offer_to_receive_video\<close> is assigned twice;
  \<^verbatim>\<open>kUndefined\<close> is -1.
\<close>

definition default_options :: RTCOfferAnswerOptions where
  "default_options = \<lparr>offer_to_receive_video = -1, offer_to_receive_audio = -1, ice_restart = False\<rparr>"

definition CreateOffer :: "WHIPSession \<Rightarrow> WHIPSession io" where
  "CreateOffer sess =
     (if \<not> pc sess then io_undef
      else
        let options = default_options\<lparr>offer_to_receive_video := 0\<rparr>\<lparr>offer_to_receive_video := 0\<rparr>\<lparr>ice_restart := True\<rparr>
        in io_bind (sys (Rtc (PostCreateOffer options))) (\<lambda>_. io_ret sess))"

text \<open>The conversion of \<^verbatim>\<open>uint\<close> to \<^verbatim>\<open>int\<close> keeps the 32 bits.\<close>

definition limit_encoding :: "WHIPSession \<Rightarrow> RtpEncodingParameters \<Rightarrow> RtpEncodingParameters" where
  "limit_encoding sess encoding =
     (let encoding = (case session_max_bitrate sess of
            Some b \<Rightarrow> encoding\<lparr>max_bitrate_bps := Some b\<rparr> | None \<Rightarrow> encoding)
      in case session_max_framerate sess of
           Some f \<Rightarrow> encoding\<lparr>max_framerate := Some f\<rparr> | None \<Rightarrow> encoding)"

text \<open>\<^verbatim>\<open>OnSuccess\<close> up to the text of the offer.\<close>

definition prepare_offer :: "WHIPSession \<Rightarrow> WHIPSession io" where
  "prepare_offer sess =
     (if \<not> pc sess then io_undef
      else
        io_bind (sys (Rtc SetLocalDescription)) (\<lambda>_.
        io_bind (sys (Rtc GetSenders)) (\<lambda>senders.
          if rv senders \<le> 0 then io_undef
          else
            io_bind (sys (Rtc GetParameters)) (\<lambda>params.
            io_bind (sys (Rtc (SetParameters (map (limit_encoding sess) (encodings params))))) (\<lambda>_.
            io_bind (sys (Rtc DescriptionToString)) (\<lambda>desc.
              case allowed_codecs sess of
                None \<Rightarrow> io_ret (sess\<lparr>sdp := payload desc\<rparr>)
              | Some codecs \<Rightarrow>
                  io_bind (io_lift (SDPForceCodecs (payload desc) codecs)) (\<lambda>t.
                    io_ret (sess\<lparr>sdp := t\<rparr>))))))))"

text \<open>
  The rest, after the response.  \<^verbatim>\<open>response.status.Ok\<close> is not a member but the enumerator
  \<^verbatim>\<open>Ok\<close> of \<^verbatim>\<open>Status::Code\<close>, whatever \<^verbatim>\<open>status\<close> is.
\<close>

definition Status_Ok :: nat where
  "Status_Ok = 200"

definition after_response :: "WHIPSession \<Rightarrow> Response \<Rightarrow> WHIPSession io" where
  "after_response sess resp =
     (if \<not> (Status_Ok \<noteq> 0) then io_ret sess
      else
        io_bind (sys (Rtc (CreateSessionDescription (body resp)))) (\<lambda>remote_desc.
          if rv remote_desc = 0 then io_ret sess
          else io_bind (sys (Rtc (SetRemoteDescription (body resp)))) (\<lambda>_. io_ret sess)))"


definition OnFailure :: "WHIPSession io" where
  "OnFailure = io_throw (RuntimeError ''OnFailure'')"

text \<open>
  The thread that waits looks at \<^verbatim>\<open>sdp\<close> every tenth of a second; \<open>polled n\<close> is what the \<open>n\<close>-th look finds.
  The result is the number of looks.
\<close>

partial_function (option) WaitForOffer :: "(nat \<Rightarrow> string) \<Rightarrow> nat \<Rightarrow> nat option" where
  "WaitForOffer polled n = (if polled n = [] then WaitForOffer polled (Suc n) else Some n)"

text \<open>
  \<^verbatim>\<open>main\<close> up to its endless loop; the result of \<^verbatim>\<open>CreateConnection\<close> decides only
  about a log message.
\<close>

definition wadi_main :: "string list \<Rightarrow> WHIPSession io" where
  "wadi_main argv = (case FromArgs argv of
       None \<Rightarrow> io_undef
     | Some config \<Rightarrow>
         io_bind (Initialize (WHIPSession_new (whip_endpoint config))) (\<lambda>sess.
         io_bind (CreateConnection True sess) (\<lambda>(sess, _).
         case device_index (video_device config) of
           None \<Rightarrow> io_undef
         | Some idx \<Rightarrow>
             io_bind (AddCaptureDevice idx (Some (capture_config config)) sess) (\<lambda>sess.
               CreateOffer sess))))"

section \<open>Waiting\<close>

text \<open>The wait ends with the first look that finds an offer, and only then.\<close>

lemma WaitForOffer_first:
  assumes "polled (n + k) \<noteq> []" "\<And>i. i < k \<Longrightarrow> polled (n + i) = []"
  shows "WaitForOffer polled n = Some (n + k)"
  using assms
proof (induction k arbitrary: n)
  case 0
  then show ?case by (simp add: WaitForOffer.simps)
next
  case (Suc k)
  have "polled (Suc n + i) = []" if "i < k" for i using Suc.prems(2) [of "Suc i"] that by simp
  then have "WaitForOffer polled (Suc n) = Some (Suc n + k)" using Suc.prems(1) by (intro Suc.IH) auto
  moreover have "polled n = []" using Suc.prems(2) [of 0] by simp
  ultimately show ?case by (simp add: WaitForOffer.simps)
qed

lemma WaitForOffer_found: "WaitForOffer polled n = Some m \<Longrightarrow> polled m \<noteq> []"
  by (rule WaitForOffer.raw_induct [where P = "\<lambda>polled n m. polled m \<noteq> []"]) (auto split: if_splits)

lemma WaitForOffer_returns: "(\<exists>m. WaitForOffer polled 0 = Some m) \<longleftrightarrow> (\<exists>m. polled m \<noteq> [])"
proof
  assume e: "\<exists>m. polled m \<noteq> []"
  define k where "k = (LEAST m. polled m \<noteq> [])"
  have "polled k \<noteq> []" unfolding k_def by (rule LeastI_ex [OF e])
  moreover have "polled i = []" if "i < k" for i using not_less_Least that unfolding k_def by blast
  ultimately show "\<exists>m. WaitForOffer polled 0 = Some m" using WaitForOffer_first [of polled 0 k] by simp
qed (auto dest: WaitForOffer_found)

section \<open>Calls made to libwebrtc\<close>

fun rtc_calls :: "syscall \<Rightarrow> sysret \<Rightarrow> rtc_call list" where
  "rtc_calls (Rtc c) r = [c]"
| "rtc_calls _ r = []"

lemma observe_snoc [simp]:
  "observe obs (s\<lparr>script := rs, trace := trace s @ [(c, r)], errno := n\<rparr>) = observe obs s @ obs c r"
  by (simp add: observe_def)

text \<open>
  Pixel formats.  The text of a pixel format code always passes the assertion, the known
  formats are recognised under both of their names, and the branch for \<^verbatim>\<open>RGB24\<close>, a name
  of five characters, is never taken.
\<close>

lemma fourcc_to_videotype_codes:
  "(\<exists>v. fourcc_to_videotype (fourcc_to_string w) = Inr v) \<and> fourcc_to_videotype f \<noteq> Inr kRGB24 \<and>
   map (\<lambda>f. fourcc_to_videotype (fourcc_to_string (v4l2_fourcc (f ! 0) (f ! 1) (f ! 2) (f ! 3))))
     [''I420'', ''YU12'', ''IYUV'', ''YUY2'', ''YUYV'', ''YV12'', ''UYVY'', ''NV21'', ''NV12'', ''BGRA''] =
   map Inr [kI420, kI420, kIYUV, kYUY2, kYUY2, kYV12, kUYVY, kNV21, kNV12, kBGRA]"
proof -
  have "length (fourcc_to_string w) = 4" by (simp add: fourcc_to_string_def)
  then have 1: "\<exists>v. fourcc_to_videotype (fourcc_to_string w) = Inr v"
    by (auto simp: fourcc_to_videotype_def)
  have 2: "fourcc_to_videotype f \<noteq> Inr kRGB24"
    by (cases "f = ''RGB24''") (simp_all add: fourcc_to_videotype_def)
  have 3: "fourcc_to_string (v4l2_fourcc a b c d) = [a, b, c, d]"
    if "ord a < 128" "ord b < 128" "ord c < 128" "ord d < 128" for a b c d
    using fourcc_ascii that by simp
  show ?thesis
    using 1 2 by (simp add: 3 ord_def fourcc_to_videotype_def)
qed

lemma CreateWithConfig_run:
  assumes "script s = r # c # f # capturer # reg # start # rs"
    and "rv r \<ge> 0" "rv c \<ge> 0" "capabilities (dev_cap c) AND V4L2_CAP_VIDEO_CAPTURE \<noteq> 0"
    and "capabilities (dev_cap c) AND V4L2_CAP_STREAMING \<noteq> 0" "rv capturer \<noteq> 0" "rv start \<ge> 0"
    and "fourcc cfg = [x1, x2, x3, x4]" "list_all (\<lambda>c. ord c < 128) [x1, x2, x3, x4]"
    and "fourcc_to_videotype (fourcc cfg) = Inr v"
  shows "\<exists>u dev. CreateWithConfig p cfg s = (Ret (Some dev), u) \<and> script u = rs \<and>
    trace u = trace s @ [(SysOpen p, r), (SysIoctl (rv r) VIDIOC_QUERYCAP, c), (SysIoctl (rv r) VIDIOC_G_FMT, f),
      (Rtc (CreateCapturer (bus_info (dev_cap c))), capturer), (Rtc RegisterCaptureDataCallback, reg),
      (Rtc (StartCapture \<lparr>cap_width = width cfg, cap_height = height cfg, maxFPS = fps cfg, videoType = v\<rparr>), start)]"
proof -
  let ?dev = "opened_device p r c f"
  have fcc: "fourcc_to_string (v4l2_fourcc x1 x2 x3 x4) = [x1, x2, x3, x4]"
    using assms(9) by (rule fourcc_ascii)
  have "can_capture ?dev" "can_stream ?dev" using assms(3-5)
    by (simp_all add: opened_device_def can_capture_def can_stream_def)
  with V4LDevice_new_run [OF assms(1,2), of p] obtain t where
    t: "V4LDevice_new p s = (Ret ?dev, t)" "script t = capturer # reg # start # rs"
      "trace t = trace s @ [(SysOpen p, r), (SysIoctl (rv r) VIDIOC_QUERYCAP, c), (SysIoctl (rv r) VIDIOC_G_FMT, f)]"
    by auto
  let ?cfg = "configure_device cfg ?dev"
  have "\<exists>u. make_source ?cfg t = (Ret (Some ?cfg), u) \<and> script u = rs \<and>
      trace u = trace t @ [(Rtc (CreateCapturer (bus_info (dev_cap c))), capturer),
        (Rtc RegisterCaptureDataCallback, reg),
        (Rtc (StartCapture \<lparr>cap_width = width cfg, cap_height = height cfg, maxFPS = fps cfg, videoType = v\<rparr>), start)]"
    using t(2) assms(3,6,7,8,10) fcc
    by (simp add: make_source_def CapturerTrackSource_new_def configure_device_def opened_device_def io_bind_def)
  with t show ?thesis by (auto simp: CreateWithConfig_def)
qed

text \<open>
  A configured camera is started as configured.  On a system where the calls succeed,
  adding the device opens its node and starts the capture with the configured width, height and
  rate and the type of the configured pixel format, and adds one video track; the device stays
  open.
\<close>

theorem AddCaptureDevice_starts:
  assumes "script s = r # c # f # capturer # reg # start # track # add # rs"
    and "rv r \<ge> 0" "rv c \<ge> 0" "capabilities (dev_cap c) AND V4L2_CAP_VIDEO_CAPTURE \<noteq> 0"
    and "capabilities (dev_cap c) AND V4L2_CAP_STREAMING \<noteq> 0"
    and "rv capturer \<noteq> 0" "rv start \<ge> 0"
    and "fourcc cfg = [x1, x2, x3, x4]" "list_all (\<lambda>c. ord c < 128) [x1, x2, x3, x4]"
    and "fourcc_to_videotype (fourcc cfg) = Inr v" "factory sess" "pc sess"
  shows "\<exists>s'. AddCaptureDevice idx (Some cfg) sess s = (Ret sess, s') \<and>
    observe rtc_calls s' = observe rtc_calls s @
      [CreateCapturer (bus_info (dev_cap c)), RegisterCaptureDataCallback,
       StartCapture \<lparr>cap_width = width cfg, cap_height = height cfg, maxFPS = fps cfg, videoType = v\<rparr>,
       CreateVideoTrack ''video_label'', AddTrack [''stream_id'']] \<and>
    observe resource_events s' = observe resource_events s @ [Acquire (Descriptor (rv r))]"
  using CreateWithConfig_run [OF assms(1-10), of "device_path idx"] assms(2,11,12)
  by (auto simp: AddCaptureDevice_def io_bind_def observe_def)

section \<open>Offer and answer\<close>

text \<open>
  The offer.  With a sender, the local description is set first, then the parameters the
  sender reported are handed back, in number and order, with the bitrate and the frame rate of
  every encoding replaced where the session has a limit and all else unchanged; the offer is
  the text of the description, filtered when the session restricts the codecs.
\<close>

theorem prepare_offer_outcome:
  assumes "script s = l # n # params # q # desc # rs" "rv n > 0" "pc sess"
  shows "observe rtc_calls (snd (prepare_offer sess s)) = observe rtc_calls s @
      [SetLocalDescription, GetSenders, GetParameters,
       SetParameters (map (limit_encoding sess) (encodings params)), DescriptionToString] \<and>
    map max_bitrate_bps (map (limit_encoding sess) (encodings params)) =
      map (\<lambda>e. if session_max_bitrate sess = None then max_bitrate_bps e else session_max_bitrate sess) (encodings params) \<and>
    map max_framerate (map (limit_encoding sess) (encodings params)) =
      map (\<lambda>e. if session_max_framerate sess = None then max_framerate e else session_max_framerate sess) (encodings params) \<and>
    fst (prepare_offer sess s) = (case allowed_codecs sess of
        None \<Rightarrow> Ret (sess\<lparr>sdp := payload desc\<rparr>)
      | Some C \<Rightarrow> (case SDPForceCodecs (payload desc) C of
          Inl e \<Rightarrow> Throw e | Inr t \<Rightarrow> Ret (sess\<lparr>sdp := t\<rparr>)))"
proof -
  have "max_bitrate_bps (limit_encoding sess e) =
      (if session_max_bitrate sess = None then max_bitrate_bps e else session_max_bitrate sess) \<and>
    max_framerate (limit_encoding sess e) =
      (if session_max_framerate sess = None then max_framerate e else session_max_framerate sess)" for e
    by (auto simp: limit_encoding_def Let_def split: option.splits)
  moreover have "observe rtc_calls (snd (prepare_offer sess s)) = observe rtc_calls s @
      [SetLocalDescription, GetSenders, GetParameters,
       SetParameters (map (limit_encoding sess) (encodings params)), DescriptionToString] \<and>
    fst (prepare_offer sess s) = (case allowed_codecs sess of
        None \<Rightarrow> Ret (sess\<lparr>sdp := payload desc\<rparr>)
      | Some C \<Rightarrow> (case SDPForceCodecs (payload desc) C of
          Inl e \<Rightarrow> Throw e | Inr t \<Rightarrow> Ret (sess\<lparr>sdp := t\<rparr>)))"
    using assms
    by (cases "allowed_codecs sess"; cases "SDPForceCodecs (payload desc) (the (allowed_codecs sess))")
      (simp_all add: prepare_offer_def io_bind_def observe_def)
  ultimately show ?thesis by simp
qed

text \<open>
  The status of the server's response is ignored: whatever it is, error or not, the session
  goes on in the same way and offers the body to the peer connection as the remote description.
\<close>

theorem after_response_ignores_status:
  assumes "script s = r # q # rs" "rv r \<noteq> 0"
  shows "after_response sess (resp\<lparr>status := st\<rparr>) = after_response sess resp \<and>
    SetRemoteDescription (body resp) \<in> set (observe rtc_calls (snd (after_response sess (resp\<lparr>status := st\<rparr>) s)))"
proof -
  have b: "body (resp\<lparr>status := st\<rparr>) = body resp" by simp
  have "after_response sess (resp\<lparr>status := st\<rparr>) = after_response sess resp"
    unfolding after_response_def b ..
  moreover have "SetRemoteDescription (body resp) \<in> set (observe rtc_calls (snd (after_response sess resp s)))"
    using assms by (simp add: after_response_def Status_Ok_def io_bind_def observe_def)
  ultimately show ?thesis by simp
qed

text \<open>
  A connection that could not be created is used all the same: when libwebrtc returns no
  peer connection, \<^verbatim>\<open>main\<close> goes on to add the camera's track to a null pointer.
\<close>

theorem main_uses_null_connection:
  assumes "script s = fac # con # r # c # f # capturer # reg # start # track # rs"
    and "rv fac \<noteq> 0" "rv con = 0" "rv r \<ge> 0" "rv c \<ge> 0" "capabilities (dev_cap c) AND V4L2_CAP_VIDEO_CAPTURE \<noteq> 0"
    and "capabilities (dev_cap c) AND V4L2_CAP_STREAMING \<noteq> 0" "rv capturer \<noteq> 0" "rv start \<ge> 0"
  shows "fst (wadi_main [prog] s) = Undef"
proof -
  have cfg: "FromArgs [prog] = Some WadiConfig_default" by (rule FromArgs_none)
  have idx: "device_index ''0'' = Some 0" by (simp add: device_index_def atoi_def isspace_def digits_prefix_def numeral_value_def hex_value_def isDigitChar_def ord_def)
  let ?sess = "(WHIPSession_new (whip_endpoint WadiConfig_default))\<lparr>factory := True, pc := False\<rparr>"
  let ?cfg = "capture_config WadiConfig_default"
  obtain t where t: "io_bind (Initialize (WHIPSession_new (whip_endpoint WadiConfig_default))) (CreateConnection True) s =
      (Ret (?sess, False), t)" "script t = r # c # f # capturer # reg # start # track # rs"
    using assms(1-3) by (simp add: Initialize_def CreateConnection_def WHIPSession_new_def io_bind_def)
  have fcc: "fourcc ?cfg = [CHR ''I'', CHR ''4'', CHR ''2'', CHR ''0'']" "fourcc_to_videotype (fourcc ?cfg) = Inr kI420"
    by (simp_all add: WadiConfig_default_def fourcc_to_videotype_def)
  have "\<exists>u dev. CreateWithConfig (device_path 0) ?cfg t = (Ret (Some dev), u) \<and> script u = track # rs"
    using CreateWithConfig_run [OF t(2) assms(4-9) fcc(1) _ fcc(2), of "device_path 0"] by (auto simp: ord_def)
  then have "fst (io_bind (AddCaptureDevice 0 (Some ?cfg) ?sess) CreateOffer t) = Undef"
    by (auto simp: AddCaptureDevice_def io_bind_def)
  moreover have "device_index (video_device WadiConfig_default) = Some 0"
    using idx by (simp add: WadiConfig_default_def)
  ultimately show ?thesis
    using t(1) by (auto simp: wadi_main_def cfg io_bind_Ret_iff)
qed

section \<open>What is sent to the server\<close>










end
