(* ===== verification/Jetson_Context.thy ===== *)
theory Jetson_Context
  imports V4l
begin

text \<open>
  The context of the hardware encoder (\<^verbatim>\<open>video_encode.h\<close>) and its defaults
  (\<^verbatim>\<open>JetsonEncoder::SetDefaults\<close>).  The context has the members that the code
  assigns or reads; the others stay zero from the \<^verbatim>\<open>memset\<close>.  A pointer is modelled by
  whether it is null, the array of images by its contents.
\<close>

section \<open>The context\<close>

abbreviation V4L2_PIX_FMT_YUV420M :: u32 where "V4L2_PIX_FMT_YUV420M \<equiv> v4l2_fourcc CHR ''Y'' CHR ''M'' CHR ''1'' CHR ''2''"
abbreviation V4L2_PIX_FMT_H264 :: u32 where "V4L2_PIX_FMT_H264 \<equiv> v4l2_fourcc CHR ''H'' CHR ''2'' CHR ''6'' CHR ''4''"
abbreviation V4L2_MPEG_VIDEO_BITRATE_MODE_CBR :: u32 where "V4L2_MPEG_VIDEO_BITRATE_MODE_CBR \<equiv> 1"
abbreviation V4L2_MPEG_VIDEO_H264_LEVEL_5_1 :: u32 where "V4L2_MPEG_VIDEO_H264_LEVEL_5_1 \<equiv> 15"
abbreviation V4L2_MEMORY_MMAP :: u32 where "V4L2_MEMORY_MMAP \<equiv> 1"
abbreviation V4L2_MEMORY_DMABUF :: u32 where "V4L2_MEMORY_DMABUF \<equiv> 4"
abbreviation V4L2_COLORSPACE_SMPTE170M :: u32 where "V4L2_COLORSPACE_SMPTE170M \<equiv> 1"

text \<open>Constants of the NVIDIA headers, which are not part of the sources.\<close>

record nv_constants =
  QP_RETAIN_VAL :: int
  PPE_FEATURE_NONE :: u32

record ppe_params =
  enable_ppe :: bool
  wait_time_ms :: int
  feature_flags :: u32
  enable_profiler :: u32
  taq_max_qp_delta :: u32
  saq_max_qp_delta :: u32
  taq_b_frame_mode :: u32

record EncodedImage =
  encodedWidth :: u32
  encodedHeight :: u32
  timestamp_rtp :: u32
  ntp_time_ms :: int
  capture_time_ms :: int
  rotation :: nat
  color_space :: "nat option"
  capacity :: nat

definition EncodedImage_empty :: EncodedImage where
  "EncodedImage_empty = \<lparr>encodedWidth = 0, encodedHeight = 0, timestamp_rtp = 0, ntp_time_ms = 0,
     capture_time_ms = 0, rotation = 0, color_space = None, capacity = 0\<rparr>"

text \<open>\<^verbatim>\<open>webrtc::EncodedImage *encoded_images\<close>: null, an array, or a deleted array.\<close>

datatype image_array = NoImages | Images "EncodedImage list" | DeletedImages

record context_t =
  enc :: bool
  encoder_pixfmt :: u32
  raw_pixfmt :: u32
  ctx_width :: u32
  ctx_height :: u32
  bitrate :: u32
  peak_bitrate :: u32
  profile :: u32
  ratecontrol :: u32
  iframe_interval :: u32
  idr_interval :: u32
  level :: u32
  fps_n :: u32
  fps_d :: u32
  gdr_start_frame_number :: u32
  gdr_num_frames :: u32
  gdr_out_frame_number :: u32
  num_b_frames :: u32
  nMinQpI :: u32
  nMaxQpI :: u32
  nMinQpP :: u32
  nMaxQpP :: u32
  nMinQpB :: u32
  nMaxQpB :: u32
  sMaxQp :: u32
  sar_width :: u32
  sar_height :: u32
  IinitQP :: u32
  PinitQP :: u32
  BinitQP :: u32
  log2_num_av1rows :: u32
  log2_num_av1cols :: u32
  bit_depth :: u8
  enable_av1ssimrdo :: u8
  disable_av1cdfupdate :: u8
  av1erresmode :: u8
  chroma_format_idc :: u8
  is_semiplanar :: bool
  enable_initQP :: bool
  enable_ratecontrol :: bool
  enable_av1tile :: bool
  disable_amp :: bool
  enable_two_pass_cbr :: bool
  enable_av1frameidflag :: bool
  output_memory_type :: u32
  capture_memory_type :: u32
  cs :: u32
  input_metadata :: bool
  copy_timestamp :: bool
  start_ts :: u32
  enableGDR :: bool
  bGapsInFrameNumAllowed :: bool
  bnoIframe :: bool
  nH264FrameNumBits :: u32
  nH265PocLsbBits :: u32
  externalRCHints :: bool
  enableROI :: bool
  enableLossless :: bool
  externalRPS :: bool
  use_gold_crc :: bool
  pBitStreamCrc :: bool
  bReconCrc :: bool
  stats :: bool
  externalTG :: bool
  got_error :: bool
  stress_test :: int
  got_drc :: bool
  encode_width :: u32
  encode_height :: u32
  input_frames_queued_count :: u32
  startf :: u32
  endf :: u32
  num_output_buffers :: u32
  num_frames_to_encode :: int
  poc_type :: u32
  ppe_init_params :: ppe_params
  max_perf :: int
  blocking_mode :: int
  encoded_images :: image_array

definition SetDefaults :: "nv_constants \<Rightarrow> context_t" where
  "SetDefaults nv = (let QP = word_of_int (QP_RETAIN_VAL nv); PPE_NONE = PPE_FEATURE_NONE nv in
    \<lparr>enc = False,
     encoder_pixfmt = 0,
     raw_pixfmt = V4L2_PIX_FMT_YUV420M,
     ctx_width = 0,
     ctx_height = 0,
     bitrate = 4 * 1024 * 1024,
     peak_bitrate = 0,
     profile = 0,
     ratecontrol = V4L2_MPEG_VIDEO_BITRATE_MODE_CBR,
     iframe_interval = 30,
     idr_interval = 256,
     level = -1,
     fps_n = 30,
     fps_d = 1,
     gdr_start_frame_number = 0xffffffff,
     gdr_num_frames = 0xffffffff,
     gdr_out_frame_number = 0xffffffff,
     num_b_frames = -1,
     nMinQpI = QP,
     nMaxQpI = QP,
     nMinQpP = QP,
     nMaxQpP = QP,
     nMinQpB = QP,
     nMaxQpB = QP,
     sMaxQp = 51,
     sar_width = 0,
     sar_height = 0,
     IinitQP = 0,
     PinitQP = 0,
     BinitQP = 0,
     log2_num_av1rows = 0,
     log2_num_av1cols = 0,
     bit_depth = 8,
     enable_av1ssimrdo = -1,
     disable_av1cdfupdate = -1,
     av1erresmode = 1,
     chroma_format_idc = -1,
     is_semiplanar = False,
     enable_initQP = False,
     enable_ratecontrol = True,
     enable_av1tile = False,
     disable_amp = False,
     enable_two_pass_cbr = False,
     enable_av1frameidflag = False,
     output_memory_type = V4L2_MEMORY_DMABUF,
     capture_memory_type = V4L2_MEMORY_MMAP,
     cs = V4L2_COLORSPACE_SMPTE170M,
     input_metadata = False,
     copy_timestamp = False,
     start_ts = 0,
     enableGDR = False,
     bGapsInFrameNumAllowed = False,
     bnoIframe = False,
     nH264FrameNumBits = 0,
     nH265PocLsbBits = 0,
     externalRCHints = False,
     enableROI = False,
     enableLossless = False,
     externalRPS = False,
     use_gold_crc = False,
     pBitStreamCrc = False,
     bReconCrc = False,
     stats = False,
     externalTG = False,
     got_error = False,
     stress_test = 1,
     got_drc = False,
     encode_width = 0,
     encode_height = 0,
     input_frames_queued_count = 0,
     startf = 0,
     endf = 0,
     num_output_buffers = 6,
     num_frames_to_encode = -1,
     poc_type = 0,
     ppe_init_params = \<lparr>enable_ppe = False, wait_time_ms = -1, feature_flags = PPE_NONE, enable_profiler = 0,
       taq_max_qp_delta = 5, saq_max_qp_delta = 5, taq_b_frame_mode = 1\<rparr>,
     max_perf = 0,
     blocking_mode = 1,
     encoded_images = NoImages\<rparr>)"

end
