(* ===== verification/Jetson.thy ===== *)
theory Jetson
  imports Http_Send Jetson_Context
begin

text \<open>
  The hardware encoder (\<^verbatim>\<open>jetson_encoder.h\<close>, \<^verbatim>\<open>jetson_encoder.cpp\<close>):
  initialisation, the callback of the capture plane, encoding a frame and releasing.  The
  classes of the Jetson multimedia API are reached through the calls of theory
  \<^verbatim>\<open>Sys\<close>.  An \<^verbatim>\<open>assert\<close> that fails ends the program (\<^const>\<open>AssertFailed\<close>); an index outside
  the array of images, and an array that is not there, are undefined.
\<close>

section \<open>Initialisation\<close>

definition nv_ok :: "nv_call \<Rightarrow> unit io" where
  "nv_ok c = io_bind (sys (Nv c)) (\<lambda>ret. if rv ret = 0 then io_ret () else io_throw AssertFailed)"

fun nv_all :: "nv_call list \<Rightarrow> unit io" where
  "nv_all [] = io_ret ()"
| "nv_all (c # calls) = io_bind (nv_ok c) (\<lambda>_. nv_all calls)"

definition plane_setup :: "context_t \<Rightarrow> nv_call list" where
  "plane_setup ctx =
     [SetCapturePlaneFormat (encoder_pixfmt ctx) (ctx_width ctx) (ctx_height ctx) (2 * 1024 * 1024),
      SetOutputPlaneFormat (raw_pixfmt ctx) (encode_width ctx) (encode_height ctx) (cs ctx),
      SetBitrate (bitrate ctx),
      SetProfile (profile ctx),
      SetLevel (level ctx),
      SetIDRInterval (idr_interval ctx),
      SetIFrameInterval (iframe_interval ctx),
      SetFrameRate (fps_n ctx) (fps_d ctx),
      SetMaxPerfMode 1,
      SetupOutputPlane 10,
      SetupCapturePlane (num_output_buffers ctx)]"

definition stream_setup :: "nv_call list" where
  "stream_setup = [SubscribeEos, OutputStreamOn, CaptureStreamOn]"

text \<open>Enqueueing the empty capture buffers; \<^verbatim>\<open>getNumBuffers()\<close> is asked in every pass.\<close>

function queue_loop :: "u32 \<Rightarrow> int io" where
  "queue_loop i s = (case sys (Nv CaptureNumBuffers) s of
       (Ret n, s') \<Rightarrow>
         if i < word_of_int (rv n) then
           (case sys (Nv (CaptureQBuffer i)) s' of
              (Ret ret, s'') \<Rightarrow> if rv ret < 0 then (Ret (rv ret), s'') else queue_loop (i + 1) s''
            | (Throw e, s'') \<Rightarrow> (Throw e, s'')
            | (Blocked, s'') \<Rightarrow> (Blocked, s'')
            | (Undef, s'') \<Rightarrow> (Undef, s''))
         else (Ret 0, s')
     | (Throw e, s') \<Rightarrow> (Throw e, s')
     | (Blocked, s') \<Rightarrow> (Blocked, s')
     | (Undef, s') \<Rightarrow> (Undef, s'))"
  by pat_completeness auto
termination
  by (relation "measure (\<lambda>(i, s). length (script s))") (auto simp: sys_def split: list.splits)

declare queue_loop.simps [simp del]

definition InitEncode :: "nv_constants \<Rightarrow> u16 \<Rightarrow> u16 \<Rightarrow> (context_t \<times> int) io" where
  "InitEncode nv codec_width codec_height =
     (let ctx = (SetDefaults nv)\<lparr>encoder_pixfmt := V4L2_PIX_FMT_H264,
            ctx_width := ucast codec_width, encode_width := ucast codec_width,
            ctx_height := ucast codec_height, encode_height := ucast codec_height\<rparr>
      in io_bind (sys (Nv (CreateVideoEncoder ''enc0''))) (\<lambda>e.
        if rv e = 0 then io_throw AssertFailed
        else
          let ctx = ctx\<lparr>enc := True, level := V4L2_MPEG_VIDEO_H264_LEVEL_5_1,
                output_memory_type := V4L2_MEMORY_MMAP, capture_memory_type := V4L2_MEMORY_MMAP,
                raw_pixfmt := V4L2_PIX_FMT_YUV420M\<rparr>
          in io_bind (nv_all (plane_setup ctx)) (\<lambda>_.
             let ctx = ctx\<lparr>encoded_images := Images (replicate (unat (num_output_buffers ctx)) EncodedImage_empty)\<rparr>
             in io_bind (nv_all stream_setup) (\<lambda>_.
                io_bind (sys (Nv StartDQThread)) (\<lambda>_.
                io_bind (queue_loop 0) (\<lambda>ret. io_ret (ctx, ret)))))))"

section \<open>The capture plane\<close>

definition encoder_abort :: "context_t \<Rightarrow> context_t io" where
  "encoder_abort ctx =
     io_bind (sys (Nv EncoderAbort)) (\<lambda>_. io_ret (ctx\<lparr>got_error := True\<rparr>))"

text \<open>
  \<open>buf\<close>: the index of the dequeued buffer, \<^const>\<open>None\<close> for the null pointer;
  \<open>bytesused\<close>: of its first plane; \<open>CalcBufferSize\<close>: the library function.  The hex dump
  for the log is omitted.
\<close>

definition EncoderCapturePlaneCallback ::
    "(u32 \<Rightarrow> u32 \<Rightarrow> nat) \<Rightarrow> u32 option \<Rightarrow> u32 \<Rightarrow> context_t \<Rightarrow> u32 \<Rightarrow> (context_t \<times> u32 \<times> bool) io" where
  "EncoderCapturePlaneCallback CalcBufferSize buf bytesused ctx num_encoded_frames = (case buf of
       None \<Rightarrow> io_bind (encoder_abort ctx) (\<lambda>ctx. io_ret (ctx, num_encoded_frames, False))
     | Some buffer_index \<Rightarrow>
         if bytesused = 0 then
           io_bind (encoder_abort ctx) (\<lambda>ctx. io_ret (ctx, num_encoded_frames, False))
         else (case encoded_images ctx of
             Images images \<Rightarrow>
               if unat buffer_index \<ge> length images then io_undef
               else
                 let required_capacity = CalcBufferSize (encode_width ctx) (encode_height ctx);
                     img = images ! unat buffer_index;
                     img = (if capacity img < required_capacity then img\<lparr>capacity := required_capacity\<rparr> else img);
                     ctx = ctx\<lparr>encoded_images := Images (images[unat buffer_index := img])\<rparr>
                 in io_bind (sys (Nv (CaptureQBuffer buffer_index))) (\<lambda>r.
                      if rv r < 0 then
                        io_bind (encoder_abort ctx) (\<lambda>ctx. io_ret (ctx, num_encoded_frames + 1, False))
                      else io_ret (ctx, num_encoded_frames + 1, True))
           | _ \<Rightarrow> io_undef))"

section \<open>Encoding\<close>

text \<open>
  A frame, with the bytes that can be read from the three planes of its \<^verbatim>\<open>ToI420()\<close> buffer.
\<close>

record VideoFrame =
  frame_timestamp :: u32
  frame_ntp_time_ms :: int
  frame_render_time_ms :: int
  frame_rotation :: nat
  frame_color_space :: "nat option"
  frame_DataY :: bytes
  frame_DataU :: bytes
  frame_DataV :: bytes

text \<open>
  \<^verbatim>\<open>memcpy\<close> of a plane into the dequeued buffer, as many bytes as the buffer says it uses; a plane of the frame with
  fewer bytes is read beyond its end.  The buffer's own planes have room for the bytes they use.
\<close>

definition copy_plane :: "sysret \<Rightarrow> nat \<Rightarrow> bytes \<Rightarrow> sysret io" where
  "copy_plane dq j plane =
     (if length plane < buf_bytesused dq j then io_undef
      else sys (Nv (CopyPlane j (take (buf_bytesused dq j) plane))))"

text \<open>The loop over the planes: -1 when a surface cannot be mapped or synchronised.\<close>

fun sync_planes :: "nat list \<Rightarrow> int io" where
  "sync_planes [] = io_ret 0"
| "sync_planes (j # js) =
     io_bind (sys (Nv (SurfaceFromFd j))) (\<lambda>ret.
       if rv ret < 0 then io_ret (-1)
       else io_bind (sys (Nv (SyncForDevice j))) (\<lambda>ret.
         if rv ret < 0 then io_ret (-1) else sync_planes js))"

definition stamp_image :: "context_t \<Rightarrow> VideoFrame \<Rightarrow> EncodedImage \<Rightarrow> EncodedImage" where
  "stamp_image ctx frame img = img\<lparr>encodedWidth := encode_width ctx, encodedHeight := encode_height ctx,
     timestamp_rtp := frame_timestamp frame, ntp_time_ms := frame_ntp_time_ms frame,
     capture_time_ms := frame_render_time_ms frame, rotation := frame_rotation frame,
     color_space := frame_color_space frame\<rparr>"

text \<open>Filling in the image of the buffer and queueing it, once its planes are synchronised.\<close>

definition queue_frame :: "VideoFrame \<Rightarrow> context_t \<Rightarrow> u32 \<Rightarrow> int \<Rightarrow> (context_t \<times> int) io" where
  "queue_frame frame ctx index ret =
     (if ret < 0 then io_ret (ctx, -1)
      else (case encoded_images ctx of
          Images images \<Rightarrow>
            if unat index \<ge> length images then io_undef
            else
              let ctx = ctx\<lparr>encoded_images := Images (images[unat index := stamp_image ctx frame (images ! unat index)])\<rparr>
              in io_bind (sys (Nv (OutputQBuffer index))) (\<lambda>q.
                   if rv q < 0 then io_ret (ctx, -1)
                   else io_ret (ctx\<lparr>input_frames_queued_count := input_frames_queued_count ctx + 1\<rparr>, 0))
        | _ \<Rightarrow> io_undef))"

definition Encode :: "VideoFrame \<Rightarrow> context_t \<Rightarrow> (context_t \<times> int) io" where
  "Encode frame ctx =
     (if \<not> enc ctx then io_undef
      else
        io_bind (sys (Nv OutputDqBuffer)) (\<lambda>dq.
          if rv dq < 0 then io_ret (ctx, -1)
          else
            io_bind (copy_plane dq 0 (frame_DataY frame)) (\<lambda>_.
            io_bind (copy_plane dq 1 (frame_DataU frame)) (\<lambda>_.
            io_bind (copy_plane dq 2 (frame_DataV frame)) (\<lambda>_.
            io_bind (sync_planes [0..<buf_planes dq]) (queue_frame frame ctx (buf_index dq)))))))"

section \<open>Release\<close>

text \<open>\<^verbatim>\<open>delete[]\<close> leaves the pointer as it is; deleting it again is undefined.\<close>

definition JetsonEncoder_Release :: "context_t \<Rightarrow> (context_t \<times> int) io" where
  "JetsonEncoder_Release ctx =
     io_bind (if enc ctx then io_bind (sys (Nv IsInError)) (\<lambda>r. io_ret (rv r \<noteq> 0)) else io_ret False) (\<lambda>in_error.
       let failed = in_error \<or> got_error ctx in
       case encoded_images ctx of
         NoImages \<Rightarrow> io_ret (ctx, if failed then -1 else 0)
       | Images _ \<Rightarrow> io_ret (ctx\<lparr>encoded_images := DeletedImages\<rparr>, if failed then -1 else 0)
       | DeletedImages \<Rightarrow> io_undef)"

section \<open>The encoder object and its factory\<close>

text \<open>
  The object has the context and the callback that libwebrtc registers; new rates are acknowledged and not used.
  The formats of \<^verbatim>\<open>webrtc::SupportedH264Codecs\<close>, which is not part of the sources, are an argument.
\<close>

record JetsonEncoder =
  encoder_ctx :: context_t
  encoder_callback :: "nat option"

definition RegisterEncodeCompleteCallback :: "nat option \<Rightarrow> JetsonEncoder \<Rightarrow> JetsonEncoder \<times> int" where
  "RegisterEncodeCompleteCallback callback e = (e\<lparr>encoder_callback := callback\<rparr>, 0)"

definition SetRates :: "u32 \<Rightarrow> u32 \<Rightarrow> JetsonEncoder \<Rightarrow> JetsonEncoder \<times> int" where
  "SetRates new_bitrate new_framerate e = (e, 0)"

record CodecInfo =
  has_internal_source :: bool
  is_hardware_accelerated :: bool

definition QueryVideoEncoder :: "'format \<Rightarrow> CodecInfo" where
  "QueryVideoEncoder format = \<lparr>has_internal_source = False, is_hardware_accelerated = True\<rparr>"

definition GetSupportedFormats :: "'format list \<Rightarrow> 'format list" where
  "GetSupportedFormats h264_codecs = fold (\<lambda>format supported_codecs. supported_codecs @ [format]) h264_codecs []"

section \<open>Properties\<close>

text \<open>The factory offers every H.264 format, in the order of libwebrtc.\<close>

lemma GetSupportedFormats_all: "GetSupportedFormats h264_codecs = h264_codecs"
proof -
  have "fold (\<lambda>f xs. xs @ [f]) fs acc = acc @ fs" for fs acc :: "'a list" by (induction fs arbitrary: acc) simp_all
  then show ?thesis by (simp add: GetSupportedFormats_def)
qed

fun nv_calls :: "syscall \<Rightarrow> sysret \<Rightarrow> nv_call list" where
  "nv_calls (Nv c) r = [c]"
| "nv_calls _ r = []"

lemma nv_all_ok:
  assumes "script s = as @ rs" "length as = length calls" "list_all (\<lambda>r. rv r = 0) as"
  shows "\<exists>s'. nv_all calls s = (Ret (), s') \<and> script s' = rs \<and>
    observe nv_calls s' = observe nv_calls s @ calls"
  using assms
proof (induction calls arbitrary: s as)
  case Nil
  then show ?case by simp
next
  case (Cons c calls)
  then obtain r as' where as: "as = r # as'" by (cases as) auto
  let ?s = "s\<lparr>script := as' @ rs, trace := trace s @ [(Nv c, r)], errno := errno s\<rparr>"
  have step: "nv_ok c s = (Ret (), ?s)" using Cons.prems as by (simp add: nv_ok_def)
  have "\<exists>s'. nv_all calls ?s = (Ret (), s') \<and> script s' = rs \<and>
      observe nv_calls s' = observe nv_calls ?s @ calls"
    using Cons.prems as by (intro Cons.IH [where as = as']) auto
  then show ?case using step by (auto simp: observe_def)
qed

lemma queue_loop_ok:
  assumes "script s = concat (replicate k [n, q]) @ n # rs" "rv n = int m" "m < 2 ^ 31" "rv q \<ge> 0" "k \<le> m"
  shows "\<exists>s'. queue_loop (of_nat (m - k)) s = (Ret 0, s') \<and> script s' = rs \<and>
    filter (\<lambda>c. c \<noteq> CaptureNumBuffers) (observe nv_calls s') =
    filter (\<lambda>c. c \<noteq> CaptureNumBuffers) (observe nv_calls s) @ map (\<lambda>i. CaptureQBuffer (of_nat i)) [m - k..<m]"
  using assms
proof (induction k arbitrary: s)
  case 0
  then show ?case by (simp add: queue_loop.simps observe_def)
next
  case (Suc k)
  have lt: "(of_nat (m - Suc k) :: u32) < of_nat m"
    using Suc.prems by (simp add: word_less_nat_alt unat_of_nat take_bit_nat_eq_self del: of_nat_diff)
  have nxt: "(of_nat (m - Suc k) :: u32) + 1 = of_nat (m - k)"
    using Suc.prems(5) by (metis Suc_diff_Suc Suc_le_lessD add.commute of_nat_Suc)
  obtain t where t: "sys (Nv CaptureNumBuffers) s = (Ret n, t)"
    "script t = q # concat (replicate k [n, q]) @ n # rs"
    "observe nv_calls t = observe nv_calls s @ [CaptureNumBuffers]"
    using Suc.prems(1) by (simp add: observe_def)
  obtain u where u: "sys (Nv (CaptureQBuffer (of_nat (m - Suc k)))) t = (Ret q, u)"
    "script u = concat (replicate k [n, q]) @ n # rs"
    "observe nv_calls u = observe nv_calls t @ [CaptureQBuffer (of_nat (m - Suc k))]"
    using t(2) by (simp add: observe_def)
  have "queue_loop (of_nat (m - Suc k)) s = queue_loop (of_nat (m - k)) u"
    using t(1) u(1) lt nxt Suc.prems(2,4) by (subst queue_loop.simps) simp
  moreover have "\<exists>s'. queue_loop (of_nat (m - k)) u = (Ret 0, s') \<and> script s' = rs \<and>
    filter (\<lambda>c. c \<noteq> CaptureNumBuffers) (observe nv_calls s') =
    filter (\<lambda>c. c \<noteq> CaptureNumBuffers) (observe nv_calls u) @ map (\<lambda>i. CaptureQBuffer (of_nat i)) [m - k..<m]"
    using Suc.prems u(2) by (intro Suc.IH) auto
  moreover have "[m - Suc k..<m] = (m - Suc k) # [m - k..<m]"
    using Suc.prems(5) by (metis Suc_diff_Suc Suc_le_lessD diff_less upt_conv_Cons zero_less_Suc order_less_le_trans)
  ultimately show ?case using t(3) u(3) by simp
qed

text \<open>The context after the initialisation.\<close>

definition initial_context :: "nv_constants \<Rightarrow> u16 \<Rightarrow> u16 \<Rightarrow> context_t" where
  "initial_context nv w h = (SetDefaults nv)\<lparr>encoder_pixfmt := V4L2_PIX_FMT_H264,
     ctx_width := ucast w, encode_width := ucast w, ctx_height := ucast h, encode_height := ucast h,
     enc := True, level := V4L2_MPEG_VIDEO_H264_LEVEL_5_1, output_memory_type := V4L2_MEMORY_MMAP,
     capture_memory_type := V4L2_MEMORY_MMAP, raw_pixfmt := V4L2_PIX_FMT_YUV420M,
     encoded_images := Images (replicate 6 EncodedImage_empty)\<rparr>"

lemma num_output_buffers_default [simp]: "num_output_buffers (SetDefaults nv) = 6"
  by (simp add: SetDefaults_def Let_def)

text \<open>
  (C20) A working encoder is set up completely: when every call of the multimedia API succeeds,
  \<^verbatim>\<open>InitEncode\<close> returns 0, where the comment of \<^verbatim>\<open>jetson_encoder.h\<close> announces the set bit rate, the calls are made
  in the order of the code with the frame size
  of the codec, H.264 at level 5.1 and 10 output and 6 capture buffers, and every capture buffer
  is enqueued exactly once, in order.
\<close>

theorem InitEncode_ready:
  assumes "script s = e # as @ bs @ t # concat (replicate m [n, q]) @ n # rs"
    and "rv e \<noteq> 0" "length as = 11" "length bs = 3" "list_all (\<lambda>r. rv r = 0) (as @ bs)"
    and "rv n = int m" "m < 2 ^ 31" "rv q \<ge> 0"
  shows "\<exists>s'. InitEncode nv w h s = (Ret (initial_context nv w h, 0), s') \<and>
    filter (\<lambda>c. c \<noteq> CaptureNumBuffers) (observe nv_calls s') =
    filter (\<lambda>c. c \<noteq> CaptureNumBuffers) (observe nv_calls s) @
      [CreateVideoEncoder ''enc0'', SetCapturePlaneFormat V4L2_PIX_FMT_H264 (ucast w) (ucast h) (2 * 1024 * 1024),
       SetOutputPlaneFormat V4L2_PIX_FMT_YUV420M (ucast w) (ucast h) V4L2_COLORSPACE_SMPTE170M,
       SetBitrate (4 * 1024 * 1024), SetProfile 0, SetLevel V4L2_MPEG_VIDEO_H264_LEVEL_5_1, SetIDRInterval 256,
       SetIFrameInterval 30, SetFrameRate 30 1, SetMaxPerfMode 1, SetupOutputPlane 10, SetupCapturePlane 6,
       SubscribeEos, OutputStreamOn, CaptureStreamOn, StartDQThread]
      @ map (\<lambda>i. CaptureQBuffer (of_nat i)) [0..<m]"
proof -
  let ?ctx = "(initial_context nv w h)\<lparr>encoded_images := NoImages\<rparr>"
  have ctx: "(SetDefaults nv)\<lparr>encoder_pixfmt := V4L2_PIX_FMT_H264, ctx_width := ucast w, encode_width := ucast w,
      ctx_height := ucast h, encode_height := ucast h\<rparr>\<lparr>enc := True, level := V4L2_MPEG_VIDEO_H264_LEVEL_5_1,
      output_memory_type := V4L2_MEMORY_MMAP, capture_memory_type := V4L2_MEMORY_MMAP,
      raw_pixfmt := V4L2_PIX_FMT_YUV420M\<rparr> = ?ctx"
    by (simp add: initial_context_def SetDefaults_def Let_def)
  obtain s1 where s1: "sys (Nv (CreateVideoEncoder ''enc0'')) s = (Ret e, s1)"
    "script s1 = as @ bs @ t # concat (replicate m [n, q]) @ n # rs"
    "observe nv_calls s1 = observe nv_calls s @ [CreateVideoEncoder ''enc0'']"
    using assms(1) by (simp add: observe_def)
  have "length as = length (plane_setup ?ctx)" "length bs = length stream_setup"
    "list_all (\<lambda>r. rv r = 0) as" "list_all (\<lambda>r. rv r = 0) bs"
    using assms(3-5) by (simp_all add: plane_setup_def stream_setup_def)
  from nv_all_ok [OF s1(2) this(1,3)] nv_all_ok [OF _ this(2,4)] obtain s2 s3 where
    s2: "nv_all (plane_setup ?ctx) s1 = (Ret (), s2)"
      "observe nv_calls s2 = observe nv_calls s1 @ plane_setup ?ctx" and
    s3: "nv_all stream_setup s2 = (Ret (), s3)" "script s3 = t # concat (replicate m [n, q]) @ n # rs"
      "observe nv_calls s3 = observe nv_calls s2 @ stream_setup" by metis
  obtain s4 where s4: "sys (Nv StartDQThread) s3 = (Ret t, s4)" "script s4 = concat (replicate m [n, q]) @ n # rs"
    "observe nv_calls s4 = observe nv_calls s3 @ [StartDQThread]"
    using s3(2) by (simp add: observe_def)
  from queue_loop_ok [OF s4(2) assms(6-8)] obtain s5 where s5: "queue_loop 0 s4 = (Ret 0, s5)"
    "filter (\<lambda>c. c \<noteq> CaptureNumBuffers) (observe nv_calls s5) =
     filter (\<lambda>c. c \<noteq> CaptureNumBuffers) (observe nv_calls s4) @ map (\<lambda>i. CaptureQBuffer (of_nat i)) [0..<m]" by auto
  have plan: "plane_setup ?ctx = [SetCapturePlaneFormat V4L2_PIX_FMT_H264 (ucast w) (ucast h) (2 * 1024 * 1024),
       SetOutputPlaneFormat V4L2_PIX_FMT_YUV420M (ucast w) (ucast h) V4L2_COLORSPACE_SMPTE170M,
       SetBitrate (4 * 1024 * 1024), SetProfile 0, SetLevel V4L2_MPEG_VIDEO_H264_LEVEL_5_1, SetIDRInterval 256,
       SetIFrameInterval 30, SetFrameRate 30 1, SetMaxPerfMode 1, SetupOutputPlane 10, SetupCapturePlane 6]"
    by (simp add: plane_setup_def initial_context_def SetDefaults_def Let_def)
  have imgs: "?ctx\<lparr>encoded_images := Images (replicate (unat (num_output_buffers ?ctx)) EncodedImage_empty)\<rparr> =
      initial_context nv w h"
    by (simp add: initial_context_def)
  have "InitEncode nv w h s = (Ret (initial_context nv w h, 0), s5)"
    unfolding InitEncode_def Let_def ctx using s1(1) s2(1) s3(1) s4(1) s5(1) assms(2) imgs by simp
  moreover have "filter (\<lambda>c. c \<noteq> CaptureNumBuffers) (observe nv_calls s4) =
    filter (\<lambda>c. c \<noteq> CaptureNumBuffers) (observe nv_calls s) @ [CreateVideoEncoder ''enc0''] @ plane_setup ?ctx
      @ stream_setup @ [StartDQThread]"
    using s1(3) s2(2) s3(3) s4(3) plan by (simp add: stream_setup_def)
  ultimately show ?thesis using s5(2) plan by (simp add: stream_setup_def)
qed

lemma sys_nv:
  assumes "script s = r # rs"
  obtains t where "sys (Nv c) s = (Ret r, t)" "script t = rs" "observe nv_calls t = observe nv_calls s @ [c]"
  using assms by (simp add: observe_def)

lemma sync_planes_ok:
  assumes "script s = as @ rs" "length as = 2 * length js" "list_all (\<lambda>r. rv r \<ge> 0) as"
  shows "\<exists>s'. sync_planes js s = (Ret 0, s') \<and> script s' = rs \<and>
    observe nv_calls s' = observe nv_calls s @ concat (map (\<lambda>j. [SurfaceFromFd j, SyncForDevice j]) js)"
  using assms
proof (induction js arbitrary: s as)
  case Nil
  then show ?case by simp
next
  case (Cons j js)
  then obtain a b as' where as: "as = a # b # as'" by (cases as; cases "tl as") auto
  from Cons.prems(1) as sys_nv [of s a "b # as' @ rs" "SurfaceFromFd j"] obtain t where
    t: "sys (Nv (SurfaceFromFd j)) s = (Ret a, t)" "script t = b # as' @ rs"
      "observe nv_calls t = observe nv_calls s @ [SurfaceFromFd j]" by auto
  from t(2) sys_nv [of t b "as' @ rs" "SyncForDevice j"] obtain u where
    u: "sys (Nv (SyncForDevice j)) t = (Ret b, u)" "script u = as' @ rs"
      "observe nv_calls u = observe nv_calls t @ [SyncForDevice j]" by auto
  from Cons.IH [OF u(2)] Cons.prems(2,3) as t u show ?case by auto
qed

lemma sync_planes_fails:
  assumes "script s = as @ r # rs" "length as < 2 * length js" "list_all (\<lambda>r. rv r \<ge> 0) as" "rv r < 0"
  shows "\<exists>s'. sync_planes js s = (Ret (-1), s') \<and> observe nv_calls s' = observe nv_calls s @
    take (Suc (length as)) (concat (map (\<lambda>j. [SurfaceFromFd j, SyncForDevice j]) js))"
  using assms
proof (induction js arbitrary: s as)
  case Nil
  then show ?case by simp
next
  case (Cons j js)
  show ?case
  proof (cases as)
    case Nil
    then show ?thesis using Cons.prems by (simp add: observe_def)
  next
    case (Cons a as1)
    show ?thesis
    proof (cases as1)
      case Nil
      then show ?thesis using Cons Cons.prems by (simp add: observe_def)
    next
      case (Cons b as')
      have as: "as = a # b # as'" using \<open>as = a # as1\<close> Cons by simp
      from Cons.prems(1) as sys_nv [of s a "b # as' @ r # rs" "SurfaceFromFd j"] obtain t where
        t: "sys (Nv (SurfaceFromFd j)) s = (Ret a, t)" "script t = b # as' @ r # rs"
          "observe nv_calls t = observe nv_calls s @ [SurfaceFromFd j]" by auto
      from t(2) sys_nv [of t b "as' @ r # rs" "SyncForDevice j"] obtain u where
        u: "sys (Nv (SyncForDevice j)) t = (Ret b, u)" "script u = as' @ r # rs"
          "observe nv_calls u = observe nv_calls t @ [SyncForDevice j]" by auto
      from Cons.IH [OF u(2)] Cons.prems(2-4) as t u show ?thesis by auto
    qed
  qed
qed

text \<open>The calls that fill the dequeued buffer and hand it to the device.\<close>

definition copy_calls :: "VideoFrame \<Rightarrow> sysret \<Rightarrow> nv_call list" where
  "copy_calls frame dq =
     [OutputDqBuffer, CopyPlane 0 (take (buf_bytesused dq 0) (frame_DataY frame)),
      CopyPlane 1 (take (buf_bytesused dq 1) (frame_DataU frame)), CopyPlane 2 (take (buf_bytesused dq 2) (frame_DataV frame))]"

definition sync_calls :: "sysret \<Rightarrow> nv_call list" where
  "sync_calls dq = concat (map (\<lambda>j. [SurfaceFromFd j, SyncForDevice j]) [0..<buf_planes dq])"

definition plane_missing :: "VideoFrame \<Rightarrow> sysret \<Rightarrow> bool" where
  "plane_missing frame dq \<longleftrightarrow> length (frame_DataY frame) < buf_bytesused dq 0 \<or>
     length (frame_DataU frame) < buf_bytesused dq 1 \<or> length (frame_DataV frame) < buf_bytesused dq 2"

lemma Encode_copied:
  assumes "script s = dq # c0 # c1 # c2 # rs" "rv dq \<ge> 0" "enc ctx" "\<not> plane_missing frame dq"
  obtains t where "Encode frame ctx s = io_bind (sync_planes [0..<buf_planes dq]) (queue_frame frame ctx (buf_index dq)) t"
    "script t = rs" "observe nv_calls t = observe nv_calls s @ copy_calls frame dq"
proof -
  let ?Y = "take (buf_bytesused dq 0) (frame_DataY frame)" and ?U = "take (buf_bytesused dq 1) (frame_DataU frame)"
    and ?V = "take (buf_bytesused dq 2) (frame_DataV frame)"
  from sys_nv [OF assms(1), of OutputDqBuffer] obtain t1 where t1: "sys (Nv OutputDqBuffer) s = (Ret dq, t1)"
    "script t1 = c0 # c1 # c2 # rs" "observe nv_calls t1 = observe nv_calls s @ [OutputDqBuffer]" .
  from sys_nv [OF t1(2), of "CopyPlane 0 ?Y"] obtain t2 where t2: "sys (Nv (CopyPlane 0 ?Y)) t1 = (Ret c0, t2)"
    "script t2 = c1 # c2 # rs" "observe nv_calls t2 = observe nv_calls t1 @ [CopyPlane 0 ?Y]" .
  from sys_nv [OF t2(2), of "CopyPlane 1 ?U"] obtain t3 where t3: "sys (Nv (CopyPlane 1 ?U)) t2 = (Ret c1, t3)"
    "script t3 = c2 # rs" "observe nv_calls t3 = observe nv_calls t2 @ [CopyPlane 1 ?U]" .
  from sys_nv [OF t3(2), of "CopyPlane 2 ?V"] obtain t4 where t4: "sys (Nv (CopyPlane 2 ?V)) t3 = (Ret c2, t4)"
    "script t4 = rs" "observe nv_calls t4 = observe nv_calls t3 @ [CopyPlane 2 ?V]" .
  show thesis
  proof (rule that [OF _ t4(2)])
    show "Encode frame ctx s = io_bind (sync_planes [0..<buf_planes dq]) (queue_frame frame ctx (buf_index dq)) t4"
      using assms(2-4) t1(1) t2(1) t3(1) t4(1) by (simp add: Encode_def copy_plane_def plane_missing_def)
    show "observe nv_calls t4 = observe nv_calls s @ copy_calls frame dq"
      using t1(3) t2(3) t3(3) t4(3) by (simp add: copy_calls_def)
  qed
qed

lemma Encode_missing:
  assumes "script s = dq # c0 # c1 # rs" "rv dq \<ge> 0" "enc ctx" "plane_missing frame dq"
  shows "fst (Encode frame ctx s) = Undef"
  using assms by (auto simp: Encode_def copy_plane_def plane_missing_def io_bind_def)

text \<open>
  (C21) Encoding a frame.  When no buffer can be dequeued, -1 is returned and nothing else is done.  Otherwise the three
  planes of the frame are copied into the dequeued buffer, as many bytes as it uses, and every plane of the buffer is
  synchronised; when this fails for a plane, -1 is returned at once and the buffer is not queued.  Then the image with the
  index of the buffer gets the size of the context and the time stamps, rotation and colour space of the frame, no other
  image changes, and that buffer, and no other, is queued: 0 is returned and one more frame is counted, or -1 and none
  when the queueing fails.  This requires planes of the frame that are as long as the buffer's, and an index that is one of
  the allocated images: otherwise the program reads or writes outside an array, and \<^verbatim>\<open>InitEncode\<close> allocates 6 images for the
  10 buffers of the output plane.
\<close>

theorem Encode_outcome:
  assumes "script s = dq # c0 # c1 # c2 # as @ q # rs" "length as \<le> 2 * buf_planes dq"
    and "list_all (\<lambda>r. rv r \<ge> 0) as" "enc ctx" "encoded_images ctx = Images images"
  shows "(rv dq < 0 \<longrightarrow> (\<exists>s'. Encode frame ctx s = (Ret (ctx, -1), s') \<and>
      observe nv_calls s' = observe nv_calls s @ [OutputDqBuffer])) \<and>
    (rv dq \<ge> 0 \<and> \<not> plane_missing frame dq \<and> length as < 2 * buf_planes dq \<and> rv q < 0 \<longrightarrow>
      (\<exists>s'. Encode frame ctx s = (Ret (ctx, -1), s') \<and>
        observe nv_calls s' = observe nv_calls s @ copy_calls frame dq @ take (Suc (length as)) (sync_calls dq))) \<and>
    (rv dq \<ge> 0 \<and> \<not> plane_missing frame dq \<and> length as = 2 * buf_planes dq \<and> unat (buf_index dq) < length images \<longrightarrow>
      (\<exists>s'. Encode frame ctx s = (Ret (ctx\<lparr>
          encoded_images := Images (images[unat (buf_index dq) := (images ! unat (buf_index dq))\<lparr>
            encodedWidth := encode_width ctx, encodedHeight := encode_height ctx, timestamp_rtp := frame_timestamp frame,
            ntp_time_ms := frame_ntp_time_ms frame, capture_time_ms := frame_render_time_ms frame,
            rotation := frame_rotation frame, color_space := frame_color_space frame\<rparr>]),
          input_frames_queued_count := input_frames_queued_count ctx + (if rv q < 0 then 0 else 1)\<rparr>,
          if rv q < 0 then -1 else 0), s') \<and>
        observe nv_calls s' = observe nv_calls s @ copy_calls frame dq @ sync_calls dq @ [OutputQBuffer (buf_index dq)])) \<and>
    (rv dq \<ge> 0 \<and> (plane_missing frame dq \<or> length as = 2 * buf_planes dq \<and> unat (buf_index dq) \<ge> length images) \<longrightarrow>
      fst (Encode frame ctx s) = Undef) \<and>
    encoded_images (initial_context nv w h) = Images (replicate 6 EncodedImage_empty)"
proof -
  have "\<exists>s'. Encode frame ctx s = (Ret (ctx, -1), s') \<and> observe nv_calls s' = observe nv_calls s @ [OutputDqBuffer]" if "rv dq < 0"
    using that assms(1,4) by (simp add: Encode_def observe_def)
  moreover have ?thesis if dq: "rv dq \<ge> 0" and full: "\<not> plane_missing frame dq"
  proof -
    from Encode_copied [OF assms(1) dq assms(4) full] obtain t where
      t: "Encode frame ctx s = io_bind (sync_planes [0..<buf_planes dq]) (queue_frame frame ctx (buf_index dq)) t"
        "script t = as @ q # rs" "observe nv_calls t = observe nv_calls s @ copy_calls frame dq" .
    have unsynced: "\<exists>s'. Encode frame ctx s = (Ret (ctx, -1), s') \<and>
        observe nv_calls s' = observe nv_calls s @ copy_calls frame dq @ take (Suc (length as)) (sync_calls dq)"
      if "length as < 2 * buf_planes dq" "rv q < 0"
      using sync_planes_fails [OF t(2), of "[0..<buf_planes dq]"] that assms(3) t
      by (auto simp: io_bind_def queue_frame_def io_ret_def sync_calls_def)
    show ?thesis
    proof (cases "length as = 2 * buf_planes dq")
      case True
      from sync_planes_ok [OF t(2), of "[0..<buf_planes dq]"] assms(3) True t(3) obtain u where
        u: "sync_planes [0..<buf_planes dq] t = (Ret 0, u)" "script u = q # rs"
          "observe nv_calls u = observe nv_calls s @ copy_calls frame dq @ sync_calls dq" by (auto simp: sync_calls_def)
      show ?thesis using t(1) u(1,2) u(3) [unfolded observe_def] dq full assms(5) True
        by (cases "rv q < 0") (simp_all add: queue_frame_def stamp_image_def Let_def initial_context_def observe_def)
    next
      case False
      then show ?thesis using unsynced dq full by (simp add: initial_context_def)
    qed
  qed
  moreover have "fst (Encode frame ctx s) = Undef" if "rv dq \<ge> 0" "plane_missing frame dq"
    using Encode_missing [OF assms(1) that(1) assms(4) that(2)] .
  ultimately show ?thesis by (cases "rv dq < 0"; cases "plane_missing frame dq") (simp_all add: initial_context_def)
qed

text \<open>
  Releasing.  The first \<^verbatim>\<open>Release\<close> deletes the images and reports -1 exactly when
  the encoder or the callback met an error; a second one deletes the array again, which is
  undefined.
\<close>

theorem Release_twice:
  assumes "script s = r # q # rs" "enc ctx" "encoded_images ctx = Images images"
  shows "fst (JetsonEncoder_Release ctx s) =
      Ret (ctx\<lparr>encoded_images := DeletedImages\<rparr>, if rv r \<noteq> 0 \<or> got_error ctx then -1 else 0) \<and>
    fst (io_bind (JetsonEncoder_Release ctx) (\<lambda>(ctx, _). JetsonEncoder_Release ctx) s) = Undef"
  using assms by (simp add: JetsonEncoder_Release_def io_bind_def Let_def)

text \<open>
  (C22) The capture plane.  For a buffer of the capture plane with data the callback keeps the array of images, only
  growing the capacity of the image of that buffer to what a frame needs, counts the frame and gives that very buffer
  back to the plane, its only call; when this fails it aborts the encoder, sets the error flag and stops the thread.  A null
  or empty buffer is not given back: the encoder is aborted, the error flag set and the thread stopped.  An index
  beyond the images is an access outside the array.
\<close>

theorem callback_outcome:
  assumes "script s = r # q # rs" "encoded_images ctx = Images images" "used \<noteq> 0"
  shows "(unat i < length images \<longrightarrow>
      (\<exists>s'. EncoderCapturePlaneCallback size_of (Some i) used ctx n s =
        (Ret (ctx\<lparr>encoded_images := Images (images[unat i := (images ! unat i)\<lparr>capacity :=
            max (capacity (images ! unat i)) (size_of (encode_width ctx) (encode_height ctx))\<rparr>]),
          got_error := got_error ctx \<or> rv r < 0\<rparr>, n + 1, rv r \<ge> 0), s') \<and>
        observe nv_calls s' = observe nv_calls s @ (if rv r < 0 then [CaptureQBuffer i, EncoderAbort] else [CaptureQBuffer i]))) \<and>
    (\<exists>s'. EncoderCapturePlaneCallback size_of None used ctx n s = (Ret (ctx\<lparr>got_error := True\<rparr>, n, False), s') \<and>
      observe nv_calls s' = observe nv_calls s @ [EncoderAbort]) \<and>
    (\<exists>s'. EncoderCapturePlaneCallback size_of (Some i) 0 ctx n s = (Ret (ctx\<lparr>got_error := True\<rparr>, n, False), s') \<and>
      observe nv_calls s' = observe nv_calls s @ [EncoderAbort]) \<and>
    (unat i \<ge> length images \<longrightarrow> fst (EncoderCapturePlaneCallback size_of (Some i) used ctx n s) = Undef)"
proof -
  have img: "(if capacity g < m then g\<lparr>capacity := m\<rparr> else g) = g\<lparr>capacity := max (capacity g) m\<rparr>" for g m
    by (cases g) (simp add: max_def)
  from sys_nv [OF assms(1), of "CaptureQBuffer i"] obtain t where t: "sys (Nv (CaptureQBuffer i)) s = (Ret r, t)" "script t = q # rs"
    "observe nv_calls t = observe nv_calls s @ [CaptureQBuffer i]" .
  from sys_nv [OF t(2), of EncoderAbort] obtain u where u: "sys (Nv EncoderAbort) t = (Ret q, u)"
    "observe nv_calls u = observe nv_calls t @ [EncoderAbort]" by metis
  from sys_nv [OF assms(1), of EncoderAbort] obtain v where v: "sys (Nv EncoderAbort) s = (Ret r, v)"
    "observe nv_calls v = observe nv_calls s @ [EncoderAbort]" by metis
  show ?thesis
    using assms(2,3) t u v
    by (cases "rv r < 0") (simp_all add: EncoderCapturePlaneCallback_def encoder_abort_def Let_def img io_bind_def)
qed

end
