(* ===== verification/Examples.thy ===== *)
theory Examples
  imports Http_Properties Http_Ownership Whip Jetson
begin

text \<open>
  Each property with hypotheses applied to a concrete input, where the hypotheses hold.
\<close>

section \<open>HTTP\<close>

lemmas char_simps = char_class_defs isHexChar_def hex_value_def

theorem read_chunked_message_witness:
  "read_blocks (\<lambda>_. True) init_recv
     [message_head 1 1 200 ''OK'' [(''Transfer-Encoding'', ''chunked'')] @ ''3'' @ [CR],
      [LF] @ ''ab'', ''c'' @ crlf @ ''0'' @ crlf] =
   Some (Inr \<lparr>status = Some (status_of 1 1 200 ''OK''),
     headerFields = [(''transfer-encoding'', ''chunked'')], body = ''abc''\<rparr>)"
proof -
  let ?hfs = "[(''Transfer-Encoding'', ''chunked'')]"
  have n: "map norm_field ?hfs = [(''transfer-encoding'', ''chunked'')]"
    by (simp add: norm_field_def trim_def trim_end_def toLowerChar_def char_simps char_of_def bit_0)
  have "valid_head 1 1 200 ''OK'' ?hfs"
    by (simp add: valid_head_def valid_field_def char_simps)
  moreover have "list_all valid_chunk [(''3'', ''abc'')]" "last_chunk ''0''"
    by (simp_all add: valid_chunk_def last_chunk_def numeral_value_def char_simps)
  ultimately show ?thesis
    using read_chunked_message [of 1 1 200 "''OK''" ?hfs "[(''3'', ''abc'')]" "''0''" "''3'' @ [CR]"
        "[[LF] @ ''ab'', ''c'' @ crlf @ ''0'' @ crlf]" "[]" "\<lambda>_. True"] n
    by (simp add: chunk_stream_def chunk_def)
qed

theorem read_length_message_witness:
  "read_blocks (\<lambda>_. True) init_recv
     [message_head 1 1 200 ''OK'' [(''Content-Length'', ''3'')] @ ''a'', ''bc''] =
   Some (Inr \<lparr>status = Some (status_of 1 1 200 ''OK''), headerFields = [(''content-length'', ''3'')], body = ''abc''\<rparr>)"
proof -
  let ?hfs = "[(''Content-Length'', ''3'')]"
  have n: "map norm_field ?hfs = [(''content-length'', ''3'')]"
    by (simp add: norm_field_def trim_def trim_end_def toLowerChar_def char_simps char_of_def bit_0)
  have "valid_head 1 1 200 ''OK'' ?hfs"
    by (simp add: valid_head_def valid_field_def char_simps)
  then show ?thesis
    using read_length_message [of 1 1 200 "''OK''" ?hfs "[]" "''3''" "[]" "''abc''" "\<lambda>_. True" "''a''" "[''bc'']"] n
    by (simp add: numeral_value_def char_simps)
qed

theorem parseUri_printUri_witness:
  "parseUri (printUri \<lparr>scheme = ''http'', user = ''u'', password = ''p'', host = ''h'', port = ''80'',
     path = ''/x'', query = ''q'', fragment = ''f''\<rparr>) =
   Inr \<lparr>scheme = ''http'', user = ''u'', password = ''p'', host = ''h'', port = ''80'',
     path = ''/x'', query = ''q'', fragment = ''f''\<rparr>"
  by (rule parseUri_printUri) (simp_all add: uri_wf_def valid_scheme_def isSchemeChar_def char_simps)

theorem parsers_consume_witness:
  "suffix ''x'' (header_line ''Host'' ''h'' @ ''x'') \<and> suffix ''y'' (status_line 1 1 200 ''OK'' @ ''y'')"
proof -
  have "parseHeaderField (header_line ''Host'' ''h'' @ ''x'') = Inr (''x'', (toLower ''Host'', trim ''h''))"
    by (rule parseHeaderField_line) (simp_all add: char_simps)
  moreover have "parseStatusLine (status_line 1 1 200 ''OK'' @ ''y'') =
     Inr (''y'', \<lparr>version = \<lparr>major = of_nat 1, minor = of_nat 1\<rparr>, status_code = of_nat 200, reason = ''OK''\<rparr>)"
    by (rule parseStatusLine_line) (simp_all add: char_simps)
  ultimately show ?thesis
    using parsers_consume [of "header_line ''Host'' ''h'' @ ''x''" "''x''"] parsers_consume [of "status_line 1 1 200 ''OK'' @ ''y''" _ _ _ "''y''"]
    by blast
qed

theorem encodeHeaderFields_exact_witness:
  "encodeHeaderFields [(''Host'', ''h'')] = Inr (header_block [(''Host'', ''h'')]) \<and>
   list_all (\<lambda>(n, v). CR \<notin> set (n @ v) \<and> LF \<notin> set (n @ v)) [(''Host'', ''h'')]"
  using encodeHeaderFields_exact [of "[(''Host'', ''h'')]"] by (simp add: valid_field_def char_simps)

text \<open>A small request and a system that answers it.\<close>

definition ex_uri :: Uri where
  "ex_uri = \<lparr>scheme = ''http'', user = [], password = [], host = ''h'', port = [], path = ''/'', query = [], fragment = []\<rparr>"

definition ex_data :: bytes where
  "ex_data = ''GET / HTTP/1.1'' @ crlf @ ''Host: h'' @ crlf @ ''Content-Length: 0'' @ crlf @ crlf"

lemma ex_encode: "encodeHtml ex_uri ''GET'' [] [] = Inr ex_data"
  by (simp add: encodeHtml_def ex_uri_def ex_data_def requestHeaders_def requestTarget_def encodeRequestLine_def
      encodeHeaderFields_def to_string.simps char_simps char_of_def bit_0)


definition ex_request :: Request where
  "ex_request = \<lparr>internetProtocol = V4, uri = ex_uri\<rparr>"

definition ex_blocks :: "bytes list" where
  "ex_blocks = [message_head 1 1 200 ''OK'' [(''Content-Length'', ''3'')] @ ''a'', ''bc'']"

definition ex_response :: Response where
  "ex_response = \<lparr>status = Some (status_of 1 1 200 ''OK''), headerFields = [(''content-length'', ''3'')], body = ''abc''\<rparr>"

definition ex_os :: os where
  "ex_os = \<lparr>script = cooperating 0 5 0 True [20, 26] ex_blocks [ans 0, ans 0], trace = [], errno = 0\<rparr>"

lemma ex_head: "valid_head 1 1 200 ''OK'' [(''Content-Length'', ''3'')]"
  by (simp add: valid_head_def valid_field_def char_simps)

lemma ex_norm: "map norm_field [(''Content-Length'', ''3'')] = [] @ (''content-length'', ''3'') # []"
  by (simp add: norm_field_def trim_def trim_end_def toLowerChar_def char_simps char_of_def bit_0)

lemma ex_read: "read_blocks (\<lambda>_. True) init_recv ex_blocks = Some (Inr ex_response)"
  unfolding ex_blocks_def ex_response_def using read_length_blocks [OF ex_head ex_norm, of "''abc''" "\<lambda>_. True" "''a''" "[''bc'']"] ex_norm
  by (simp add: numeral_value_def char_simps)

lemma ex_blocks_length: "list_all (\<lambda>b. length b \<le> 4096) ex_blocks"
  by (simp add: ex_blocks_def message_head_def status_line_def header_block_def header_line_def)

lemma ex_run: "\<exists>s'. Request_send (\<lambda>_. True) ex_request ''GET'' [] [] (-1) ex_os = (Ret ex_response, s') \<and> length (script s') \<ge> length ([] :: sysret list)"
proof (rule Request_send_completes)
  show "encodeHtml (uri ex_request) ''GET'' [] [] = Inr ex_data" using ex_encode by (simp add: ex_request_def)
  show "read_blocks (\<lambda>_. True) init_recv ex_blocks = Some (Inr ex_response)" by (rule ex_read)
  show "script ex_os = cooperating 0 5 0 True [20, 26] ex_blocks (ans 0 # ans 0 # [])" by (simp add: ex_os_def)
qed (simp_all add: ex_request_def ex_uri_def ex_data_def ex_blocks_length)

theorem send_completes_witness:
  "\<exists>s'. Request_send (\<lambda>_. True) ex_request ''GET'' [] [] (-1) ex_os = (Ret ex_response, s')"
proof (rule send_completes)
  show "encodeHtml (uri ex_request) ''GET'' [] [] = Inr ex_data" using ex_encode by (simp add: ex_request_def)
  show "read_blocks (\<lambda>_. True) init_recv ex_blocks = Some (Inr ex_response)" by (rule ex_read)
  show "script ex_os = cooperating 0 5 0 True [20, 26] ex_blocks (ans 0 # ans 0 # [])" by (simp add: ex_os_def)
qed (simp_all add: ex_request_def ex_uri_def ex_data_def ex_blocks_length)

theorem send_releases_resources_witness:
  "\<exists>s' fd. Request_send (\<lambda>_. True) ex_request ''GET'' [] [] (-1) ex_os = (Ret ex_response, s') \<and>
    observe resource_events s' = observe resource_events ex_os @
      [Acquire AddressInfo, Acquire (Descriptor fd), Release (Descriptor fd), Release AddressInfo]"
  using ex_run send_releases_resources by fastforce

theorem send_transmits_request_witness:
  "\<exists>s'. Request_send (\<lambda>_. True) ex_request ''GET'' [] [] (-1) ex_os = (Ret ex_response, s') \<and>
    observe sent_bytes s' = observe sent_bytes ex_os @ ex_data"
proof -
  obtain s' where s: "Request_send (\<lambda>_. True) ex_request ''GET'' [] [] (-1) ex_os = (Ret ex_response, s')"
    using ex_run by blast
  have "encodeHtml (uri ex_request) ''GET'' [] [] = Inr ex_data" using ex_encode by (simp add: ex_request_def)
  with send_transmits_request [OF s] s show ?thesis by auto
qed

theorem send_returns_parsed_response_witness:
  "\<exists>s' blocks. Request_send (\<lambda>_. True) ex_request ''GET'' [] [] (-1) ex_os = (Ret ex_response, s') \<and>
    observe received_blocks s' = observe received_blocks ex_os @ blocks \<and>
    read_blocks (\<lambda>_. True) init_recv blocks = Some (Inr ex_response)"
  using ex_run send_returns_parsed_response by blast

definition ex_sockets :: os where
  "ex_sockets = \<lparr>script = [ans 3, ans 0, ans 0, ans 4, ans 0, ans 0, ans 0, ans 0], trace = [], errno = 0\<rparr>"

theorem sockets_own_descriptors_witness:
  "\<exists>s' l. run_sockets [SCreate V4, SCreate V6, SMove 0, SAssign 2 1, SDestroy 1, SDestroy 0] [] ex_sockets =
      (Ret [None, None, Some 4], s') \<and> observe resource_events s' = l \<and>
    acquired 3 l = released 3 l \<and> acquired 4 l = released 4 l + 1"
proof -
  obtain s' where s: "run_sockets [SCreate V4, SCreate V6, SMove 0, SAssign 2 1, SDestroy 1, SDestroy 0] [] ex_sockets =
      (Ret [None, None, Some 4], s')"
    by (simp add: ex_sockets_def ans_def Socket_new_def getAddressFamily_def io_bind_def sys_def io_catch_def endpoint_of_def
        Socket_move_def Socket_assign_def Socket_delete_def socket_close_def Let_def io_lift_def)
  have "observe resource_events ex_sockets = []" by (simp add: observe_def ex_sockets_def)
  with sockets_own_descriptors [OF s] s show ?thesis by (auto simp: owners_def)
qed

section \<open>Session descriptions\<close>

definition ex_mline :: string where
  "ex_mline = ''m=video 9 UDP 96 97''"

definition ex_section :: "string list" where
  "ex_section = [''a=mid:0'', ''a=rtpmap:96 VP8/90000'', ''a=rtpmap:97 H264/90000'', ''a=fmtp:97 x'', ''a=fmtp:96 y'']"

definition ex_sdp :: string where
  "ex_sdp = ''v=0'' @ [LF] @ ex_mline @ [LF] @ concat (map (\<lambda>l. l @ [LF]) ex_section) @ ''a=ssrc:1 c'' @ [LF]"

lemma ex_getlines: "getlines ex_sdp = [''v=0''] @ ex_mline # ex_section @ ''a=ssrc:1 c'' # []"
  by (simp add: ex_sdp_def ex_mline_def ex_section_def getlines.simps)





lemma ex_force: "\<exists>out. SDPForceCodecs ex_sdp [''H264''] = Inr out"
proof -
  have "''a=rtpmap'' \<notin> set (getlines ex_sdp)" unfolding ex_getlines by (simp add: ex_mline_def ex_section_def)
  then have "sdp_loop [''H264''] (getlines ex_sdp) sdp_init \<noteq> Inl e" for e by (simp add: sdp_loop_error)
  then show ?thesis by (cases "sdp_loop [''H264''] (getlines ex_sdp) sdp_init") (auto simp: SDPForceCodecs_def)
qed

theorem SDPForceCodecs_only_allowed_witness:
  "\<exists>out ls. SDPForceCodecs ex_sdp [''H264''] = Inr out \<and> out = unlines ls \<and>
    list_all (\<lambda>l. kept_line (getlines ex_sdp) [''H264''] l \<or> rewritten_mline (getlines ex_sdp) [''H264''] l) ls"
  using ex_force SDPForceCodecs_only_allowed by blast

section \<open>Configuration\<close>

definition ex_items :: "arg_item list" where
  "ex_items = [Opt ''d'' ''1'', Opt ''w'' (to_string 640), Pos ''http://h/whip'', Opt ''h'' (to_string 480),
     Flag ''v'', Opt ''r'' (to_string 15), Opt ''c'' ''yuyv'']"

lemma digits_no_flag: "\<not> is_flag (to_string n)"
  using to_string_digits [of "hd (to_string n)" n] isDigitChar_plain by (auto simp: is_flag_def)

lemma ex_items_ok: "items_ok ex_items"
  by (simp add: ex_items_def digits_no_flag) (simp add: is_flag_def)

theorem parse_args_items_witness:
  "parse_args (''wadi'' # concat (map item_tokens ex_items)) = items_args ex_items \<and>
   parse_args (''wadi'' # concat (map item_tokens ex_items) @ [''-'' @ ''x'']) = items_args ex_items"
  using parse_args_items [OF ex_items_ok] by blast

section \<open>Camera and session\<close>

definition ex_cap :: v4l2_capability where
  "ex_cap = \<lparr>driver = ''uvc'', card = ''cam'', bus_info = ''usb-1'', capabilities = 0x04000001\<rparr>"

definition state :: "sysret list \<Rightarrow> os" where
  "state rs = \<lparr>script = rs, trace = [], errno = 0\<rparr>"

lemma script_state [simp]: "script (state rs) = rs"
  by (simp add: state_def)

lemma observe_state [simp]: "observe obs (state rs) = []"
  by (simp add: state_def observe_def)

lemma ans_caps [simp]: "capabilities (dev_cap (ans n)) = 0"
  by (simp add: ans_def)

lemma ex_cap_bits:
  "capabilities ex_cap AND V4L2_CAP_VIDEO_CAPTURE \<noteq> 0" "capabilities ex_cap AND V4L2_CAP_STREAMING \<noteq> 0"
  "capabilities ex_cap AND (V4L2_CAP_VIDEO_CAPTURE OR V4L2_CAP_VIDEO_CAPTURE_MPLANE) \<noteq> 0"
  by (simp_all add: ex_cap_def)

theorem V4LDevice_new_outcome_witness:
  "observe resource_events (snd (V4LDevice_new ''/dev/video0'' (state [ans 7, ans 0, ans 0]))) =
     [Acquire (Descriptor 7)] \<and>
   (\<exists>m. fst (V4LDevice_new ''/dev/video0'' (state [ans 7, ans 0, ans 0])) = Throw (RuntimeError m))"
  using V4LDevice_new_outcome [of "state [ans 7, ans 0, ans 0]" "ans 7" "ans 0" "ans 0" "[]" "''/dev/video0''"]
  by simp

definition ex_config :: CaptureTrackConfig where
  "ex_config = \<lparr>width = 640, height = 480, fps = 15, fourcc = ''YUYV''\<rparr>"


definition ex_camera :: "sysret list" where
  "ex_camera = [ans 7, (ans 0)\<lparr>dev_cap := ex_cap\<rparr>, ans 0, ans 1, ans 0, ans 0]"

lemma ans_update [simp]: "rv ((ans n)\<lparr>dev_cap := c\<rparr>) = n" "dev_cap ((ans n)\<lparr>dev_cap := c\<rparr>) = c"
  by (simp_all add: ans_def)



theorem main_uses_null_connection_witness:
  "fst (wadi_main [''wadi''] (state ([ans 1, ans 0] @ ex_camera @ [ans 0]))) = Undef"
  by (rule main_uses_null_connection [where fac = "ans 1" and con = "ans 0" and f = "ans 0" and capturer = "ans 1"
        and reg = "ans 0" and start = "ans 0" and track = "ans 0" and rs = "[]"
        and r = "ans 7" and c = "(ans 0)\<lparr>dev_cap := ex_cap\<rparr>"])
    (simp_all add: ex_camera_def ex_cap_bits)










section \<open>Encoder\<close>

definition ex_nv :: nv_constants where
  "ex_nv = \<lparr>QP_RETAIN_VAL = -1, PPE_FEATURE_NONE = 0\<rparr>"

theorem InitEncode_ready_witness:
  "\<exists>s'. InitEncode ex_nv 640 480 (state (ans 1 # replicate 11 (ans 0) @ replicate 3 (ans 0) @ ans 0 #
       concat (replicate 2 [ans 2, ans 0]) @ ans 2 # [])) = (Ret (initial_context ex_nv 640 480, 0), s')"
  using InitEncode_ready [of "state (ans 1 # replicate 11 (ans 0) @ replicate 3 (ans 0) @ ans 0 #
       concat (replicate 2 [ans 2, ans 0]) @ ans 2 # [])" "ans 1" "replicate 11 (ans 0)" "replicate 3 (ans 0)" "ans 0" 2 "ans 2" "ans 0" "[]"
       ex_nv 640 480]
  by (auto simp: list_all_iff)

definition ex_frame :: VideoFrame where
  "ex_frame = \<lparr>frame_timestamp = 90, frame_ntp_time_ms = 0, frame_render_time_ms = 1, frame_rotation = 0, frame_color_space = None,
     frame_DataY = ''abcd'', frame_DataU = ''u'', frame_DataV = ''v''\<rparr>"

definition ex_dq :: "u32 \<Rightarrow> sysret" where
  "ex_dq i = (ans 0)\<lparr>buf_index := i, buf_planes := 1, buf_bytesused := (\<lambda>j. if j = 0 then 4 else 1)\<rparr>"

theorem Encode_outcome_witness:
  "(\<exists>s'. Encode ex_frame (initial_context ex_nv 640 480) (state (ex_dq 2 # ans 0 # ans 0 # ans 0 # [ans 0, ans 0] @ ans 0 # [])) =
      (Ret ((initial_context ex_nv 640 480)\<lparr>
         encoded_images := Images ((replicate 6 EncodedImage_empty)[2 := EncodedImage_empty\<lparr>encodedWidth := 640,
           encodedHeight := 480, timestamp_rtp := 90, ntp_time_ms := 0, capture_time_ms := 1, rotation := 0, color_space := None\<rparr>]),
         input_frames_queued_count := input_frames_queued_count (initial_context ex_nv 640 480) + 1\<rparr>, 0), s') \<and>
      observe nv_calls s' = [OutputDqBuffer, CopyPlane 0 ''abcd'', CopyPlane 1 ''u'', CopyPlane 2 ''v'',
        SurfaceFromFd 0, SyncForDevice 0, OutputQBuffer 2]) \<and>
   fst (Encode ex_frame (initial_context ex_nv 640 480) (state (ex_dq 7 # ans 0 # ans 0 # ans 0 # [ans 0, ans 0] @ ans 0 # []))) = Undef"
proof -
  have c: "enc (initial_context ex_nv 640 480)" "encoded_images (initial_context ex_nv 640 480) = Images (replicate 6 EncodedImage_empty)"
    "encode_width (initial_context ex_nv 640 480) = 640" "encode_height (initial_context ex_nv 640 480) = 480"
    by (simp_all add: initial_context_def)
  have a: "rv (ex_dq i) = 0" "buf_index (ex_dq i) = i" "buf_planes (ex_dq i) = 1" "\<not> plane_missing ex_frame (ex_dq i)" for i
    by (simp_all add: ex_dq_def ans_def plane_missing_def ex_frame_def)
  have f: "copy_calls ex_frame (ex_dq i) = [OutputDqBuffer, CopyPlane 0 ''abcd'', CopyPlane 1 ''u'', CopyPlane 2 ''v'']"
    "sync_calls (ex_dq i) = [SurfaceFromFd 0, SyncForDevice 0]" for i
    by (simp_all add: copy_calls_def sync_calls_def ex_dq_def ex_frame_def)
  have e: "observe nv_calls (state rs) = []" for rs by (simp add: observe_def state_def)
  have o: "frame_timestamp ex_frame = 90" "frame_ntp_time_ms ex_frame = 0" "frame_render_time_ms ex_frame = 1"
    "frame_rotation ex_frame = 0" "frame_color_space ex_frame = None" by (simp_all add: ex_frame_def)
  note at = Encode_outcome [of "state (ex_dq i # ans 0 # ans 0 # ans 0 # [ans 0, ans 0] @ ans 0 # [])" "ex_dq i" "ans 0" "ans 0" "ans 0"
      "[ans 0, ans 0]" "ans 0" "[]" "initial_context ex_nv 640 480" "replicate 6 EncodedImage_empty" ex_frame for i]
  show ?thesis using at [of 2] at [of 7] by (simp add: a c e f o)
qed

theorem Release_twice_witness:
  "fst (io_bind (JetsonEncoder_Release (initial_context ex_nv 640 480)) (\<lambda>(ctx, _). JetsonEncoder_Release ctx)
     (state [ans 0, ans 0])) = Undef"
  using Release_twice [of "state [ans 0, ans 0]" "ans 0" "ans 0" "[]" "initial_context ex_nv 640 480" "replicate 6 EncodedImage_empty"]
  by (simp add: initial_context_def)

theorem callback_outcome_witness:
  "(\<exists>s'. EncoderCapturePlaneCallback (\<lambda>w h. 100) (Some 3) 1 (initial_context ex_nv 640 480) 1 (state [ans (-1), ans 0]) =
      (Ret ((initial_context ex_nv 640 480)\<lparr>
         encoded_images := Images ((replicate 6 EncodedImage_empty)[3 := EncodedImage_empty\<lparr>capacity := max (capacity EncodedImage_empty) 100\<rparr>]),
         got_error := True\<rparr>, 2, False), s') \<and>
      observe nv_calls s' = [CaptureQBuffer 3, EncoderAbort]) \<and>
   (\<exists>s'. EncoderCapturePlaneCallback (\<lambda>w h. 100) None 1 (initial_context ex_nv 640 480) 1 (state [ans (-1), ans 0]) =
      (Ret ((initial_context ex_nv 640 480)\<lparr>got_error := True\<rparr>, 1, False), s') \<and> observe nv_calls s' = [EncoderAbort])"
proof -
  have e: "observe nv_calls (state rs) = []" for rs by (simp add: observe_def state_def)
  have c: "encoded_images (initial_context ex_nv 640 480) = Images (replicate 6 EncodedImage_empty)"
    by (simp add: initial_context_def)
  show ?thesis
    using callback_outcome [of "state [ans (-1), ans 0]" "ans (-1)" "ans 0" "[]" "initial_context ex_nv 640 480"
      "replicate 6 EncodedImage_empty" 1 3 "\<lambda>w h. 100" 1]
    by (simp add: c e)
qed

end
