(* ===== verification/Rtc_Numeric.thy ===== *)
theory Rtc_Numeric
  imports Wadi_Prelude
begin

text \<open>
  The integer conversions and comparisons of libwebrtc's headers
  (\<^verbatim>\<open>rtc_base/numerics/safe_conversions_impl.h\<close>,
  \<^verbatim>\<open>safe_conversions.h\<close>, \<^verbatim>\<open>safe_compare.h\<close>,
  \<^verbatim>\<open>safe_minmax.h\<close>).

  The eight fixed-width integer types are a \<open>datatype\<close>; a value is an unbounded integer
  inside the range of its type, and \<open>static_cast\<close> is the reduction modulo the width.
  Template dispatch is case distinction on types, a \<^verbatim>\<open>static_assert\<close> that fails is
  \<^const>\<open>None\<close>, and a comparison converts its operands to their common type first, as C++
  does.  The floating-point overloads are not modelled.
\<close>

section \<open>Integer types\<close>

datatype ctype = Int8 | Int16 | Int32 | Int64 | Uint8 | Uint16 | Uint32 | Uint64

fun is_signed :: "ctype \<Rightarrow> bool" where
  "is_signed Int8 = True" | "is_signed Int16 = True"
| "is_signed Int32 = True" | "is_signed Int64 = True"
| "is_signed Uint8 = False" | "is_signed Uint16 = False"
| "is_signed Uint32 = False" | "is_signed Uint64 = False"

fun sizeof :: "ctype \<Rightarrow> nat" where
  "sizeof Int8 = 1" | "sizeof Int16 = 2" | "sizeof Int32 = 4" | "sizeof Int64 = 8"
| "sizeof Uint8 = 1" | "sizeof Uint16 = 2" | "sizeof Uint32 = 4" | "sizeof Uint64 = 8"

fun type_max :: "ctype \<Rightarrow> int" where
  "type_max Int8 = 127" | "type_max Int16 = 32767"
| "type_max Int32 = 2147483647" | "type_max Int64 = 9223372036854775807"
| "type_max Uint8 = 255" | "type_max Uint16 = 65535"
| "type_max Uint32 = 4294967295" | "type_max Uint64 = 18446744073709551615"

fun type_min :: "ctype \<Rightarrow> int" where
  "type_min Int8 = -128" | "type_min Int16 = -32768"
| "type_min Int32 = -2147483648" | "type_min Int64 = -9223372036854775808"
| "type_min Uint8 = 0" | "type_min Uint16 = 0" | "type_min Uint32 = 0" | "type_min Uint64 = 0"

text \<open>The number of values of a type; a conversion reduces modulo it.\<close>

definition type_card :: "ctype \<Rightarrow> int" where
  "type_card t = type_max t - type_min t + 1"

definition in_range :: "ctype \<Rightarrow> int \<Rightarrow> bool" where
  "in_range t v \<longleftrightarrow> type_min t \<le> v \<and> v \<le> type_max t"

definition static_cast :: "ctype \<Rightarrow> int \<Rightarrow> int" where
  "static_cast t v = (v - type_min t) mod type_card t + type_min t"

lemma type_card_sizeof: "type_card t = 2 ^ (8 * sizeof t)"
  by (cases t) (simp_all add: type_card_def)

lemma type_card_pos [simp]: "0 < type_card t"
  by (cases t) (simp_all add: type_card_def)

lemma static_cast_id [simp]: "in_range t v \<Longrightarrow> static_cast t v = v"
  by (simp add: static_cast_def in_range_def type_card_def)

lemma in_range_zero [simp]: "in_range t 0"
  by (cases t) (simp_all add: in_range_def)

lemma static_cast_range [simp]: "in_range t (static_cast t v)"
  using pos_mod_bound [OF type_card_pos, of "v - type_min t" t]
    pos_mod_sign [OF type_card_pos, of "v - type_min t" t]
  by (simp add: static_cast_def in_range_def type_card_def)

lemma static_cast_cong: "static_cast t v mod type_card t = v mod type_card t"
  by (simp add: static_cast_def mod_simps)

text \<open>
  A value with its type, and the C++ comparison of two of them: both operands are promoted to at
  least \<^verbatim>\<open>int\<close> and converted to their common type.
\<close>

type_synonym cval = "ctype \<times> int"

definition well_typed :: "cval \<Rightarrow> bool" where
  "well_typed x = in_range (fst x) (snd x)"

fun promote :: "ctype \<Rightarrow> ctype" where
  "promote Int8 = Int32" | "promote Int16 = Int32"
| "promote Uint8 = Int32" | "promote Uint16 = Int32"
| "promote t = t"

definition common_type :: "ctype \<Rightarrow> ctype \<Rightarrow> ctype" where
  "common_type a b =
     (let a = promote a; b = promote b in
      if is_signed a = is_signed b then (if sizeof b \<le> sizeof a then a else b)
      else let u = (if is_signed a then b else a); s = (if is_signed a then a else b) in
        if sizeof s \<le> sizeof u then u else s)"

definition cmp_op :: "(int \<Rightarrow> int \<Rightarrow> bool) \<Rightarrow> cval \<Rightarrow> cval \<Rightarrow> bool" where
  "cmp_op R x y =
     (let t = common_type (fst x) (fst y) in R (static_cast t (snd x)) (static_cast t (snd y)))"

text \<open>Operands of the same signedness keep their values; C++'s mixed comparison does not.\<close>

lemma common_type_range:
  assumes "is_signed a = is_signed b"
  shows "in_range a v \<Longrightarrow> in_range (common_type a b) v"
    and "in_range b v \<Longrightarrow> in_range (common_type a b) v"
  using assms by (cases a; cases b; simp add: common_type_def in_range_def)+

lemma cmp_op_same_sign:
  assumes "is_signed (fst x) = is_signed (fst y)" and "well_typed x" and "well_typed y"
  shows "cmp_op R x y = R (snd x) (snd y)"
  using assms common_type_range [OF assms(1)] by (simp add: cmp_op_def Let_def well_typed_def)

section \<open>Assertions\<close>

text \<open>
  \<^verbatim>\<open>RTC_CHECK\<close> aborts in every build, \<^verbatim>\<open>RTC_DCHECK\<close> only where
  \<^verbatim>\<open>RTC_DCHECK_IS_ON\<close>, which is the first argument of the operations that use it.
  \<open>Undefined\<close> is undefined behaviour of the language: overflow of a signed operation,
  division by zero, an access outside an object.
\<close>

datatype fault = CheckFailed | DcheckFailed | Undefined

type_synonym 'a checked = "fault + 'a"

definition RTC_CHECK :: "bool \<Rightarrow> unit checked" where
  "RTC_CHECK c = (if c then Inr () else Inl CheckFailed)"

definition RTC_DCHECK :: "bool \<Rightarrow> bool \<Rightarrow> unit checked" where
  "RTC_DCHECK dcheck_is_on c = (if dcheck_is_on \<and> \<not> c then Inl DcheckFailed else Inr ())"

lemma RTC_CHECK_simps [simp]: "RTC_CHECK True = Inr ()" "RTC_CHECK False = Inl CheckFailed"
  by (simp_all add: RTC_CHECK_def)

lemma RTC_DCHECK_simps [simp]:
  "RTC_DCHECK d True = Inr ()" "RTC_DCHECK False c = Inr ()" "RTC_DCHECK True False = Inl DcheckFailed"
  by (simp_all add: RTC_DCHECK_def)

text \<open>
  \<open>returns m P\<close>: the computation does not fail, and its result satisfies \<open>P\<close>.
  The rules push a postcondition backwards through a sequence of steps.
\<close>

definition returns :: "'e + 'a \<Rightarrow> ('a \<Rightarrow> bool) \<Rightarrow> bool" where
  "returns m P = (case m of Inl _ \<Rightarrow> False | Inr x \<Rightarrow> P x)"

lemma returns_simps [simp]: "returns (Inr x) P = P x" "returns (Inl e) P = False"
  by (simp_all add: returns_def)

lemma returns_rbind [simp]: "returns (rbind m f) P = returns m (\<lambda>x. returns (f x) P)"
  by (cases m) simp_all

lemma returns_DCHECK [simp]: "returns (RTC_DCHECK d c) P \<longleftrightarrow> (d \<longrightarrow> c) \<and> P ()"
  by (auto simp: RTC_DCHECK_def)

lemma returns_CHECK [simp]: "returns (RTC_CHECK c) P \<longleftrightarrow> c \<and> P ()"
  by (auto simp: RTC_CHECK_def)

lemma returns_mono: "returns m P \<Longrightarrow> (\<And>x. P x \<Longrightarrow> Q x) \<Longrightarrow> returns m Q"
  by (cases m) simp_all

lemma returns_conj: "returns m P \<Longrightarrow> returns m Q \<Longrightarrow> returns m (\<lambda>x. P x \<and> Q x)"
  by (cases m) simp_all

lemma returnsE:
  assumes "returns m P"
  obtains x where "m = Inr x" "P x"
  using assms by (cases m) auto

section \<open>Arithmetic\<close>

text \<open>
  The result of an operation in \<^verbatim>\<open>int64_t\<close>, and the difference of two values of an
  unsigned type: a type narrower than \<^verbatim>\<open>int\<close> is promoted and can give a negative
  number, a wider one wraps.  Sizes are natural numbers below \<open>2 ^ 64\<close>, and their sum wraps.
\<close>

definition size_t_add :: "nat \<Rightarrow> nat \<Rightarrow> nat" where
  "size_t_add a b = (a + b) mod 2 ^ 64"

definition i64 :: "int \<Rightarrow> int checked" where
  "i64 v = (if in_range Int64 v then Inr v else Inl Undefined)"

definition diff_op :: "ctype \<Rightarrow> int \<Rightarrow> int \<Rightarrow> int" where
  "diff_op U a b = (if is_signed (promote U) then a - b else static_cast (promote U) (a - b))"

lemma size_t_add_eq [simp]: "a + b < 2 ^ 64 \<Longrightarrow> size_t_add a b = a + b"
  unfolding size_t_add_def by (rule mod_less)

lemma i64_simps [simp]: "in_range Int64 v \<Longrightarrow> i64 v = Inr v" "\<not> in_range Int64 v \<Longrightarrow> i64 v = Inl Undefined"
  by (simp_all add: i64_def)

lemma i64_eq_Inr: "i64 v = Inr w \<longleftrightarrow> in_range Int64 v \<and> w = v"
  by (auto simp: i64_def)

section \<open>Range checks\<close>

datatype DstRange = OVERLAPS_RANGE | CONTAINS_RANGE

definition StaticRangeCheck :: "ctype \<Rightarrow> ctype \<Rightarrow> DstRange" where
  "StaticRangeCheck dst src =
     (if is_signed dst \<and> is_signed src then
        (if sizeof src * 8 - 1 \<le> sizeof dst * 8 - 1 then CONTAINS_RANGE else OVERLAPS_RANGE)
      else if \<not> is_signed dst \<and> \<not> is_signed src then
        (if sizeof src \<le> sizeof dst then CONTAINS_RANGE else OVERLAPS_RANGE)
      else if is_signed dst then
        (if sizeof src * 8 \<le> sizeof dst * 8 - 1 then CONTAINS_RANGE else OVERLAPS_RANGE)
      else OVERLAPS_RANGE)"

datatype RangeCheckResult = TYPE_VALID | TYPE_UNDERFLOW | TYPE_OVERFLOW | TYPE_INVALID

definition RANGE_CHECK_RESULT :: "bool \<Rightarrow> bool \<Rightarrow> RangeCheckResult" where
  "RANGE_CHECK_RESULT is_in_upper_bound is_in_lower_bound =
     (if is_in_upper_bound then (if is_in_lower_bound then TYPE_VALID else TYPE_UNDERFLOW)
      else (if is_in_lower_bound then TYPE_OVERFLOW else TYPE_INVALID))"

definition RangeCheck_signed :: "ctype \<Rightarrow> ctype \<Rightarrow> int \<Rightarrow> RangeCheckResult" where
  "RangeCheck_signed dst src v =
     RANGE_CHECK_RESULT (v \<le> static_cast src (type_max dst)) (static_cast src (type_min dst) \<le> v)"

definition RangeCheck_unsigned :: "ctype \<Rightarrow> ctype \<Rightarrow> int \<Rightarrow> RangeCheckResult" where
  "RangeCheck_unsigned dst src v = RANGE_CHECK_RESULT (v \<le> static_cast src (type_max dst)) True"

definition RangeCheck_unsigned_to_signed :: "ctype \<Rightarrow> ctype \<Rightarrow> int \<Rightarrow> RangeCheckResult" where
  "RangeCheck_unsigned_to_signed dst src v =
     (if sizeof src < sizeof dst then TYPE_VALID
      else RANGE_CHECK_RESULT (v \<le> static_cast src (type_max dst)) True)"

definition RangeCheck_signed_to_unsigned :: "ctype \<Rightarrow> ctype \<Rightarrow> int \<Rightarrow> RangeCheckResult" where
  "RangeCheck_signed_to_unsigned dst src v =
     (if sizeof src * 8 - 1 \<le> sizeof dst * 8 then RANGE_CHECK_RESULT True (static_cast src 0 \<le> v)
      else RANGE_CHECK_RESULT (v \<le> static_cast src (type_max dst)) (static_cast src 0 \<le> v))"

definition RangeCheck :: "ctype \<Rightarrow> ctype \<Rightarrow> int \<Rightarrow> RangeCheckResult" where
  "RangeCheck dst src v =
     (case StaticRangeCheck dst src of
        CONTAINS_RANGE \<Rightarrow> TYPE_VALID
      | OVERLAPS_RANGE \<Rightarrow>
          if is_signed dst
          then (if is_signed src then RangeCheck_signed dst src v
                else RangeCheck_unsigned_to_signed dst src v)
          else (if is_signed src then RangeCheck_signed_to_unsigned dst src v
                else RangeCheck_unsigned dst src v))"

lemmas range_check_defs = RangeCheck_def StaticRangeCheck_def RangeCheck_signed_def
  RangeCheck_unsigned_def RangeCheck_unsigned_to_signed_def RangeCheck_signed_to_unsigned_def
  RANGE_CHECK_RESULT_def

text \<open>The specification: where a value lies relative to the destination type.\<close>

definition range_position :: "ctype \<Rightarrow> int \<Rightarrow> RangeCheckResult" where
  "range_position dst v =
     (if v < type_min dst then TYPE_UNDERFLOW
      else if type_max dst < v then TYPE_OVERFLOW else TYPE_VALID)"

lemma RangeCheck_position:
  assumes "in_range src v"
  shows "RangeCheck dst src v = range_position dst v"
  using assms
  by (cases dst; cases src;
      simp add: range_check_defs range_position_def in_range_def static_cast_def type_card_def)

definition IsValueInRangeForNumericType :: "ctype \<Rightarrow> ctype \<Rightarrow> int \<Rightarrow> bool" where
  "IsValueInRangeForNumericType dst src v \<longleftrightarrow> RangeCheck dst src v = TYPE_VALID"

lemma IsValueInRange_iff:
  "in_range src v \<Longrightarrow> IsValueInRangeForNumericType dst src v \<longleftrightarrow> in_range dst v"
  by (simp add: IsValueInRangeForNumericType_def RangeCheck_position range_position_def in_range_def
      not_less)

definition checked_cast :: "ctype \<Rightarrow> ctype \<Rightarrow> int \<Rightarrow> int checked" where
  "checked_cast dst src v =
     rbind (RTC_CHECK (IsValueInRangeForNumericType dst src v)) (\<lambda>_. Inr (static_cast dst v))"

definition dchecked_cast :: "bool \<Rightarrow> ctype \<Rightarrow> ctype \<Rightarrow> int \<Rightarrow> int checked" where
  "dchecked_cast d dst src v =
     rbind (RTC_DCHECK d (IsValueInRangeForNumericType dst src v)) (\<lambda>_. Inr (static_cast dst v))"

definition saturated_cast :: "ctype \<Rightarrow> ctype \<Rightarrow> int \<Rightarrow> int checked" where
  "saturated_cast dst src v =
     (case RangeCheck dst src v of
        TYPE_VALID \<Rightarrow> Inr (static_cast dst v)
      | TYPE_UNDERFLOW \<Rightarrow> Inr (type_min dst)
      | TYPE_OVERFLOW \<Rightarrow> Inr (type_max dst)
      | TYPE_INVALID \<Rightarrow> Inl CheckFailed)"

lemma dchecked_cast_in_range [simp]:
  "in_range src v \<Longrightarrow> in_range dst v \<Longrightarrow> dchecked_cast d dst src v = Inr v"
  by (simp add: dchecked_cast_def IsValueInRange_iff)

lemma type_min_le_max: "type_min t \<le> type_max t"
  by (cases t) simp_all

section \<open>Comparisons\<close>

fun LargerIntImpl :: "nat \<Rightarrow> ctype option" where
  "LargerIntImpl n =
     (if n = sizeof Int8 then Some Int16
      else if n = sizeof Int16 then Some Int32
      else if n = sizeof Int32 then Some Int64
      else None)"

text \<open>A pointer has eight bytes on the 64-bit targets the program is built for.\<close>

definition LargerInt :: "ctype \<Rightarrow> ctype \<Rightarrow> ctype option" where
  "LargerInt t1 t2 = LargerIntImpl (if sizeof t1 < sizeof t2 \<or> sizeof t1 < 8 then sizeof t1 else 0)"

fun make_unsigned :: "ctype \<Rightarrow> ctype" where
  "make_unsigned Int8 = Uint8" | "make_unsigned Int16 = Uint16"
| "make_unsigned Int32 = Uint32" | "make_unsigned Int64 = Uint64"
| "make_unsigned t = t"

definition MakeUnsigned :: "cval \<Rightarrow> cval" where
  "MakeUnsigned x = (make_unsigned (fst x), static_cast (make_unsigned (fst x)) (snd x))"

definition cast_to :: "ctype \<Rightarrow> cval \<Rightarrow> cval" where
  "cast_to t x = (t, static_cast t (snd x))"

definition Cmp :: "(int \<Rightarrow> int \<Rightarrow> bool) \<Rightarrow> cval \<Rightarrow> cval \<Rightarrow> bool" where
  "Cmp R a b =
     (if is_signed (fst a) = is_signed (fst b) then cmp_op R a b
      else if is_signed (fst a) then
        (case LargerInt (fst b) (fst a) of
           Some t \<Rightarrow> cmp_op R a (cast_to t b)
         | None \<Rightarrow> if snd a < 0 then cmp_op R (Int32, -1) (Int32, 0) else cmp_op R (MakeUnsigned a) b)
      else
        (case LargerInt (fst a) (fst b) of
           Some t \<Rightarrow> cmp_op R (cast_to t a) b
         | None \<Rightarrow> if snd b < 0 then cmp_op R (Int32, 0) (Int32, -1) else cmp_op R a (MakeUnsigned b)))"

text \<open>The unary plus of the macro promotes its operand.\<close>

definition unary_plus :: "cval \<Rightarrow> cval" where
  "unary_plus x = (promote (fst x), snd x)"

definition SafeCmp :: "(int \<Rightarrow> int \<Rightarrow> bool) \<Rightarrow> cval \<Rightarrow> cval \<Rightarrow> bool" where
  "SafeCmp R a b = Cmp R (unary_plus a) (unary_plus b)"

definition SafeEq :: "cval \<Rightarrow> cval \<Rightarrow> bool" where "SafeEq = SafeCmp (=)"
definition SafeNe :: "cval \<Rightarrow> cval \<Rightarrow> bool" where "SafeNe = SafeCmp (\<noteq>)"
definition SafeLt :: "cval \<Rightarrow> cval \<Rightarrow> bool" where "SafeLt = SafeCmp (<)"
definition SafeLe :: "cval \<Rightarrow> cval \<Rightarrow> bool" where "SafeLe = SafeCmp (\<le>)"
definition SafeGt :: "cval \<Rightarrow> cval \<Rightarrow> bool" where "SafeGt = SafeCmp (>)"
definition SafeGe :: "cval \<Rightarrow> cval \<Rightarrow> bool" where "SafeGe = SafeCmp (\<ge>)"

text \<open>
  The relations of the six operators only ask for the sign of the difference; that is all the
  replacement of a negative operand by -1 keeps.
\<close>

definition order_relation :: "(int \<Rightarrow> int \<Rightarrow> bool) \<Rightarrow> bool" where
  "order_relation R \<longleftrightarrow> (\<forall>a b. R a b = R (sgn (a - b)) 0) \<and> (\<forall>a b. R a b = R 0 (sgn (b - a)))"

lemma order_relations [simp]:
  "order_relation (=)" "order_relation (\<noteq>)" "order_relation (<)"
  "order_relation (\<le>)" "order_relation (>)" "order_relation (\<ge>)"
  by (auto simp: order_relation_def sgn_if)

lemma order_relation_neg:
  assumes "order_relation R" "a < 0" "0 \<le> b"
  shows "R a b = R (-1) 0" "R b a = R 0 (-1)"
proof -
  have "sgn (a - b) = -1" using assms(2,3) by (simp add: sgn_if)
  with assms(1) show "R a b = R (-1) 0" "R b a = R 0 (-1)"
    unfolding order_relation_def by metis+
qed

lemma well_typed_promote [simp]: "well_typed x \<Longrightarrow> well_typed (unary_plus x)"
  by (cases x; cases "fst x") (auto simp: well_typed_def unary_plus_def in_range_def)

lemma LargerInt_range:
  assumes "LargerInt t t' = Some u" "\<not> is_signed t" "in_range t v"
  shows "is_signed u" "in_range u v"
  using assms by (cases t; cases t'; simp add: LargerInt_def in_range_def split: if_splits)+

lemma MakeUnsigned_nonneg:
  assumes "0 \<le> snd x" "well_typed x"
  shows "well_typed (MakeUnsigned x)" "snd (MakeUnsigned x) = snd x" "\<not> is_signed (fst (MakeUnsigned x))"
  using assms
  by (cases x; cases "fst x"; simp add: well_typed_def MakeUnsigned_def in_range_def static_cast_def
      type_card_def)+

lemma unsigned_nonneg: "\<not> is_signed (fst x) \<Longrightarrow> well_typed x \<Longrightarrow> 0 \<le> snd x"
  by (cases x; cases "fst x") (auto simp: well_typed_def in_range_def)

text \<open>The comparisons are those of the integers, whatever the types of the operands.\<close>

lemma Cmp_math:
  assumes R: "order_relation R" and a: "well_typed a" and b: "well_typed b"
  shows "Cmp R a b = R (snd a) (snd b)"
proof (cases "is_signed (fst a) = is_signed (fst b)")
  case True
  with a b show ?thesis by (simp add: Cmp_def cmp_op_same_sign)
next
  case mixed: False
  have m1: "cmp_op R (Int32, -1) (Int32, 0) = R (-1) 0" "cmp_op R (Int32, 0) (Int32, -1) = R 0 (-1)"
    by (simp_all add: cmp_op_same_sign well_typed_def in_range_def)
  show ?thesis
  proof (cases "is_signed (fst a)")
    case True
    with mixed have ub: "\<not> is_signed (fst b)" by simp
    show ?thesis
    proof (cases "LargerInt (fst b) (fst a)")
      case None
      with True ub m1 a b show ?thesis
        using order_relation_neg(1) [OF R _ unsigned_nonneg [OF ub b]] MakeUnsigned_nonneg [of a]
        by (simp add: Cmp_def cmp_op_same_sign)
    next
      case (Some t)
      from LargerInt_range [OF Some ub] b have "is_signed t" "in_range t (snd b)"
        by (simp_all add: well_typed_def)
      with Some True ub a show ?thesis
        by (simp add: Cmp_def cmp_op_same_sign cast_to_def well_typed_def)
    qed
  next
    case ua: False
    with mixed have sb: "is_signed (fst b)" by simp
    show ?thesis
    proof (cases "LargerInt (fst a) (fst b)")
      case None
      with sb ua m1 a b show ?thesis
        using order_relation_neg(2) [OF R _ unsigned_nonneg [OF ua a]] MakeUnsigned_nonneg [of b]
        by (simp add: Cmp_def cmp_op_same_sign)
    next
      case (Some t)
      from LargerInt_range [OF Some ua] a have "is_signed t" "in_range t (snd a)"
        by (simp_all add: well_typed_def)
      with Some sb ua b show ?thesis
        by (simp add: Cmp_def cmp_op_same_sign cast_to_def well_typed_def)
    qed
  qed
qed

lemma SafeCmp_math:
  "order_relation R \<Longrightarrow> well_typed a \<Longrightarrow> well_typed b \<Longrightarrow> SafeCmp R a b = R (snd a) (snd b)"
  using Cmp_math [of R "unary_plus a" "unary_plus b"] by (simp add: SafeCmp_def) (simp add: unary_plus_def)

lemma Safe_math [simp]:
  assumes "well_typed a" "well_typed b"
  shows "SafeEq a b \<longleftrightarrow> snd a = snd b" "SafeNe a b \<longleftrightarrow> snd a \<noteq> snd b"
    "SafeLt a b \<longleftrightarrow> snd a < snd b" "SafeLe a b \<longleftrightarrow> snd a \<le> snd b"
    "SafeGt a b \<longleftrightarrow> snd b < snd a" "SafeGe a b \<longleftrightarrow> snd b \<le> snd a"
  using assms
  by (simp_all add: SafeEq_def SafeNe_def SafeLt_def SafeLe_def SafeGt_def SafeGe_def SafeCmp_math)

section \<open>Minimum, maximum, clamping\<close>

definition limits_lowest :: "ctype \<Rightarrow> cval" where
  "limits_lowest t = (t, type_min t)"

definition limits_max :: "ctype \<Rightarrow> cval" where
  "limits_max t = (t, type_max t)"

definition min_t :: "ctype \<Rightarrow> ctype \<Rightarrow> ctype" where
  "min_t t1 t2 =
     (if SafeLt (limits_lowest t1) (limits_lowest t2) then t1
      else if SafeGt (limits_lowest t1) (limits_lowest t2) then t2
      else if SafeLe (limits_max t1) (limits_max t2) then t1 else t2)"

definition max_t :: "ctype \<Rightarrow> ctype \<Rightarrow> ctype" where
  "max_t t1 t2 = (if SafeGe (limits_max t1) (limits_max t2) then t1 else t2)"

text \<open>The requested return type, if there is one and it is large enough.\<close>

definition TypeOr :: "ctype option \<Rightarrow> ctype \<Rightarrow> ctype option" where
  "TypeOr a b =
     (let t = (case a of None \<Rightarrow> b | Some r \<Rightarrow> r) in
      if SafeLe (limits_lowest t) (limits_lowest b) \<and> SafeGe (limits_max t) (limits_max b)
      then Some t else None)"

definition SafeMin :: "ctype option \<Rightarrow> cval \<Rightarrow> cval \<Rightarrow> cval option" where
  "SafeMin R a b =
     map_option (\<lambda>r. if SafeLt a b then cast_to r a else cast_to r b) (TypeOr R (min_t (fst a) (fst b)))"

definition SafeMax :: "ctype option \<Rightarrow> cval \<Rightarrow> cval \<Rightarrow> cval option" where
  "SafeMax R a b =
     map_option (\<lambda>r. if SafeGt a b then cast_to r a else cast_to r b) (TypeOr R (max_t (fst a) (fst b)))"

lemma well_typed_limits [simp]: "well_typed (limits_lowest t)" "well_typed (limits_max t)"
  by (simp_all add: well_typed_def limits_lowest_def limits_max_def in_range_def type_min_le_max)

lemma snd_limits [simp]: "snd (limits_lowest t) = type_min t" "snd (limits_max t) = type_max t"
  "fst (limits_lowest t) = t" "fst (limits_max t) = t"
  by (simp_all add: limits_lowest_def limits_max_def)

text \<open>\<open>type_contains r t\<close>: every value of type \<open>t\<close> is one of \<open>r\<close>.\<close>

definition type_contains :: "ctype \<Rightarrow> ctype \<Rightarrow> bool" where
  "type_contains r t \<longleftrightarrow> type_min r \<le> type_min t \<and> type_max t \<le> type_max r"

lemma type_contains_range: "type_contains r t \<Longrightarrow> in_range t v \<Longrightarrow> in_range r v"
  by (auto simp: type_contains_def in_range_def)

lemma type_contains_refl [simp]: "type_contains t t"
  by (simp add: type_contains_def)

lemma TypeOr_simps [simp]:
  "TypeOr None b = Some b"
  "TypeOr (Some r) b = (if type_contains r b then Some r else None)"
  by (simp_all add: TypeOr_def type_contains_def)

lemma min_t_range:
  assumes "in_range t1 a" "in_range t2 b"
  shows "in_range (min_t t1 t2) (min a b)"
  using assms by (cases t1; cases t2; simp add: min_t_def in_range_def min_le_iff_disj)

lemma max_t_range:
  assumes "in_range t1 a" "in_range t2 b"
  shows "in_range (max_t t1 t2) (max a b)"
  using assms by (cases t1; cases t2; simp add: max_t_def in_range_def le_max_iff_disj)

lemma SafeMin_math:
  assumes "well_typed a" "well_typed b" "TypeOr R (min_t (fst a) (fst b)) = Some r"
  shows "SafeMin R a b = Some (r, min (snd a) (snd b))"
proof -
  have "type_contains r (min_t (fst a) (fst b))"
    using assms(3) by (cases R) (auto split: if_splits)
  from type_contains_range [OF this min_t_range] assms(1,2)
  have "in_range r (min (snd a) (snd b))" by (simp add: well_typed_def)
  then show ?thesis using assms by (auto simp: SafeMin_def cast_to_def min_def split: if_splits)
qed

lemma SafeMax_math:
  assumes "well_typed a" "well_typed b" "TypeOr R (max_t (fst a) (fst b)) = Some r"
  shows "SafeMax R a b = Some (r, max (snd a) (snd b))"
proof -
  have "type_contains r (max_t (fst a) (fst b))"
    using assms(3) by (cases R) (auto split: if_splits)
  from type_contains_range [OF this max_t_range] assms(1,2)
  have "in_range r (max (snd a) (snd b))" by (simp add: well_typed_def)
  then show ?thesis using assms by (auto simp: SafeMax_def cast_to_def max_def split: if_splits)
qed

text \<open>
  The type of the result of \<^verbatim>\<open>SafeClamp\<close>.  The bounds of the result are computed
  with \<^verbatim>\<open>SafeMin\<close> and \<^verbatim>\<open>SafeMax\<close> themselves, with their
  default return types.
\<close>

definition default_min :: "cval \<Rightarrow> cval \<Rightarrow> cval" where
  "default_min a b = the (SafeMin None a b)"

definition default_max :: "cval \<Rightarrow> cval \<Rightarrow> cval" where
  "default_max a b = the (SafeMax None a b)"

definition r_min :: "ctype \<Rightarrow> ctype \<Rightarrow> ctype \<Rightarrow> cval" where
  "r_min T L H = default_max (limits_lowest L) (default_min (limits_lowest H) (limits_lowest T))"

definition r_max :: "ctype \<Rightarrow> ctype \<Rightarrow> ctype \<Rightarrow> cval" where
  "r_max T L H = default_min (limits_max H) (default_max (limits_max L) (limits_max T))"

definition AcceptableType :: "ctype \<Rightarrow> ctype \<Rightarrow> ctype \<Rightarrow> ctype \<Rightarrow> bool" where
  "AcceptableType T L H A \<longleftrightarrow>
     (sizeof A \<le> sizeof L \<or> sizeof A \<le> sizeof H \<or> sizeof A \<le> sizeof T) \<and>
     SafeLe (limits_lowest A) (r_min T L H) \<and> SafeLe (r_max T L H) (limits_max A)"

definition best_signed_type :: "ctype \<Rightarrow> ctype \<Rightarrow> ctype \<Rightarrow> ctype" where
  "best_signed_type T L H =
     (if AcceptableType T L H Int8 then Int8
      else if AcceptableType T L H Int16 then Int16
      else if AcceptableType T L H Int32 then Int32 else Int64)"

definition best_unsigned_type :: "ctype \<Rightarrow> ctype \<Rightarrow> ctype \<Rightarrow> ctype" where
  "best_unsigned_type T L H =
     (if AcceptableType T L H Uint8 then Uint8
      else if AcceptableType T L H Uint16 then Uint16
      else if AcceptableType T L H Uint32 then Uint32 else Uint64)"

definition ClampType :: "ctype \<Rightarrow> ctype \<Rightarrow> ctype \<Rightarrow> ctype option" where
  "ClampType T L H =
     (let s = best_signed_type T L H; u = best_unsigned_type T L H;
          t = (if is_signed T then (if AcceptableType T L H s then s else u)
               else (if AcceptableType T L H u then u else s)) in
      if AcceptableType T L H t then Some t else None)"

definition SafeClamp :: "bool \<Rightarrow> ctype option \<Rightarrow> cval \<Rightarrow> cval \<Rightarrow> cval \<Rightarrow> cval checked option" where
  "SafeClamp d R x lo hi =
     map_option (\<lambda>r. rbind (RTC_DCHECK d (SafeLe lo hi)) (\<lambda>_.
         Inr (if SafeLe x lo then cast_to r lo else if SafeGe x hi then cast_to r hi else cast_to r x)))
       (Option.bind (ClampType (fst x) (fst lo) (fst hi)) (TypeOr R))"

lemma default_min_max:
  assumes "well_typed a" "well_typed b"
  shows "snd (default_min a b) = min (snd a) (snd b)" "well_typed (default_min a b)"
    "snd (default_max a b) = max (snd a) (snd b)" "well_typed (default_max a b)"
  using assms min_t_range [of "fst a" "snd a" "fst b" "snd b"] max_t_range [of "fst a" "snd a" "fst b" "snd b"]
  by (simp_all add: default_min_def default_max_def SafeMin_math SafeMax_math well_typed_def)

lemma AcceptableType_iff:
  "AcceptableType T L H A \<longleftrightarrow>
     (sizeof A \<le> sizeof L \<or> sizeof A \<le> sizeof H \<or> sizeof A \<le> sizeof T) \<and>
     type_min A \<le> max (type_min L) (min (type_min H) (type_min T)) \<and>
     min (type_max H) (max (type_max L) (type_max T)) \<le> type_max A"
  by (simp add: AcceptableType_def r_min_def r_max_def default_min_max)

text \<open>An acceptable type holds every clamped value.\<close>

lemma AcceptableType_range:
  assumes "AcceptableType T L H A" "in_range T x" "in_range L lo" "in_range H hi" "lo \<le> hi"
  shows "in_range A (if x \<le> lo then lo else if hi \<le> x then hi else x)"
  using assms by (auto simp: AcceptableType_iff in_range_def split: if_splits)

lemma acceptable_exists:
  "\<exists>A. AcceptableType T L H A"
proof -
  have "AcceptableType T L H T \<or> AcceptableType T L H L \<or> AcceptableType T L H H"
    by (cases T; cases L; cases H; simp add: AcceptableType_iff)
  then show ?thesis by blast
qed

lemma best_signed_type_least:
  assumes "AcceptableType T L H A" "is_signed A"
  shows "AcceptableType T L H (best_signed_type T L H)" "sizeof (best_signed_type T L H) \<le> sizeof A"
    "is_signed (best_signed_type T L H)"
  using assms by (cases A; simp add: best_signed_type_def)+

lemma best_unsigned_type_least:
  assumes "AcceptableType T L H A" "\<not> is_signed A"
  shows "AcceptableType T L H (best_unsigned_type T L H)" "sizeof (best_unsigned_type T L H) \<le> sizeof A"
    "\<not> is_signed (best_unsigned_type T L H)"
  using assms by (cases A; simp add: best_unsigned_type_def)+

lemma ClampType_best:
  obtains t where "ClampType T L H = Some t" "AcceptableType T L H t"
    "\<And>A. AcceptableType T L H A \<Longrightarrow> is_signed A = is_signed t \<Longrightarrow> sizeof t \<le> sizeof A"
    "\<And>A. AcceptableType T L H A \<Longrightarrow> is_signed A = is_signed T \<Longrightarrow> is_signed t = is_signed T"
proof -
  note least = best_signed_type_least best_unsigned_type_least
  obtain A0 where A0: "AcceptableType T L H A0" using acceptable_exists by blast
  let ?s = "best_signed_type T L H" and ?u = "best_unsigned_type T L H"
  have s: "is_signed ?s" and u: "\<not> is_signed ?u"
    by (simp_all add: best_signed_type_def best_unsigned_type_def)
  have su: "AcceptableType T L H ?s \<or> AcceptableType T L H ?u"
    using least(1,4) A0 by blast
  define t where "t = (if is_signed T then (if AcceptableType T L H ?s then ?s else ?u)
               else (if AcceptableType T L H ?u then ?u else ?s))"
  have acc: "AcceptableType T L H t" using su by (auto simp: t_def)
  then have "ClampType T L H = Some t" by (simp add: ClampType_def Let_def t_def)
  moreover have "sizeof t \<le> sizeof A" if "AcceptableType T L H A" "is_signed A = is_signed t" for A
    using that s u least(2,5) [of T L H A] by (auto simp: t_def split: if_splits)
  moreover have "is_signed t = is_signed T"
    if "AcceptableType T L H A" "is_signed A = is_signed T" for A
    using that s u least(1,4) [of T L H A] by (auto simp: t_def split: if_splits)
  ultimately show thesis using that acc by blast
qed

section \<open>Conversions and clamping are exact\<close>

text \<open>
  (C29) Conversions never corrupt a value.  A saturating conversion clamps to the range of the
  destination, a checked one returns the value itself or aborts exactly when the value is not
  representable, and an assertion build does the same for \<^verbatim>\<open>dchecked_cast\<close>; the
  invalid result is never produced for integers.
\<close>

theorem casts_exact:
  assumes "in_range src v"
  shows "saturated_cast dst src v = Inr (max (type_min dst) (min v (type_max dst))) \<and>
    checked_cast dst src v = (if in_range dst v then Inr v else Inl CheckFailed) \<and>
    dchecked_cast True dst src v = (if in_range dst v then Inr v else Inl DcheckFailed) \<and>
    RangeCheck dst src v \<noteq> TYPE_INVALID"
  using assms type_min_le_max [of dst]
  by (auto simp: saturated_cast_def checked_cast_def dchecked_cast_def RangeCheck_position
      IsValueInRange_iff range_position_def in_range_def)

text \<open>
  (C28) Clamping, for every mix of integer types.  With \<^verbatim>\<open>lo <= hi\<close> the result is
  the value of the interval closest to \<^verbatim>\<open>x\<close>, without truncation; its type holds it,
  is no larger than the largest argument type, has the signedness of the first argument whenever
  an acceptable type has it, and no acceptable type of its signedness is smaller.  An assertion
  build rejects \<^verbatim>\<open>lo > hi\<close>.
\<close>

theorem SafeClamp_exact:
  assumes "well_typed x" "well_typed lo" "well_typed hi"
  shows "(snd lo \<le> snd hi \<longrightarrow> (\<exists>t. SafeClamp d None x lo hi = Some (Inr (t, max (snd lo) (min (snd x) (snd hi)))) \<and>
      in_range t (max (snd lo) (min (snd x) (snd hi))) \<and>
      sizeof t \<le> max (sizeof (fst x)) (max (sizeof (fst lo)) (sizeof (fst hi))) \<and>
      (\<forall>A. AcceptableType (fst x) (fst lo) (fst hi) A \<longrightarrow> is_signed A = is_signed (fst x) \<longrightarrow>
           is_signed t = is_signed (fst x)) \<and>
      (\<forall>A. AcceptableType (fst x) (fst lo) (fst hi) A \<longrightarrow> is_signed A = is_signed t \<longrightarrow>
           sizeof t \<le> sizeof A))) \<and>
    (snd hi < snd lo \<longrightarrow> SafeClamp True None x lo hi = Some (Inl DcheckFailed))"
proof (rule conjI; intro impI)
  obtain t where t: "ClampType (fst x) (fst lo) (fst hi) = Some t" and
    acc: "AcceptableType (fst x) (fst lo) (fst hi) t" and
    small: "\<And>A. AcceptableType (fst x) (fst lo) (fst hi) A \<Longrightarrow> is_signed A = is_signed t \<Longrightarrow> sizeof t \<le> sizeof A"
    and sg: "\<And>A. AcceptableType (fst x) (fst lo) (fst hi) A \<Longrightarrow> is_signed A = is_signed (fst x) \<Longrightarrow> is_signed t = is_signed (fst x)"
    by (rule ClampType_best [of "fst x" "fst lo" "fst hi"]) blast
  show "SafeClamp True None x lo hi = Some (Inl DcheckFailed)" if "snd hi < snd lo"
    using that t assms by (simp add: SafeClamp_def)
  assume le: "snd lo \<le> snd hi"
  let ?v = "max (snd lo) (min (snd x) (snd hi))"
  have v: "(if snd x \<le> snd lo then snd lo else if snd hi \<le> snd x then snd hi else snd x) = ?v"
    using le by (auto simp: max_def min_def)
  have r: "in_range t ?v"
    using AcceptableType_range [OF acc _ _ _ le, of "snd x"] assms v by (simp add: well_typed_def)
  have "SafeClamp d None x lo hi = Some (Inr (t, ?v))"
    using t assms le r v by (auto simp: SafeClamp_def cast_to_def split: if_splits)
  moreover have "sizeof t \<le> max (sizeof (fst x)) (max (sizeof (fst lo)) (sizeof (fst hi)))"
    using acc by (auto simp: AcceptableType_iff)
  ultimately show "\<exists>t. SafeClamp d None x lo hi = Some (Inr (t, ?v)) \<and> in_range t ?v \<and>
      sizeof t \<le> max (sizeof (fst x)) (max (sizeof (fst lo)) (sizeof (fst hi))) \<and>
      (\<forall>A. AcceptableType (fst x) (fst lo) (fst hi) A \<longrightarrow> is_signed A = is_signed (fst x) \<longrightarrow>
           is_signed t = is_signed (fst x)) \<and>
      (\<forall>A. AcceptableType (fst x) (fst lo) (fst hi) A \<longrightarrow> is_signed A = is_signed t \<longrightarrow>
           sizeof t \<le> sizeof A)"
    using r small sg by blast
qed

end
