(* ===== verification/Rtc_Units.thy ===== *)
theory Rtc_Units
  imports Rtc_Numeric "HOL-Library.Signed_Division"
begin

text \<open>
  The unit types of libwebrtc (\<^verbatim>\<open>rtc_base/units/unit_base.h\<close>,
  \<^verbatim>\<open>api/units/data_rate.h\<close>, \<^verbatim>\<open>data_size.h\<close>,
  \<^verbatim>\<open>time_delta.h\<close>, \<^verbatim>\<open>timestamp.h\<close>): 64-bit counts whose two
  extreme values stand for the infinities.

  A unit is its \<^verbatim>\<open>value_\<close>; the static member \<^verbatim>\<open>one_sided\<close> of the
  subclass is an argument \<open>os\<close> of the operations of the base class that read it, and
  \<open>d\<close> tells whether the build has assertions.  Signed overflow is \<^const>\<open>Undefined\<close>.
  The overloads on floating-point numbers and the division by a scalar, which goes through
  \<^verbatim>\<open>std::round\<close>, are not modelled.
\<close>

section \<open>Multiplication\<close>

text \<open>Multiplication of two typed values: in their common type, which wraps when it is unsigned.\<close>

definition mul_op :: "cval \<Rightarrow> cval \<Rightarrow> cval checked" where
  "mul_op x y =
     (let t = common_type (fst x) (fst y); v = static_cast t (snd x) * static_cast t (snd y) in
      if is_signed t then (if in_range t v then Inr (t, v) else Inl Undefined)
      else Inr (t, static_cast t v))"

section \<open>The base class\<close>

datatype UnitBase = UnitBase (unit_value: int)

definition PlusInfinityVal :: int where "PlusInfinityVal = type_max Int64"
definition MinusInfinityVal :: int where "MinusInfinityVal = type_min Int64"

definition Zero :: UnitBase where "Zero = UnitBase 0"
definition PlusInfinity :: UnitBase where "PlusInfinity = UnitBase PlusInfinityVal"
definition MinusInfinity :: UnitBase where "MinusInfinity = UnitBase MinusInfinityVal"

definition IsZero :: "UnitBase \<Rightarrow> bool" where
  "IsZero u \<longleftrightarrow> unit_value u = 0"

definition IsInfinite :: "UnitBase \<Rightarrow> bool" where
  "IsInfinite u \<longleftrightarrow> unit_value u = PlusInfinityVal \<or> unit_value u = MinusInfinityVal"

definition IsFinite :: "UnitBase \<Rightarrow> bool" where
  "IsFinite u \<longleftrightarrow> \<not> IsInfinite u"

definition IsPlusInfinity :: "UnitBase \<Rightarrow> bool" where
  "IsPlusInfinity u \<longleftrightarrow> unit_value u = PlusInfinityVal"

definition IsMinusInfinity :: "UnitBase \<Rightarrow> bool" where
  "IsMinusInfinity u \<longleftrightarrow> unit_value u = MinusInfinityVal"

text \<open>The six comparison operators compare the values: a linear order.\<close>

instantiation UnitBase :: linorder
begin

definition less_eq_UnitBase :: "UnitBase \<Rightarrow> UnitBase \<Rightarrow> bool" where
  "less_eq_UnitBase a b \<longleftrightarrow> unit_value a \<le> unit_value b"

definition less_UnitBase :: "UnitBase \<Rightarrow> UnitBase \<Rightarrow> bool" where
  "less_UnitBase a b \<longleftrightarrow> unit_value a < unit_value b"

instance
  by standard (auto simp: less_eq_UnitBase_def less_UnitBase_def intro: UnitBase.expand)

end

definition dcheck_one_sided :: "bool \<Rightarrow> bool \<Rightarrow> cval \<Rightarrow> unit checked" where
  "dcheck_one_sided d os v = (if os then RTC_DCHECK d (SafeGe v (Int32, 0)) else Inr ())"

definition FromStaticValue :: "bool \<Rightarrow> int \<Rightarrow> UnitBase option" where
  "FromStaticValue os v =
     (if (0 \<le> v \<or> \<not> os) \<and> MinusInfinityVal < v \<and> v < PlusInfinityVal then Some (UnitBase v) else None)"

definition FromStaticFraction :: "bool \<Rightarrow> int \<Rightarrow> int \<Rightarrow> UnitBase option" where
  "FromStaticFraction os v den =
     (if (0 \<le> v \<or> \<not> os) \<and> MinusInfinityVal sdiv den < v \<and> v < PlusInfinityVal sdiv den
      then Some (UnitBase (v * den)) else None)"

definition FromValue :: "bool \<Rightarrow> bool \<Rightarrow> cval \<Rightarrow> UnitBase checked" where
  "FromValue d os v =
     rbind (dcheck_one_sided d os v) (\<lambda>_.
     rbind (RTC_DCHECK d (SafeGt v (Int64, MinusInfinityVal))) (\<lambda>_.
     rbind (RTC_DCHECK d (SafeLt v (Int64, PlusInfinityVal))) (\<lambda>_.
     rbind (dchecked_cast d Int64 (fst v) (snd v)) (\<lambda>x. Inr (UnitBase x)))))"

definition FromFraction :: "bool \<Rightarrow> bool \<Rightarrow> int \<Rightarrow> cval \<Rightarrow> UnitBase checked" where
  "FromFraction d os den v =
     rbind (dcheck_one_sided d os v) (\<lambda>_.
     rbind (RTC_DCHECK d (SafeGt v (Int64, MinusInfinityVal sdiv den))) (\<lambda>_.
     rbind (RTC_DCHECK d (SafeLt v (Int64, PlusInfinityVal sdiv den))) (\<lambda>_.
     rbind (mul_op v (Int64, den)) (\<lambda>p.
     rbind (dchecked_cast d Int64 (fst p) (snd p)) (\<lambda>x. Inr (UnitBase x))))))"

definition ToValue :: "bool \<Rightarrow> ctype \<Rightarrow> UnitBase \<Rightarrow> int checked" where
  "ToValue d t u = rbind (RTC_DCHECK d (IsFinite u)) (\<lambda>_. dchecked_cast d t Int64 (unit_value u))"

definition ToValueOr :: "UnitBase \<Rightarrow> int \<Rightarrow> int" where
  "ToValueOr u fallback_value = (if IsFinite u then unit_value u else fallback_value)"

definition DivRoundPositiveToNearest :: "int \<Rightarrow> int \<Rightarrow> int checked" where
  "DivRoundPositiveToNearest n d = rbind (i64 (n + d sdiv 2)) (\<lambda>x. Inr (x sdiv d))"

definition DivRoundToNearest :: "int \<Rightarrow> int \<Rightarrow> int checked" where
  "DivRoundToNearest n d =
     rbind (i64 (n + (if 0 \<le> n then d sdiv 2 else (- d) sdiv 2))) (\<lambda>x. Inr (x sdiv d))"

definition ToFraction :: "bool \<Rightarrow> bool \<Rightarrow> int \<Rightarrow> ctype \<Rightarrow> UnitBase \<Rightarrow> int checked" where
  "ToFraction d os den t u =
     rbind (RTC_DCHECK d (IsFinite u)) (\<lambda>_.
     if os then rbind (DivRoundPositiveToNearest (unit_value u) den) (dchecked_cast d t Int64)
     else rbind (DivRoundToNearest (unit_value u) den) (dchecked_cast d t Int64))"

definition ToFractionOr :: "bool \<Rightarrow> int \<Rightarrow> UnitBase \<Rightarrow> int \<Rightarrow> int checked" where
  "ToFractionOr os den u fallback_value =
     (if IsFinite u
      then (if os then DivRoundPositiveToNearest (unit_value u) den else DivRoundToNearest (unit_value u) den)
      else Inr fallback_value)"

definition ToMultiple :: "bool \<Rightarrow> int \<Rightarrow> ctype \<Rightarrow> UnitBase \<Rightarrow> int checked" where
  "ToMultiple d factor t u =
     rbind (ToValue d Int64 u) (\<lambda>v.
     rbind (RTC_DCHECK d (type_min t sdiv factor \<le> v)) (\<lambda>_.
     rbind (RTC_DCHECK d (v \<le> type_max t sdiv factor)) (\<lambda>_.
     rbind (i64 (v * factor)) (dchecked_cast d t Int64))))"

section \<open>Relative units\<close>

definition Clamped :: "UnitBase \<Rightarrow> UnitBase \<Rightarrow> UnitBase \<Rightarrow> UnitBase" where
  "Clamped u min_value max_value = max min_value (min u max_value)"

text \<open>
  The four branches of the addition and of the subtractions: infinite operands first, with the
  assertions that exclude the undefined forms, then the finite sum or difference, which becomes
  a unit of the result's class.
\<close>

definition unit_plus :: "bool \<Rightarrow> bool \<Rightarrow> UnitBase \<Rightarrow> UnitBase \<Rightarrow> UnitBase checked" where
  "unit_plus d os u other =
     (if IsPlusInfinity u \<or> IsPlusInfinity other then
        rbind (RTC_DCHECK d (\<not> IsMinusInfinity u)) (\<lambda>_.
        rbind (RTC_DCHECK d (\<not> IsMinusInfinity other)) (\<lambda>_. Inr PlusInfinity))
      else if IsMinusInfinity u \<or> IsMinusInfinity other then
        rbind (RTC_DCHECK d (\<not> IsPlusInfinity u)) (\<lambda>_.
        rbind (RTC_DCHECK d (\<not> IsPlusInfinity other)) (\<lambda>_. Inr MinusInfinity))
      else
        rbind (ToValue d Int64 u) (\<lambda>a. rbind (ToValue d Int64 other) (\<lambda>b.
        rbind (i64 (a + b)) (\<lambda>s. FromValue d os (Int64, s)))))"

definition unit_minus :: "bool \<Rightarrow> bool \<Rightarrow> UnitBase \<Rightarrow> UnitBase \<Rightarrow> UnitBase checked" where
  "unit_minus d os u other =
     (if IsPlusInfinity u \<or> IsMinusInfinity other then
        rbind (RTC_DCHECK d (\<not> IsMinusInfinity u)) (\<lambda>_.
        rbind (RTC_DCHECK d (\<not> IsPlusInfinity other)) (\<lambda>_. Inr PlusInfinity))
      else if IsMinusInfinity u \<or> IsPlusInfinity other then
        rbind (RTC_DCHECK d (\<not> IsPlusInfinity u)) (\<lambda>_.
        rbind (RTC_DCHECK d (\<not> IsMinusInfinity other)) (\<lambda>_. Inr MinusInfinity))
      else
        rbind (ToValue d Int64 u) (\<lambda>a. rbind (ToValue d Int64 other) (\<lambda>b.
        rbind (i64 (a - b)) (\<lambda>s. FromValue d os (Int64, s)))))"

definition unit_times :: "bool \<Rightarrow> bool \<Rightarrow> UnitBase \<Rightarrow> int \<Rightarrow> UnitBase checked" where
  "unit_times d os u scalar =
     rbind (ToValue d Int64 u) (\<lambda>a. rbind (i64 (a * scalar)) (\<lambda>s. FromValue d os (Int64, s)))"

section \<open>The units\<close>

subsection \<open>DataSize\<close>

definition DataSize_Bytes :: "int \<Rightarrow> UnitBase option" where
  "DataSize_Bytes = FromStaticValue True"

definition DataSize_bytes :: "bool \<Rightarrow> cval \<Rightarrow> UnitBase checked" where
  "DataSize_bytes d = FromValue d True"

definition size_bytes :: "bool \<Rightarrow> UnitBase \<Rightarrow> int checked" where
  "size_bytes d = ToValue d Int64"

definition size_bytes_or :: "UnitBase \<Rightarrow> int \<Rightarrow> int" where
  "size_bytes_or = ToValueOr"

subsection \<open>TimeDelta\<close>

definition TimeDelta_Seconds :: "int \<Rightarrow> UnitBase option" where
  "TimeDelta_Seconds v = FromStaticFraction False v 1000000"

definition TimeDelta_Millis :: "int \<Rightarrow> UnitBase option" where
  "TimeDelta_Millis v = FromStaticFraction False v 1000"

definition TimeDelta_Micros :: "int \<Rightarrow> UnitBase option" where
  "TimeDelta_Micros = FromStaticValue False"

definition TimeDelta_seconds :: "bool \<Rightarrow> cval \<Rightarrow> UnitBase checked" where
  "TimeDelta_seconds d = FromFraction d False 1000000"

definition TimeDelta_ms :: "bool \<Rightarrow> cval \<Rightarrow> UnitBase checked" where
  "TimeDelta_ms d = FromFraction d False 1000"

definition TimeDelta_us :: "bool \<Rightarrow> cval \<Rightarrow> UnitBase checked" where
  "TimeDelta_us d = FromValue d False"

definition delta_seconds :: "bool \<Rightarrow> ctype \<Rightarrow> UnitBase \<Rightarrow> int checked" where
  "delta_seconds d = ToFraction d False 1000000"

definition delta_ms :: "bool \<Rightarrow> ctype \<Rightarrow> UnitBase \<Rightarrow> int checked" where
  "delta_ms d = ToFraction d False 1000"

definition delta_us :: "bool \<Rightarrow> ctype \<Rightarrow> UnitBase \<Rightarrow> int checked" where
  "delta_us d = ToValue d"

definition delta_ns :: "bool \<Rightarrow> ctype \<Rightarrow> UnitBase \<Rightarrow> int checked" where
  "delta_ns d = ToMultiple d 1000"

definition delta_seconds_or :: "UnitBase \<Rightarrow> int \<Rightarrow> int checked" where
  "delta_seconds_or = ToFractionOr False 1000000"

definition delta_ms_or :: "UnitBase \<Rightarrow> int \<Rightarrow> int checked" where
  "delta_ms_or = ToFractionOr False 1000"

definition delta_us_or :: "UnitBase \<Rightarrow> int \<Rightarrow> int" where
  "delta_us_or = ToValueOr"

definition TimeDelta_Abs :: "bool \<Rightarrow> UnitBase \<Rightarrow> UnitBase checked" where
  "TimeDelta_Abs d u =
     rbind (delta_us d Int64 u) (\<lambda>v. rbind (i64 \<bar>v\<bar>) (\<lambda>a. TimeDelta_us d (Int64, a)))"

subsection \<open>Timestamp\<close>

definition Timestamp_Seconds :: "int \<Rightarrow> UnitBase option" where
  "Timestamp_Seconds v = FromStaticFraction True v 1000000"

definition Timestamp_Millis :: "int \<Rightarrow> UnitBase option" where
  "Timestamp_Millis v = FromStaticFraction True v 1000"

definition Timestamp_Micros :: "int \<Rightarrow> UnitBase option" where
  "Timestamp_Micros = FromStaticValue True"

definition Timestamp_seconds :: "bool \<Rightarrow> cval \<Rightarrow> UnitBase checked" where
  "Timestamp_seconds d = FromFraction d True 1000000"

definition Timestamp_ms :: "bool \<Rightarrow> cval \<Rightarrow> UnitBase checked" where
  "Timestamp_ms d = FromFraction d True 1000"

definition Timestamp_us :: "bool \<Rightarrow> cval \<Rightarrow> UnitBase checked" where
  "Timestamp_us d = FromValue d True"

definition stamp_seconds :: "bool \<Rightarrow> ctype \<Rightarrow> UnitBase \<Rightarrow> int checked" where
  "stamp_seconds d = ToFraction d True 1000000"

definition stamp_ms :: "bool \<Rightarrow> ctype \<Rightarrow> UnitBase \<Rightarrow> int checked" where
  "stamp_ms d = ToFraction d True 1000"

definition stamp_us :: "bool \<Rightarrow> ctype \<Rightarrow> UnitBase \<Rightarrow> int checked" where
  "stamp_us d = ToValue d"

definition stamp_seconds_or :: "UnitBase \<Rightarrow> int \<Rightarrow> int checked" where
  "stamp_seconds_or = ToFractionOr True 1000000"

definition stamp_ms_or :: "UnitBase \<Rightarrow> int \<Rightarrow> int checked" where
  "stamp_ms_or = ToFractionOr True 1000"

definition stamp_us_or :: "UnitBase \<Rightarrow> int \<Rightarrow> int" where
  "stamp_us_or = ToValueOr"

definition Timestamp_plus :: "bool \<Rightarrow> UnitBase \<Rightarrow> UnitBase \<Rightarrow> UnitBase checked" where
  "Timestamp_plus d u delta =
     (if IsPlusInfinity u \<or> IsPlusInfinity delta then
        rbind (RTC_DCHECK d (\<not> IsMinusInfinity u)) (\<lambda>_.
        rbind (RTC_DCHECK d (\<not> IsMinusInfinity delta)) (\<lambda>_. Inr PlusInfinity))
      else if IsMinusInfinity u \<or> IsMinusInfinity delta then
        rbind (RTC_DCHECK d (\<not> IsPlusInfinity u)) (\<lambda>_.
        rbind (RTC_DCHECK d (\<not> IsPlusInfinity delta)) (\<lambda>_. Inr MinusInfinity))
      else
        rbind (stamp_us d Int64 u) (\<lambda>a. rbind (delta_us d Int64 delta) (\<lambda>b.
        rbind (i64 (a + b)) (\<lambda>s. Timestamp_us d (Int64, s)))))"

definition Timestamp_minus :: "bool \<Rightarrow> UnitBase \<Rightarrow> UnitBase \<Rightarrow> UnitBase checked" where
  "Timestamp_minus d u delta =
     (if IsPlusInfinity u \<or> IsMinusInfinity delta then
        rbind (RTC_DCHECK d (\<not> IsMinusInfinity u)) (\<lambda>_.
        rbind (RTC_DCHECK d (\<not> IsPlusInfinity delta)) (\<lambda>_. Inr PlusInfinity))
      else if IsMinusInfinity u \<or> IsPlusInfinity delta then
        rbind (RTC_DCHECK d (\<not> IsPlusInfinity u)) (\<lambda>_.
        rbind (RTC_DCHECK d (\<not> IsMinusInfinity delta)) (\<lambda>_. Inr MinusInfinity))
      else
        rbind (stamp_us d Int64 u) (\<lambda>a. rbind (delta_us d Int64 delta) (\<lambda>b.
        rbind (i64 (a - b)) (\<lambda>s. Timestamp_us d (Int64, s)))))"

definition Timestamp_diff :: "bool \<Rightarrow> UnitBase \<Rightarrow> UnitBase \<Rightarrow> UnitBase checked" where
  "Timestamp_diff d u other =
     (if IsPlusInfinity u \<or> IsMinusInfinity other then
        rbind (RTC_DCHECK d (\<not> IsMinusInfinity u)) (\<lambda>_.
        rbind (RTC_DCHECK d (\<not> IsPlusInfinity other)) (\<lambda>_. Inr PlusInfinity))
      else if IsMinusInfinity u \<or> IsPlusInfinity other then
        rbind (RTC_DCHECK d (\<not> IsPlusInfinity u)) (\<lambda>_.
        rbind (RTC_DCHECK d (\<not> IsMinusInfinity other)) (\<lambda>_. Inr MinusInfinity))
      else
        rbind (stamp_us d Int64 u) (\<lambda>a. rbind (stamp_us d Int64 other) (\<lambda>b.
        rbind (i64 (a - b)) (\<lambda>s. TimeDelta_us d (Int64, s)))))"

subsection \<open>DataRate\<close>

definition DataRate_BitsPerSec :: "int \<Rightarrow> UnitBase option" where
  "DataRate_BitsPerSec = FromStaticValue True"

definition DataRate_KilobitsPerSec :: "int \<Rightarrow> UnitBase option" where
  "DataRate_KilobitsPerSec v = FromStaticFraction True v 1000"

definition DataRate_bps :: "bool \<Rightarrow> cval \<Rightarrow> UnitBase checked" where
  "DataRate_bps d = FromValue d True"

definition DataRate_bytes_per_sec :: "bool \<Rightarrow> cval \<Rightarrow> UnitBase checked" where
  "DataRate_bytes_per_sec d = FromFraction d True 8"

definition DataRate_kbps :: "bool \<Rightarrow> cval \<Rightarrow> UnitBase checked" where
  "DataRate_kbps d = FromFraction d True 1000"

definition bps :: "bool \<Rightarrow> ctype \<Rightarrow> UnitBase \<Rightarrow> int checked" where
  "bps d = ToValue d"

definition bytes_per_sec :: "bool \<Rightarrow> ctype \<Rightarrow> UnitBase \<Rightarrow> int checked" where
  "bytes_per_sec d = ToFraction d True 8"

definition kbps :: "bool \<Rightarrow> ctype \<Rightarrow> UnitBase \<Rightarrow> int checked" where
  "kbps d = ToFraction d True 1000"

definition bps_or :: "UnitBase \<Rightarrow> int \<Rightarrow> int" where
  "bps_or = ToValueOr"

definition kbps_or :: "UnitBase \<Rightarrow> int \<Rightarrow> int checked" where
  "kbps_or = ToFractionOr True 1000"

definition Microbits :: "bool \<Rightarrow> UnitBase \<Rightarrow> int checked" where
  "Microbits d u =
     rbind (size_bytes d u) (\<lambda>b.
     rbind (RTC_DCHECK d (b \<le> type_max Int64 sdiv 8000000)) (\<lambda>_. i64 (b * 8000000)))"

text \<open>Division of 64-bit integers: by zero, and of the least value by -1, is undefined.\<close>

definition div64 :: "int \<Rightarrow> int \<Rightarrow> int checked" where
  "div64 a b = (if b = 0 then Inl Undefined else i64 (a sdiv b))"

definition size_per_duration :: "bool \<Rightarrow> UnitBase \<Rightarrow> UnitBase \<Rightarrow> UnitBase checked" where
  "size_per_duration d data_size duration =
     rbind (Microbits d data_size) (\<lambda>m. rbind (delta_us d Int64 duration) (\<lambda>t.
     rbind (div64 m t) (\<lambda>q. DataRate_bps d (Int64, q))))"

definition size_per_rate :: "bool \<Rightarrow> UnitBase \<Rightarrow> UnitBase \<Rightarrow> UnitBase checked" where
  "size_per_rate d data_size rate =
     rbind (Microbits d data_size) (\<lambda>m. rbind (bps d Int64 rate) (\<lambda>r.
     rbind (div64 m r) (\<lambda>q. TimeDelta_us d (Int64, q))))"

definition rate_times_duration :: "bool \<Rightarrow> UnitBase \<Rightarrow> UnitBase \<Rightarrow> UnitBase checked" where
  "rate_times_duration d rate duration =
     rbind (bps d Int64 rate) (\<lambda>r. rbind (delta_us d Int64 duration) (\<lambda>t.
     rbind (i64 (r * t)) (\<lambda>microbits.
     rbind (i64 (microbits + 4000000)) (\<lambda>m. DataSize_bytes d (Int64, m sdiv 8000000)))))"

section \<open>Extended integers\<close>

text \<open>
  What a unit stands for, and the arithmetic of the extended integers, with the sums that have no
  value as \<^const>\<open>None\<close>.
\<close>

datatype extint = NegInf | Fin int | PosInf

definition ext :: "UnitBase \<Rightarrow> extint" where
  "ext u = (if IsPlusInfinity u then PosInf else if IsMinusInfinity u then NegInf else Fin (unit_value u))"

fun ext_plus :: "extint \<Rightarrow> extint \<Rightarrow> extint option" where
  "ext_plus (Fin a) (Fin b) = Some (Fin (a + b))"
| "ext_plus PosInf NegInf = None"
| "ext_plus NegInf PosInf = None"
| "ext_plus PosInf _ = Some PosInf"
| "ext_plus _ PosInf = Some PosInf"
| "ext_plus NegInf _ = Some NegInf"
| "ext_plus _ NegInf = Some NegInf"

fun ext_neg :: "extint \<Rightarrow> extint" where
  "ext_neg (Fin a) = Fin (- a)" | "ext_neg PosInf = NegInf" | "ext_neg NegInf = PosInf"

text \<open>The outcome of an operation whose exact result is given.\<close>

fun outcome :: "bool \<Rightarrow> extint option \<Rightarrow> UnitBase checked" where
  "outcome os None = Inl DcheckFailed"
| "outcome os (Some PosInf) = Inr PlusInfinity"
| "outcome os (Some NegInf) = Inr MinusInfinity"
| "outcome os (Some (Fin n)) =
     (if \<not> in_range Int64 n then Inl Undefined
      else if (os \<and> n < 0) \<or> n = PlusInfinityVal \<or> n = MinusInfinityVal then Inl DcheckFailed
      else Inr (UnitBase n))"

definition valid_unit :: "UnitBase \<Rightarrow> bool" where
  "valid_unit u \<longleftrightarrow> in_range Int64 (unit_value u)"

lemmas infinity_defs = IsPlusInfinity_def IsMinusInfinity_def IsFinite_def IsInfinite_def
  PlusInfinity_def MinusInfinity_def

lemma InfinityVals [simp]: "in_range Int64 PlusInfinityVal" "in_range Int64 MinusInfinityVal"
  "MinusInfinityVal < PlusInfinityVal" "PlusInfinityVal \<noteq> MinusInfinityVal" "MinusInfinityVal \<noteq> PlusInfinityVal"
  by (simp_all add: PlusInfinityVal_def MinusInfinityVal_def in_range_def)

lemma in_range_Int64_Inf: "in_range Int64 v \<longleftrightarrow> MinusInfinityVal \<le> v \<and> v \<le> PlusInfinityVal"
  by (simp add: PlusInfinityVal_def MinusInfinityVal_def in_range_def)

lemma well_typed_Pair [simp]: "well_typed (t, v) \<longleftrightarrow> in_range t v"
  by (simp add: well_typed_def)

lemma dcheck_one_sided_typed:
  "well_typed v \<Longrightarrow> dcheck_one_sided d os v = RTC_DCHECK d (os \<longrightarrow> 0 \<le> snd v)"
  by (simp add: dcheck_one_sided_def)

lemma FromValue_outcome:
  assumes "in_range Int64 n"
  shows "FromValue True os (Int64, n) = outcome os (Some (Fin n))"
proof -
  have "FromValue True os (Int64, n) =
      rbind (RTC_DCHECK True (os \<longrightarrow> 0 \<le> n)) (\<lambda>_. rbind (RTC_DCHECK True (MinusInfinityVal < n)) (\<lambda>_.
      rbind (RTC_DCHECK True (n < PlusInfinityVal)) (\<lambda>_. Inr (UnitBase n))))"
    using assms by (simp add: FromValue_def dcheck_one_sided_typed)
  with assms show ?thesis
    by (auto simp: RTC_DCHECK_def in_range_Int64_Inf)
qed

lemma ToValue_finite [simp]:
  "valid_unit u \<Longrightarrow> IsFinite u \<Longrightarrow> ToValue d Int64 u = Inr (unit_value u)"
  by (simp add: ToValue_def valid_unit_def)

lemma finite_iff: "IsFinite u \<longleftrightarrow> \<not> IsPlusInfinity u \<and> \<not> IsMinusInfinity u"
  by (auto simp: infinity_defs)

lemma not_both: "IsPlusInfinity u \<Longrightarrow> \<not> IsMinusInfinity u"
  by (auto simp: infinity_defs)

lemma i64_outcome:
  "rbind (i64 n) (\<lambda>s. FromValue True os (Int64, s)) = outcome os (Some (Fin n))"
  by (cases "in_range Int64 n") (simp_all add: FromValue_outcome del: outcome.simps(4), simp)

lemma unit_plus_outcome:
  assumes "valid_unit a" "valid_unit b"
  shows "unit_plus True os a b = outcome os (ext_plus (ext a) (ext b))"
  using assms not_both [of a] not_both [of b]
  by (cases "IsPlusInfinity a"; cases "IsPlusInfinity b"; cases "IsMinusInfinity a"; cases "IsMinusInfinity b")
    (simp_all add: unit_plus_def ext_def finite_iff i64_outcome del: outcome.simps(4))

lemma unit_minus_outcome:
  assumes "valid_unit a" "valid_unit b"
  shows "unit_minus True os a b = outcome os (ext_plus (ext a) (ext_neg (ext b)))"
  using assms not_both [of a] not_both [of b]
  by (cases "IsPlusInfinity a"; cases "IsPlusInfinity b"; cases "IsMinusInfinity a"; cases "IsMinusInfinity b")
    (simp_all add: unit_minus_def ext_def finite_iff i64_outcome del: outcome.simps(4))

lemma Timestamp_is_unit:
  "Timestamp_plus d = unit_plus d True" "Timestamp_minus d = unit_minus d True"
  "Timestamp_diff d = unit_minus d False"
  by (auto simp: fun_eq_iff Timestamp_plus_def Timestamp_minus_def Timestamp_diff_def unit_plus_def
      unit_minus_def stamp_us_def delta_us_def Timestamp_us_def TimeDelta_us_def)

section \<open>Rounding\<close>

lemma sdiv_nonneg: "0 \<le> a \<Longrightarrow> 0 < b \<Longrightarrow> a sdiv b = a div (b :: int)"
  by (simp add: signed_divide_int_def sgn_if)

lemma sdiv_neg: "a < 0 \<Longrightarrow> 0 < b \<Longrightarrow> a sdiv b = - ((- a) div (b :: int))"
  by (simp add: signed_divide_int_def sgn_if)

text \<open>The nearest multiple: the quotient of a number moved up by half of the divisor.\<close>

lemma round_div:
  fixes n d :: int
  assumes "0 < d"
  shows "2 * \<bar>(n + d div 2) div d * d - n\<bar> \<le> d"
proof -
  let ?m = "n + d div 2"
  have eq: "?m div d * d = ?m - ?m mod d" by (simp add: minus_mod_eq_div_mult)
  have b: "0 \<le> ?m mod d" "?m mod d < d" using assms by simp_all
  have h: "2 * (d div 2) = d - d mod 2" "0 \<le> d mod 2" "d mod 2 < 2" by presburger+
  have "2 * \<bar>d div 2 - m\<bar> \<le> d" if "0 \<le> m" "m < d" for m
    using that h by (auto simp: abs_if)
  moreover from eq have "?m div d * d - n = d div 2 - ?m mod d" by simp
  ultimately show ?thesis using b by simp
qed

lemma DivRoundPositive_value:
  assumes "0 \<le> n" "0 < den" "n + den div 2 \<le> PlusInfinityVal"
  shows "DivRoundPositiveToNearest n den = Inr ((n + den div 2) div den)"
proof -
  have "0 \<le> n + den div 2" using assms by simp
  then have "in_range Int64 (n + den div 2)"
    using assms(3) by (simp add: in_range_def PlusInfinityVal_def)
  with assms show ?thesis by (simp add: DivRoundPositiveToNearest_def sdiv_nonneg)
qed

text \<open>Rounding is symmetric: a negative number is rounded as its opposite.\<close>

lemma DivRound_value:
  assumes "0 < den" "\<bar>n\<bar> + den div 2 \<le> PlusInfinityVal"
  shows "DivRoundToNearest n den = Inr (sgn n * ((\<bar>n\<bar> + den div 2) div den))"
proof (cases "0 \<le> n")
  case True
  then have "0 \<le> n + den div 2" using assms by simp
  then have "in_range Int64 (n + den div 2)"
    using True assms(2) by (simp add: in_range_def PlusInfinityVal_def)
  moreover have "sgn n * ((n + den div 2) div den) = (n + den div 2) div den"
    using True assms(1) by (auto simp: sgn_if div_pos_pos_trivial)
  ultimately show ?thesis using True assms by (simp add: DivRoundToNearest_def sdiv_nonneg)
next
  case False
  have neg: "(- den) sdiv 2 = - (den div 2)" using assms(1) sdiv_neg [of "- den" 2] by simp
  have "in_range Int64 (n - den div 2)"
    using False assms by (simp add: in_range_def PlusInfinityVal_def)
  moreover have "n - den div 2 < 0" using False assms(1) pos_imp_zdiv_nonneg_iff [of 2 den] by linarith
  ultimately show ?thesis using False assms(1) neg
    by (simp add: DivRoundToNearest_def sdiv_neg sgn_if)
qed

lemma round_sgn:
  fixes n den :: int
  assumes "0 < den"
  shows "2 * \<bar>sgn n * ((\<bar>n\<bar> + den div 2) div den) * den - n\<bar> \<le> den"
proof -
  have "\<bar>sgn n * q * den - n\<bar> \<le> \<bar>q * den - \<bar>n\<bar>\<bar>" for q
    by (cases "n < 0"; cases "n = 0") (auto simp: sgn_if)
  from this [of "(\<bar>n\<bar> + den div 2) div den"] round_div [OF assms, of "\<bar>n\<bar>"] show ?thesis by linarith
qed

lemma round_multiple:
  fixes v den :: int
  assumes "0 < den"
  shows "sgn (v * den) * ((\<bar>v * den\<bar> + den div 2) div den) = v" "0 \<le> v \<Longrightarrow> (v * den + den div 2) div den = v"
proof -
  have r: "(w * den + den div 2) div den = w" for w
    using assms by (simp add: div_pos_pos_trivial)
  have "\<bar>v * den\<bar> = \<bar>v\<bar> * den" using assms by (simp add: abs_mult)
  with r [of "\<bar>v\<bar>"] show "sgn (v * den) * ((\<bar>v * den\<bar> + den div 2) div den) = v"
    using assms by (simp add: sgn_mult sgn_mult_abs)
  show "(v * den + den div 2) div den = v" by (rule r)
qed

lemma limit_sdiv:
  assumes "0 < den"
  shows "PlusInfinityVal sdiv den = PlusInfinityVal div den"
    "MinusInfinityVal sdiv den = - ((PlusInfinityVal + 1) div den)"
    "in_range Int64 (PlusInfinityVal sdiv den)" "in_range Int64 (MinusInfinityVal sdiv den)"
proof -
  show eq: "PlusInfinityVal sdiv den = PlusInfinityVal div den"
    "MinusInfinityVal sdiv den = - ((PlusInfinityVal + 1) div den)"
    using assms by (simp_all add: sdiv_neg sdiv_nonneg MinusInfinityVal_def PlusInfinityVal_def)
  have "0 \<le> PlusInfinityVal div den" "PlusInfinityVal div den \<le> PlusInfinityVal"
    "0 \<le> (PlusInfinityVal + 1) div den" "(PlusInfinityVal + 1) div den \<le> PlusInfinityVal + 1"
    using assms by (simp_all add: PlusInfinityVal_def pos_imp_zdiv_nonneg_iff div_le_dividend int_div_le_self)
  then show "in_range Int64 (PlusInfinityVal sdiv den)" "in_range Int64 (MinusInfinityVal sdiv den)"
    unfolding eq by (simp_all add: in_range_def PlusInfinityVal_def)
qed

lemma below_quotient:
  fixes v m den :: int
  assumes "0 < den" "v < m div den"
  shows "v * den + den \<le> m"
proof -
  have "(v + 1) * den \<le> m div den * den" using assms by (intro mult_right_mono) auto
  also have "\<dots> \<le> m" using assms(1) pos_mod_sign [of den m] by (simp add: minus_mod_eq_div_mult [symmetric])
  finally show ?thesis by (simp add: algebra_simps)
qed

lemma mul_op_Int64:
  assumes "well_typed v" "0 < den" "in_range Int64 den" "in_range Int64 (snd v * den)"
  shows "mul_op v (Int64, den) = Inr (common_type (fst v) Int64, snd v * den)"
    "in_range (common_type (fst v) Int64) (snd v * den)"
proof -
  have nn: "0 \<le> snd v \<Longrightarrow> 0 \<le> snd v * den" using assms(2) by simp
  show r: "in_range (common_type (fst v) Int64) (snd v * den)"
    using assms nn by (cases "fst v") (auto simp: common_type_def in_range_def well_typed_def)
  have "in_range (common_type (fst v) Int64) (snd v)" "in_range (common_type (fst v) Int64) den"
    using assms by (cases "fst v"; simp add: common_type_def in_range_def well_typed_def)+
  with r show "mul_op v (Int64, den) = Inr (common_type (fst v) Int64, snd v * den)"
    by (simp add: mul_op_def Let_def)
qed

lemma FromFraction_value:
  assumes v: "well_typed v" and den: "0 < den" "in_range Int64 den"
    and ok: "FromFraction True os den v = Inr u"
  shows "unit_value u = snd v * den" "os \<longrightarrow> 0 \<le> snd v" "\<bar>snd v\<bar> * den + den \<le> PlusInfinityVal + 1"
    "IsFinite u" "valid_unit u"
proof -
  from ok v den limit_sdiv [OF den(1)]
  have c: "os \<longrightarrow> 0 \<le> snd v" "- ((PlusInfinityVal + 1) div den) < snd v" "snd v < PlusInfinityVal div den"
    by (auto simp: FromFraction_def dcheck_one_sided_typed RTC_DCHECK_def rbind_eq_Inr split: if_splits)
  show "os \<longrightarrow> 0 \<le> snd v" by (rule c)
  have "- snd v < (PlusInfinityVal + 1) div den" using c(2) by simp
  note bq = below_quotient [OF den(1) this] below_quotient [OF den(1) c(3)]
  then show b: "\<bar>snd v\<bar> * den + den \<le> PlusInfinityVal + 1" by (auto simp: abs_if)
  have "\<bar>snd v * den\<bar> \<le> PlusInfinityVal" using b den(1) by (simp add: abs_mult)
  then have p: "in_range Int64 (snd v * den)" by (auto simp: in_range_def PlusInfinityVal_def)
  with mul_op_Int64 [OF v den p] show val: "unit_value u = snd v * den"
    using ok by (auto simp: FromFraction_def rbind_eq_Inr)
  from p show "valid_unit u" by (simp add: valid_unit_def val)
  from bq den(1) show "IsFinite u"
    by (auto simp: infinity_defs val MinusInfinityVal_def PlusInfinityVal_def)
qed

lemma ToFraction_value:
  assumes "0 < den" "IsFinite u" "os \<longrightarrow> 0 \<le> unit_value u" "\<bar>unit_value u\<bar> + den div 2 \<le> PlusInfinityVal"
  shows "ToFraction d os den t u =
    dchecked_cast d t Int64 (sgn (unit_value u) * ((\<bar>unit_value u\<bar> + den div 2) div den))"
proof (cases os)
  case True
  with assms have "sgn (unit_value u) * ((\<bar>unit_value u\<bar> + den div 2) div den) = (unit_value u + den div 2) div den"
    by (auto simp: sgn_if div_pos_pos_trivial)
  with True assms show ?thesis unfolding ToFraction_def
    by (simp only: DivRoundPositive_value RTC_DCHECK_simps rbind_Inr if_True abs_of_nonneg)
next
  case False
  with assms show ?thesis by (simp add: ToFraction_def DivRound_value)
qed

lemma rounded_range:
  assumes "0 < den" "\<bar>n\<bar> + den div 2 \<le> PlusInfinityVal"
  shows "in_range Int64 (sgn n * ((\<bar>n\<bar> + den div 2) div den))"
proof -
  have "0 \<le> \<bar>n\<bar> + den div 2" using assms(1) by (simp add: pos_imp_zdiv_nonneg_iff)
  then have "0 \<le> (\<bar>n\<bar> + den div 2) div den" "(\<bar>n\<bar> + den div 2) div den \<le> \<bar>n\<bar> + den div 2"
    using assms(1) zdiv_mono2 [of "\<bar>n\<bar> + den div 2" 1 den] by (simp_all add: pos_imp_zdiv_nonneg_iff)
  with assms(2) show ?thesis
    by (auto simp: in_range_def PlusInfinityVal_def sgn_if)
qed

section \<open>The theorems\<close>

text \<open>
  (C27) Unit arithmetic is the arithmetic of the extended integers.  In an assertion build a sum
  or difference of units, of time stamps and time deltas is the exact one, the infinities
  included; the undefined forms, negative results of one-sided units and finite results that would
  collide with an infinity are rejected, and a result beyond 64 bits is signed overflow.
\<close>

theorem unit_arithmetic:
  assumes "valid_unit a" "valid_unit b"
  shows "unit_plus True os a b = outcome os (ext_plus (ext a) (ext b)) \<and>
    unit_minus True os a b = outcome os (ext_plus (ext a) (ext_neg (ext b))) \<and>
    Timestamp_plus True a b = outcome True (ext_plus (ext a) (ext b)) \<and>
    Timestamp_minus True a b = outcome True (ext_plus (ext a) (ext_neg (ext b))) \<and>
    Timestamp_diff True a b = outcome False (ext_plus (ext a) (ext_neg (ext b)))"
  using assms by (simp add: Timestamp_is_unit unit_plus_outcome unit_minus_outcome)

text \<open>
  Conversions to a coarser unit.  A finite value is rounded to the nearest multiple,
  for both signs, and a quantity given in the coarser unit is read back
  exactly, from every integer type.
\<close>

theorem unit_fractions:
  assumes den: "0 < den" "in_range Int64 den"
  shows "(valid_unit u \<longrightarrow> IsFinite u \<longrightarrow> (os \<longrightarrow> 0 \<le> unit_value u) \<longrightarrow>
      \<bar>unit_value u\<bar> + den div 2 \<le> PlusInfinityVal \<longrightarrow>
      (\<exists>q. ToFraction d os den Int64 u = Inr q \<and> 2 * \<bar>q * den - unit_value u\<bar> \<le> den)) \<and>
    (well_typed v \<longrightarrow> FromFraction True os den v = Inr w \<longrightarrow> ToFraction True os den (fst v) w = Inr (snd v))"
proof (rule conjI; intro impI)
  assume u: "valid_unit u" "IsFinite u" "os \<longrightarrow> 0 \<le> unit_value u" "\<bar>unit_value u\<bar> + den div 2 \<le> PlusInfinityVal"
  then show "\<exists>q. ToFraction d os den Int64 u = Inr q \<and> 2 * \<bar>q * den - unit_value u\<bar> \<le> den"
    using ToFraction_value [OF den(1) u(2,3,4)] rounded_range [OF den(1) u(4)] round_sgn [OF den(1)] by simp
next
  assume v: "well_typed v" and ok: "FromFraction True os den v = Inr w"
  note w = FromFraction_value [OF v den ok]
  have "\<bar>unit_value w\<bar> = \<bar>snd v\<bar> * den" using w(1) den(1) by (simp add: abs_mult)
  moreover have "0 < den - den div 2" using den(1) by simp
  ultimately have b: "\<bar>unit_value w\<bar> + den div 2 \<le> PlusInfinityVal" using w(3) by linarith
  have "os \<longrightarrow> 0 \<le> unit_value w" using w(1,2) den(1) by simp
  from ToFraction_value [OF den(1) w(4) this b] rounded_range [OF den(1) b] v
  show "ToFraction True os den (fst v) w = Inr (snd v)"
    by (simp add: w(1) round_multiple(1) [OF den(1)] well_typed_def)
qed

end
