(* ===== verification/Rtc_SeqNum.thy ===== *)
theory Rtc_SeqNum
  imports Rtc_Numeric
begin

text \<open>
  Wrapping counters of libwebrtc: the comparison and the unwrapper of
  \<^verbatim>\<open>modules/include/module_common_types_public.h\<close>, the modular arithmetic of
  \<^verbatim>\<open>rtc_base/numerics/mod_ops.h\<close> and the sequence numbers of
  \<^verbatim>\<open>rtc_base/numerics/sequence_number_util.h\<close>.

  The template parameter \<^verbatim>\<open>U\<close> or \<^verbatim>\<open>T\<close> is a \<^typ>\<open>ctype\<close>
  argument; a difference is computed in the promoted type (\<^const>\<open>diff_op\<close>) and cast back where
  the code casts it.  The modulus \<^verbatim>\<open>M = 0\<close> selects the width of the type.
\<close>

section \<open>Newer values\<close>

definition kBreakpoint :: "ctype \<Rightarrow> int" where
  "kBreakpoint U = type_max U div 2 + 1"

definition IsNewer :: "ctype \<Rightarrow> int \<Rightarrow> int \<Rightarrow> bool" where
  "IsNewer U v prev =
     (if diff_op U v prev = kBreakpoint U then prev < v
      else v \<noteq> prev \<and> static_cast U (diff_op U v prev) < kBreakpoint U)"

definition IsNewerSequenceNumber :: "int \<Rightarrow> int \<Rightarrow> bool" where
  "IsNewerSequenceNumber sequence_number prev = IsNewer Uint16 sequence_number prev"

definition IsNewerTimestamp :: "int \<Rightarrow> int \<Rightarrow> bool" where
  "IsNewerTimestamp timestamp prev = IsNewer Uint32 timestamp prev"

definition LatestSequenceNumber :: "int \<Rightarrow> int \<Rightarrow> int" where
  "LatestSequenceNumber a b = (if IsNewerSequenceNumber a b then a else b)"

definition LatestTimestamp :: "int \<Rightarrow> int \<Rightarrow> int" where
  "LatestTimestamp a b = (if IsNewerTimestamp a b then a else b)"

section \<open>The unwrapper that stays above zero\<close>

record Unwrapper =
  last_value :: "int option"

definition UnwrapWithoutUpdate :: "ctype \<Rightarrow> Unwrapper \<Rightarrow> int \<Rightarrow> int checked" where
  "UnwrapWithoutUpdate U uw v =
     (case last_value uw of
        None \<Rightarrow> Inr v
      | Some l \<Rightarrow>
          let kMaxPlusOne = type_max U + 1;
              cropped_last = static_cast U l;
              delta = diff_op U v cropped_last in
          if IsNewer U v cropped_last
          then i64 (l + (if delta < 0 then delta + kMaxPlusOne else delta))
          else if 0 < delta then
            rbind (i64 (l + delta)) (\<lambda>s. rbind (i64 (s - kMaxPlusOne)) (\<lambda>r.
            i64 (l + (if 0 \<le> r then delta - kMaxPlusOne else delta))))
          else i64 (l + delta))"

definition UpdateLast :: "int \<Rightarrow> Unwrapper \<Rightarrow> Unwrapper" where
  "UpdateLast v uw = uw\<lparr>last_value := Some v\<rparr>"

definition Unwrap :: "ctype \<Rightarrow> Unwrapper \<Rightarrow> int \<Rightarrow> (int \<times> Unwrapper) checked" where
  "Unwrap U uw v =
     rbind (UnwrapWithoutUpdate U uw v) (\<lambda>unwrapped. Inr (unwrapped, UpdateLast unwrapped uw))"

section \<open>Modular arithmetic\<close>

text \<open>
  \<^verbatim>\<open>Add\<close> and \<^verbatim>\<open>Subtract\<close> compute in
  \<^verbatim>\<open>unsigned long\<close>, which has 64 bits.
\<close>

definition mod_Add :: "bool \<Rightarrow> int \<Rightarrow> int \<Rightarrow> int \<Rightarrow> int checked" where
  "mod_Add d M a b =
     rbind (RTC_DCHECK d (a < M)) (\<lambda>_.
     let t = M - b mod M; res = static_cast Uint64 (a - t) in
     Inr (if a < t then static_cast Uint64 (res + M) else res))"

definition mod_Subtract :: "bool \<Rightarrow> int \<Rightarrow> int \<Rightarrow> int \<Rightarrow> int checked" where
  "mod_Subtract d M a b =
     rbind (RTC_DCHECK d (a < M)) (\<lambda>_.
     let sub = b mod M in
     Inr (if a < sub then M - (sub - a) else a - sub))"

definition ForwardDiff :: "bool \<Rightarrow> ctype \<Rightarrow> int \<Rightarrow> int \<Rightarrow> int \<Rightarrow> int checked" where
  "ForwardDiff d T M a b =
     (if 0 < M then
        rbind (RTC_DCHECK d (a < M)) (\<lambda>_. rbind (RTC_DCHECK d (b < M)) (\<lambda>_.
        Inr (if a \<le> b then static_cast T (b - a) else static_cast T (M - (a - b)))))
      else Inr (static_cast T (b - a)))"

definition ReverseDiff :: "bool \<Rightarrow> ctype \<Rightarrow> int \<Rightarrow> int \<Rightarrow> int \<Rightarrow> int checked" where
  "ReverseDiff d T M a b =
     (if 0 < M then
        rbind (RTC_DCHECK d (a < M)) (\<lambda>_. rbind (RTC_DCHECK d (b < M)) (\<lambda>_.
        Inr (if b \<le> a then static_cast T (a - b) else static_cast T (M - (b - a)))))
      else Inr (static_cast T (a - b)))"

definition MinDiff :: "bool \<Rightarrow> ctype \<Rightarrow> int \<Rightarrow> int \<Rightarrow> int \<Rightarrow> int checked" where
  "MinDiff d T M a b =
     rbind (ForwardDiff d T M a b) (\<lambda>x. rbind (ReverseDiff d T M a b) (\<lambda>y. Inr (min x y)))"

section \<open>Sequence numbers\<close>

definition AheadOrAt :: "bool \<Rightarrow> ctype \<Rightarrow> int \<Rightarrow> int \<Rightarrow> int \<Rightarrow> bool checked" where
  "AheadOrAt d T M a b =
     (if 0 < M then
        let maxDist = M div 2 in
        if even M then
          rbind (MinDiff d T M a b) (\<lambda>m.
          if m = maxDist then Inr (b < a)
          else rbind (ForwardDiff d T M b a) (\<lambda>f. Inr (f \<le> maxDist)))
        else rbind (ForwardDiff d T M b a) (\<lambda>f. Inr (f \<le> maxDist))
      else
        let maxDist = type_max T div 2 + 1 in
        if diff_op T a b = maxDist then Inr (b < a)
        else rbind (ForwardDiff d T 0 b a) (\<lambda>f. Inr (f < maxDist)))"

definition AheadOf :: "bool \<Rightarrow> ctype \<Rightarrow> int \<Rightarrow> int \<Rightarrow> int \<Rightarrow> bool checked" where
  "AheadOf d T M a b = (if a = b then Inr False else AheadOrAt d T M a b)"

definition AscendingSeqNumComp :: "bool \<Rightarrow> ctype \<Rightarrow> int \<Rightarrow> int \<Rightarrow> int \<Rightarrow> bool checked" where
  "AscendingSeqNumComp d T M a b = AheadOf d T M a b"

definition DescendingSeqNumComp :: "bool \<Rightarrow> ctype \<Rightarrow> int \<Rightarrow> int \<Rightarrow> int \<Rightarrow> bool checked" where
  "DescendingSeqNumComp d T M a b = AheadOf d T M b a"

record SeqNumUnwrapper =
  seq_last_unwrapped :: int
  seq_last_value :: "int option"

definition SeqNumUnwrapper_new :: SeqNumUnwrapper where
  "SeqNumUnwrapper_new = \<lparr>seq_last_unwrapped = 0, seq_last_value = None\<rparr>"

definition SeqNum_Unwrap :: "bool \<Rightarrow> ctype \<Rightarrow> int \<Rightarrow> SeqNumUnwrapper \<Rightarrow> int \<Rightarrow> (int \<times> SeqNumUnwrapper) checked" where
  "SeqNum_Unwrap d T M uw v =
     rbind
       (case seq_last_value uw of
          None \<Rightarrow> Inr v
        | Some l \<Rightarrow>
            rbind (ForwardDiff d T M l v) (\<lambda>f.
            rbind (i64 (seq_last_unwrapped uw + f)) (\<lambda>u.
            rbind (AheadOrAt d T M v l) (\<lambda>ahead.
            if \<not> ahead then i64 (u - (if M = 0 then type_max T + 1 else M)) else Inr u))))
       (\<lambda>u. Inr (u, \<lparr>seq_last_unwrapped = u, seq_last_value = Some v\<rparr>))"

section \<open>Modulus and wrapped values\<close>

text \<open>
  The counters the unwrappers accept: unsigned and at most 32 bits wide; \<open>wrap_at\<close> is the number
  of different values.
\<close>

definition narrow :: "ctype \<Rightarrow> bool" where
  "narrow U \<longleftrightarrow> \<not> is_signed U \<and> sizeof U \<le> 4"

definition wrap_at :: "ctype \<Rightarrow> int \<Rightarrow> int" where
  "wrap_at T M = (if M = 0 then type_max T + 1 else M)"

lemma narrow_cases: "narrow U \<Longrightarrow> U = Uint8 \<or> U = Uint16 \<or> U = Uint32"
  by (cases U) (simp_all add: narrow_def)

lemma static_cast_narrow: "narrow U \<Longrightarrow> static_cast U v = v mod (type_max U + 1)"
  by (auto simp: static_cast_def type_card_def dest!: narrow_cases)

lemma narrow_mod:
  assumes "narrow U"
  shows "0 < type_max U + 1" "2 * kBreakpoint U = type_max U + 1" "type_max U + 1 \<le> 2 ^ 32"
  using assms by (auto simp: kBreakpoint_def dest!: narrow_cases)

text \<open>A difference of two reduced values is the true difference, up to one turn.\<close>

lemma diff_op_mod:
  assumes "narrow U"
  shows "diff_op U v w mod (type_max U + 1) = (v - w) mod (type_max U + 1)"
  using narrow_cases [OF assms]
  by (auto simp: diff_op_def static_cast_def type_card_def)

lemma mod_diff_turn:
  fixes D e m :: int
  assumes "0 < m" "e mod m = D mod m" "- m < e" "e < m" "2 * \<bar>D\<bar> < m"
  shows "0 \<le> D \<Longrightarrow> e = D \<or> e = D - m" "D < 0 \<Longrightarrow> e = D \<or> e = D + m"
proof -
  have "m dvd e - D" using assms(2) by (simp add: mod_eq_dvd_iff)
  then obtain k where k: "e - D = m * k" by (auto elim: dvdE)
  have "- 2 * m < m * k \<and> m * k < 2 * m" using k assms(3-5) by linarith
  then have "m * (-2) < m * k" "m * k < m * 2" by linarith+
  then have "-2 < k" "k < 2" using assms(1) by (simp_all only: mult_less_cancel_left_pos)
  then have k3: "k = -1 \<or> k = 0 \<or> k = 1" by arith
  show "e = D \<or> e = D - m" if "0 \<le> D" using k3 k assms(4) that by auto
  show "e = D \<or> e = D + m" if "D < 0" using k3 k assms(3) that by auto
qed

lemma mod_small_turn:
  fixes D m :: int
  assumes "2 * \<bar>D\<bar> < m"
  shows "0 \<le> D \<Longrightarrow> D mod m = D" "D < 0 \<Longrightarrow> D mod m = D + m"
proof -
  show "D mod m = D" if "0 \<le> D" using that assms by simp
  show "D mod m = D + m" if "D < 0"
  proof -
    have "D mod m = (D + m) mod m" by simp
    also have "\<dots> = D + m" using that assms by (intro mod_pos_pos_trivial) linarith+
    finally show ?thesis .
  qed
qed

text \<open>Less than half a turn apart, the comparison of the reduced values is that of the positions.\<close>

lemma IsNewer_position:
  assumes U: "narrow U" and near: "2 * \<bar>V - L\<bar> < type_max U + 1"
  shows "IsNewer U (V mod (type_max U + 1)) (L mod (type_max U + 1)) \<longleftrightarrow> L < V"
proof -
  let ?m = "type_max U + 1"
  note m = narrow_mod [OF U]
  have d: "diff_op U (V mod ?m) (L mod ?m) mod ?m = (V - L) mod ?m"
    by (simp add: diff_op_mod [OF U] mod_diff_eq)
  have h: "0 \<le> kBreakpoint U" "kBreakpoint U < ?m" using m by linarith+
  have turn: "(V - L) mod ?m = (if L \<le> V then V - L else V - L + ?m)"
    using mod_small_turn [OF near] by auto
  have nk: "diff_op U (V mod ?m) (L mod ?m) \<noteq> kBreakpoint U"
  proof
    assume "diff_op U (V mod ?m) (L mod ?m) = kBreakpoint U"
    with d h have "kBreakpoint U = (V - L) mod ?m" by simp
    with turn near m(2) show False by (auto split: if_splits)
  qed
  have eq: "V mod ?m = L mod ?m \<longleftrightarrow> V = L"
  proof
    assume "V mod ?m = L mod ?m"
    then have "(V - L) mod ?m = 0" by (metis mod_diff_eq diff_self mod_0)
    with turn near show "V = L" by (auto split: if_splits)
  qed simp
  have "static_cast U (diff_op U (V mod ?m) (L mod ?m)) = (V - L) mod ?m"
    by (simp add: static_cast_narrow [OF U] d)
  with nk eq turn near m(2) show ?thesis by (auto simp: IsNewer_def split: if_splits)
qed

lemma diff_op_range:
  assumes U: "narrow U"
  shows "- (type_max U + 1) < diff_op U (V mod (type_max U + 1)) (L mod (type_max U + 1))"
    "diff_op U (V mod (type_max U + 1)) (L mod (type_max U + 1)) < type_max U + 1"
  using narrow_cases [OF U] pos_mod_bound [of "type_max U + 1" V] pos_mod_bound [of "type_max U + 1" L]
    pos_mod_sign [of "type_max U + 1" V] pos_mod_sign [of "type_max U + 1" L]
    pos_mod_bound [of 4294967296 "V mod 4294967296 - L mod 4294967296"]
    pos_mod_sign [of 4294967296 "V mod 4294967296 - L mod 4294967296"]
  by (auto simp: diff_op_def static_cast_def type_card_def)

lemma UnwrapWithoutUpdate_position:
  assumes U: "narrow U" and near: "2 * \<bar>V - L\<bar> < type_max U + 1"
    and rng: "0 \<le> L" "0 \<le> V" "L < 2 ^ 62" "V < 2 ^ 62"
  shows "UnwrapWithoutUpdate U \<lparr>last_value = Some L\<rparr> (V mod (type_max U + 1)) = Inr V"
proof -
  let ?m = "type_max U + 1"
  let ?e = "diff_op U (V mod ?m) (L mod ?m)"
  note m = narrow_mod [OF U] and e = diff_op_range [OF U, of V L]
  have em: "?e mod ?m = (V - L) mod ?m" by (simp add: diff_op_mod [OF U] mod_diff_eq)
  note turn = mod_diff_turn [OF m(1) em e near]
  have i: "in_range Int64 V" "in_range Int64 (V + ?m)" "in_range Int64 (V - ?m)"
    using rng m by (auto simp: in_range_def)
  show ?thesis
  proof (cases "L < V")
    case True
    with turn(1) have "?e = V - L \<or> ?e = V - L - ?m" by auto
    moreover have "V - L - ?m < 0" using near True by simp
    ultimately have "(if ?e < 0 then ?e + ?m else ?e) = V - L" using True by auto
    with True near i show ?thesis
      by (simp add: UnwrapWithoutUpdate_def Let_def static_cast_narrow [OF U] IsNewer_position [OF U near])
  next
    case False
    have ee: "?e = V - L \<or> ?e = V - L + ?m"
      using turn False m(1) by (cases "V = L") (auto simp: diff_op_def)
    show ?thesis
    proof (cases "0 < ?e")
      case True
      with False ee have eq: "?e = V - L + ?m" by auto
      have "rbind (i64 (L + e)) (\<lambda>s. rbind (i64 (s - ?m)) (\<lambda>r.
          i64 (L + (if 0 \<le> r then e - ?m else e)))) = Inr V" if "e = V - L + ?m" for e
        using i rng by (simp add: that)
      from this [OF eq] False True near show ?thesis
        by (simp add: UnwrapWithoutUpdate_def Let_def static_cast_narrow [OF U] IsNewer_position [OF U near])
    next
      case np: False
      have "0 < V - L + ?m" using near False by simp
      with np ee have "?e = V - L" by auto
      with False near i np show ?thesis
        by (simp add: UnwrapWithoutUpdate_def Let_def static_cast_narrow [OF U] IsNewer_position [OF U near])
    qed
  qed
qed

section \<open>The sequence number unwrapper\<close>

lemma ForwardDiff_position:
  assumes T: "narrow T" and M: "0 \<le> M" "M \<le> type_max T"
  shows "ForwardDiff d T M (L mod wrap_at T M) (V mod wrap_at T M) = Inr ((V - L) mod wrap_at T M)"
proof (cases "M = 0")
  case True
  then show ?thesis
    by (simp add: ForwardDiff_def wrap_at_def static_cast_narrow [OF T] mod_diff_eq)
next
  case False
  with M have pos: "0 < M" and w: "wrap_at T M = M" by (simp_all add: wrap_at_def)
  let ?a = "L mod M" and ?b = "V mod M"
  have b: "0 \<le> ?a" "?a < M" "0 \<le> ?b" "?b < M" using pos by simp_all
  have eq: "(V - L) mod M = (?b - ?a) mod M" by (simp add: mod_diff_eq)
  have r: "static_cast T x = x" if "0 \<le> x" "x \<le> M" for x
    using that M by (simp add: static_cast_narrow [OF T])
  show ?thesis
  proof (cases "?a \<le> ?b")
    case True
    then have "(?b - ?a) mod M = ?b - ?a" using b by (intro mod_pos_pos_trivial) linarith+
    moreover have "static_cast T (?b - ?a) = ?b - ?a" using True b by (intro r) linarith+
    ultimately show ?thesis using True pos eq by (simp add: ForwardDiff_def w)
  next
    case False
    have "(?b - ?a) mod M = (?b - ?a + M) mod M" by simp
    also have "\<dots> = ?b - ?a + M" using False b by (intro mod_pos_pos_trivial) linarith+
    finally have "(?b - ?a) mod M = M - (?a - ?b)" by simp
    moreover have "static_cast T (M - (?a - ?b)) = M - (?a - ?b)" using False b by (intro r) linarith+
    ultimately show ?thesis using False pos eq by (simp add: ForwardDiff_def w)
  qed
qed

lemma ReverseDiff_ForwardDiff: "ReverseDiff d T M a b = ForwardDiff d T M b a \<or> d \<and> 0 < M \<and> \<not> (a < M \<and> b < M)"
  by (auto simp: ReverseDiff_def ForwardDiff_def RTC_DCHECK_def)

lemma ReverseDiff_position:
  assumes T: "narrow T" and M: "0 \<le> M" "M \<le> type_max T"
  shows "ReverseDiff d T M (L mod wrap_at T M) (V mod wrap_at T M) = Inr ((L - V) mod wrap_at T M)"
proof -
  have "0 < M \<Longrightarrow> L mod wrap_at T M < M \<and> V mod wrap_at T M < M" by (simp add: wrap_at_def)
  with ReverseDiff_ForwardDiff [of d T M "L mod wrap_at T M" "V mod wrap_at T M"]
    ForwardDiff_position [OF assms, of d V L]
  show ?thesis by auto
qed

lemma AheadOrAt_position:
  assumes T: "narrow T" and M: "0 \<le> M" "M \<le> type_max T" and near: "2 * \<bar>V - L\<bar> < wrap_at T M"
  shows "AheadOrAt d T M (V mod wrap_at T M) (L mod wrap_at T M) = Inr (L \<le> V)"
proof (cases "M = 0")
  case True
  let ?m = "type_max T + 1"
  have w: "wrap_at T M = ?m" using True by (simp add: wrap_at_def)
  have h: "type_max T div 2 + 1 = kBreakpoint T" by (simp add: kBreakpoint_def)
  note m = narrow_mod [OF T]
  have d: "diff_op T (V mod ?m) (L mod ?m) mod ?m = (V - L) mod ?m"
    by (simp add: diff_op_mod [OF T] mod_diff_eq)
  have turn: "(V - L) mod ?m = (if L \<le> V then V - L else V - L + ?m)"
    using mod_small_turn [of "V - L" ?m] near w by auto
  have hb: "0 \<le> kBreakpoint T" "kBreakpoint T < ?m" using m by linarith+
  have nk: "diff_op T (V mod ?m) (L mod ?m) \<noteq> kBreakpoint T"
  proof
    assume "diff_op T (V mod ?m) (L mod ?m) = kBreakpoint T"
    with d hb have "kBreakpoint T = (V - L) mod ?m" by simp
    with turn near m(2) w show False by (auto split: if_splits)
  qed
  have "ForwardDiff d T 0 (L mod ?m) (V mod ?m) = Inr ((V - L) mod ?m)"
    using ForwardDiff_position [OF T M, of d L V] True w by simp
  with nk turn near m(2) w True show ?thesis
    by (auto simp: AheadOrAt_def Let_def h split: if_splits)
next
  case False
  with M have pos: "0 < M" and w: "wrap_at T M = M" by (simp_all add: wrap_at_def)
  have turn: "(V - L) mod M = (if L \<le> V then V - L else V - L + M)"
    using mod_small_turn [of "V - L" M] near w by auto
  have turn': "(L - V) mod M = (if V \<le> L then L - V else L - V + M)"
    using mod_small_turn [of "L - V" M] near w by (auto simp: abs_minus_commute)
  have f: "ForwardDiff d T M (L mod M) (V mod M) = Inr ((V - L) mod M)"
    and g: "ForwardDiff d T M (V mod M) (L mod M) = Inr ((L - V) mod M)"
    and r: "ReverseDiff d T M (V mod M) (L mod M) = Inr ((V - L) mod M)"
    using ForwardDiff_position [OF T M, of d L V] ForwardDiff_position [OF T M, of d V L]
      ReverseDiff_position [OF T M, of d V L] w by simp_all
  have "min ((L - V) mod M) ((V - L) mod M) \<noteq> M div 2" if "even M"
    using that turn turn' near w by (auto simp: min_def elim!: evenE split: if_splits)
  moreover have "(V - L) mod M \<le> M div 2 \<longleftrightarrow> L \<le> V"
    using turn near w by (auto split: if_splits)
  ultimately show ?thesis
    using pos f g r w by (auto simp: AheadOrAt_def MinDiff_def Let_def)
qed

lemma SeqNum_Unwrap_position:
  assumes T: "narrow T" and M: "0 \<le> M" "M \<le> type_max T" and near: "2 * \<bar>V - L\<bar> < wrap_at T M"
    and rng: "\<bar>L + c\<bar> < 2 ^ 62" "\<bar>V + c\<bar> < 2 ^ 62"
  shows "SeqNum_Unwrap d T M \<lparr>seq_last_unwrapped = L + c, seq_last_value = Some (L mod wrap_at T M)\<rparr>
      (V mod wrap_at T M) = Inr (V + c, \<lparr>seq_last_unwrapped = V + c, seq_last_value = Some (V mod wrap_at T M)\<rparr>)"
proof -
  have turn: "(V - L) mod wrap_at T M = (if L \<le> V then V - L else V - L + wrap_at T M)"
    using mod_small_turn [OF near] by auto
  have big: "0 < wrap_at T M" "wrap_at T M \<le> 2 ^ 32" using narrow_mod [OF T] M by (auto simp: wrap_at_def)
  have i: "in_range Int64 (V + c)" "in_range Int64 (V + c + wrap_at T M)"
    using rng big by (auto simp: in_range_def)
  have sum: "L + c + (V - L) = V + c" "L + c + (V - L + wrap_at T M) = V + c + wrap_at T M" by simp_all
  have wa: "(if M = 0 then type_max T + 1 else M) = wrap_at T M" by (simp add: wrap_at_def)
  show ?thesis
    unfolding SeqNum_Unwrap_def wa
    using i by (simp add: ForwardDiff_position [OF T M] AheadOrAt_position [OF T M near] turn sum)
qed

section \<open>Unwrapping a stream\<close>

text \<open>
  The contract of both unwrappers: a state that stands for a position follows a step of less than
  half a turn to the next position, of which it only sees the value modulo the turn.
\<close>

fun unwrap_all :: "('s \<Rightarrow> int \<Rightarrow> (int \<times> 's) checked) \<Rightarrow> 's \<Rightarrow> int list \<Rightarrow> (int list \<times> 's) checked" where
  "unwrap_all step s [] = Inr ([], s)"
| "unwrap_all step s (v # vs) =
     rbind (step s v) (\<lambda>(r, s'). rbind (unwrap_all step s' vs) (\<lambda>(rs, s''). Inr (r # rs, s'')))"

fun slow :: "int \<Rightarrow> int \<Rightarrow> int list \<Rightarrow> bool" where
  "slow m x [] = True"
| "slow m x (y # ys) \<longleftrightarrow> 2 * \<bar>y - x\<bar> < m \<and> slow m y ys"

locale unwrapper =
  fixes step :: "'s \<Rightarrow> int \<Rightarrow> (int \<times> 's) checked"
    and at :: "int \<Rightarrow> 's \<Rightarrow> bool"
    and turn :: int
    and shift :: int
    and allowed :: "int \<Rightarrow> bool"
  assumes step_law:
    "at x s \<Longrightarrow> allowed x \<Longrightarrow> allowed y \<Longrightarrow> 2 * \<bar>y - x\<bar> < turn \<Longrightarrow>
     returns (step s (y mod turn)) (\<lambda>(r, s'). r = y + shift \<and> at y s')"
begin

lemma unwrap_all_law:
  "at x s \<Longrightarrow> allowed x \<Longrightarrow> (\<forall>y \<in> set ys. allowed y) \<Longrightarrow> slow turn x ys \<Longrightarrow>
   returns (unwrap_all step s (map (\<lambda>y. y mod turn) ys)) (\<lambda>(rs, s'). rs = map (\<lambda>y. y + shift) ys)"
proof (induction ys arbitrary: x s)
  case Nil
  then show ?case by simp
next
  case (Cons y ys)
  then have "returns (step s (y mod turn)) (\<lambda>(r, s'). r = y + shift \<and> at y s')"
    by (intro step_law) auto
  then obtain s' where s': "step s (y mod turn) = Inr (y + shift, s')" "at y s'"
    by (auto elim!: returnsE)
  from Cons.IH [OF s'(2)] Cons.prems
  have "returns (unwrap_all step s' (map (\<lambda>y. y mod turn) ys)) (\<lambda>(rs, s'). rs = map (\<lambda>y. y + shift) ys)"
    by simp
  then show ?case by (auto simp: s'(1) elim!: returnsE)
qed

end

text \<open>
  The positions are counted from the turn of the first value, so the first unwrapped value is the
  first value itself.
\<close>

definition unwrapper_at :: "int \<Rightarrow> int \<Rightarrow> Unwrapper \<Rightarrow> bool" where
  "unwrapper_at c x uw \<longleftrightarrow> last_value uw = Some (x + c)"

definition seq_unwrapper_at :: "ctype \<Rightarrow> int \<Rightarrow> int \<Rightarrow> int \<Rightarrow> SeqNumUnwrapper \<Rightarrow> bool" where
  "seq_unwrapper_at T M c x uw \<longleftrightarrow>
     uw = \<lparr>seq_last_unwrapped = x + c, seq_last_value = Some (x mod wrap_at T M)\<rparr>"

locale counter =
  fixes U :: ctype
    and M :: int
  assumes narrow: "narrow U"
    and modulus: "0 \<le> M" "M \<le> type_max U"

sublocale counter \<subseteq> plain: unwrapper "Unwrap U" "unwrapper_at (c * (type_max U + 1))" "type_max U + 1"
    "c * (type_max U + 1)" "\<lambda>x. 0 \<le> x + c * (type_max U + 1) \<and> x + c * (type_max U + 1) < 2 ^ 62"
  for c
proof
  fix x y s
  let ?m = "type_max U + 1"
  let ?c = "c * ?m"
  assume at: "unwrapper_at ?c x s" and x: "0 \<le> x + ?c \<and> x + ?c < 2 ^ 62" and y: "0 \<le> y + ?c \<and> y + ?c < 2 ^ 62"
    and near: "2 * \<bar>y - x\<bar> < ?m"
  have s: "s = \<lparr>last_value = Some (x + ?c)\<rparr>" using at by (simp add: unwrapper_at_def)
  have "(y + ?c) mod ?m = y mod ?m" by simp
  with UnwrapWithoutUpdate_position [OF narrow, of "y + ?c" "x + ?c"] x y near
  have "UnwrapWithoutUpdate U s (y mod ?m) = Inr (y + ?c)" by (simp add: s)
  then show "returns (Unwrap U s (y mod ?m)) (\<lambda>(r, s'). r = y + ?c \<and> unwrapper_at ?c y s')"
    by (simp add: Unwrap_def UpdateLast_def unwrapper_at_def)
qed

sublocale counter \<subseteq> seq: unwrapper "SeqNum_Unwrap d U M" "seq_unwrapper_at U M c" "wrap_at U M" c
    "\<lambda>x. \<bar>x + c\<bar> < 2 ^ 62"
  for d c
proof
  fix x y s
  assume "seq_unwrapper_at U M c x s" "\<bar>x + c\<bar> < 2 ^ 62" "\<bar>y + c\<bar> < 2 ^ 62" "2 * \<bar>y - x\<bar> < wrap_at U M"
  then show "returns (SeqNum_Unwrap d U M s (y mod wrap_at U M)) (\<lambda>(r, s'). r = y + c \<and> seq_unwrapper_at U M c y s')"
    by (simp add: seq_unwrapper_at_def SeqNum_Unwrap_position [OF narrow modulus])
qed

context counter
begin

text \<open>From the initial state: the first value is taken as it is, the others follow.\<close>

lemma plain_stream:
  assumes "slow (type_max U + 1) x xs" "\<forall>y \<in> set (x # xs). 0 \<le> y - x div (type_max U + 1) * (type_max U + 1) \<and>
      y - x div (type_max U + 1) * (type_max U + 1) < 2 ^ 62"
  shows "returns (unwrap_all (Unwrap U) \<lparr>last_value = None\<rparr> (map (\<lambda>y. y mod (type_max U + 1)) (x # xs)))
      (\<lambda>(rs, s'). rs = map (\<lambda>y. y - x div (type_max U + 1) * (type_max U + 1)) (x # xs))"
proof -
  let ?m = "type_max U + 1"
  let ?c = "- (x div ?m) * ?m"
  have first: "Unwrap U \<lparr>last_value = None\<rparr> (x mod ?m) = Inr (x mod ?m, \<lparr>last_value = Some (x + ?c)\<rparr>)"
    by (simp add: Unwrap_def UnwrapWithoutUpdate_def UpdateLast_def minus_div_mult_eq_mod)
  have "returns (unwrap_all (Unwrap U) \<lparr>last_value = Some (x + ?c)\<rparr> (map (\<lambda>y. y mod ?m) xs))
      (\<lambda>(rs, s'). rs = map (\<lambda>y. y + ?c) xs)"
    using assms by (intro plain.unwrap_all_law) (auto simp: unwrapper_at_def)
  then show ?thesis
    using first by (auto simp: minus_div_mult_eq_mod elim!: returnsE)
qed

lemma seq_stream:
  assumes "slow (wrap_at U M) x xs" "\<forall>y \<in> set (x # xs). \<bar>y - x div wrap_at U M * wrap_at U M\<bar> < 2 ^ 62"
  shows "returns (unwrap_all (SeqNum_Unwrap d U M) SeqNumUnwrapper_new (map (\<lambda>y. y mod wrap_at U M) (x # xs)))
      (\<lambda>(rs, s'). rs = map (\<lambda>y. y - x div wrap_at U M * wrap_at U M) (x # xs))"
proof -
  let ?m = "wrap_at U M"
  let ?c = "- (x div ?m) * ?m"
  let ?s = "\<lparr>seq_last_unwrapped = x + ?c, seq_last_value = Some (x mod ?m)\<rparr>"
  have first: "SeqNum_Unwrap d U M SeqNumUnwrapper_new (x mod ?m) = Inr (x mod ?m, ?s)"
    by (simp add: SeqNum_Unwrap_def SeqNumUnwrapper_new_def minus_div_mult_eq_mod)
  have "returns (unwrap_all (SeqNum_Unwrap d U M) ?s (map (\<lambda>y. y mod ?m) xs)) (\<lambda>(rs, s'). rs = map (\<lambda>y. y + ?c) xs)"
    using assms by (intro seq.unwrap_all_law) (auto simp: seq_unwrapper_at_def)
  then show ?thesis
    using first by (auto simp: minus_div_mult_eq_mod elim!: returnsE)
qed

end

interpretation SequenceNumberUnwrapper: counter Uint16 0
  by standard (simp_all add: narrow_def)

interpretation TimestampUnwrapper: counter Uint32 0
  by standard (simp_all add: narrow_def)

section \<open>The theorems\<close>

text \<open>
  (C26) Unwrapping recovers the stream.  Of positions that move by less than half a turn at a time,
  forwards or backwards, each unwrapper sees only the values modulo the turn and returns the
  positions themselves, counted from the turn of the first; for the unwrapper that never goes
  below zero, as long as the positions do not either.  16-bit sequence numbers and 32-bit time
  stamps are the two instances the headers name, and for an arbitrary modulus the same holds for
  the sequence number unwrapper.
\<close>

theorem unwrap_recovers:
  "(slow 65536 x xs \<longrightarrow>
      (\<forall>y \<in> set (x # xs). 0 \<le> y - x div 65536 * 65536 \<and> y - x div 65536 * 65536 < 2 ^ 62) \<longrightarrow>
      returns (unwrap_all (Unwrap Uint16) \<lparr>last_value = None\<rparr> (map (\<lambda>y. y mod 65536) (x # xs)))
        (\<lambda>(rs, s'). rs = map (\<lambda>y. y - x div 65536 * 65536) (x # xs))) \<and>
   (slow 4294967296 x xs \<longrightarrow>
      (\<forall>y \<in> set (x # xs). 0 \<le> y - x div 4294967296 * 4294967296 \<and> y - x div 4294967296 * 4294967296 < 2 ^ 62) \<longrightarrow>
      returns (unwrap_all (Unwrap Uint32) \<lparr>last_value = None\<rparr> (map (\<lambda>y. y mod 4294967296) (x # xs)))
        (\<lambda>(rs, s'). rs = map (\<lambda>y. y - x div 4294967296 * 4294967296) (x # xs))) \<and>
   (narrow T \<longrightarrow> 0 \<le> M \<longrightarrow> M \<le> type_max T \<longrightarrow> slow (wrap_at T M) x xs \<longrightarrow>
      (\<forall>y \<in> set (x # xs). \<bar>y - x div wrap_at T M * wrap_at T M\<bar> < 2 ^ 62) \<longrightarrow>
      returns (unwrap_all (SeqNum_Unwrap d T M) SeqNumUnwrapper_new (map (\<lambda>y. y mod wrap_at T M) (x # xs)))
        (\<lambda>(rs, s'). rs = map (\<lambda>y. y - x div wrap_at T M * wrap_at T M) (x # xs)))"
  using SequenceNumberUnwrapper.plain_stream [of x xs] TimestampUnwrapper.plain_stream [of x xs]
    counter.seq_stream [OF counter.intro, of T M x xs d]
  by simp_all

end
