(* ===== verification/Rtc_Buffer.thy ===== *)
theory Rtc_Buffer
  imports Rtc_Numeric
begin

text \<open>
  \<^verbatim>\<open>rtc::BufferT\<close> of \<^verbatim>\<open>rtc_base/buffer.h\<close>: a growing array over a
  heap block.

  A heap block is a list of cells, a cell without a value is uninitialised memory, and a null
  pointer is \<^const>\<open>None\<close>.  Copies are checked against the block they go to: one that leaves
  it is \<^const>\<open>Undefined\<close> (a copy of no elements is not, whatever the pointers).  Sizes
  are natural numbers whose sums wrap at 64 bits, as those of \<^verbatim>\<open>size_t\<close> do.
  \<open>buf_released\<close> is a history variable: the blocks the buffer gave back to the heap, in the state
  they had then; it is what the parameter \<^verbatim>\<open>ZeroOnFree\<close> (\<open>zof\<close>) is about.
  Allocation is assumed to succeed, and the source of a copy is given by its contents, so it never
  overlaps the buffer itself.  The overloads for arrays and containers only forward to the
  modelled ones.
\<close>

section \<open>Memory\<close>

type_synonym 'a block = "'a option list"

definition write_block :: "'b list \<Rightarrow> nat \<Rightarrow> 'b list \<Rightarrow> 'b list" where
  "write_block blk off xs = take off blk @ xs @ drop (off + length xs) blk"

definition memcpy_to :: "'a block option \<Rightarrow> nat \<Rightarrow> 'a block \<Rightarrow> 'a block option checked" where
  "memcpy_to p off xs =
     (case p of
        None \<Rightarrow> if xs = [] then Inr None else Inl Undefined
      | Some blk \<Rightarrow> if off + length xs \<le> length blk then Inr (Some (write_block blk off xs))
                   else Inl Undefined)"

definition memcpy_from :: "'a block option \<Rightarrow> nat \<Rightarrow> 'a block checked" where
  "memcpy_from p n =
     (case p of
        None \<Rightarrow> if n = 0 then Inr [] else Inl Undefined
      | Some blk \<Rightarrow> if n \<le> length blk then Inr (take n blk) else Inl Undefined)"

definition ExplicitZeroMemory :: "'a::zero block option \<Rightarrow> nat \<Rightarrow> nat \<Rightarrow> 'a block option checked" where
  "ExplicitZeroMemory p off n = memcpy_to p off (replicate n (Some 0))"

lemma length_write_block [simp]:
  "off + length xs \<le> length blk \<Longrightarrow> length (write_block blk off xs) = length blk"
  by (simp add: write_block_def)

lemma take_write_block:
  "off + length xs \<le> length blk \<Longrightarrow> take off (write_block blk off xs) = take off blk"
  "off + length xs \<le> length blk \<Longrightarrow> take (off + length xs) (write_block blk off xs) = take off blk @ xs"
  by (simp_all add: write_block_def)

section \<open>The buffer\<close>

record 'a BufferT =
  buf_size :: nat
  buf_capacity :: nat
  buf_data :: "'a block option"
  buf_released :: "'a block list"

definition IsConsistent :: "'a BufferT \<Rightarrow> bool" where
  "IsConsistent b \<longleftrightarrow> (buf_data b \<noteq> None \<or> buf_capacity b = 0) \<and> buf_size b \<le> buf_capacity b"

definition BufferT_new :: "'a BufferT" where
  "BufferT_new = \<lparr>buf_size = 0, buf_capacity = 0, buf_data = None, buf_released = []\<rparr>"

definition BufferT_sized :: "nat \<Rightarrow> nat \<Rightarrow> 'a BufferT" where
  "BufferT_sized sz cap =
     (let c = max sz cap in
      \<lparr>buf_size = sz, buf_capacity = c,
       buf_data = (if 0 < c then Some (replicate c None) else None), buf_released = []\<rparr>)"

definition BufferT_copy :: "'a list \<Rightarrow> nat \<Rightarrow> 'a BufferT checked" where
  "BufferT_copy xs cap =
     (let b = BufferT_sized (length xs) cap in
      rbind (memcpy_to (buf_data b) 0 (map Some xs)) (\<lambda>p. Inr (b\<lparr>buf_data := p\<rparr>)))"

definition MaybeZeroCompleteBuffer :: "bool \<Rightarrow> 'a::zero BufferT \<Rightarrow> 'a BufferT checked" where
  "MaybeZeroCompleteBuffer zof b =
     (if zof \<and> 0 < buf_capacity b
      then rbind (ExplicitZeroMemory (buf_data b) 0 (buf_capacity b)) (\<lambda>p. Inr (b\<lparr>buf_data := p\<rparr>))
      else Inr b)"

text \<open>Resetting or replacing the owning pointer gives its block, if it has one, back to the heap.\<close>

definition release_block :: "'a block option \<Rightarrow> 'a BufferT \<Rightarrow> 'a BufferT" where
  "release_block p b =
     (case p of None \<Rightarrow> b | Some blk \<Rightarrow> b\<lparr>buf_released := buf_released b @ [blk]\<rparr>)"

definition BufferT_delete :: "bool \<Rightarrow> 'a::zero BufferT \<Rightarrow> 'a BufferT checked" where
  "BufferT_delete zof b =
     rbind (MaybeZeroCompleteBuffer zof b) (\<lambda>b.
     Inr (release_block (buf_data b) b\<lparr>buf_data := None\<rparr>))"

definition OnMovedFrom :: "bool \<Rightarrow> 'a BufferT \<Rightarrow> 'a BufferT checked" where
  "OnMovedFrom d b =
     rbind (RTC_DCHECK d (buf_data b = None)) (\<lambda>_.
     Inr (b\<lparr>buf_size := (if d then 1 else 0), buf_capacity := 0\<rparr>))"

definition BufferT_move_new :: "bool \<Rightarrow> 'a BufferT \<Rightarrow> ('a BufferT \<times> 'a BufferT) checked" where
  "BufferT_move_new d buf =
     rbind (RTC_DCHECK d (IsConsistent buf)) (\<lambda>_.
     let b = \<lparr>buf_size = buf_size buf, buf_capacity = buf_capacity buf, buf_data = buf_data buf,
              buf_released = []\<rparr> in
     rbind (RTC_DCHECK d (IsConsistent b)) (\<lambda>_.
     rbind (OnMovedFrom d (buf\<lparr>buf_data := None\<rparr>)) (\<lambda>buf'. Inr (b, buf'))))"

definition BufferT_move_assign ::
    "bool \<Rightarrow> bool \<Rightarrow> 'a::zero BufferT \<Rightarrow> 'a BufferT \<Rightarrow> ('a BufferT \<times> 'a BufferT) checked" where
  "BufferT_move_assign d zof b buf =
     rbind (RTC_DCHECK d (IsConsistent buf)) (\<lambda>_.
     rbind (MaybeZeroCompleteBuffer zof b) (\<lambda>b.
     let b' = b\<lparr>buf_size := buf_size buf, buf_capacity := buf_capacity buf, buf_data := buf_data buf\<rparr>;
         buf' = release_block (buf_data b) buf\<lparr>buf_data := None\<rparr> in
     rbind (OnMovedFrom d buf') (\<lambda>buf'. Inr (b', buf'))))"

definition buffer_empty :: "bool \<Rightarrow> 'a BufferT \<Rightarrow> bool checked" where
  "buffer_empty d b = rbind (RTC_DCHECK d (IsConsistent b)) (\<lambda>_. Inr (buf_size b = 0))"

definition buffer_size :: "bool \<Rightarrow> 'a BufferT \<Rightarrow> nat checked" where
  "buffer_size d b = rbind (RTC_DCHECK d (IsConsistent b)) (\<lambda>_. Inr (buf_size b))"

definition buffer_capacity :: "bool \<Rightarrow> 'a BufferT \<Rightarrow> nat checked" where
  "buffer_capacity d b = rbind (RTC_DCHECK d (IsConsistent b)) (\<lambda>_. Inr (buf_capacity b))"

text \<open>Reading a cell: outside the block, or before it was written, the read is undefined.\<close>

definition read_cell :: "'a block option \<Rightarrow> nat \<Rightarrow> 'a checked" where
  "read_cell p i =
     (case p of
        None \<Rightarrow> Inl Undefined
      | Some blk \<Rightarrow> if i < length blk
          then (case blk ! i of Some x \<Rightarrow> Inr x | None \<Rightarrow> Inl Undefined) else Inl Undefined)"

definition buffer_get :: "bool \<Rightarrow> 'a BufferT \<Rightarrow> nat \<Rightarrow> 'a checked" where
  "buffer_get d b i =
     rbind (RTC_DCHECK d (i < buf_size b)) (\<lambda>_.
     rbind (RTC_DCHECK d (IsConsistent b)) (\<lambda>_. read_cell (buf_data b) i))"

definition buffer_put :: "bool \<Rightarrow> 'a BufferT \<Rightarrow> nat \<Rightarrow> 'a \<Rightarrow> 'a BufferT checked" where
  "buffer_put d b i x =
     rbind (RTC_DCHECK d (i < buf_size b)) (\<lambda>_.
     rbind (RTC_DCHECK d (IsConsistent b)) (\<lambda>_.
     rbind (memcpy_to (buf_data b) i [Some x]) (\<lambda>p. Inr (b\<lparr>buf_data := p\<rparr>))))"

fun compare_loop :: "'a BufferT \<Rightarrow> 'a BufferT \<Rightarrow> nat list \<Rightarrow> bool checked" where
  "compare_loop b buf [] = Inr True"
| "compare_loop b buf (i # is) =
     rbind (read_cell (buf_data b) i) (\<lambda>x. rbind (read_cell (buf_data buf) i) (\<lambda>y.
     if x \<noteq> y then Inr False else compare_loop b buf is))"

definition buffer_eq :: "bool \<Rightarrow> 'a BufferT \<Rightarrow> 'a BufferT \<Rightarrow> bool checked" where
  "buffer_eq d b buf =
     rbind (RTC_DCHECK d (IsConsistent b)) (\<lambda>_.
     if buf_size b \<noteq> buf_size buf then Inr False else compare_loop b buf [0..<buf_size b])"

definition EnsureCapacityWithHeadroom :: "bool \<Rightarrow> bool \<Rightarrow> nat \<Rightarrow> bool \<Rightarrow> 'a::zero BufferT \<Rightarrow> 'a BufferT checked" where
  "EnsureCapacityWithHeadroom d zof cap extra_headroom b =
     rbind (RTC_DCHECK d (IsConsistent b)) (\<lambda>_.
     if cap \<le> buf_capacity b then Inr b
     else
       let new_capacity =
             (if extra_headroom then max cap (size_t_add (buf_capacity b) (buf_capacity b div 2)) else cap) in
       rbind (memcpy_from (buf_data b) (buf_size b)) (\<lambda>old.
       rbind (memcpy_to (Some (replicate new_capacity None)) 0 old) (\<lambda>new_data.
       rbind (MaybeZeroCompleteBuffer zof b) (\<lambda>b.
       let b' = release_block (buf_data b) b\<lparr>buf_data := new_data, buf_capacity := new_capacity\<rparr> in
       rbind (RTC_DCHECK d (IsConsistent b')) (\<lambda>_. Inr b')))))"

definition ZeroTrailingData :: "bool \<Rightarrow> nat \<Rightarrow> 'a::zero BufferT \<Rightarrow> 'a BufferT checked" where
  "ZeroTrailingData d count b =
     rbind (RTC_DCHECK d (IsConsistent b)) (\<lambda>_.
     rbind (RTC_DCHECK d (count \<le> buf_capacity b - buf_size b)) (\<lambda>_.
     rbind (ExplicitZeroMemory (buf_data b) (buf_size b) count) (\<lambda>p. Inr (b\<lparr>buf_data := p\<rparr>))))"

definition zero_if_shrunk :: "bool \<Rightarrow> bool \<Rightarrow> nat \<Rightarrow> 'a::zero BufferT \<Rightarrow> 'a BufferT checked" where
  "zero_if_shrunk d zof old_size b =
     (if zof \<and> buf_size b < old_size then ZeroTrailingData d (old_size - buf_size b) b else Inr b)"

definition SetSize :: "bool \<Rightarrow> bool \<Rightarrow> nat \<Rightarrow> 'a::zero BufferT \<Rightarrow> 'a BufferT checked" where
  "SetSize d zof sz b =
     (let old_size = buf_size b in
      rbind (EnsureCapacityWithHeadroom d zof sz True b) (\<lambda>b.
      zero_if_shrunk d zof old_size (b\<lparr>buf_size := sz\<rparr>)))"

definition EnsureCapacity :: "bool \<Rightarrow> bool \<Rightarrow> nat \<Rightarrow> 'a::zero BufferT \<Rightarrow> 'a BufferT checked" where
  "EnsureCapacity d zof cap b = EnsureCapacityWithHeadroom d zof cap False b"

definition AppendData :: "bool \<Rightarrow> bool \<Rightarrow> 'a list \<Rightarrow> 'a::zero BufferT \<Rightarrow> 'a BufferT checked" where
  "AppendData d zof xs b =
     rbind (RTC_DCHECK d (IsConsistent b)) (\<lambda>_.
     let new_size = size_t_add (buf_size b) (length xs) in
     rbind (EnsureCapacityWithHeadroom d zof new_size True b) (\<lambda>b.
     rbind (memcpy_to (buf_data b) (buf_size b) (map Some xs)) (\<lambda>p.
     let b' = b\<lparr>buf_data := p, buf_size := new_size\<rparr> in
     rbind (RTC_DCHECK d (IsConsistent b')) (\<lambda>_. Inr b'))))"

text \<open>
  A setter writes into a view of exactly the requested length and returns the number of elements
  it wrote; it is an argument.
\<close>

definition AppendData_setter ::
    "bool \<Rightarrow> bool \<Rightarrow> nat \<Rightarrow> ('a block \<Rightarrow> 'a block \<times> nat) \<Rightarrow> 'a::zero BufferT \<Rightarrow> (nat \<times> 'a BufferT) checked" where
  "AppendData_setter d zof max_elements setter b =
     rbind (RTC_DCHECK d (IsConsistent b)) (\<lambda>_.
     let old_size = buf_size b in
     rbind (SetSize d zof (size_t_add old_size max_elements) b) (\<lambda>b.
     rbind (memcpy_from (map_option (drop old_size) (buf_data b)) max_elements) (\<lambda>view.
     let (view', written_elements) = setter view in
     rbind (memcpy_to (buf_data b) old_size view') (\<lambda>p.
     rbind (RTC_CHECK (written_elements \<le> max_elements)) (\<lambda>_.
     let b' = b\<lparr>buf_data := p, buf_size := size_t_add old_size written_elements\<rparr> in
     rbind (RTC_DCHECK d (IsConsistent b')) (\<lambda>_. Inr (written_elements, b')))))))"

definition SetData :: "bool \<Rightarrow> bool \<Rightarrow> 'a list \<Rightarrow> 'a::zero BufferT \<Rightarrow> 'a BufferT checked" where
  "SetData d zof xs b =
     rbind (RTC_DCHECK d (IsConsistent b)) (\<lambda>_.
     let old_size = buf_size b in
     rbind (AppendData d zof xs (b\<lparr>buf_size := 0\<rparr>)) (zero_if_shrunk d zof old_size))"

definition SetData_setter ::
    "bool \<Rightarrow> bool \<Rightarrow> nat \<Rightarrow> ('a block \<Rightarrow> 'a block \<times> nat) \<Rightarrow> 'a::zero BufferT \<Rightarrow> (nat \<times> 'a BufferT) checked" where
  "SetData_setter d zof max_elements setter b =
     rbind (RTC_DCHECK d (IsConsistent b)) (\<lambda>_.
     let old_size = buf_size b in
     rbind (AppendData_setter d zof max_elements setter (b\<lparr>buf_size := 0\<rparr>)) (\<lambda>(written, b).
     rbind (zero_if_shrunk d zof old_size b) (\<lambda>b. Inr (written, b))))"

definition Clear :: "bool \<Rightarrow> bool \<Rightarrow> 'a::zero BufferT \<Rightarrow> 'a BufferT checked" where
  "Clear d zof b =
     rbind (MaybeZeroCompleteBuffer zof b) (\<lambda>b.
     let b' = b\<lparr>buf_size := 0\<rparr> in
     rbind (RTC_DCHECK d (IsConsistent b')) (\<lambda>_. Inr b'))"

definition buffer_swap :: "'a BufferT \<Rightarrow> 'a BufferT \<Rightarrow> 'a BufferT \<times> 'a BufferT" where
  "buffer_swap a b =
     (a\<lparr>buf_size := buf_size b, buf_capacity := buf_capacity b, buf_data := buf_data b\<rparr>,
      b\<lparr>buf_size := buf_size a, buf_capacity := buf_capacity a, buf_data := buf_data a\<rparr>)"

section \<open>The representation invariant\<close>

text \<open>
  The block has exactly \<^verbatim>\<open>capacity_\<close> cells; the contents are its first \<^verbatim>\<open>size_\<close> cells.
\<close>

definition cells :: "'a BufferT \<Rightarrow> 'a block" where
  "cells b = (case buf_data b of None \<Rightarrow> [] | Some blk \<Rightarrow> blk)"

definition contents :: "'a BufferT \<Rightarrow> 'a block" where
  "contents b = take (buf_size b) (cells b)"

definition buffer_inv :: "'a BufferT \<Rightarrow> bool" where
  "buffer_inv b \<longleftrightarrow> length (cells b) = buf_capacity b \<and> buf_size b \<le> buf_capacity b"

lemma buffer_inv_consistent [simp]: "buffer_inv b \<Longrightarrow> IsConsistent b"
  by (auto simp: buffer_inv_def IsConsistent_def cells_def split: option.splits)

lemma cells_update [simp]:
  "cells (b\<lparr>buf_size := n\<rparr>) = cells b" "cells (b\<lparr>buf_capacity := n\<rparr>) = cells b"
  "cells (b\<lparr>buf_data := p\<rparr>) = (case p of None \<Rightarrow> [] | Some blk \<Rightarrow> blk)"
  "cells (b\<lparr>buf_released := rs\<rparr>) = cells b"
  by (simp_all add: cells_def)

lemma cells_cong: "buf_data b = buf_data b' \<Longrightarrow> cells b = cells b'"
  by (simp add: cells_def)

lemma length_contents: "buffer_inv b \<Longrightarrow> length (contents b) = buf_size b"
  by (simp add: buffer_inv_def contents_def)

lemma returns_memcpy_to:
  assumes "off + length xs \<le> length (cells b)"
    and "\<And>p. (case p of None \<Rightarrow> [] | Some blk \<Rightarrow> blk) = write_block (cells b) off xs \<Longrightarrow> P p"
  shows "returns (memcpy_to (buf_data b) off xs) P"
  using assms by (cases "buf_data b") (auto simp: memcpy_to_def cells_def write_block_def)

lemma returns_memcpy_from:
  assumes "n \<le> length (cells b)" "P (take n (cells b))"
  shows "returns (memcpy_from (buf_data b) n) P"
  using assms by (cases "buf_data b") (auto simp: memcpy_from_def cells_def)

text \<open>Every block given back was zeroed before, if the buffer has \<^verbatim>\<open>ZeroOnFree\<close>.\<close>

definition zeroed :: "bool \<Rightarrow> 'a::zero BufferT \<Rightarrow> bool" where
  "zeroed zof b \<longleftrightarrow> (zof \<longrightarrow> (\<forall>blk \<in> set (buf_released b). \<forall>c \<in> set blk. c = Some 0))"

lemma zeroed_cong: "buf_released b' = buf_released b \<Longrightarrow> zeroed zof b' = zeroed zof b"
  by (simp add: zeroed_def)

lemma zeroed_update [simp]:
  "zeroed zof (b\<lparr>buf_size := n\<rparr>) = zeroed zof b" "zeroed zof (b\<lparr>buf_capacity := n\<rparr>) = zeroed zof b"
  "zeroed zof (b\<lparr>buf_data := p\<rparr>) = zeroed zof b"
  by (simp_all add: zeroed_def)

lemma release_block_simps [simp]:
  "buf_size (release_block p b) = buf_size b" "buf_capacity (release_block p b) = buf_capacity b"
  "buf_data (release_block p b) = buf_data b" "cells (release_block p b) = cells b"
  by (simp_all add: release_block_def cells_def split: option.split)

lemma zeroed_release_block [simp]:
  "zeroed zof (release_block p b) \<longleftrightarrow>
     zeroed zof b \<and> (zof \<longrightarrow> (\<forall>blk. p = Some blk \<longrightarrow> (\<forall>c \<in> set blk. c = Some 0)))"
  by (auto simp: zeroed_def release_block_def split: option.splits)

lemma MaybeZero_returns:
  assumes "length (cells b) = buf_capacity b"
  shows "returns (MaybeZeroCompleteBuffer zof b) (\<lambda>b'. \<exists>p. b' = b\<lparr>buf_data := p\<rparr> \<and>
      length (cells b') = buf_capacity b \<and> (zof \<longrightarrow> (\<forall>c \<in> set (cells b'). c = Some 0)) \<and>
      (\<not> zof \<longrightarrow> b' = b))"
proof (cases "zof \<and> 0 < buf_capacity b")
  case True
  let ?z = "replicate (buf_capacity b) (Some 0)"
  have w: "write_block (cells b) 0 ?z = ?z" using assms by (simp add: write_block_def)
  have "returns (ExplicitZeroMemory (buf_data b) 0 (buf_capacity b))
     (\<lambda>p. (case p of None \<Rightarrow> [] | Some blk \<Rightarrow> blk) = ?z)"
    unfolding ExplicitZeroMemory_def using assms w by (intro returns_memcpy_to) auto
  then show ?thesis
    using True by (auto simp: MaybeZeroCompleteBuffer_def cells_def elim!: returns_mono)
next
  case False
  then show ?thesis
    using assms by (auto simp: MaybeZeroCompleteBuffer_def intro: exI [of _ "buf_data b"])
qed

section \<open>What the operations do\<close>

text \<open>The capacity after a request for \<open>cap\<close> elements.\<close>

definition grown :: "'a BufferT \<Rightarrow> nat \<Rightarrow> bool \<Rightarrow> nat" where
  "grown b cap extra_headroom =
     (if cap \<le> buf_capacity b then buf_capacity b
      else if extra_headroom then max cap (size_t_add (buf_capacity b) (buf_capacity b div 2)) else cap)"

lemma grown_ge: "cap \<le> grown b cap h" "buf_capacity b \<le> grown b cap h"
  by (auto simp: grown_def)

lemma Ensure_returns:
  assumes inv: "buffer_inv b" and z: "zeroed zof b"
  shows "returns (EnsureCapacityWithHeadroom d zof cap h b) (\<lambda>b'. buffer_inv b' \<and>
      contents b' = contents b \<and> buf_size b' = buf_size b \<and> buf_capacity b' = grown b cap h \<and> zeroed zof b')"
proof (cases "cap \<le> buf_capacity b")
  case True
  with assms show ?thesis by (simp add: EnsureCapacityWithHeadroom_def grown_def)
next
  case False
  from inv have len: "length (cells b) = buf_capacity b" and sz: "buf_size b \<le> length (cells b)"
    by (simp_all add: buffer_inv_def)
  let ?n = "grown b cap h"
  let ?new = "write_block (replicate ?n None) 0 (contents b)"
  have n: "(if h then max cap (size_t_add (buf_capacity b) (buf_capacity b div 2)) else cap) = ?n"
    using False by (simp add: grown_def)
  have le: "length (contents b) \<le> ?n"
    using length_contents [OF inv] sz len grown_ge(2) [of b cap h] by simp
  have new: "length ?new = ?n" "take (buf_size b) ?new = contents b"
    using le length_contents [OF inv] by (simp_all add: write_block_def)
  have cp: "memcpy_from (buf_data b) (buf_size b) = Inr (contents b)"
    using sz by (auto simp: memcpy_from_def cells_def contents_def split: option.splits)
  have mc: "memcpy_to (Some (replicate ?n None)) 0 (contents b) = Inr (Some ?new)"
    using le by (simp add: memcpy_to_def)
  show ?thesis
    unfolding EnsureCapacityWithHeadroom_def Let_def n
    using False inv mc cp
    by (auto intro!: returns_mono [OF MaybeZero_returns [OF len]])
      (use new le z len sz grown_ge(2) [of b cap h] in
        \<open>auto simp: buffer_inv_def IsConsistent_def contents_def cells_def split: option.splits\<close>)
qed

lemma zero_if_shrunk_returns:
  assumes inv: "buffer_inv b" and z: "zeroed zof b" and old: "old \<le> buf_capacity b"
  shows "returns (zero_if_shrunk d zof old b) (\<lambda>b'. buffer_inv b' \<and> contents b' = contents b \<and>
      buf_size b' = buf_size b \<and> buf_capacity b' = buf_capacity b \<and> zeroed zof b' \<and>
      (zof \<longrightarrow> (\<forall>i. buf_size b \<le> i \<longrightarrow> i < old \<longrightarrow> cells b' ! i = Some 0)))"
proof (cases "zof \<and> buf_size b < old")
  case True
  let ?n = "old - buf_size b"
  let ?z = "replicate ?n (Some 0)"
  from inv True old have b: "buf_size b + length ?z \<le> length (cells b)" by (simp add: buffer_inv_def)
  have "returns (ExplicitZeroMemory (buf_data b) (buf_size b) ?n)
     (\<lambda>p. (case p of None \<Rightarrow> [] | Some blk \<Rightarrow> blk) = write_block (cells b) (buf_size b) ?z)"
    unfolding ExplicitZeroMemory_def using b by (intro returns_memcpy_to) auto
  then show ?thesis
    using True inv old z b unfolding zero_if_shrunk_def ZeroTrailingData_def
    by (auto simp: buffer_inv_def contents_def take_write_block
        write_block_def nth_append elim!: returns_mono)
next
  case False
  with assms show ?thesis by (auto simp: zero_if_shrunk_def)
qed

lemma AppendData_returns:
  assumes inv: "buffer_inv b" and z: "zeroed zof b" and small: "buf_size b + length xs < 2 ^ 64"
  shows "returns (AppendData d zof xs b) (\<lambda>b'. buffer_inv b' \<and> contents b' = contents b @ map Some xs \<and>
      buf_capacity b' = grown b (buf_size b + length xs) True \<and> zeroed zof b')"
proof -
  let ?n = "buf_size b + length xs"
  have step: "returns (memcpy_to (buf_data b1) (buf_size b) (map Some xs))
      (\<lambda>p. let b' = b1\<lparr>buf_data := p, buf_size := ?n\<rparr> in buffer_inv b' \<and> contents b' = contents b @ map Some xs \<and>
        buf_capacity b' = grown b ?n True \<and> zeroed zof b')"
    if "buffer_inv b1" "contents b1 = contents b" "buf_size b1 = buf_size b"
      "buf_capacity b1 = grown b ?n True" "zeroed zof b1" for b1
  proof (rule returns_memcpy_to)
    have cap: "?n \<le> length (cells b1)" using that grown_ge(1) [of ?n b True] by (simp add: buffer_inv_def)
    then show le: "buf_size b + length (map Some xs) \<le> length (cells b1)" using that by simp
    fix p :: "'a block option"
    assume "(case p of None \<Rightarrow> [] | Some blk \<Rightarrow> blk) = write_block (cells b1) (buf_size b) (map Some xs)"
    then show "let b' = b1\<lparr>buf_data := p, buf_size := ?n\<rparr> in buffer_inv b' \<and> contents b' = contents b @ map Some xs \<and>
        buf_capacity b' = grown b ?n True \<and> zeroed zof b'"
      using that le cap take_write_block(2) [OF le]
      by (simp add: Let_def buffer_inv_def contents_def)
  qed
  show ?thesis
    unfolding AppendData_def using small inv
    by (simp add: Let_def) (intro returns_mono [OF Ensure_returns [OF inv z]],
      auto intro!: returns_mono [OF step] simp: Let_def)
qed

lemma SetData_returns:
  assumes inv: "buffer_inv b" and z: "zeroed zof b" and small: "length xs < 2 ^ 64"
  shows "returns (SetData d zof xs b) (\<lambda>b'. buffer_inv b' \<and> contents b' = map Some xs \<and>
      buf_capacity b' = grown b (length xs) True \<and> zeroed zof b' \<and>
      (zof \<longrightarrow> (\<forall>i. length xs \<le> i \<longrightarrow> i < buf_size b \<longrightarrow> cells b' ! i = Some 0)))"
proof -
  let ?b = "b\<lparr>buf_size := 0\<rparr>"
  have inv': "buffer_inv ?b" "zeroed zof ?b" "buf_size ?b + length xs < 2 ^ 64"
    using assms by (simp_all add: buffer_inv_def)
  have "returns (AppendData d zof xs ?b) (\<lambda>b'. returns (zero_if_shrunk d zof (buf_size b) b')
      (\<lambda>b'. buffer_inv b' \<and> contents b' = map Some xs \<and> buf_capacity b' = grown b (length xs) True \<and> zeroed zof b' \<and>
      (zof \<longrightarrow> (\<forall>i. length xs \<le> i \<longrightarrow> i < buf_size b \<longrightarrow> cells b' ! i = Some 0))))"
  proof (rule returns_mono [OF AppendData_returns [OF inv']])
    fix b1 :: "'a BufferT"
    assume b1: "buffer_inv b1 \<and> contents b1 = contents ?b @ map Some xs \<and>
      buf_capacity b1 = grown ?b (buf_size ?b + length xs) True \<and> zeroed zof b1"
    then have c: "contents b1 = map Some xs" "buf_capacity b1 = grown b (length xs) True"
      by (simp_all add: contents_def grown_def)
    then have "buf_size b1 = length xs" using b1 length_contents [of b1] by simp
    moreover have "buf_size b \<le> buf_capacity b1" using inv c(2) grown_ge(2) [of b "length xs" True] by (simp add: buffer_inv_def)
    ultimately show "returns (zero_if_shrunk d zof (buf_size b) b1) (\<lambda>b'. buffer_inv b' \<and> contents b' = map Some xs \<and>
        buf_capacity b' = grown b (length xs) True \<and> zeroed zof b' \<and>
      (zof \<longrightarrow> (\<forall>i. length xs \<le> i \<longrightarrow> i < buf_size b \<longrightarrow> cells b' ! i = Some 0)))"
      using b1 c by (auto intro!: returns_mono [OF zero_if_shrunk_returns])
  qed
  then show ?thesis using inv by (simp add: SetData_def Let_def)
qed

lemma SetSize_returns:
  assumes inv: "buffer_inv b" and z: "zeroed zof b"
  shows "returns (SetSize d zof n b) (\<lambda>b'. buffer_inv b' \<and> buf_size b' = n \<and>
      take (min n (buf_size b)) (contents b') = take n (contents b) \<and>
      buf_capacity b' = grown b n True \<and> zeroed zof b')"
proof -
  have "returns (EnsureCapacityWithHeadroom d zof n True b)
     (\<lambda>b1. returns (zero_if_shrunk d zof (buf_size b) (b1\<lparr>buf_size := n\<rparr>)) (\<lambda>b'. buffer_inv b' \<and> buf_size b' = n \<and>
      take (min n (buf_size b)) (contents b') = take n (contents b) \<and>
      buf_capacity b' = grown b n True \<and> zeroed zof b'))"
  proof (rule returns_mono [OF Ensure_returns [OF assms]])
    fix b1 :: "'a BufferT"
    assume b1: "buffer_inv b1 \<and> contents b1 = contents b \<and> buf_size b1 = buf_size b \<and>
      buf_capacity b1 = grown b n True \<and> zeroed zof b1"
    then have "buffer_inv (b1\<lparr>buf_size := n\<rparr>)" "zeroed zof (b1\<lparr>buf_size := n\<rparr>)"
      "buf_size b \<le> buf_capacity (b1\<lparr>buf_size := n\<rparr>)"
      using grown_ge(1) [of n b True] by (auto simp: buffer_inv_def)
    moreover have "take (min n (buf_size b)) (contents (b1\<lparr>buf_size := n\<rparr>)) = take n (contents b)"
    proof -
      from b1 have "contents b = take (buf_size b) (cells b1)" by (metis contents_def)
      then show ?thesis by (simp add: contents_def min.commute min.left_commute)
    qed
    ultimately show "returns (zero_if_shrunk d zof (buf_size b) (b1\<lparr>buf_size := n\<rparr>)) (\<lambda>b'. buffer_inv b' \<and> buf_size b' = n \<and>
      take (min n (buf_size b)) (contents b') = take n (contents b) \<and>
      buf_capacity b' = grown b n True \<and> zeroed zof b')"
      using b1 by (auto intro!: returns_mono [OF zero_if_shrunk_returns])
  qed
  then show ?thesis by (simp add: SetSize_def Let_def)
qed

lemma Clear_returns:
  assumes "buffer_inv b" "zeroed zof b"
  shows "returns (Clear d zof b) (\<lambda>b'. buffer_inv b' \<and> contents b' = [] \<and>
      buf_capacity b' = buf_capacity b \<and> zeroed zof b' \<and> (zof \<longrightarrow> (\<forall>c \<in> set (cells b'). c = Some 0)))"
proof -
  from assms have len: "length (cells b) = buf_capacity b" by (simp add: buffer_inv_def)
  show ?thesis
    unfolding Clear_def Let_def
    using assms by (auto intro!: returns_mono [OF MaybeZero_returns [OF len]]
        simp: buffer_inv_def contents_def IsConsistent_def cells_def split: option.splits)
qed

lemma delete_returns:
  assumes "buffer_inv b" "zeroed zof b"
  shows "returns (BufferT_delete zof b) (zeroed zof)"
proof -
  from assms have len: "length (cells b) = buf_capacity b" by (simp add: buffer_inv_def)
  show ?thesis
    unfolding BufferT_delete_def
    using assms by (auto intro!: returns_mono [OF MaybeZero_returns [OF len]] simp: cells_def split: option.splits)
qed

lemma AppendData_setter_returns:
  assumes inv: "buffer_inv b" and z: "zeroed zof b" and small: "buf_size b + n < 2 ^ 64"
    and setter: "\<And>v. length v = n \<Longrightarrow> length (fst (setter v)) = n \<and> snd (setter v) \<le> n"
  shows "returns (AppendData_setter d zof n setter b) (\<lambda>(w, b'). buffer_inv b' \<and> zeroed zof b' \<and>
      w \<le> n \<and> (\<exists>v. length v = n \<and> w = snd (setter v) \<and> contents b' = contents b @ take w (fst (setter v))))"
proof -
  have "returns (SetSize d zof (buf_size b + n) b) (\<lambda>b1.
      returns (memcpy_from (map_option (drop (buf_size b)) (buf_data b1)) n) (\<lambda>view.
      returns (memcpy_to (buf_data b1) (buf_size b) (fst (setter view))) (\<lambda>p.
      snd (setter view) \<le> n \<and>
      (let b' = b1\<lparr>buf_data := p, buf_size := size_t_add (buf_size b) (snd (setter view))\<rparr> in
       (d \<longrightarrow> IsConsistent b') \<and> buffer_inv b' \<and> zeroed zof b' \<and>
       (\<exists>v. length v = n \<and> snd (setter view) = snd (setter v) \<and>
          contents b' = contents b @ take (snd (setter view)) (fst (setter v)))))))"
    (is "returns _ ?Q")
  proof (rule returns_mono [OF SetSize_returns [OF inv z]])
    fix b1 :: "'a BufferT"
    assume b1: "buffer_inv b1 \<and> buf_size b1 = buf_size b + n \<and>
      take (min (buf_size b + n) (buf_size b)) (contents b1) = take (buf_size b + n) (contents b) \<and>
      buf_capacity b1 = grown b (buf_size b + n) True \<and> zeroed zof b1"
    then have len: "buf_size b + n \<le> length (cells b1)" by (simp add: buffer_inv_def)
    let ?v = "take n (drop (buf_size b) (cells b1))"
    have v: "length ?v = n" using len by simp
    have from_view: "memcpy_from (map_option (drop (buf_size b)) (buf_data b1)) n = Inr ?v"
      using len by (auto simp: memcpy_from_def cells_def split: option.splits)
    have "take (buf_size b) (contents b1) = contents b"
      using b1 length_contents [OF inv] by simp
    then have old: "take (buf_size b) (cells b1) = contents b"
      using b1 by (simp add: contents_def [of b1])
    have le: "buf_size b + length (fst (setter ?v)) \<le> length (cells b1)"
      and w: "snd (setter ?v) \<le> n" using setter [OF v] len by simp_all
    have "returns (memcpy_to (buf_data b1) (buf_size b) (fst (setter ?v))) (\<lambda>p.
      (let b' = b1\<lparr>buf_data := p, buf_size := size_t_add (buf_size b) (snd (setter ?v))\<rparr> in
        buffer_inv b' \<and> zeroed zof b' \<and> contents b' = contents b @ take (snd (setter ?v)) (fst (setter ?v))))"
    proof (rule returns_memcpy_to [OF le])
      fix p :: "'a block option"
      assume p: "(case p of None \<Rightarrow> [] | Some blk \<Rightarrow> blk) = write_block (cells b1) (buf_size b) (fst (setter ?v))"
      show "let b' = b1\<lparr>buf_data := p, buf_size := size_t_add (buf_size b) (snd (setter ?v))\<rparr> in
        buffer_inv b' \<and> zeroed zof b' \<and> contents b' = contents b @ take (snd (setter ?v)) (fst (setter ?v))"
        using inv b1 p le w small len old setter [OF v]
        by (simp add: Let_def buffer_inv_def contents_def write_block_def)
    qed
    then show "?Q b1"
      using w v by (simp add: from_view Let_def) (auto elim!: returns_mono intro!: exI [of _ ?v])
  qed
  then show ?thesis
    using inv small by (simp add: AppendData_setter_def Let_def split_def) (auto elim!: returns_mono simp: Let_def)
qed

text \<open>
  A size that would wrap is never silently truncated into a wrong buffer: the copy leaves the block.
\<close>

lemma AppendData_overflow:
  assumes inv: "buffer_inv b" and "buf_capacity b < 2 ^ 64" "length xs < 2 ^ 64" "2 ^ 64 \<le> buf_size b + length xs"
  shows "AppendData d zof xs b = Inl Undefined"
proof -
  from assms have sz: "buf_size b < 2 ^ 64" "buf_size b \<le> buf_capacity b" "length (cells b) = buf_capacity b"
    by (simp_all add: buffer_inv_def)
  have "size_t_add (buf_size b) (length xs) = buf_size b + length xs - 2 ^ 64"
    using assms sz unfolding size_t_add_def by (subst mod_if) simp
  also have "\<dots> \<le> buf_capacity b" using assms(3) sz by simp
  finally have ens: "EnsureCapacityWithHeadroom d zof (size_t_add (buf_size b) (length xs)) True b = Inr b"
    using inv by (simp add: EnsureCapacityWithHeadroom_def)
  have "buf_capacity b < buf_size b + length xs" using assms(2,4) by simp
  moreover have "xs \<noteq> []" using assms(4) sz by auto
  ultimately have "memcpy_to (buf_data b) (buf_size b) (map Some xs) = Inl Undefined"
    using sz by (auto simp: memcpy_to_def cells_def split: option.splits)
  with ens inv show ?thesis by (simp add: AppendData_def)
qed

section \<open>Appending piece by piece\<close>

text \<open>
  The contract that clients of a byte container rely on: appending keeps its invariant and adds
  the data at the end, as long as the total length stays below a bound.
\<close>

fun append_all :: "('a list \<Rightarrow> 's \<Rightarrow> 's checked) \<Rightarrow> 'a list list \<Rightarrow> 's \<Rightarrow> 's checked" where
  "append_all app [] s = Inr s"
| "append_all app (xs # xss) s = rbind (app xs s) (append_all app xss)"

locale append_container =
  fixes inv :: "'s \<Rightarrow> bool"
    and elems :: "'s \<Rightarrow> 'a option list"
    and append :: "'a list \<Rightarrow> 's \<Rightarrow> 's checked"
    and bound :: nat
  assumes append_law:
    "inv s \<Longrightarrow> length (elems s) + length xs < bound \<Longrightarrow>
     returns (append xs s) (\<lambda>s'. inv s' \<and> elems s' = elems s @ map Some xs)"
begin

lemma append_all_law:
  "inv s \<Longrightarrow> length (elems s) + length (concat xss) < bound \<Longrightarrow>
   returns (append_all append xss s) (\<lambda>s'. inv s' \<and> elems s' = elems s @ map Some (concat xss))"
proof (induction xss arbitrary: s)
  case Nil
  then show ?case by simp
next
  case (Cons xs xss)
  have "returns (append xs s) (\<lambda>s'. returns (append_all append xss s')
      (\<lambda>s''. inv s'' \<and> elems s'' = elems s @ map Some (concat (xs # xss))))"
  proof (rule returns_mono [OF append_law])
    fix s'
    assume s': "inv s' \<and> elems s' = elems s @ map Some xs"
    with Cons.prems(2) have "length (elems s') + length (concat xss) < bound" by simp
    with Cons.IH [of s'] s' show "returns (append_all append xss s')
      (\<lambda>s''. inv s'' \<and> elems s'' = elems s @ map Some (concat (xs # xss)))" by simp
  qed (use Cons.prems in simp_all)
  then show ?case by simp
qed

end

interpretation buffer: append_container "\<lambda>b. buffer_inv b \<and> zeroed zof b" contents "AppendData d zof" "2 ^ 64"
  for d zof
proof
  fix s :: "'a BufferT" and xs :: "'a list"
  assume "buffer_inv s \<and> zeroed zof s" and "length (contents s) + length xs < 2 ^ 64"
  then show "returns (AppendData d zof xs s) (\<lambda>s'. (buffer_inv s' \<and> zeroed zof s') \<and> contents s' = contents s @ map Some xs)"
    by (intro returns_mono [OF AppendData_returns]) (auto simp: length_contents)
qed

text \<open>
  Moving hands the block over without copying: the new owner has the contents, the old one no
  block, and a block the target owned before is given back, zeroed where that was asked for.
\<close>

lemma move_assign_returns:
  assumes "buffer_inv b" "buffer_inv buf" "zeroed zof b" "zeroed zof buf"
  shows "returns (BufferT_move_assign d zof b buf) (\<lambda>(b', buf'). buffer_inv b' \<and> contents b' = contents buf \<and>
     buf_data b' = buf_data buf \<and> buf_capacity b' = buf_capacity buf \<and> buf_data buf' = None \<and> buf_capacity buf' = 0 \<and>
     zeroed zof b' \<and> zeroed zof buf' \<and> IsConsistent buf' = (\<not> d))"
proof -
  from assms have len: "length (cells b) = buf_capacity b" by (simp add: buffer_inv_def)
  show ?thesis
    unfolding BufferT_move_assign_def OnMovedFrom_def Let_def
    using assms by (auto intro!: returns_mono [OF MaybeZero_returns [OF len]]
        simp: buffer_inv_def contents_def IsConsistent_def cells_def split: option.splits)
qed

lemma get_after_put:
  assumes "buffer_inv b" "i < buf_size b"
  shows "returns (buffer_put d b i x) (\<lambda>b'. buffer_inv b' \<and> contents b' = (contents b)[i := Some x] \<and>
     buffer_get d b' i = Inr x \<and> buf_capacity b' = buf_capacity b \<and> buf_released b' = buf_released b)"
proof -
  from assms have le: "i + length [Some x] \<le> length (cells b)" by (simp add: buffer_inv_def)
  have w: "write_block (cells b) i [Some x] = (cells b)[i := Some x]"
    using le by (simp add: write_block_def upd_conv_take_nth_drop)
  have ne: "(cells b)[i := Some x] \<noteq> []" using le by auto
  have "returns (memcpy_to (buf_data b) i [Some x])
      (\<lambda>p. buffer_inv (b\<lparr>buf_data := p\<rparr>) \<and> contents (b\<lparr>buf_data := p\<rparr>) = (contents b)[i := Some x] \<and>
        read_cell p i = Inr x)"
    by (rule returns_memcpy_to [OF le])
      (use w le ne assms in \<open>auto simp: buffer_inv_def contents_def take_update_swap read_cell_def eq_commute [of "[]"] split: option.splits\<close>)
  with assms show ?thesis by (auto simp: buffer_put_def buffer_get_def elim!: returns_mono)
qed

section \<open>Reachable buffers\<close>

text \<open>
  The states a buffer can be in: made by a constructor, then changed by its operations, by writing an element of it, by the swap
  with another buffer and by moving another buffer into it.  A buffer that was moved from, which may only be cleared or assigned
  to, and the overloads that fill the buffer through a setter are not among them.  The natural numbers given to
  \<^verbatim>\<open>size_t\<close> parameters are below \<open>2 ^ 64\<close>.
\<close>

inductive buffer_reachable :: "bool \<Rightarrow> bool \<Rightarrow> 'a::zero BufferT \<Rightarrow> bool" for d zof where
  new: "buffer_reachable d zof BufferT_new"
| sized: "buffer_reachable d zof (BufferT_sized n m)" if "n < 2 ^ 64" "m < 2 ^ 64"
| copied: "buffer_reachable d zof b" if "BufferT_copy xs m = Inr b" "length xs < 2 ^ 64" "m < 2 ^ 64"
| append: "buffer_reachable d zof b'"
    if "buffer_reachable d zof b" "length xs < 2 ^ 64" "AppendData d zof xs b = Inr b'"
| set: "buffer_reachable d zof b'"
    if "buffer_reachable d zof b" "length xs < 2 ^ 64" "SetData d zof xs b = Inr b'"
| resize: "buffer_reachable d zof b'"
    if "buffer_reachable d zof b" "n < 2 ^ 64" "SetSize d zof n b = Inr b'"
| reserve: "buffer_reachable d zof b'"
    if "buffer_reachable d zof b" "n < 2 ^ 64" "EnsureCapacity d zof n b = Inr b'"
| clear: "buffer_reachable d zof b'"
    if "buffer_reachable d zof b" "Clear d zof b = Inr b'"
| put: "buffer_reachable d zof b'"
    if "buffer_reachable d zof b" "i < buf_size b" "buffer_put d b i x = Inr b'"
| swap: "buffer_reachable d zof (fst (buffer_swap b c))"
    if "buffer_reachable d zof b" "buffer_reachable d zof c"
| swapped: "buffer_reachable d zof (snd (buffer_swap b c))"
    if "buffer_reachable d zof b" "buffer_reachable d zof c"
| move: "buffer_reachable d zof b'"
    if "buffer_reachable d zof b" "buffer_reachable d zof c" "BufferT_move_assign d zof b c = Inr (b', c')"

lemma grown_bound: "buf_capacity b < 2 ^ 64 \<Longrightarrow> cap < 2 ^ 64 \<Longrightarrow> grown b cap h < 2 ^ 64"
  by (auto simp: grown_def size_t_add_def)

lemma copy_returns:
  "returns (BufferT_copy xs m) (\<lambda>b. buffer_inv b \<and> contents b = map Some xs \<and>
     buf_capacity b = max (length xs) m \<and> buf_released b = [])"
proof -
  let ?b = "BufferT_sized (length xs) m :: 'a BufferT"
  have c: "cells ?b = replicate (max (length xs) m) None" "buf_capacity ?b = max (length xs) m" "buf_size ?b = length xs"
     "buf_released ?b = []"
    by (auto simp: BufferT_sized_def Let_def cells_def)
  have "returns (memcpy_to (buf_data ?b) 0 (map Some xs)) (\<lambda>p. buffer_inv (?b\<lparr>buf_data := p\<rparr>) \<and>
      contents (?b\<lparr>buf_data := p\<rparr>) = map Some xs)"
    by (rule returns_memcpy_to) (use c in \<open>auto simp: buffer_inv_def contents_def write_block_def\<close>)
  with c show ?thesis by (auto simp: BufferT_copy_def Let_def elim!: returns_mono)
qed

lemma buffer_reachable_inv:
  assumes "buffer_reachable d zof b"
  shows "buffer_inv b \<and> zeroed zof b \<and> buf_capacity b < 2 ^ 64"
  using assms
proof (induction rule: buffer_reachable.induct)
  case new
  show ?case by (simp add: BufferT_new_def buffer_inv_def cells_def zeroed_def)
next
  case (sized n m)
  then show ?case by (auto simp: BufferT_sized_def Let_def buffer_inv_def cells_def zeroed_def)
next
  case (copied xs m b)
  with copy_returns [of xs m] show ?case by (auto simp: zeroed_def)
next
  case (append b xs b')
  then have "buf_size b + length xs < 2 ^ 64"
    using AppendData_overflow [of b xs d zof] by (cases "buf_size b + length xs < 2 ^ 64") auto
  with AppendData_returns [of b zof xs d] append grown_bound show ?case by auto
next
  case (set b xs b')
  with SetData_returns [of b zof xs d] grown_bound show ?case by auto
next
  case (resize b n b')
  with SetSize_returns [of b zof d n] grown_bound show ?case by auto
next
  case (reserve b n b')
  with Ensure_returns [of b zof d n False] grown_bound show ?case by (auto simp: EnsureCapacity_def)
next
  case (clear b b')
  with Clear_returns [of b zof d] show ?case by auto
next
  case (put b i x b')
  with get_after_put [of b i d x] zeroed_cong [of b' b zof] show ?case by auto
next
  case (swap b c)
  then show ?case by (auto simp: buffer_swap_def buffer_inv_def cells_def)
next
  case (swapped b c)
  then show ?case by (auto simp: buffer_swap_def buffer_inv_def cells_def)
next
  case (move b c b' c')
  with move_assign_returns [of b c zof d] show ?case by auto
qed

section \<open>The theorems\<close>

text \<open>
  (C25) A buffer is a list.  From every reachable state the operations return and act on the
  contents as on a list: appending one or many pieces concatenates, setting replaces, clearing
  empties and keeps the capacity, resizing keeps the common part, a written element is read back.
  A request whose size wraps at 64 bits is an access outside the block, never a short buffer.
\<close>

theorem buffer_is_list:
  assumes "buffer_reachable d zof b"
  shows "(length xs < 2 ^ 64 \<longrightarrow> 2 ^ 64 \<le> buf_size b + length xs \<longrightarrow> AppendData d zof xs b = Inl Undefined) \<and>
    (buf_size b + length (concat xss) < 2 ^ 64 \<longrightarrow>
      returns (append_all (AppendData d zof) xss b) (\<lambda>b'. contents b' = contents b @ map Some (concat xss))) \<and>
    (length xs < 2 ^ 64 \<longrightarrow> returns (SetData d zof xs b) (\<lambda>b'. contents b' = map Some xs)) \<and>
    returns (SetSize d zof n b)
      (\<lambda>b'. buf_size b' = n \<and> take (min n (buf_size b)) (contents b') = take n (contents b)) \<and>
    returns (Clear d zof b) (\<lambda>b'. contents b' = [] \<and> buf_capacity b' = buf_capacity b) \<and>
    (i < buf_size b \<longrightarrow> returns (buffer_put d b i x)
      (\<lambda>b'. contents b' = (contents b)[i := Some x] \<and> buffer_get d b' i = Inr x))"
proof (intro conjI impI)
  from buffer_reachable_inv [OF assms]
  have inv: "buffer_inv b" "zeroed zof b" "buf_capacity b < 2 ^ 64" by auto
  note len = length_contents [OF inv(1)]
  show "AppendData d zof xs b = Inl Undefined" if "length xs < 2 ^ 64" "2 ^ 64 \<le> buf_size b + length xs"
    using AppendData_overflow [OF inv(1,3) that] .
  show "returns (append_all (AppendData d zof) xss b) (\<lambda>b'. contents b' = contents b @ map Some (concat xss))"
    if "buf_size b + length (concat xss) < 2 ^ 64"
    using buffer.append_all_law [of b zof xss d] that inv len by (auto elim: returns_mono)
  show "returns (SetData d zof xs b) (\<lambda>b'. contents b' = map Some xs)" if "length xs < 2 ^ 64"
    by (rule returns_mono [OF SetData_returns [OF inv(1,2) that]]) (auto)
  show "returns (SetSize d zof n b)
      (\<lambda>b'. buf_size b' = n \<and> take (min n (buf_size b)) (contents b') = take n (contents b))"
    by (rule returns_mono [OF SetSize_returns [OF inv(1,2)]]) (auto)
  show "returns (Clear d zof b) (\<lambda>b'. contents b' = [] \<and> buf_capacity b' = buf_capacity b)"
    by (rule returns_mono [OF Clear_returns [OF inv(1,2)]]) (auto)
  show "returns (buffer_put d b i x) (\<lambda>b'. contents b' = (contents b)[i := Some x] \<and> buffer_get d b' i = Inr x)"
    if "i < buf_size b"
    by (rule returns_mono [OF get_after_put [OF inv(1) that]]) (auto)
qed

text \<open>
  Secrets are wiped.  Whatever is done with a \<^verbatim>\<open>ZeroOnFreeBuffer\<close>, every heap block it
  has given back holds only zeros, also after its destructor; clearing it zeroes the whole block,
  and replacing the contents by shorter ones zeroes the part that was in use before.
\<close>

theorem zero_on_free:
  assumes "buffer_reachable d True b"
  shows "(\<forall>blk \<in> set (buf_released b). \<forall>c \<in> set blk. c = Some 0) \<and>
    returns (BufferT_delete True b) (\<lambda>b'. \<forall>blk \<in> set (buf_released b'). \<forall>c \<in> set blk. c = Some 0) \<and>
    returns (Clear d True b) (\<lambda>b'. \<forall>c \<in> set (cells b'). c = Some 0) \<and>
    (length xs < 2 ^ 64 \<longrightarrow> returns (SetData d True xs b)
      (\<lambda>b'. \<forall>i. length xs \<le> i \<longrightarrow> i < buf_size b \<longrightarrow> cells b' ! i = Some 0))"
proof (intro conjI impI)
  from buffer_reachable_inv [OF assms] have inv: "buffer_inv b" "zeroed True b" by auto
  then show "\<forall>blk \<in> set (buf_released b). \<forall>c \<in> set blk. c = Some 0" by (simp add: zeroed_def)
  show "returns (BufferT_delete True b) (\<lambda>b'. \<forall>blk \<in> set (buf_released b'). \<forall>c \<in> set blk. c = Some 0)"
    by (rule returns_mono [OF delete_returns [OF inv]]) (auto simp: zeroed_def)
  show "returns (Clear d True b) (\<lambda>b'. \<forall>c \<in> set (cells b'). c = Some 0)"
    by (rule returns_mono [OF Clear_returns [OF inv]]) (auto)
  show "returns (SetData d True xs b) (\<lambda>b'. \<forall>i. length xs \<le> i \<longrightarrow> i < buf_size b \<longrightarrow> cells b' ! i = Some 0)"
    if "length xs < 2 ^ 64"
    by (rule returns_mono [OF SetData_returns [OF inv that]]) (auto)
qed

end
