(* ===== verification/Rtc_RefPtr.thy ===== *)
theory Rtc_RefPtr
  imports Rtc_Numeric
begin

text \<open>
  Reference counting of libwebrtc: \<^verbatim>\<open>RefCounter\<close>
  (\<^verbatim>\<open>rtc_base/ref_counter.h\<close>), \<^verbatim>\<open>RefCountedObject\<close>
  (\<^verbatim>\<open>rtc_base/ref_counted_object.h\<close>) and \<^verbatim>\<open>scoped_refptr\<close>
  (\<^verbatim>\<open>api/scoped_refptr.h\<close>).

  The state is an explicit store: a map from addresses to objects with their counter, and a map
  from the \<^verbatim>\<open>scoped_refptr\<close> variables that exist to the pointer each holds (the
  null pointer is \<^const>\<open>None\<close>).  A call on an object that was deleted is \<^const>\<open>Undefined\<close>.
  The counter is an \<^verbatim>\<open>int\<close> that wraps, as the atomic builtins do; every operation on it is
  one step, so a sequence of operations is one interleaving of the threads that execute them.
\<close>

section \<open>Objects and counters\<close>

record 'o rstate =
  objects :: "nat \<Rightarrow> (int \<times> 'o) option"
  vars :: "nat \<Rightarrow> nat option option"

datatype RefCountReleaseStatus = kDroppedLastRef | kOtherRefsRemained

definition IncRef :: "int \<Rightarrow> int" where
  "IncRef ref_count = static_cast Int32 (ref_count + 1)"

definition DecRef :: "int \<Rightarrow> RefCountReleaseStatus \<times> int" where
  "DecRef ref_count =
     (let n = static_cast Int32 (ref_count - 1) in
      (if n = 0 then kDroppedLastRef else kOtherRefsRemained, n))"

definition counter_HasOneRef :: "int \<Rightarrow> bool" where
  "counter_HasOneRef ref_count \<longleftrightarrow> ref_count = 1"

definition AddRef :: "nat \<Rightarrow> 'o rstate \<Rightarrow> 'o rstate checked" where
  "AddRef a \<sigma> =
     (case objects \<sigma> a of
        None \<Rightarrow> Inl Undefined
      | Some (n, v) \<Rightarrow> Inr (\<sigma>\<lparr>objects := (objects \<sigma>)(a \<mapsto> (IncRef n, v))\<rparr>))"

definition Release :: "nat \<Rightarrow> 'o rstate \<Rightarrow> (RefCountReleaseStatus \<times> 'o rstate) checked" where
  "Release a \<sigma> =
     (case objects \<sigma> a of
        None \<Rightarrow> Inl Undefined
      | Some (n, v) \<Rightarrow>
          let (status, n') = DecRef n in
          Inr (status, \<sigma>\<lparr>objects := (if status = kDroppedLastRef then (objects \<sigma>)(a := None)
                                    else (objects \<sigma>)(a \<mapsto> (n', v)))\<rparr>))"

definition HasOneRef :: "nat \<Rightarrow> 'o rstate \<Rightarrow> bool checked" where
  "HasOneRef a \<sigma> =
     (case objects \<sigma> a of None \<Rightarrow> Inl Undefined | Some (n, v) \<Rightarrow> Inr (counter_HasOneRef n))"

text \<open>A new object starts with the counter 0; the pointer it is given to adds the first reference.\<close>

definition RefCountedObject_new :: "nat \<Rightarrow> 'o \<Rightarrow> 'o rstate \<Rightarrow> 'o rstate" where
  "RefCountedObject_new a v \<sigma> = \<sigma>\<lparr>objects := (objects \<sigma>)(a \<mapsto> (0, v))\<rparr>"

section \<open>scoped_refptr\<close>

definition AddRef_opt :: "nat option \<Rightarrow> 'o rstate \<Rightarrow> 'o rstate checked" where
  "AddRef_opt p \<sigma> = (case p of None \<Rightarrow> Inr \<sigma> | Some a \<Rightarrow> AddRef a \<sigma>)"

definition Release_opt :: "nat option \<Rightarrow> 'o rstate \<Rightarrow> 'o rstate checked" where
  "Release_opt p \<sigma> =
     (case p of None \<Rightarrow> Inr \<sigma> | Some a \<Rightarrow> rbind (Release a \<sigma>) (\<lambda>(status, \<sigma>). Inr \<sigma>))"

definition set_ptr :: "nat \<Rightarrow> nat option \<Rightarrow> 'o rstate \<Rightarrow> 'o rstate" where
  "set_ptr x p \<sigma> = \<sigma>\<lparr>vars := (vars \<sigma>)(x \<mapsto> p)\<rparr>"

definition get :: "nat \<Rightarrow> 'o rstate \<Rightarrow> nat option checked" where
  "get x \<sigma> = (case vars \<sigma> x of None \<Rightarrow> Inl Undefined | Some p \<Rightarrow> Inr p)"

definition refptr_null :: "nat \<Rightarrow> 'o rstate \<Rightarrow> 'o rstate" where
  "refptr_null x \<sigma> = set_ptr x None \<sigma>"

definition refptr_from :: "nat \<Rightarrow> nat option \<Rightarrow> 'o rstate \<Rightarrow> 'o rstate checked" where
  "refptr_from x p \<sigma> = AddRef_opt p (set_ptr x p \<sigma>)"

definition refptr_copy :: "nat \<Rightarrow> nat \<Rightarrow> 'o rstate \<Rightarrow> 'o rstate checked" where
  "refptr_copy x r \<sigma> = rbind (get r \<sigma>) (\<lambda>p. AddRef_opt p (set_ptr x p \<sigma>))"

definition refptr_release :: "nat \<Rightarrow> 'o rstate \<Rightarrow> (nat option \<times> 'o rstate) checked" where
  "refptr_release x \<sigma> = rbind (get x \<sigma>) (\<lambda>retVal. Inr (retVal, set_ptr x None \<sigma>))"

definition refptr_move :: "nat \<Rightarrow> nat \<Rightarrow> 'o rstate \<Rightarrow> 'o rstate checked" where
  "refptr_move x r \<sigma> = rbind (refptr_release r \<sigma>) (\<lambda>(p, \<sigma>). Inr (set_ptr x p \<sigma>))"

definition refptr_delete :: "nat \<Rightarrow> 'o rstate \<Rightarrow> 'o rstate checked" where
  "refptr_delete x \<sigma> =
     rbind (get x \<sigma>) (\<lambda>p. rbind (Release_opt p \<sigma>) (\<lambda>\<sigma>. Inr (\<sigma>\<lparr>vars := (vars \<sigma>)(x := None)\<rparr>)))"

definition refptr_assign_ptr :: "nat \<Rightarrow> nat option \<Rightarrow> 'o rstate \<Rightarrow> 'o rstate checked" where
  "refptr_assign_ptr x p \<sigma> =
     rbind (AddRef_opt p \<sigma>) (\<lambda>\<sigma>. rbind (get x \<sigma>) (\<lambda>old.
     rbind (Release_opt old \<sigma>) (\<lambda>\<sigma>. Inr (set_ptr x p \<sigma>))))"

definition refptr_assign :: "nat \<Rightarrow> nat \<Rightarrow> 'o rstate \<Rightarrow> 'o rstate checked" where
  "refptr_assign x r \<sigma> = rbind (get r \<sigma>) (\<lambda>p. refptr_assign_ptr x p \<sigma>)"

definition refptr_swap :: "nat \<Rightarrow> nat \<Rightarrow> 'o rstate \<Rightarrow> 'o rstate checked" where
  "refptr_swap x r \<sigma> =
     rbind (get x \<sigma>) (\<lambda>p. rbind (get r \<sigma>) (\<lambda>q. Inr (set_ptr r p (set_ptr x q \<sigma>))))"

text \<open>
  The move assignment swaps with a temporary that took the pointer of \<open>r\<close>; its destructor then
  drops what \<open>x\<close> held before.  The temporary is the variable \<open>t\<close>.
\<close>

definition refptr_move_assign :: "nat \<Rightarrow> nat \<Rightarrow> nat \<Rightarrow> 'o rstate \<Rightarrow> 'o rstate checked" where
  "refptr_move_assign t x r \<sigma> =
     rbind (refptr_move t r \<sigma>) (\<lambda>\<sigma>. rbind (refptr_swap t x \<sigma>) (refptr_delete t))"

section \<open>The counting invariant\<close>

text \<open>
  \<open>raw a\<close> references to \<open>a\<close> are held by code outside any \<^verbatim>\<open>scoped_refptr\<close>.
  The counter of an object is the number of its owners of both kinds, and an object exists
  exactly as long as it has an owner.
\<close>

definition owners :: "'o rstate \<Rightarrow> nat \<Rightarrow> nat set" where
  "owners \<sigma> a = {x. vars \<sigma> x = Some (Some a)}"

definition owner_count :: "'o rstate \<Rightarrow> (nat \<Rightarrow> nat) \<Rightarrow> nat \<Rightarrow> nat" where
  "owner_count \<sigma> raw a = card (owners \<sigma> a) + raw a"

definition counted :: "'o rstate \<Rightarrow> (nat \<Rightarrow> nat) \<Rightarrow> bool" where
  "counted \<sigma> raw \<longleftrightarrow> finite (dom (vars \<sigma>)) \<and>
     (\<forall>a. map_option fst (objects \<sigma> a) =
        (if owner_count \<sigma> raw a = 0 then None else Some (int (owner_count \<sigma> raw a))))"

definition room :: "'o rstate \<Rightarrow> (nat \<Rightarrow> nat) \<Rightarrow> bool" where
  "room \<sigma> raw \<longleftrightarrow> (\<forall>a. owner_count \<sigma> raw a < 2147483647)"

definition payload :: "'o rstate \<Rightarrow> nat \<Rightarrow> 'o option" where
  "payload \<sigma> a = map_option snd (objects \<sigma> a)"

lemma finite_owners: "finite (dom (vars \<sigma>)) \<Longrightarrow> finite (owners \<sigma> a)"
  by (rule finite_subset [of _ "dom (vars \<sigma>)"]) (auto simp: owners_def)

lemma counted_alive: "counted \<sigma> raw \<Longrightarrow> objects \<sigma> a \<noteq> None \<longleftrightarrow> 0 < owner_count \<sigma> raw a"
  unfolding counted_def by (metis (no_types, lifting) None_eq_map_option_iff gr0I not_gr_zero option.distinct(1))

lemma counted_count: "counted \<sigma> raw \<Longrightarrow> objects \<sigma> a = Some (n, v) \<Longrightarrow> n = int (owner_count \<sigma> raw a)"
  unfolding counted_def by (metis (no_types, lifting) fst_conv option.distinct(1) option.inject option.simps(9))

lemma owners_objects [simp]: "owners (\<sigma>\<lparr>objects := f\<rparr>) a = owners \<sigma> a"
  by (simp add: owners_def)

lemma counted_object:
  assumes c: "counted \<sigma> raw" and raw: "\<And>b. b \<noteq> a \<Longrightarrow> raw' b = raw b"
    and ob: "map_option fst ob = (if owner_count \<sigma> raw' a = 0 then None else Some (int (owner_count \<sigma> raw' a)))"
  shows "counted (\<sigma>\<lparr>objects := (objects \<sigma>)(a := ob)\<rparr>) raw'"
proof -
  have oc: "owner_count (\<sigma>\<lparr>objects := f\<rparr>) raw' b = (if b = a then owner_count \<sigma> raw' a else owner_count \<sigma> raw b)" for f b
    using raw by (simp add: owner_count_def)
  have "map_option fst (objects \<sigma> b) = (if owner_count \<sigma> raw b = 0 then None else Some (int (owner_count \<sigma> raw b)))" for b
    using c by (simp add: counted_def)
  with ob c show ?thesis unfolding counted_def oc by (simp only: fun_upd_apply rstate.simps split: if_split) auto
qed

lemma AddRef_counted:
  assumes "counted \<sigma> raw" "owner_count \<sigma> raw a < 2147483647" "objects \<sigma> a \<noteq> None"
  shows "returns (AddRef a \<sigma>) (\<lambda>\<sigma>'. counted \<sigma>' (raw(a := Suc (raw a))) \<and> vars \<sigma>' = vars \<sigma> \<and> payload \<sigma>' = payload \<sigma>)"
proof -
  obtain n v where ob: "objects \<sigma> a = Some (n, v)" using assms(3) by auto
  have n: "n = int (owner_count \<sigma> raw a)" by (rule counted_count [OF assms(1) ob])
  have "IncRef n = int (Suc (owner_count \<sigma> raw a))"
    using assms(2) unfolding IncRef_def n by (subst static_cast_id) (auto simp: in_range_def)
  then have "counted (\<sigma>\<lparr>objects := (objects \<sigma>)(a \<mapsto> (IncRef n, v))\<rparr>) (raw(a := Suc (raw a)))"
    by (intro counted_object [OF assms(1)]) (auto simp: owner_count_def)
  then show ?thesis by (auto simp: AddRef_def ob payload_def)
qed

lemma Release_counted:
  assumes "counted \<sigma> raw" "owner_count \<sigma> raw a \<le> 2147483647" "0 < raw a"
  shows "returns (Release a \<sigma>) (\<lambda>(status, \<sigma>'). counted \<sigma>' (raw(a := raw a - 1)) \<and> vars \<sigma>' = vars \<sigma> \<and>
      payload \<sigma>' = (if owner_count \<sigma> raw a = 1 then (payload \<sigma>)(a := None) else payload \<sigma>))"
proof -
  let ?k = "owner_count \<sigma> raw a"
  let ?raw = "raw(a := raw a - 1)"
  have k: "owner_count \<sigma> ?raw a = ?k - 1" "0 < ?k" using assms(3) by (simp_all add: owner_count_def)
  then obtain n v where ob: "objects \<sigma> a = Some (n, v)" using counted_alive [OF assms(1), of a] by auto
  have n: "n = int ?k" by (rule counted_count [OF assms(1) ob])
  have dec: "DecRef n = (if ?k = 1 then kDroppedLastRef else kOtherRefsRemained, int (?k - 1))"
    using assms(2) k(2) unfolding DecRef_def n
    by (subst static_cast_id) (auto simp: in_range_def Let_def of_nat_diff)
  have "counted (\<sigma>\<lparr>objects := (objects \<sigma>)(a := if ?k = 1 then None else Some (int (?k - 1), v))\<rparr>) ?raw"
    by (intro counted_object [OF assms(1)]) (use k in auto)
  then show ?thesis by (auto simp: Release_def ob dec payload_def split: if_splits)
qed

text \<open>
  Changing what a variable holds moves references between the variables and the code: the old
  pointer becomes a raw reference, the new one must have been one.
\<close>

definition held :: "'o rstate \<Rightarrow> nat \<Rightarrow> nat option" where
  "held \<sigma> x = (case vars \<sigma> x of None \<Rightarrow> None | Some p \<Rightarrow> p)"

definition add_raw :: "nat option \<Rightarrow> (nat \<Rightarrow> nat) \<Rightarrow> nat \<Rightarrow> nat" where
  "add_raw p raw = (case p of None \<Rightarrow> raw | Some a \<Rightarrow> raw(a := Suc (raw a)))"

definition sub_raw :: "nat option \<Rightarrow> (nat \<Rightarrow> nat) \<Rightarrow> nat \<Rightarrow> nat" where
  "sub_raw p raw = (case p of None \<Rightarrow> raw | Some a \<Rightarrow> raw(a := raw a - 1))"

lemma raw_simps [simp]: "add_raw None raw = raw" "sub_raw None raw = raw" "sub_raw p (add_raw p raw) = raw"
  "sub_raw p (add_raw q (add_raw p raw)) = add_raw q raw" "sub_raw p (add_raw p (add_raw q raw)) = add_raw q raw"
  by (auto simp: add_raw_def sub_raw_def fun_eq_iff split: option.splits)

lemma add_raw_pos: "p = Some a \<Longrightarrow> 0 < add_raw p raw a" "p = Some a \<Longrightarrow> 0 < add_raw q (add_raw p raw) a"
  by (auto simp: add_raw_def split: option.splits)

lemma owners_set_ptr:
  "owners (set_ptr x p \<sigma>) a = (if p = Some a then insert x (owners \<sigma> a) else owners \<sigma> a - {x})"
  by (auto simp: owners_def set_ptr_def)

lemma owners_kill: "owners (\<sigma>\<lparr>vars := (vars \<sigma>)(x := None)\<rparr>) a = owners \<sigma> a - {x}"
  by (auto simp: owners_def)

lemma owner_held: "x \<in> owners \<sigma> a \<longleftrightarrow> held \<sigma> x = Some a"
  by (auto simp: owners_def held_def split: option.splits)

lemma owner_count_drop:
  assumes "finite (owners \<sigma> a)"
  shows "card (owners \<sigma> a - {x}) + add_raw (held \<sigma> x) raw a = owner_count \<sigma> raw a"
proof (cases "x \<in> owners \<sigma> a")
  case True
  then have "card (owners \<sigma> a) = Suc (card (owners \<sigma> a - {x}))"
    using assms by (metis card.remove)
  with True show ?thesis by (simp add: owner_count_def owner_held add_raw_def)
next
  case False
  then show ?thesis by (auto simp: owner_count_def owner_held add_raw_def split: option.splits)
qed

lemma set_ptr_owner_count:
  assumes "finite (dom (vars \<sigma>))" "\<And>b. p = Some b \<Longrightarrow> 0 < add_raw (held \<sigma> x) raw b"
  shows "owner_count (set_ptr x p \<sigma>) (sub_raw p (add_raw (held \<sigma> x) raw)) a = owner_count \<sigma> raw a"
proof (cases "p = Some a")
  case True
  have "card (insert x (owners \<sigma> a)) = Suc (card (owners \<sigma> a - {x}))"
    using finite_owners [OF assms(1)] by (metis card.insert_remove)
  with True assms(2) owner_count_drop [OF finite_owners [OF assms(1)], of a x raw]
  show ?thesis by (auto simp: owner_count_def owners_set_ptr sub_raw_def)
next
  case False
  with owner_count_drop [OF finite_owners [OF assms(1)], of a x raw] show ?thesis
    by (auto simp: owner_count_def owners_set_ptr sub_raw_def split: option.splits)
qed

lemma set_ptr_counted:
  assumes "counted \<sigma> raw" "\<And>b. p = Some b \<Longrightarrow> 0 < add_raw (held \<sigma> x) raw b"
  shows "counted (set_ptr x p \<sigma>) (sub_raw p (add_raw (held \<sigma> x) raw))"
proof -
  from assms(1) have fin: "finite (dom (vars \<sigma>))" by (simp add: counted_def)
  have "dom (vars (set_ptr x p \<sigma>)) = insert x (dom (vars \<sigma>))" "objects (set_ptr x p \<sigma>) = objects \<sigma>"
    by (auto simp: set_ptr_def)
  with assms(1) fin set_ptr_owner_count [OF fin assms(2)] show ?thesis by (simp add: counted_def)
qed

lemma kill_counted:
  assumes "counted \<sigma> raw"
  shows "counted (\<sigma>\<lparr>vars := (vars \<sigma>)(x := None)\<rparr>) (add_raw (held \<sigma> x) raw)"
    "owner_count (\<sigma>\<lparr>vars := (vars \<sigma>)(x := None)\<rparr>) (add_raw (held \<sigma> x) raw) a = owner_count \<sigma> raw a"
proof -
  from assms have fin: "finite (dom (vars \<sigma>))" by (simp add: counted_def)
  show eq: "owner_count (\<sigma>\<lparr>vars := (vars \<sigma>)(x := None)\<rparr>) (add_raw (held \<sigma> x) raw) a = owner_count \<sigma> raw a" for a
    using owner_count_drop [OF finite_owners [OF fin], of a x raw] by (simp add: owner_count_def owners_kill)
  with assms fin show "counted (\<sigma>\<lparr>vars := (vars \<sigma>)(x := None)\<rparr>) (add_raw (held \<sigma> x) raw)"
    by (simp add: counted_def)
qed

section \<open>Every operation keeps the invariant\<close>

lemma set_ptr_simps [simp]:
  "objects (set_ptr x p \<sigma>) = objects \<sigma>" "payload (set_ptr x p \<sigma>) = payload \<sigma>"
  "vars (set_ptr x p \<sigma>) = (vars \<sigma>)(x \<mapsto> p)" "held (set_ptr x p \<sigma>) y = (if y = x then p else held \<sigma> y)"
  by (simp_all add: set_ptr_def payload_def held_def fun_eq_iff)

lemma payload_vars [simp]: "payload (\<sigma>\<lparr>vars := f\<rparr>) = payload \<sigma>"
  by (simp add: payload_def fun_eq_iff)

text \<open>The counters and the variables are independent parts of the state.\<close>

lemma AddRef_opt_vars:
  "AddRef_opt p (\<sigma>\<lparr>vars := f\<rparr>) = rbind (AddRef_opt p \<sigma>) (\<lambda>\<sigma>. Inr (\<sigma>\<lparr>vars := f\<rparr>))"
  by (auto simp: AddRef_opt_def AddRef_def split: option.splits prod.splits)

lemma Release_opt_vars:
  "Release_opt p (\<sigma>\<lparr>vars := f\<rparr>) = rbind (Release_opt p \<sigma>) (\<lambda>\<sigma>. Inr (\<sigma>\<lparr>vars := f\<rparr>))"
  by (auto simp: Release_opt_def Release_def Let_def split: option.splits prod.splits)

definition alive :: "'o rstate \<Rightarrow> nat option \<Rightarrow> bool" where
  "alive \<sigma> p \<longleftrightarrow> (\<forall>a. p = Some a \<longrightarrow> objects \<sigma> a \<noteq> None)"

lemma owner_count_pos: "finite (dom (vars \<sigma>)) \<Longrightarrow> x \<in> owners \<sigma> a \<Longrightarrow> 0 < owner_count \<sigma> raw a"
  using finite_owners [of \<sigma> a] by (auto simp: owner_count_def card_gt_0_iff)

lemma alive_held: "counted \<sigma> raw \<Longrightarrow> alive \<sigma> (held \<sigma> x)"
  using owner_count_pos [of \<sigma> x] counted_alive [of \<sigma> raw]
  by (fastforce simp: alive_def owner_held counted_def)

lemma AddRef_opt_counted:
  assumes "counted \<sigma> raw" "room \<sigma> raw" "alive \<sigma> p"
  shows "returns (AddRef_opt p \<sigma>) (\<lambda>\<sigma>'. counted \<sigma>' (add_raw p raw) \<and> vars \<sigma>' = vars \<sigma> \<and> payload \<sigma>' = payload \<sigma>)"
  using assms AddRef_counted [of \<sigma> raw]
  by (cases p) (auto simp: AddRef_opt_def add_raw_def alive_def room_def)

lemma Release_opt_counted:
  assumes "counted \<sigma> (add_raw p raw)" "\<And>a. owner_count \<sigma> (add_raw p raw) a \<le> 2147483647"
  shows "returns (Release_opt p \<sigma>) (\<lambda>\<sigma>'. counted \<sigma>' raw \<and> vars \<sigma>' = vars \<sigma> \<and> map_le (payload \<sigma>') (payload \<sigma>))"
proof (cases p)
  case None
  with assms show ?thesis by (simp add: Release_opt_def)
next
  case (Some a)
  then have raw: "(add_raw p raw)(a := add_raw p raw a - 1) = raw" by (auto simp: add_raw_def)
  have "returns (Release a \<sigma>) (\<lambda>(status, \<sigma>'). counted \<sigma>' ((add_raw p raw)(a := add_raw p raw a - 1)) \<and> vars \<sigma>' = vars \<sigma> \<and>
      payload \<sigma>' = (if owner_count \<sigma> (add_raw p raw) a = 1 then (payload \<sigma>)(a := None) else payload \<sigma>))"
    using assms add_raw_pos Some by (intro Release_counted) auto
  then show ?thesis
    unfolding raw by (auto simp: Release_opt_def Some map_le_def elim!: returns_mono split: if_splits)
qed

lemma refptr_from_counted:
  assumes "counted \<sigma> raw" "room \<sigma> raw" "alive \<sigma> p" "held \<sigma> x = None"
  shows "returns (AddRef_opt p (set_ptr x p \<sigma>)) (\<lambda>\<sigma>'. counted \<sigma>' raw \<and> vars \<sigma>' = (vars \<sigma>)(x \<mapsto> p) \<and> payload \<sigma>' = payload \<sigma>)"
proof -
  have "returns (AddRef_opt p \<sigma>) (\<lambda>\<sigma>'. counted (set_ptr x p \<sigma>') raw \<and> vars (set_ptr x p \<sigma>') = (vars \<sigma>)(x \<mapsto> p) \<and>
      payload (set_ptr x p \<sigma>') = payload \<sigma>)"
  proof (rule returns_mono [OF AddRef_opt_counted [OF assms(1-3)]])
    fix \<sigma>'
    assume s: "counted \<sigma>' (add_raw p raw) \<and> vars \<sigma>' = vars \<sigma> \<and> payload \<sigma>' = payload \<sigma>"
    then have h: "held \<sigma>' x = None" using assms(4) by (simp add: held_def)
    show "counted (set_ptr x p \<sigma>') raw \<and> vars (set_ptr x p \<sigma>') = (vars \<sigma>)(x \<mapsto> p) \<and> payload (set_ptr x p \<sigma>') = payload \<sigma>"
      using s set_ptr_counted [of \<sigma>' "add_raw p raw" p x] h by (auto simp: add_raw_pos)
  qed
  moreover have "AddRef_opt p (set_ptr x p \<sigma>) = rbind (AddRef_opt p \<sigma>) (\<lambda>\<sigma>'. Inr (\<sigma>'\<lparr>vars := (vars \<sigma>)(x \<mapsto> p)\<rparr>))"
    by (simp add: set_ptr_def AddRef_opt_vars)
  moreover have "AddRef_opt p \<sigma> = Inr \<sigma>' \<Longrightarrow> set_ptr x p \<sigma>' = \<sigma>'\<lparr>vars := (vars \<sigma>)(x \<mapsto> p)\<rparr>" for \<sigma>'
    by (auto simp: set_ptr_def AddRef_opt_def AddRef_def split: option.splits prod.splits)
  ultimately show ?thesis by (cases "AddRef_opt p \<sigma>") auto
qed

lemma refptr_delete_counted:
  assumes "counted \<sigma> raw" "\<And>a. owner_count \<sigma> raw a \<le> 2147483647" "vars \<sigma> x \<noteq> None"
  shows "returns (refptr_delete x \<sigma>) (\<lambda>\<sigma>'. counted \<sigma>' raw \<and> vars \<sigma>' = (vars \<sigma>)(x := None) \<and> map_le (payload \<sigma>') (payload \<sigma>))"
proof -
  let ?f = "(vars \<sigma>)(x := None)"
  have g: "get x \<sigma> = Inr (held \<sigma> x)" using assms(3) by (auto simp: get_def held_def)
  have "returns (Release_opt (held \<sigma> x) (\<sigma>\<lparr>vars := ?f\<rparr>))
      (\<lambda>\<sigma>'. counted \<sigma>' raw \<and> vars \<sigma>' = vars (\<sigma>\<lparr>vars := ?f\<rparr>) \<and> map_le (payload \<sigma>') (payload (\<sigma>\<lparr>vars := ?f\<rparr>)))"
    using kill_counted [OF assms(1), of x] assms(2) by (intro Release_opt_counted) auto
  moreover have "rbind (Release_opt (held \<sigma> x) \<sigma>) (\<lambda>\<sigma>'. Inr (\<sigma>'\<lparr>vars := (vars \<sigma>')(x := None)\<rparr>)) =
      Release_opt (held \<sigma> x) (\<sigma>\<lparr>vars := ?f\<rparr>)"
    by (auto simp: Release_opt_vars Release_opt_def Release_def Let_def split: option.splits prod.splits)
  ultimately show ?thesis by (auto simp: refptr_delete_def g elim!: returns_mono)
qed

text \<open>The second half of an assignment, when the reference to the new object has been taken.\<close>

lemma assign_counted:
  assumes c1: "counted \<sigma>1 (add_raw p raw)" and le: "\<And>a. owner_count \<sigma>1 (add_raw p raw) a \<le> 2147483647"
    and x: "vars \<sigma>1 x \<noteq> None"
  shows "returns (rbind (get x \<sigma>1) (\<lambda>old. rbind (Release_opt old \<sigma>1) (\<lambda>\<sigma>. Inr (set_ptr x p \<sigma>))))
      (\<lambda>\<sigma>'. counted \<sigma>' raw \<and> vars \<sigma>' = (vars \<sigma>1)(x \<mapsto> p) \<and> map_le (payload \<sigma>') (payload \<sigma>1))"
proof -
  have g: "get x \<sigma>1 = Inr (held \<sigma>1 x)" using x by (auto simp: get_def held_def)
  have fin: "finite (dom (vars \<sigma>1))" using c1 by (simp add: counted_def)
  have pos: "\<And>b. p = Some b \<Longrightarrow> 0 < add_raw (held \<sigma>1 x) (add_raw p raw) b"
    by (rule add_raw_pos)
  have c: "counted (set_ptr x p \<sigma>1) (add_raw (held \<sigma>1 x) raw)"
    using set_ptr_counted [OF c1, of p x] pos by simp
  have "owner_count (set_ptr x p \<sigma>1) (add_raw (held \<sigma>1 x) raw) a \<le> 2147483647" for a
    using set_ptr_owner_count [of \<sigma>1 p x "add_raw p raw" a] fin pos le by simp
  from Release_opt_counted [OF c this]
  have "returns (Release_opt (held \<sigma>1 x) (set_ptr x p \<sigma>1)) (\<lambda>\<sigma>'. counted \<sigma>' raw \<and> vars \<sigma>' = (vars \<sigma>1)(x \<mapsto> p) \<and>
      map_le (payload \<sigma>') (payload \<sigma>1))"
    by simp
  moreover have "rbind (Release_opt (held \<sigma>1 x) \<sigma>1) (\<lambda>\<sigma>. Inr (set_ptr x p \<sigma>)) = Release_opt (held \<sigma>1 x) (set_ptr x p \<sigma>1)"
    by (auto simp: set_ptr_def Release_opt_def Release_def Let_def split: option.splits prod.splits)
  ultimately show ?thesis by (simp add: g)
qed

lemma refptr_assign_ptr_counted:
  assumes "counted \<sigma> raw" "room \<sigma> raw" "alive \<sigma> p" "vars \<sigma> x \<noteq> None"
  shows "returns (refptr_assign_ptr x p \<sigma>) (\<lambda>\<sigma>'. counted \<sigma>' raw \<and> vars \<sigma>' = (vars \<sigma>)(x \<mapsto> p) \<and> map_le (payload \<sigma>') (payload \<sigma>))"
proof -
  obtain \<sigma>1 where s1: "AddRef_opt p \<sigma> = Inr \<sigma>1" "counted \<sigma>1 (add_raw p raw)" "vars \<sigma>1 = vars \<sigma>" "payload \<sigma>1 = payload \<sigma>"
    using AddRef_opt_counted [OF assms(1-3)] by (auto elim: returnsE)
  have own: "owners \<sigma>1 = owners \<sigma>" using s1(3) by (simp add: owners_def fun_eq_iff)
  have "owner_count \<sigma>1 (add_raw p raw) a \<le> Suc (owner_count \<sigma> raw a)" for a
    by (auto simp: owner_count_def own add_raw_def split: option.splits)
  moreover have "Suc (owner_count \<sigma> raw a) \<le> 2147483647" for a
    using assms(2) by (simp add: room_def Suc_le_eq)
  ultimately have "owner_count \<sigma>1 (add_raw p raw) a \<le> 2147483647" for a
    using le_trans by blast
  from assign_counted [OF s1(2) this, of x] assms(4) s1(3,4) show ?thesis
    by (simp add: refptr_assign_ptr_def s1(1))
qed

text \<open>The assignment of a new object, whose only reference is the one the assignment takes.\<close>

lemma assign_new_counted:
  assumes "counted \<sigma> raw" "room \<sigma> raw" "objects \<sigma> a = None" "vars \<sigma> x \<noteq> None"
  shows "returns (refptr_assign_ptr x (Some a) (RefCountedObject_new a v \<sigma>)) (\<lambda>\<sigma>'. counted \<sigma>' raw \<and>
      vars \<sigma>' = (vars \<sigma>)(x \<mapsto> Some a) \<and> map_le (payload \<sigma>') ((payload \<sigma>)(a \<mapsto> v)))"
proof -
  let ?s = "\<sigma>\<lparr>objects := (objects \<sigma>)(a \<mapsto> (1, v))\<rparr>"
  have z: "owner_count \<sigma> raw a = 0" using counted_alive [OF assms(1), of a] assms(3) by simp
  then have c: "counted ?s (add_raw (Some a) raw)"
    by (intro counted_object [OF assms(1)]) (auto simp: owner_count_def add_raw_def)
  have "owner_count ?s (add_raw (Some a) raw) b \<le> 2147483647" for b
    using assms(2) z by (auto simp: owner_count_def add_raw_def room_def less_imp_le)
  from assign_counted [OF c this, of x] assms(4)
  have "returns (rbind (get x ?s) (\<lambda>old. rbind (Release_opt old ?s) (\<lambda>\<sigma>. Inr (set_ptr x (Some a) \<sigma>))))
      (\<lambda>\<sigma>'. counted \<sigma>' raw \<and> vars \<sigma>' = (vars \<sigma>)(x \<mapsto> Some a) \<and> map_le (payload \<sigma>') (payload ?s))"
    by simp
  moreover have "payload ?s = (payload \<sigma>)(a \<mapsto> v)" by (simp add: payload_def fun_eq_iff)
  moreover have "AddRef_opt (Some a) (RefCountedObject_new a v \<sigma>) = Inr ?s"
    by (simp add: AddRef_opt_def AddRef_def RefCountedObject_new_def IncRef_def in_range_def)
  ultimately show ?thesis by (simp add: refptr_assign_ptr_def)
qed

lemma refptr_swap_counted:
  assumes "counted \<sigma> raw" "vars \<sigma> x \<noteq> None" "vars \<sigma> r \<noteq> None"
  shows "returns (refptr_swap x r \<sigma>) (\<lambda>\<sigma>'. counted \<sigma>' raw \<and> vars \<sigma>' = (vars \<sigma>)(x := vars \<sigma> r, r := vars \<sigma> x) \<and>
      payload \<sigma>' = payload \<sigma>)"
proof -
  let ?p = "held \<sigma> x" and ?q = "held \<sigma> r"
  have g: "get x \<sigma> = Inr ?p" "get r \<sigma> = Inr ?q" and v: "vars \<sigma> x = Some ?p" "vars \<sigma> r = Some ?q"
    using assms(2,3) by (auto simp: get_def held_def)
  have "counted (set_ptr r ?p (set_ptr x ?q \<sigma>)) raw"
  proof (cases "x = r")
    case True
    then have "set_ptr r ?p (set_ptr x ?q \<sigma>) = \<sigma>" using v by (simp add: set_ptr_def fun_upd_idem)
    with assms(1) show ?thesis by simp
  next
    case False
    have c1: "counted (set_ptr x None \<sigma>) (add_raw ?p raw)" using set_ptr_counted [OF assms(1), of None x] by simp
    have c2: "counted (set_ptr r None (set_ptr x None \<sigma>)) (add_raw ?q (add_raw ?p raw))"
      using set_ptr_counted [OF c1, of None r] False by simp
    have c3: "counted (set_ptr x ?q (set_ptr r None (set_ptr x None \<sigma>))) (add_raw ?p raw)"
      using set_ptr_counted [OF c2, of ?q x] False by (simp add: add_raw_pos)
    have "counted (set_ptr r ?p (set_ptr x ?q (set_ptr r None (set_ptr x None \<sigma>)))) raw"
      using set_ptr_counted [OF c3, of ?p r] False by (simp add: add_raw_pos)
    then show ?thesis using False by (simp add: set_ptr_def fun_upd_twist)
  qed
  then show ?thesis using v by (simp add: refptr_swap_def g)
qed

lemma refptr_move_counted:
  assumes "counted \<sigma> raw" "vars \<sigma> x = None" "vars \<sigma> r \<noteq> None"
  shows "returns (refptr_move x r \<sigma>) (\<lambda>\<sigma>'. counted \<sigma>' raw \<and> vars \<sigma>' = (vars \<sigma>)(r \<mapsto> None, x := vars \<sigma> r) \<and>
      payload \<sigma>' = payload \<sigma>)"
proof -
  let ?q = "held \<sigma> r"
  have ne: "x \<noteq> r" using assms(2,3) by auto
  have g: "get r \<sigma> = Inr ?q" and v: "vars \<sigma> r = Some ?q" "held \<sigma> x = None"
    using assms(2,3) by (auto simp: get_def held_def)
  have c1: "counted (set_ptr r None \<sigma>) (add_raw ?q raw)" using set_ptr_counted [OF assms(1), of None r] by simp
  have "counted (set_ptr x ?q (set_ptr r None \<sigma>)) raw"
    using set_ptr_counted [OF c1, of ?q x] ne v(2) by (simp add: add_raw_pos)
  then show ?thesis using v(1) by (simp add: refptr_move_def refptr_release_def g)
qed

lemma move_owner_count:
  assumes "counted \<sigma> raw" "counted \<sigma>' raw" "objects \<sigma>' = objects \<sigma>"
  shows "owner_count \<sigma>' raw a = owner_count \<sigma> raw a"
proof -
  from assms have "(if owner_count \<sigma>' raw a = 0 then None else Some (int (owner_count \<sigma>' raw a))) =
      (if owner_count \<sigma> raw a = 0 then None else Some (int (owner_count \<sigma> raw a)))"
    by (metis (no_types, lifting) counted_def)
  then show ?thesis by (auto split: if_splits)
qed

lemma refptr_move_assign_counted:
  assumes "counted \<sigma> raw" "room \<sigma> raw" "vars \<sigma> t = None" "vars \<sigma> x \<noteq> None" "vars \<sigma> r \<noteq> None"
  shows "returns (refptr_move_assign t x r \<sigma>) (\<lambda>\<sigma>'. counted \<sigma>' raw \<and>
      vars \<sigma>' = (vars \<sigma>)(r \<mapsto> None, x := vars \<sigma> r) \<and> map_le (payload \<sigma>') (payload \<sigma>))"
proof -
  obtain \<sigma>1 where s1: "refptr_move t r \<sigma> = Inr \<sigma>1" "counted \<sigma>1 raw" "vars \<sigma>1 = (vars \<sigma>)(r \<mapsto> None, t := vars \<sigma> r)"
      "payload \<sigma>1 = payload \<sigma>"
    using refptr_move_counted [OF assms(1,3,5)] by (auto elim: returnsE)
  have o1: "objects \<sigma>1 = objects \<sigma>"
    using s1(1) by (auto simp: refptr_move_def refptr_release_def rbind_eq_Inr)
  have v1: "vars \<sigma>1 t \<noteq> None" "vars \<sigma>1 x \<noteq> None" using s1(3) assms(3-5) by auto
  obtain \<sigma>2 where s2: "refptr_swap t x \<sigma>1 = Inr \<sigma>2" "counted \<sigma>2 raw"
      "vars \<sigma>2 = (vars \<sigma>1)(t := vars \<sigma>1 x, x := vars \<sigma>1 t)" "payload \<sigma>2 = payload \<sigma>1"
    using refptr_swap_counted [OF s1(2) v1] by (auto elim: returnsE)
  have o2: "objects \<sigma>2 = objects \<sigma>1"
    using s2(1) by (auto simp: refptr_swap_def rbind_eq_Inr)
  have "owner_count \<sigma>2 raw a \<le> 2147483647" for a
    using move_owner_count [OF assms(1) s2(2), of a] o1 o2 assms(2) by (simp add: room_def less_imp_le)
  from refptr_delete_counted [OF s2(2) this, of t] s2(3) v1
  have "returns (refptr_delete t \<sigma>2) (\<lambda>\<sigma>'. counted \<sigma>' raw \<and> vars \<sigma>' = (vars \<sigma>2)(t := None) \<and> map_le (payload \<sigma>') (payload \<sigma>2))"
    by auto
  moreover have "(vars \<sigma>2)(t := None) = (vars \<sigma>)(r \<mapsto> None, x := vars \<sigma> r)"
    using assms(3-5) by (auto simp: s2(3) s1(3) fun_eq_iff)
  ultimately show ?thesis by (simp add: refptr_move_assign_def s1(1,4) s2(1,4))
qed

section \<open>Programs over reference counted pointers\<close>

datatype ref_op =
    Declare nat
  | From nat "nat option"
  | Copy nat nat
  | Move nat nat
  | Destroy nat
  | AssignPtr nat "nat option"
  | Assign nat nat
  | MoveAssign nat nat nat
  | Swap nat nat

fun exec :: "ref_op \<Rightarrow> 'o rstate \<Rightarrow> 'o rstate checked" where
  "exec (Declare x) \<sigma> = Inr (refptr_null x \<sigma>)"
| "exec (From x p) \<sigma> = refptr_from x p \<sigma>"
| "exec (Copy x r) \<sigma> = refptr_copy x r \<sigma>"
| "exec (Move x r) \<sigma> = refptr_move x r \<sigma>"
| "exec (Destroy x) \<sigma> = refptr_delete x \<sigma>"
| "exec (AssignPtr x p) \<sigma> = refptr_assign_ptr x p \<sigma>"
| "exec (Assign x r) \<sigma> = refptr_assign x r \<sigma>"
| "exec (MoveAssign t x r) \<sigma> = refptr_move_assign t x r \<sigma>"
| "exec (Swap x r) \<sigma> = refptr_swap x r \<sigma>"

text \<open>
  What the language guarantees: constructors make new variables, the other operations act on
  existing ones, and a raw pointer handed in points to an object that exists.
\<close>

fun legal :: "'o rstate \<Rightarrow> ref_op \<Rightarrow> bool" where
  "legal \<sigma> (Declare x) \<longleftrightarrow> vars \<sigma> x = None"
| "legal \<sigma> (From x p) \<longleftrightarrow> vars \<sigma> x = None \<and> alive \<sigma> p"
| "legal \<sigma> (Copy x r) \<longleftrightarrow> vars \<sigma> x = None \<and> vars \<sigma> r \<noteq> None"
| "legal \<sigma> (Move x r) \<longleftrightarrow> vars \<sigma> x = None \<and> vars \<sigma> r \<noteq> None"
| "legal \<sigma> (Destroy x) \<longleftrightarrow> vars \<sigma> x \<noteq> None"
| "legal \<sigma> (AssignPtr x p) \<longleftrightarrow> vars \<sigma> x \<noteq> None \<and> alive \<sigma> p"
| "legal \<sigma> (Assign x r) \<longleftrightarrow> vars \<sigma> x \<noteq> None \<and> vars \<sigma> r \<noteq> None"
| "legal \<sigma> (MoveAssign t x r) \<longleftrightarrow> vars \<sigma> t = None \<and> vars \<sigma> x \<noteq> None \<and> vars \<sigma> r \<noteq> None"
| "legal \<sigma> (Swap x r) \<longleftrightarrow> vars \<sigma> x \<noteq> None \<and> vars \<sigma> r \<noteq> None"

lemma exec_counted:
  assumes "counted \<sigma> raw" "room \<sigma> raw" "legal \<sigma> op"
  shows "returns (exec op \<sigma>) (\<lambda>\<sigma>'. counted \<sigma>' raw \<and> map_le (payload \<sigma>') (payload \<sigma>))"
proof -
  have le: "\<And>a. owner_count \<sigma> raw a \<le> 2147483647" using assms(2) by (simp add: room_def less_imp_le)
  have held: "get r \<sigma> = Inr (held \<sigma> r)" if "vars \<sigma> r \<noteq> None" for r using that by (auto simp: get_def held_def)
  have none: "held \<sigma> x = None" if "vars \<sigma> x = None" for x using that by (simp add: held_def)
  show ?thesis
  proof (cases op)
    case (Declare x)
    with assms set_ptr_counted [OF assms(1), of None x] none show ?thesis by (simp add: refptr_null_def)
  next
    case (From x p)
    with assms none refptr_from_counted [OF assms(1,2), of p x] show ?thesis
      by (auto simp: refptr_from_def elim!: returns_mono)
  next
    case (Copy x r)
    with assms none held refptr_from_counted [OF assms(1,2) alive_held [OF assms(1)], of x r] show ?thesis
      by (auto simp: refptr_copy_def elim!: returns_mono)
  next
    case (Move x r)
    with assms refptr_move_counted [OF assms(1), of x r] show ?thesis by (auto elim!: returns_mono)
  next
    case (Destroy x)
    with assms refptr_delete_counted [OF assms(1) le, of x] show ?thesis by (auto elim!: returns_mono)
  next
    case (AssignPtr x p)
    with assms refptr_assign_ptr_counted [OF assms(1,2), of p x] show ?thesis by (auto elim!: returns_mono)
  next
    case (Assign x r)
    with assms held refptr_assign_ptr_counted [OF assms(1,2) alive_held [OF assms(1)], of x r] show ?thesis
      by (auto simp: refptr_assign_def elim!: returns_mono)
  next
    case (MoveAssign t x r)
    with assms refptr_move_assign_counted [OF assms(1,2), of t x r] show ?thesis by (auto elim!: returns_mono)
  next
    case (Swap x r)
    with assms refptr_swap_counted [OF assms(1), of x r] show ?thesis by (auto elim!: returns_mono)
  qed
qed

text \<open>
  The states of a program: it runs operations on its pointers, makes objects and hands them to a
  new pointer, keeps references in raw pointers and drops them, and changes the objects.
\<close>

inductive refptr_reachable :: "'o rstate \<Rightarrow> (nat \<Rightarrow> nat) \<Rightarrow> bool" where
  start: "refptr_reachable \<lparr>objects = (\<lambda>_. None), vars = (\<lambda>_. None)\<rparr> (\<lambda>_. 0)"
| step: "refptr_reachable \<sigma>' raw"
    if "refptr_reachable \<sigma> raw" "room \<sigma> raw" "legal \<sigma> op" "exec op \<sigma> = Inr \<sigma>'"
| create: "refptr_reachable \<sigma>' raw"
    if "refptr_reachable \<sigma> raw" "objects \<sigma> a = None" "vars \<sigma> x = None"
      "refptr_from x (Some a) (RefCountedObject_new a v \<sigma>) = Inr \<sigma>'"
| take: "refptr_reachable \<sigma>' (add_raw p raw)"
    if "refptr_reachable \<sigma> raw" "refptr_release x \<sigma> = Inr (p, \<sigma>')"
| share: "refptr_reachable \<sigma>' (raw(a := Suc (raw a)))"
    if "refptr_reachable \<sigma> raw" "room \<sigma> raw" "objects \<sigma> a \<noteq> None" "AddRef a \<sigma> = Inr \<sigma>'"
| drop: "refptr_reachable \<sigma>' (raw(a := raw a - 1))"
    if "refptr_reachable \<sigma> raw" "room \<sigma> raw" "0 < raw a" "Release a \<sigma> = Inr (status, \<sigma>')"
| modify: "refptr_reachable (\<sigma>\<lparr>objects := (objects \<sigma>)(a \<mapsto> (n, v'))\<rparr>) raw"
    if "refptr_reachable \<sigma> raw" "objects \<sigma> a = Some (n, v)"

lemma create_counted:
  assumes "counted \<sigma> raw" "objects \<sigma> a = None" "held \<sigma> x = None"
  shows "returns (refptr_from x (Some a) (RefCountedObject_new a v \<sigma>)) (\<lambda>\<sigma>'. counted \<sigma>' raw \<and>
      vars \<sigma>' = (vars \<sigma>)(x \<mapsto> Some a) \<and> payload \<sigma>' = (payload \<sigma>)(a \<mapsto> v))"
proof -
  let ?s = "\<sigma>\<lparr>objects := (objects \<sigma>)(a \<mapsto> (1, v))\<rparr>"
  have "owner_count \<sigma> raw a = 0" using counted_alive [OF assms(1), of a] assms(2) by simp
  then have "counted ?s (add_raw (Some a) raw)"
    by (intro counted_object [OF assms(1)]) (auto simp: owner_count_def add_raw_def)
  from set_ptr_counted [OF this, of "Some a" x] assms(3)
  have "counted (set_ptr x (Some a) ?s) raw" by (simp add: add_raw_pos held_def)
  moreover have "refptr_from x (Some a) (RefCountedObject_new a v \<sigma>) = Inr (set_ptr x (Some a) ?s)"
    by (simp add: refptr_from_def AddRef_opt_def AddRef_def RefCountedObject_new_def set_ptr_def IncRef_def in_range_def)
  ultimately show ?thesis by (simp add: payload_def fun_eq_iff)
qed

lemma reachable_counted: "refptr_reachable \<sigma> raw \<Longrightarrow> counted \<sigma> raw"
proof (induction rule: refptr_reachable.induct)
  case start
  show ?case by (simp add: counted_def owner_count_def owners_def)
next
  case (step \<sigma> raw op \<sigma>')
  with exec_counted [of \<sigma> raw op] show ?case by simp
next
  case (create \<sigma> raw a x v \<sigma>')
  with create_counted [of \<sigma> raw a x v] show ?case by (simp add: held_def)
next
  case (take \<sigma> raw x p \<sigma>')
  then have "p = held \<sigma> x" "\<sigma>' = set_ptr x None \<sigma>"
    by (auto simp: refptr_release_def get_def held_def split: option.splits)
  with set_ptr_counted [OF take.IH, of None x] show ?case by simp
next
  case (share \<sigma> raw a \<sigma>')
  with AddRef_counted [of \<sigma> raw a] show ?case by (simp add: room_def fun_upd_def)
next
  case (drop \<sigma> raw a status \<sigma>')
  with Release_counted [of \<sigma> raw a] show ?case by (simp add: room_def less_imp_le fun_upd_def)
next
  case (modify \<sigma> raw a n v v')
  then show ?case
    using counted_count [of \<sigma> raw a n v] counted_alive [of \<sigma> raw a]
    by (intro counted_object [OF modify.IH]) auto
qed

lemma sole_owner:
  assumes "counted \<sigma> raw" "HasOneRef a \<sigma> = Inr True" "vars \<sigma> x = Some (Some a)"
  shows "owners \<sigma> a = {x}" "raw a = 0"
proof -
  from assms(1) have fin: "finite (owners \<sigma> a)" by (simp add: counted_def finite_owners)
  have "owner_count \<sigma> raw a = 1"
    using assms(2) counted_count [OF assms(1), of a]
    by (auto simp: HasOneRef_def counter_HasOneRef_def split: option.splits prod.splits)
  moreover have x: "x \<in> owners \<sigma> a" using assms(3) by (simp add: owners_def)
  moreover from x fin have "0 < card (owners \<sigma> a)" by (auto simp: card_gt_0_iff)
  ultimately have "card (owners \<sigma> a) = 1" and "raw a = 0" by (auto simp: owner_count_def)
  then show "owners \<sigma> a = {x}" "raw a = 0" using x by (auto simp: card_1_singleton_iff)
qed

section \<open>The theorem\<close>

text \<open>
  (C23) Reference counting is safe.  In every state a program can reach, an object exists exactly
  as long as a pointer or a raw reference owns it, so nothing leaks and nothing is freed early, and
  its counter is the number of owners.  Unless some object has 2147483647 owners, every operation on
  existing pointers returns: it touches no deleted object, self assignment included, and it never
  changes an object that survives.  A count of one means that no other pointer shares the object.
\<close>

theorem refptr_safe:
  assumes "refptr_reachable \<sigma> raw"
  shows "(objects \<sigma> a \<noteq> None \<longleftrightarrow> (\<exists>x. vars \<sigma> x = Some (Some a)) \<or> 0 < raw a) \<and>
    (objects \<sigma> a = Some (n, v) \<longrightarrow> n = int (card {x. vars \<sigma> x = Some (Some a)} + raw a)) \<and>
    (room \<sigma> raw \<longrightarrow> legal \<sigma> op \<longrightarrow> returns (exec op \<sigma>)
      (\<lambda>\<sigma>'. refptr_reachable \<sigma>' raw \<and> (\<forall>a v. payload \<sigma>' a = Some v \<longrightarrow> payload \<sigma> a = Some v))) \<and>
    (HasOneRef a \<sigma> = Inr True \<longrightarrow> vars \<sigma> x = Some (Some a) \<longrightarrow> vars \<sigma> y = Some (Some a) \<longrightarrow> y = x)"
proof (intro conjI impI)
  note c = reachable_counted [OF assms]
  then have fin: "finite (owners \<sigma> a)" by (simp add: counted_def finite_owners)
  show "objects \<sigma> a \<noteq> None \<longleftrightarrow> (\<exists>x. vars \<sigma> x = Some (Some a)) \<or> 0 < raw a"
    using counted_alive [OF c, of a] fin by (auto simp: owner_count_def card_gt_0_iff owners_def)
  show "n = int (card {x. vars \<sigma> x = Some (Some a)} + raw a)" if "objects \<sigma> a = Some (n, v)"
    using counted_count [OF c that] by (simp add: owner_count_def owners_def)
  show "returns (exec op \<sigma>) (\<lambda>\<sigma>'. refptr_reachable \<sigma>' raw \<and> (\<forall>a v. payload \<sigma>' a = Some v \<longrightarrow> payload \<sigma> a = Some v))"
    if "room \<sigma> raw" "legal \<sigma> op"
    using exec_counted [OF c that] refptr_reachable.step [OF assms that]
    by (auto simp: map_le_def dom_def elim!: returnsE)
  show "y = x" if "HasOneRef a \<sigma> = Inr True" "vars \<sigma> x = Some (Some a)" "vars \<sigma> y = Some (Some a)"
    using sole_owner(1) [OF c that(1,2)] that(3) by (auto simp: owners_def)
qed

end
