(* ===== verification/Rtc_CowBuffer.thy ===== *)
theory Rtc_CowBuffer
  imports Rtc_Buffer Rtc_RefPtr
begin

text \<open>
  \<^verbatim>\<open>rtc::CopyOnWriteBuffer\<close> of \<^verbatim>\<open>rtc_base/copy_on_write_buffer.h\<close>: a
  \<^verbatim>\<open>scoped_refptr\<close> to a reference counted \<^verbatim>\<open>Buffer\<close> that several buffers share
  until one of them writes.

  A copy-on-write buffer is its variable \<^verbatim>\<open>buffer_\<close> in the store of
  \<open>Rtc_RefPtr\<close>, whose objects are the buffers of \<open>Rtc_Buffer\<close>; the address of an object
  that an operation allocates is an argument.  \<^verbatim>\<open>CloneDataIfReferenced\<close> is declared in the header
  and defined in a file that is not part of the repository, so it is a parameter \<open>clone\<close> of the
  operations that call it; \<open>cloned\<close> states its documented effect.  The constructors,
  \<^verbatim>\<open>SetSize\<close>, \<^verbatim>\<open>EnsureCapacity\<close>, \<^verbatim>\<open>Clear\<close> and
  \<^verbatim>\<open>operator==\<close> are only declared there too and are not modelled.
\<close>

type_synonym 'a cow_state = "'a BufferT rstate"

section \<open>Operations\<close>

definition buffer_at :: "nat \<Rightarrow> 'a cow_state \<Rightarrow> 'a BufferT checked" where
  "buffer_at a \<sigma> = (case objects \<sigma> a of None \<Rightarrow> Inl Undefined | Some (n, b) \<Rightarrow> Inr b)"

definition store_buffer :: "nat \<Rightarrow> 'a BufferT \<Rightarrow> 'a cow_state \<Rightarrow> 'a cow_state" where
  "store_buffer a b \<sigma> =
     (case objects \<sigma> a of None \<Rightarrow> \<sigma> | Some (n, _) \<Rightarrow> \<sigma>\<lparr>objects := (objects \<sigma>)(a \<mapsto> (n, b))\<rparr>)"

definition cow_IsConsistent :: "nat \<Rightarrow> 'a cow_state \<Rightarrow> bool checked" where
  "cow_IsConsistent x \<sigma> =
     rbind (get x \<sigma>) (\<lambda>p. case p of
        None \<Rightarrow> Inr True
      | Some a \<Rightarrow> rbind (buffer_at a \<sigma>) (\<lambda>b. Inr (0 < buf_capacity b)))"

definition cow_dcheck :: "bool \<Rightarrow> nat \<Rightarrow> 'a cow_state \<Rightarrow> unit checked" where
  "cow_dcheck d x \<sigma> = (if d then rbind (cow_IsConsistent x \<sigma>) (RTC_DCHECK d) else Inr ())"

definition cow_size :: "bool \<Rightarrow> nat \<Rightarrow> 'a cow_state \<Rightarrow> nat checked" where
  "cow_size d x \<sigma> =
     rbind (cow_dcheck d x \<sigma>) (\<lambda>_. rbind (get x \<sigma>) (\<lambda>p. case p of
        None \<Rightarrow> Inr 0
      | Some a \<Rightarrow> rbind (buffer_at a \<sigma>) (buffer_size d)))"

definition cow_capacity :: "bool \<Rightarrow> nat \<Rightarrow> 'a cow_state \<Rightarrow> nat checked" where
  "cow_capacity d x \<sigma> =
     rbind (cow_dcheck d x \<sigma>) (\<lambda>_. rbind (get x \<sigma>) (\<lambda>p. case p of
        None \<Rightarrow> Inr 0
      | Some a \<Rightarrow> rbind (buffer_at a \<sigma>) (buffer_capacity d)))"

definition cow_get :: "bool \<Rightarrow> nat \<Rightarrow> nat \<Rightarrow> 'a cow_state \<Rightarrow> 'a checked" where
  "cow_get d x i \<sigma> =
     rbind (cow_size d x \<sigma>) (\<lambda>n. rbind (RTC_DCHECK d (i < n)) (\<lambda>_.
     rbind (cow_dcheck d x \<sigma>) (\<lambda>_. rbind (get x \<sigma>) (\<lambda>p. case p of
        None \<Rightarrow> Inl Undefined
      | Some a \<Rightarrow> rbind (buffer_at a \<sigma>) (\<lambda>b. read_cell (buf_data b) i)))))"

text \<open>The writable pointer: the data is made exclusive first.  Null when there is no buffer.\<close>

definition cow_data :: "bool \<Rightarrow> (nat \<Rightarrow> nat \<Rightarrow> 'a cow_state \<Rightarrow> 'a cow_state checked) \<Rightarrow> nat \<Rightarrow>
    'a cow_state \<Rightarrow> (nat option \<times> 'a cow_state) checked" where
  "cow_data d clone x \<sigma> =
     rbind (cow_dcheck d x \<sigma>) (\<lambda>_. rbind (get x \<sigma>) (\<lambda>p. case p of
        None \<Rightarrow> Inr (None, \<sigma>)
      | Some a \<Rightarrow>
          rbind (rbind (buffer_at a \<sigma>) (buffer_capacity d)) (\<lambda>cap.
          rbind (clone x cap \<sigma>) (\<lambda>\<sigma>. rbind (get x \<sigma>) (\<lambda>q. Inr (q, \<sigma>))))))"

definition cow_put :: "bool \<Rightarrow> (nat \<Rightarrow> nat \<Rightarrow> 'a cow_state \<Rightarrow> 'a cow_state checked) \<Rightarrow> nat \<Rightarrow> nat \<Rightarrow> 'a \<Rightarrow>
    'a cow_state \<Rightarrow> 'a cow_state checked" where
  "cow_put d clone x i v \<sigma> =
     rbind (cow_size d x \<sigma>) (\<lambda>n. rbind (RTC_DCHECK d (i < n)) (\<lambda>_.
     rbind (cow_data d clone x \<sigma>) (\<lambda>(q, \<sigma>). case q of
        None \<Rightarrow> Inl Undefined
      | Some a \<Rightarrow>
          rbind (buffer_at a \<sigma>) (\<lambda>b. rbind (memcpy_to (buf_data b) i [Some v]) (\<lambda>p.
          Inr (store_buffer a (b\<lparr>buf_data := p\<rparr>) \<sigma>))))))"

definition cow_assign :: "bool \<Rightarrow> nat \<Rightarrow> nat \<Rightarrow> 'a cow_state \<Rightarrow> 'a cow_state checked" where
  "cow_assign d x r \<sigma> =
     rbind (cow_dcheck d x \<sigma>) (\<lambda>_. rbind (cow_dcheck d r \<sigma>) (\<lambda>_.
     if r \<noteq> x then refptr_assign x r \<sigma> else Inr \<sigma>))"

definition cow_move_assign :: "bool \<Rightarrow> nat \<Rightarrow> nat \<Rightarrow> nat \<Rightarrow> 'a cow_state \<Rightarrow> 'a cow_state checked" where
  "cow_move_assign d t x r \<sigma> =
     rbind (cow_dcheck d x \<sigma>) (\<lambda>_. rbind (cow_dcheck d r \<sigma>) (\<lambda>_. refptr_move_assign t x r \<sigma>))"

definition cow_new_buffer :: "nat \<Rightarrow> nat \<Rightarrow> 'a list \<Rightarrow> nat \<Rightarrow> 'a cow_state \<Rightarrow> 'a cow_state checked" where
  "cow_new_buffer x fresh xs cap \<sigma> =
     rbind (BufferT_copy xs cap) (\<lambda>b. refptr_assign_ptr x (Some fresh) (RefCountedObject_new fresh b \<sigma>))"

definition cow_SetData :: "bool \<Rightarrow> nat \<Rightarrow> nat \<Rightarrow> 'a::zero list \<Rightarrow> 'a cow_state \<Rightarrow> 'a cow_state checked" where
  "cow_SetData d x fresh xs \<sigma> =
     rbind (cow_dcheck d x \<sigma>) (\<lambda>_. rbind (get x \<sigma>) (\<lambda>p.
     rbind
       (case p of
          None \<Rightarrow> if 0 < length xs then cow_new_buffer x fresh xs (length xs) \<sigma>
                  else refptr_assign_ptr x None \<sigma>
        | Some a \<Rightarrow>
            rbind (HasOneRef a \<sigma>) (\<lambda>one. rbind (buffer_at a \<sigma>) (\<lambda>b.
            if \<not> one then rbind (buffer_capacity d b) (\<lambda>cap. cow_new_buffer x fresh xs cap \<sigma>)
            else rbind (SetData d False xs b) (\<lambda>b'. Inr (store_buffer a b' \<sigma>)))))
       (\<lambda>\<sigma>. rbind (cow_dcheck d x \<sigma>) (\<lambda>_. Inr \<sigma>))))"

definition cow_SetData_buf :: "bool \<Rightarrow> nat \<Rightarrow> nat \<Rightarrow> 'a cow_state \<Rightarrow> 'a cow_state checked" where
  "cow_SetData_buf d x r \<sigma> =
     rbind (cow_dcheck d x \<sigma>) (\<lambda>_. rbind (cow_dcheck d r \<sigma>) (\<lambda>_.
     if r \<noteq> x then refptr_assign x r \<sigma> else Inr \<sigma>))"

definition cow_AppendData :: "bool \<Rightarrow> (nat \<Rightarrow> nat \<Rightarrow> 'a cow_state \<Rightarrow> 'a cow_state checked) \<Rightarrow> nat \<Rightarrow> nat \<Rightarrow>
    'a::zero list \<Rightarrow> 'a cow_state \<Rightarrow> 'a cow_state checked" where
  "cow_AppendData d clone x fresh xs \<sigma> =
     rbind (cow_dcheck d x \<sigma>) (\<lambda>_. rbind (get x \<sigma>) (\<lambda>p. case p of
        None \<Rightarrow>
          rbind (cow_new_buffer x fresh xs (length xs) \<sigma>) (\<lambda>\<sigma>. rbind (cow_dcheck d x \<sigma>) (\<lambda>_. Inr \<sigma>))
      | Some a \<Rightarrow>
          rbind (buffer_at a \<sigma>) (\<lambda>b. rbind (buffer_capacity d b) (\<lambda>cap. rbind (buffer_size d b) (\<lambda>sz.
          rbind (clone x (max cap (size_t_add sz (length xs))) \<sigma>) (\<lambda>\<sigma>.
          rbind (get x \<sigma>) (\<lambda>q. case q of
             None \<Rightarrow> Inl Undefined
           | Some a \<Rightarrow>
               rbind (buffer_at a \<sigma>) (\<lambda>b. rbind (AppendData d False xs b) (\<lambda>b'.
               let \<sigma>' = store_buffer a b' \<sigma> in rbind (cow_dcheck d x \<sigma>') (\<lambda>_. Inr \<sigma>'))))))))))"

definition cow_swap :: "nat \<Rightarrow> nat \<Rightarrow> 'a cow_state \<Rightarrow> 'a cow_state checked" where
  "cow_swap x r \<sigma> = refptr_swap x r \<sigma>"

section \<open>Contents and invariant\<close>

definition cow_contents :: "'a cow_state \<Rightarrow> nat \<Rightarrow> 'a block" where
  "cow_contents \<sigma> x =
     (case held \<sigma> x of
        None \<Rightarrow> []
      | Some a \<Rightarrow> (case payload \<sigma> a of None \<Rightarrow> [] | Some b \<Rightarrow> contents b))"

definition cow_inv :: "'a cow_state \<Rightarrow> bool" where
  "cow_inv \<sigma> \<longleftrightarrow> counted \<sigma> (\<lambda>_. 0) \<and> (\<forall>a b. payload \<sigma> a = Some b \<longrightarrow> buffer_inv b \<and> 0 < buf_capacity b)"

text \<open>
  The documented effect of \<^verbatim>\<open>CloneDataIfReferenced\<close>: the buffer is exclusive
  afterwards, no contents and no other buffer changed, and the invariant of the class holds.
\<close>

definition cloned :: "nat \<Rightarrow> 'a cow_state \<Rightarrow> 'a cow_state \<Rightarrow> bool" where
  "cloned x \<sigma> \<sigma>' \<longleftrightarrow> cow_inv \<sigma>' \<and> (\<exists>a. held \<sigma>' x = Some a \<and> owners \<sigma>' a = {x}) \<and>
     dom (vars \<sigma>') = dom (vars \<sigma>) \<and> (\<forall>y. cow_contents \<sigma>' y = cow_contents \<sigma> y)"

lemma cow_invD:
  assumes "cow_inv \<sigma>" "held \<sigma> x = Some a"
  obtains n b where "objects \<sigma> a = Some (n, b)" "payload \<sigma> a = Some b" "buffer_inv b" "0 < buf_capacity b"
    "vars \<sigma> x = Some (Some a)" "cow_contents \<sigma> x = contents b"
proof -
  from assms alive_held [of \<sigma> "\<lambda>_. 0" x] obtain n b where o: "objects \<sigma> a = Some (n, b)"
    by (auto simp: cow_inv_def alive_def)
  then have p: "payload \<sigma> a = Some b" by (simp add: payload_def)
  with assms have "buffer_inv b" "0 < buf_capacity b" by (auto simp: cow_inv_def)
  moreover have "vars \<sigma> x = Some (Some a)" using assms(2) by (auto simp: held_def split: option.splits)
  ultimately show thesis using that [OF o p] assms(2) p by (simp add: cow_contents_def)
qed

lemma cow_dcheck_ok:
  assumes "cow_inv \<sigma>" "vars \<sigma> x \<noteq> None"
  shows "cow_dcheck d x \<sigma> = Inr ()" "get x \<sigma> = Inr (held \<sigma> x)"
proof -
  show g: "get x \<sigma> = Inr (held \<sigma> x)" using assms(2) by (auto simp: get_def held_def)
  show "cow_dcheck d x \<sigma> = Inr ()"
  proof (cases "held \<sigma> x")
    case None
    with g show ?thesis by (simp add: cow_dcheck_def cow_IsConsistent_def)
  next
    case (Some a)
    from cow_invD [OF assms(1) this] obtain n b where "objects \<sigma> a = Some (n, b)" "0 < buf_capacity b" by metis
    with g Some show ?thesis by (simp add: cow_dcheck_def cow_IsConsistent_def buffer_at_def)
  qed
qed

text \<open>Buffers that keep their pointer, to an object that keeps its value, keep their contents.\<close>

lemma cow_contents_cong:
  assumes "held \<sigma>' y = held \<sigma> y" "\<And>a. held \<sigma> y = Some a \<Longrightarrow> payload \<sigma>' a = payload \<sigma> a"
  shows "cow_contents \<sigma>' y = cow_contents \<sigma> y"
  using assms by (auto simp: cow_contents_def split: option.splits)

lemma surviving_payload:
  assumes "counted \<sigma>' raw" "held \<sigma>' y = Some a" "map_le (payload \<sigma>') P"
  shows "payload \<sigma>' a = P a"
  using alive_held [OF assms(1), of y] assms(2,3) by (auto simp: alive_def map_le_def payload_def dom_def)

definition cow_becomes :: "'a cow_state \<Rightarrow> nat \<Rightarrow> 'a block \<Rightarrow> 'a cow_state \<Rightarrow> bool" where
  "cow_becomes \<sigma> x xs \<sigma>' \<longleftrightarrow> cow_inv \<sigma>' \<and> dom (vars \<sigma>') = dom (vars \<sigma>) \<and> cow_contents \<sigma>' x = xs \<and>
     (\<forall>y. y \<noteq> x \<longrightarrow> cow_contents \<sigma>' y = cow_contents \<sigma> y)"

lemma assign_becomes:
  assumes c: "counted \<sigma>' (\<lambda>_. 0)" and v: "vars \<sigma>' = (vars \<sigma>)(x \<mapsto> p)" and x: "vars \<sigma> x \<noteq> None"
    and le: "map_le (payload \<sigma>') P"
    and P: "\<And>a b. P a = Some b \<Longrightarrow> buffer_inv b \<and> 0 < buf_capacity b"
    and others: "\<And>y a. y \<noteq> x \<Longrightarrow> held \<sigma> y = Some a \<Longrightarrow> P a = payload \<sigma> a"
  shows "cow_becomes \<sigma> x (case p of None \<Rightarrow> [] | Some a \<Rightarrow> (case P a of None \<Rightarrow> [] | Some b \<Rightarrow> contents b)) \<sigma>'"
proof -
  have h: "held \<sigma>' y = (if y = x then p else held \<sigma> y)" for y using v by (simp add: held_def)
  note sp = surviving_payload [OF c _ le]
  have "cow_inv \<sigma>'" using c le P by (auto simp: cow_inv_def map_le_def dom_def)
  moreover have "cow_contents \<sigma>' x = (case p of None \<Rightarrow> [] | Some a \<Rightarrow> (case P a of None \<Rightarrow> [] | Some b \<Rightarrow> contents b))"
    using sp [of x] h [of x] by (auto simp: cow_contents_def split: option.splits)
  moreover have "cow_contents \<sigma>' y = cow_contents \<sigma> y" if "y \<noteq> x" for y
    using that h [of y] sp [of y] others [of y] by (intro cow_contents_cong) auto
  ultimately show ?thesis using v x by (auto simp: cow_becomes_def)
qed

lemma new_buffer_becomes:
  assumes inv: "cow_inv \<sigma>" and room: "room \<sigma> (\<lambda>_. 0)" and fresh: "objects \<sigma> fresh = None"
    and x: "vars \<sigma> x \<noteq> None" and pos: "0 < max (length xs) cap"
  shows "returns (cow_new_buffer x fresh xs cap \<sigma>) (cow_becomes \<sigma> x (map Some xs))"
proof -
  obtain b where b: "BufferT_copy xs cap = Inr b" "buffer_inv b" "contents b = map Some xs" "buf_capacity b = max (length xs) cap"
    using copy_returns [of xs cap] by (auto elim: returnsE)
  from inv have c: "counted \<sigma> (\<lambda>_. 0)" by (simp add: cow_inv_def)
  have nf: "held \<sigma> y \<noteq> Some fresh" for y
    using alive_held [OF c, of y] fresh by (auto simp: alive_def)
  have P: "\<And>a b'. ((payload \<sigma>)(fresh \<mapsto> b)) a = Some b' \<Longrightarrow> buffer_inv b' \<and> 0 < buf_capacity b'"
    using inv b(2,4) pos by (auto simp: cow_inv_def split: if_splits)
  have others: "\<And>y a. y \<noteq> x \<Longrightarrow> held \<sigma> y = Some a \<Longrightarrow> ((payload \<sigma>)(fresh \<mapsto> b)) a = payload \<sigma> a"
    using nf by auto
  have "returns (refptr_assign_ptr x (Some fresh) (RefCountedObject_new fresh b \<sigma>)) (cow_becomes \<sigma> x (map Some xs))"
  proof (rule returns_mono [OF assign_new_counted [OF c room fresh x]])
    fix \<sigma>'
    assume "counted \<sigma>' (\<lambda>_. 0) \<and> vars \<sigma>' = (vars \<sigma>)(x \<mapsto> Some fresh) \<and> map_le (payload \<sigma>') ((payload \<sigma>)(fresh \<mapsto> b))"
    then have s': "counted \<sigma>' (\<lambda>_. 0)" "vars \<sigma>' = (vars \<sigma>)(x \<mapsto> Some fresh)"
        "map_le (payload \<sigma>') ((payload \<sigma>)(fresh \<mapsto> b))" by auto
    show "cow_becomes \<sigma> x (map Some xs) \<sigma>'"
      using assign_becomes [OF s'(1,2) x s'(3)] P others b(3) by simp
  qed
  then show ?thesis by (simp add: cow_new_buffer_def b(1))
qed

lemma store_becomes:
  assumes inv: "cow_inv \<sigma>" and h: "held \<sigma> x = Some a" and sole: "owners \<sigma> a = {x}"
    and b': "buffer_inv b'" "0 < buf_capacity b'"
  shows "cow_becomes \<sigma> x (contents b') (store_buffer a b' \<sigma>)"
proof -
  from cow_invD [OF inv h] obtain n b where o: "objects \<sigma> a = Some (n, b)" by metis
  let ?s = "\<sigma>\<lparr>objects := (objects \<sigma>)(a \<mapsto> (n, b'))\<rparr>"
  have st: "store_buffer a b' \<sigma> = ?s" by (simp add: store_buffer_def o)
  from inv have c: "counted \<sigma> (\<lambda>_. 0)" by (simp add: cow_inv_def)
  have "counted ?s (\<lambda>_. 0)"
    using counted_count [OF c o] counted_alive [OF c, of a] o by (intro counted_object [OF c]) auto
  moreover have p: "payload ?s = (payload \<sigma>)(a \<mapsto> b')" by (simp add: payload_def fun_eq_iff)
  ultimately have "cow_inv ?s" using inv b' by (auto simp: cow_inv_def)
  moreover have hs: "held ?s y = held \<sigma> y" for y by (simp add: held_def)
  have "cow_contents ?s x = contents b'" by (simp add: cow_contents_def hs h p)
  moreover have "cow_contents ?s y = cow_contents \<sigma> y" if "y \<noteq> x" for y
  proof (rule cow_contents_cong [OF hs])
    fix a' assume "held \<sigma> y = Some a'"
    then have "a' \<noteq> a" using sole that by (auto simp: set_eq_iff owner_held)
    then show "payload ?s a' = payload \<sigma> a'" by (simp add: p)
  qed
  ultimately show ?thesis by (simp add: cow_becomes_def st)
qed

lemma cow_becomes_trans:
  assumes "cloned x \<sigma> \<sigma>1" "cow_becomes \<sigma>1 x xs \<sigma>2"
  shows "cow_becomes \<sigma> x xs \<sigma>2"
  using assms by (auto simp: cloned_def cow_becomes_def)

lemma becomes_dcheck:
  assumes "cow_becomes \<sigma> x xs \<sigma>'" "vars \<sigma> x \<noteq> None"
  shows "cow_dcheck d x \<sigma>' = Inr ()"
  using assms by (intro cow_dcheck_ok) (auto simp: cow_becomes_def dom_def set_eq_iff)

lemma zeroed_False [simp]: "zeroed False b"
  by (simp add: zeroed_def)

lemma cow_SetData_becomes:
  assumes inv: "cow_inv \<sigma>" and room: "room \<sigma> (\<lambda>_. 0)" and fresh: "objects \<sigma> fresh = None"
    and x: "vars \<sigma> x \<noteq> None" and len: "length xs < 2 ^ 64"
  shows "returns (cow_SetData d x fresh xs \<sigma>) (cow_becomes \<sigma> x (map Some xs))"
proof -
  from inv have c: "counted \<sigma> (\<lambda>_. 0)" by (simp add: cow_inv_def)
  note start = cow_dcheck_ok [OF inv x]
  have final: "returns (rbind m (\<lambda>\<sigma>'. rbind (cow_dcheck d x \<sigma>') (\<lambda>_. Inr \<sigma>'))) (cow_becomes \<sigma> x (map Some xs))"
    if "returns m (cow_becomes \<sigma> x (map Some xs))" for m
    using that becomes_dcheck [OF _ x] by (auto elim!: returnsE)
  show ?thesis
  proof (cases "held \<sigma> x")
    case None
    have "returns (refptr_assign_ptr x None \<sigma>) (cow_becomes \<sigma> x [])"
      using refptr_assign_ptr_counted [OF c room, of None x] x assign_becomes [of _ \<sigma> x None "payload \<sigma>"] inv
      by (auto simp: alive_def cow_inv_def elim!: returns_mono)
    then have "returns (if 0 < length xs then cow_new_buffer x fresh xs (length xs) \<sigma> else refptr_assign_ptr x None \<sigma>)
        (cow_becomes \<sigma> x (map Some xs))"
      using new_buffer_becomes [OF inv room fresh x, of xs "length xs"] by auto
    from final [OF this] None start show ?thesis by (simp add: cow_SetData_def)
  next
    case (Some a)
    from cow_invD [OF inv Some] obtain n b where o: "objects \<sigma> a = Some (n, b)" and b: "buffer_inv b" "0 < buf_capacity b"
      and v: "vars \<sigma> x = Some (Some a)" by metis
    have at: "buffer_at a \<sigma> = Inr b" using o by (simp add: buffer_at_def)
    have one: "HasOneRef a \<sigma> = Inr (n = 1)" using o by (simp add: HasOneRef_def counter_HasOneRef_def)
    have in_place: "returns (rbind (SetData d False xs b) (\<lambda>b'. Inr (store_buffer a b' \<sigma>))) (cow_becomes \<sigma> x (map Some xs))"
      if "n = 1"
    proof -
      have sole: "owners \<sigma> a = {x}" using sole_owner(1) [OF c _ v] one that by simp
      have "0 < grown b (length xs) True" using b(2) grown_ge(2) [of b "length xs" True] by simp
      then show ?thesis
        using SetData_returns [OF b(1) zeroed_False len, of d] store_becomes [OF inv Some sole]
        by (auto elim!: returnsE) (metis returns_simps(1))
    qed
    have copy: "returns (cow_new_buffer x fresh xs (buf_capacity b) \<sigma>) (cow_becomes \<sigma> x (map Some xs))"
      using new_buffer_becomes [OF inv room fresh x] b(2) by simp
    show ?thesis
      using Some start at one b final [OF copy] final [OF in_place]
      by (cases "n = 1") (simp_all add: cow_SetData_def buffer_capacity_def)
  qed
qed

lemma cow_AppendData_becomes:
  assumes inv: "cow_inv \<sigma>" and room: "room \<sigma> (\<lambda>_. 0)" and fresh: "objects \<sigma> fresh = None"
    and x: "vars \<sigma> x \<noteq> None" and ne: "xs \<noteq> [] \<or> held \<sigma> x \<noteq> None"
    and len: "length (cow_contents \<sigma> x) + length xs < 2 ^ 64"
    and clone: "\<And>cap. 0 < cap \<Longrightarrow> length (cow_contents \<sigma> x) \<le> cap \<Longrightarrow> held \<sigma> x \<noteq> None \<Longrightarrow> returns (clone x cap \<sigma>) (cloned x \<sigma>)"
  shows "returns (cow_AppendData d clone x fresh xs \<sigma>) (cow_becomes \<sigma> x (cow_contents \<sigma> x @ map Some xs))"
proof (cases "held \<sigma> x")
  case None
  with ne have "returns (cow_new_buffer x fresh xs (length xs) \<sigma>) (cow_becomes \<sigma> x (map Some xs))"
    by (intro new_buffer_becomes [OF inv room fresh x]) auto
  moreover have "cow_contents \<sigma> x = []" using None by (simp add: cow_contents_def)
  ultimately show ?thesis
    using None cow_dcheck_ok [OF inv x] becomes_dcheck [OF _ x] by (auto simp: cow_AppendData_def elim!: returnsE)
next
  case (Some a)
  from cow_invD [OF inv Some] obtain n b where o: "objects \<sigma> a = Some (n, b)" and b: "buffer_inv b"
    and cap: "0 < buf_capacity b" "cow_contents \<sigma> x = contents b" by metis
  have at: "buffer_at a \<sigma> = Inr b" using o by (simp add: buffer_at_def)
  have "length (cow_contents \<sigma> x) \<le> buf_capacity b" using cap(2) length_contents [OF b] b by (simp add: buffer_inv_def)
  then have "returns (clone x (max (buf_capacity b) (size_t_add (buf_size b) (length xs))) \<sigma>) (cloned x \<sigma>)"
    using cap(1) Some by (intro clone) auto
  then obtain \<sigma>1 where s1: "clone x (max (buf_capacity b) (size_t_add (buf_size b) (length xs))) \<sigma> = Inr \<sigma>1" "cloned x \<sigma> \<sigma>1"
    by (auto elim: returnsE)
  then obtain a1 where h1: "held \<sigma>1 x = Some a1" and sole: "owners \<sigma>1 a1 = {x}" and inv1: "cow_inv \<sigma>1"
    and same: "cow_contents \<sigma>1 x = cow_contents \<sigma> x" and x1: "vars \<sigma>1 x \<noteq> None"
    using x by (auto simp: cloned_def dom_def set_eq_iff)
  from cow_invD [OF inv1 h1] obtain n1 b1 where o1: "objects \<sigma>1 a1 = Some (n1, b1)" and b1: "buffer_inv b1" "0 < buf_capacity b1"
    "cow_contents \<sigma>1 x = contents b1" by metis
  have at1: "buffer_at a1 \<sigma>1 = Inr b1" using o1 by (simp add: buffer_at_def)
  have "buf_size b1 + length xs < 2 ^ 64" using len same b1 length_contents [OF b1(1)] by simp
  then obtain b2 where b2: "AppendData d False xs b1 = Inr b2" "buffer_inv b2" "contents b2 = cow_contents \<sigma> x @ map Some xs"
      "0 < buf_capacity b2"
    using AppendData_returns [OF b1(1) zeroed_False, of xs d] grown_ge(2) [of b1 "buf_size b1 + length xs" True] b1 same
    by (auto elim!: returnsE)
  have bec: "cow_becomes \<sigma> x (cow_contents \<sigma> x @ map Some xs) (store_buffer a1 b2 \<sigma>1)"
    using cow_becomes_trans [OF s1(2) store_becomes [OF inv1 h1 sole b2(2,4)]] b2(3) by simp
  show ?thesis
    using Some at b s1(1) at1 b2(1) h1 bec becomes_dcheck [OF bec x, of d] cow_dcheck_ok [OF inv x] cow_dcheck_ok(2) [OF inv1 x1]
    by (simp add: cow_AppendData_def buffer_capacity_def buffer_size_def)
qed

lemma cow_put_becomes:
  assumes inv: "cow_inv \<sigma>" and x: "vars \<sigma> x \<noteq> None" and i: "i < length (cow_contents \<sigma> x)"
    and clone: "\<And>cap. 0 < cap \<Longrightarrow> length (cow_contents \<sigma> x) \<le> cap \<Longrightarrow> returns (clone x cap \<sigma>) (cloned x \<sigma>)"
  shows "returns (cow_put d clone x i v \<sigma>) (cow_becomes \<sigma> x ((cow_contents \<sigma> x)[i := Some v]))"
proof -
  from i obtain a where Some: "held \<sigma> x = Some a" by (cases "held \<sigma> x") (auto simp: cow_contents_def)
  from cow_invD [OF inv Some] obtain n b where o: "objects \<sigma> a = Some (n, b)" and b: "buffer_inv b" "cow_contents \<sigma> x = contents b"
    "0 < buf_capacity b" by metis
  have at: "buffer_at a \<sigma> = Inr b" using o by (simp add: buffer_at_def)
  have sz: "i < buf_size b" using i b length_contents [OF b(1)] by simp
  have "length (cow_contents \<sigma> x) \<le> buf_capacity b" using b(1,2) length_contents [OF b(1)] by (simp add: buffer_inv_def)
  note clone = clone [OF b(3) this]
  obtain \<sigma>1 where s1: "clone x (buf_capacity b) \<sigma> = Inr \<sigma>1" "cloned x \<sigma> \<sigma>1" using clone by (auto elim: returnsE)
  then obtain a1 where h1: "held \<sigma>1 x = Some a1" and sole: "owners \<sigma>1 a1 = {x}" and inv1: "cow_inv \<sigma>1"
    and same: "cow_contents \<sigma>1 x = cow_contents \<sigma> x" and x1: "vars \<sigma>1 x \<noteq> None"
    using x by (auto simp: cloned_def dom_def set_eq_iff)
  from cow_invD [OF inv1 h1] obtain n1 b1 where o1: "objects \<sigma>1 a1 = Some (n1, b1)" and b1: "buffer_inv b1" "0 < buf_capacity b1"
    "cow_contents \<sigma>1 x = contents b1" by metis
  have at1: "buffer_at a1 \<sigma>1 = Inr b1" using o1 by (simp add: buffer_at_def)
  have i1: "i < buf_size b1" using i same b1 length_contents [OF b1(1)] by simp
  obtain p where p: "memcpy_to (buf_data b1) i [Some v] = Inr p" "buffer_inv (b1\<lparr>buf_data := p\<rparr>)"
      "contents (b1\<lparr>buf_data := p\<rparr>) = (contents b1)[i := Some v]"
    using get_after_put [OF b1(1) i1, of d v] i1 b1(1)
    by (auto simp: buffer_put_def rbind_eq_Inr elim!: returnsE)
  have bec: "cow_becomes \<sigma> x ((cow_contents \<sigma> x)[i := Some v]) (store_buffer a1 (b1\<lparr>buf_data := p\<rparr>) \<sigma>1)"
    using cow_becomes_trans [OF s1(2) store_becomes [OF inv1 h1 sole p(2)]] p(3) b1(2,3) same by simp
  show ?thesis
    using Some at b(1) sz s1(1) at1 p(1) h1 bec cow_dcheck_ok [OF inv x] cow_dcheck_ok(2) [OF inv1 x1]
    by (simp add: cow_put_def cow_size_def cow_data_def buffer_capacity_def buffer_size_def)
qed

lemma cow_assign_becomes:
  assumes inv: "cow_inv \<sigma>" and room: "room \<sigma> (\<lambda>_. 0)" and x: "vars \<sigma> x \<noteq> None" and r: "vars \<sigma> r \<noteq> None"
  shows "returns (cow_assign d x r \<sigma>) (cow_becomes \<sigma> x (cow_contents \<sigma> r))"
proof (cases "r = x")
  case True
  with inv x show ?thesis by (simp add: cow_assign_def cow_dcheck_ok cow_becomes_def)
next
  case False
  from inv have c: "counted \<sigma> (\<lambda>_. 0)" by (simp add: cow_inv_def)
  have P: "\<And>a b. payload \<sigma> a = Some b \<Longrightarrow> buffer_inv b \<and> 0 < buf_capacity b" using inv by (simp add: cow_inv_def)
  have "returns (refptr_assign_ptr x (held \<sigma> r) \<sigma>) (cow_becomes \<sigma> x (cow_contents \<sigma> r))"
  proof (rule returns_mono [OF refptr_assign_ptr_counted [OF c room alive_held [OF c] x]])
    fix \<sigma>'
    assume "counted \<sigma>' (\<lambda>_. 0) \<and> vars \<sigma>' = (vars \<sigma>)(x \<mapsto> held \<sigma> r) \<and> map_le (payload \<sigma>') (payload \<sigma>)"
    then show "cow_becomes \<sigma> x (cow_contents \<sigma> r) \<sigma>'"
      using assign_becomes [OF _ _ x _ P refl, of \<sigma>' "held \<sigma> r"] by (simp add: cow_contents_def)
  qed
  with False show ?thesis
    using cow_dcheck_ok [OF inv x] cow_dcheck_ok [OF inv r] by (simp add: cow_assign_def refptr_assign_def)
qed

text \<open>The same pointer in a later state, in which surviving objects keep their values.\<close>

lemma contents_moved:
  assumes "counted \<sigma>' raw" "map_le (payload \<sigma>') (payload \<sigma>)" "held \<sigma>' y = held \<sigma> z"
  shows "cow_contents \<sigma>' y = cow_contents \<sigma> z"
  using surviving_payload [OF assms(1) _ assms(2), of y] assms(3) by (auto simp: cow_contents_def split: option.splits)

lemma inv_moved:
  assumes "cow_inv \<sigma>" "counted \<sigma>' (\<lambda>_. 0)" "map_le (payload \<sigma>') (payload \<sigma>)"
  shows "cow_inv \<sigma>'"
  using assms by (auto simp: cow_inv_def map_le_def dom_def)

lemma cow_swap_swaps:
  assumes inv: "cow_inv \<sigma>" and x: "vars \<sigma> x \<noteq> None" and r: "vars \<sigma> r \<noteq> None"
  shows "returns (cow_swap x r \<sigma>) (\<lambda>\<sigma>'. cow_inv \<sigma>' \<and> dom (vars \<sigma>') = dom (vars \<sigma>) \<and>
    (\<forall>y. cow_contents \<sigma>' y = cow_contents \<sigma> (if y = x then r else if y = r then x else y)))"
proof -
  from inv have c: "counted \<sigma> (\<lambda>_. 0)" by (simp add: cow_inv_def)
  show ?thesis
    unfolding cow_swap_def
  proof (rule returns_mono [OF refptr_swap_counted [OF c x r]])
    fix \<sigma>'
    assume a: "counted \<sigma>' (\<lambda>_. 0) \<and> vars \<sigma>' = (vars \<sigma>)(x := vars \<sigma> r, r := vars \<sigma> x) \<and> payload \<sigma>' = payload \<sigma>"
    then have "cow_contents \<sigma>' y = cow_contents \<sigma> (if y = x then r else if y = r then x else y)" for y
      by (intro contents_moved [of _ "\<lambda>_. 0"]) (auto simp: held_def)
    moreover have "cow_inv \<sigma>'" using a by (intro inv_moved [OF inv]) auto
    moreover have "dom (vars \<sigma>') = dom (vars \<sigma>)" using a x r by auto
    ultimately show "cow_inv \<sigma>' \<and> dom (vars \<sigma>') = dom (vars \<sigma>) \<and>
      (\<forall>y. cow_contents \<sigma>' y = cow_contents \<sigma> (if y = x then r else if y = r then x else y))" by simp
  qed
qed

lemma cow_move_assign_moves:
  assumes inv: "cow_inv \<sigma>" and room: "room \<sigma> (\<lambda>_. 0)" and t: "vars \<sigma> t = None" and x: "vars \<sigma> x \<noteq> None" and r: "vars \<sigma> r \<noteq> None"
  shows "returns (cow_move_assign d t x r \<sigma>) (\<lambda>\<sigma>'. cow_inv \<sigma>' \<and> dom (vars \<sigma>') = dom (vars \<sigma>) \<and>
    (\<forall>y. cow_contents \<sigma>' y = (if y = x then cow_contents \<sigma> r else if y = r then [] else cow_contents \<sigma> y)))"
proof -
  from inv have c: "counted \<sigma> (\<lambda>_. 0)" by (simp add: cow_inv_def)
  have "returns (refptr_move_assign t x r \<sigma>) (\<lambda>\<sigma>'. cow_inv \<sigma>' \<and> dom (vars \<sigma>') = dom (vars \<sigma>) \<and>
    (\<forall>y. cow_contents \<sigma>' y = (if y = x then cow_contents \<sigma> r else if y = r then [] else cow_contents \<sigma> y)))"
  proof (rule returns_mono [OF refptr_move_assign_counted [OF c room t x r]])
    fix \<sigma>'
    assume a: "counted \<sigma>' (\<lambda>_. 0) \<and> vars \<sigma>' = (vars \<sigma>)(r \<mapsto> None, x := vars \<sigma> r) \<and> map_le (payload \<sigma>') (payload \<sigma>)"
    then have "cow_contents \<sigma>' y = cow_contents \<sigma> (if y = x then r else y)" if "y = x \<or> y \<noteq> r" for y
      using that by (intro contents_moved [of _ "\<lambda>_. 0"]) (auto simp: held_def)
    moreover have "cow_contents \<sigma>' r = []" if "r \<noteq> x" using a that by (simp add: cow_contents_def held_def)
    moreover have "cow_inv \<sigma>'" using a by (intro inv_moved [OF inv]) auto
    moreover have "dom (vars \<sigma>') = dom (vars \<sigma>)" using a x r by auto
    ultimately show "cow_inv \<sigma>' \<and> dom (vars \<sigma>') = dom (vars \<sigma>) \<and>
      (\<forall>y. cow_contents \<sigma>' y = (if y = x then cow_contents \<sigma> r else if y = r then [] else cow_contents \<sigma> y))" by auto
  qed
  then show ?thesis using cow_dcheck_ok(1) [OF inv x] cow_dcheck_ok(1) [OF inv r] by (simp add: cow_move_assign_def)
qed

text \<open>What a client reads are the contents.\<close>

lemma cow_reads:
  assumes inv: "cow_inv \<sigma>" and x: "vars \<sigma> x \<noteq> None"
  shows "cow_size d x \<sigma> = Inr (length (cow_contents \<sigma> x))"
    and "i < length (cow_contents \<sigma> x) \<Longrightarrow> cow_contents \<sigma> x ! i = Some v \<Longrightarrow> cow_get d x i \<sigma> = Inr v"
proof -
  show sz: "cow_size d x \<sigma> = Inr (length (cow_contents \<sigma> x))"
  proof (cases "held \<sigma> x")
    case None
    then show ?thesis using cow_dcheck_ok [OF inv x] by (simp add: cow_size_def cow_contents_def)
  next
    case (Some a)
    from cow_invD [OF inv this] obtain n b where b: "objects \<sigma> a = Some (n, b)" "buffer_inv b" "cow_contents \<sigma> x = contents b" by metis
    then show ?thesis using Some cow_dcheck_ok [OF inv x] length_contents [OF b(2)]
      by (simp add: cow_size_def buffer_at_def buffer_size_def)
  qed
  assume i: "i < length (cow_contents \<sigma> x)" "cow_contents \<sigma> x ! i = Some v"
  then obtain a where a: "held \<sigma> x = Some a" by (cases "held \<sigma> x") (auto simp: cow_contents_def)
  from cow_invD [OF inv a] obtain n b where b: "objects \<sigma> a = Some (n, b)" "buffer_inv b" "cow_contents \<sigma> x = contents b" by metis
  have "read_cell (buf_data b) i = Inr v"
    using i b length_contents [OF b(2)] by (auto simp: read_cell_def contents_def cells_def split: option.splits)
  then show "cow_get d x i \<sigma> = Inr v" using sz i(1) a b(1) cow_dcheck_ok [OF inv x] by (simp add: cow_get_def buffer_at_def)
qed

lemma cow_SetData_buf_assign: "cow_SetData_buf d x r \<sigma> = cow_assign d x r \<sigma>"
  by (simp add: cow_SetData_buf_def cow_assign_def)

section \<open>The theorem\<close>

text \<open>
  (C24) Copies are independent.  A client reads the contents of its buffer.  Writing a byte of one copy-on-write buffer,
  replacing its contents by bytes or by another buffer, appending bytes to it and copying another buffer into it gives exactly that
  buffer the new contents and leaves the contents of every other buffer alone, shared or not.  The operations that change two
  buffers change no third one: the move assignment gives the contents of its source to the target and leaves the source
  empty, and \<^verbatim>\<open>swap\<close> exchanges the contents.  All keep the invariant of the class.  The exception is an empty
  append to a buffer without data: it installs a buffer of capacity zero, which the assertion of the class rejects.
  \<^verbatim>\<open>CloneDataIfReferenced\<close> is assumed to do what is documented, for a buffer with data and a positive capacity that holds its size.
\<close>

theorem cow_copies_independent:
  assumes inv: "cow_inv \<sigma>" and room: "room \<sigma> (\<lambda>_. 0)" and fresh: "objects \<sigma> fresh = None"
    and x: "vars \<sigma> x \<noteq> None" and r: "vars \<sigma> r \<noteq> None" and t: "vars \<sigma> t = None"
    and clone: "\<And>cap. 0 < cap \<Longrightarrow> length (cow_contents \<sigma> x) \<le> cap \<Longrightarrow> held \<sigma> x \<noteq> None \<Longrightarrow> returns (clone x cap \<sigma>) (cloned x \<sigma>)"
  shows "(length xs < 2 ^ 64 \<longrightarrow> returns (cow_SetData d x fresh xs \<sigma>) (cow_becomes \<sigma> x (map Some xs))) \<and>
    (xs \<noteq> [] \<or> held \<sigma> x \<noteq> None \<longrightarrow> length (cow_contents \<sigma> x) + length xs < 2 ^ 64 \<longrightarrow>
      returns (cow_AppendData d clone x fresh xs \<sigma>) (cow_becomes \<sigma> x (cow_contents \<sigma> x @ map Some xs))) \<and>
    (i < length (cow_contents \<sigma> x) \<longrightarrow>
      returns (cow_put d clone x i v \<sigma>) (cow_becomes \<sigma> x ((cow_contents \<sigma> x)[i := Some v]))) \<and>
    returns (cow_assign d x r \<sigma>) (cow_becomes \<sigma> x (cow_contents \<sigma> r)) \<and>
    returns (cow_SetData_buf d x r \<sigma>) (cow_becomes \<sigma> x (cow_contents \<sigma> r)) \<and>
    returns (cow_move_assign d t x r \<sigma>) (\<lambda>\<sigma>'. cow_inv \<sigma>' \<and> dom (vars \<sigma>') = dom (vars \<sigma>) \<and>
      (\<forall>y. cow_contents \<sigma>' y = (if y = x then cow_contents \<sigma> r else if y = r then [] else cow_contents \<sigma> y))) \<and>
    returns (cow_swap x r \<sigma>) (\<lambda>\<sigma>'. cow_inv \<sigma>' \<and> dom (vars \<sigma>') = dom (vars \<sigma>) \<and>
      (\<forall>y. cow_contents \<sigma>' y = cow_contents \<sigma> (if y = x then r else if y = r then x else y))) \<and>
    cow_size d x \<sigma> = Inr (length (cow_contents \<sigma> x)) \<and>
    (i < length (cow_contents \<sigma> x) \<and> cow_contents \<sigma> x ! i = Some v \<longrightarrow> cow_get d x i \<sigma> = Inr v) \<and>
    (held \<sigma> x = None \<longrightarrow> cow_AppendData True clone x fresh [] \<sigma> = Inl DcheckFailed)"
proof (intro conjI impI)
  show "returns (cow_SetData d x fresh xs \<sigma>) (cow_becomes \<sigma> x (map Some xs))" if "length xs < 2 ^ 64"
    by (rule cow_SetData_becomes [OF inv room fresh x that])
  show "returns (cow_AppendData d clone x fresh xs \<sigma>) (cow_becomes \<sigma> x (cow_contents \<sigma> x @ map Some xs))"
    if "xs \<noteq> [] \<or> held \<sigma> x \<noteq> None" "length (cow_contents \<sigma> x) + length xs < 2 ^ 64"
    by (rule cow_AppendData_becomes [OF inv room fresh x that]) (rule clone)
  show "returns (cow_put d clone x i v \<sigma>) (cow_becomes \<sigma> x ((cow_contents \<sigma> x)[i := Some v]))"
    if "i < length (cow_contents \<sigma> x)"
    using that by (intro cow_put_becomes [OF inv x that] clone) (auto simp: cow_contents_def split: option.splits)
  show assign: "returns (cow_assign d x r \<sigma>) (cow_becomes \<sigma> x (cow_contents \<sigma> r))" by (rule cow_assign_becomes [OF inv room x r])
  show "returns (cow_SetData_buf d x r \<sigma>) (cow_becomes \<sigma> x (cow_contents \<sigma> r))" unfolding cow_SetData_buf_assign by (rule assign)
  show "returns (cow_move_assign d t x r \<sigma>) (\<lambda>\<sigma>'. cow_inv \<sigma>' \<and> dom (vars \<sigma>') = dom (vars \<sigma>) \<and>
      (\<forall>y. cow_contents \<sigma>' y = (if y = x then cow_contents \<sigma> r else if y = r then [] else cow_contents \<sigma> y)))"
    by (rule cow_move_assign_moves [OF inv room t x r])
  show "returns (cow_swap x r \<sigma>) (\<lambda>\<sigma>'. cow_inv \<sigma>' \<and> dom (vars \<sigma>') = dom (vars \<sigma>) \<and>
      (\<forall>y. cow_contents \<sigma>' y = cow_contents \<sigma> (if y = x then r else if y = r then x else y)))"
    by (rule cow_swap_swaps [OF inv x r])
  show "cow_size d x \<sigma> = Inr (length (cow_contents \<sigma> x))" by (rule cow_reads [OF inv x])
  show "cow_get d x i \<sigma> = Inr v" if "i < length (cow_contents \<sigma> x) \<and> cow_contents \<sigma> x ! i = Some v"
    using that cow_reads(2) [OF inv x] by blast
  show "cow_AppendData True clone x fresh [] \<sigma> = Inl DcheckFailed" if h: "held \<sigma> x = None"
  proof -
    have v: "vars \<sigma> x = Some None" using h x by (auto simp: held_def split: option.splits)
    show ?thesis
      using cow_dcheck_ok [OF inv x] h v fresh
      by (simp add: cow_AppendData_def cow_new_buffer_def BufferT_copy_def BufferT_sized_def memcpy_to_def
          refptr_assign_ptr_def AddRef_opt_def AddRef_def RefCountedObject_new_def get_def held_def Release_opt_def
          set_ptr_def cow_dcheck_def cow_IsConsistent_def buffer_at_def)
  qed
qed

end
