(* ===== verification/Rtc_ByteIO.thy ===== *)
theory Rtc_ByteIO
  imports Rtc_Numeric
begin

text \<open>
  \<^verbatim>\<open>ByteReader\<close> and \<^verbatim>\<open>ByteWriter\<close> of
  \<^verbatim>\<open>modules/rtp_rtcp/source/byte_io.h\<close>: integers of every type as big or little endian
  sequences of a given number of bytes, with the generic loops, the specialisations for one, two, four
  and eight bytes, and the sign extension of the signed readers.

  The memory behind a pointer is the list of its bytes; an access behind its end is
  \<^const>\<open>Undefined\<close>.  Shifts are those of C++: the count must be less than the width of the
  promoted operand, and a signed operand must be non-negative and keep its bits within the width.
\<close>

section \<open>Shifts and memory\<close>

definition shl :: "ctype \<Rightarrow> int \<Rightarrow> nat \<Rightarrow> int checked" where
  "shl t v n =
     (if 8 * sizeof (promote t) \<le> n then Inl Undefined
      else if is_signed (promote t) \<and> (v < 0 \<or> type_card (promote t) \<le> v * 2 ^ n) then Inl Undefined
      else Inr (static_cast (promote t) (v * 2 ^ n)))"

definition shr :: "ctype \<Rightarrow> int \<Rightarrow> nat \<Rightarrow> int checked" where
  "shr t v n = (if 8 * sizeof (promote t) \<le> n then Inl Undefined else Inr (v div 2 ^ n))"

definition byte_at :: "u8 list \<Rightarrow> nat \<Rightarrow> int checked" where
  "byte_at data i = (if i < length data then Inr (uint (data ! i)) else Inl Undefined)"

definition put_byte :: "u8 list \<Rightarrow> nat \<Rightarrow> int \<Rightarrow> u8 list checked" where
  "put_byte data i v = (if i < length data then Inr (data[i := word_of_int v]) else Inl Undefined)"

fun UnsignedOf :: "ctype \<Rightarrow> ctype" where
  "UnsignedOf Int8 = Uint8" | "UnsignedOf Int16 = Uint16"
| "UnsignedOf Int32 = Uint32" | "UnsignedOf Int64 = Uint64"
| "UnsignedOf t = t"

text \<open>The \<^verbatim>\<open>static_assert\<close>s: which instances compile.  A single byte needs a type of one byte.\<close>

definition instantiable :: "ctype \<Rightarrow> nat \<Rightarrow> bool" where
  "instantiable T B \<longleftrightarrow> 1 \<le> B \<and> B \<le> sizeof T \<and> (B = 1 \<longrightarrow> sizeof T = 1)"

section \<open>Readers\<close>

fun big_loop :: "ctype \<Rightarrow> nat \<Rightarrow> u8 list \<Rightarrow> nat list \<Rightarrow> int \<Rightarrow> int checked" where
  "big_loop T B data [] val = Inr val"
| "big_loop T B data (i # is) val =
     rbind (byte_at data i) (\<lambda>b.
     rbind (shl T (static_cast T b) ((B - 1 - i) * 8)) (\<lambda>x.
     big_loop T B data is (static_cast T (val OR x))))"

definition InternalReadBigEndian :: "ctype \<Rightarrow> nat \<Rightarrow> u8 list \<Rightarrow> int checked" where
  "InternalReadBigEndian T B data = big_loop T B data [0..<B] 0"

fun little_loop :: "ctype \<Rightarrow> nat \<Rightarrow> u8 list \<Rightarrow> nat list \<Rightarrow> int \<Rightarrow> int checked" where
  "little_loop T B data [] val = Inr val"
| "little_loop T B data (i # is) val =
     rbind (byte_at data i) (\<lambda>b.
     rbind (shl T (static_cast T b) (i * 8)) (\<lambda>x.
     little_loop T B data is (static_cast T (val OR x))))"

definition InternalReadLittleEndian :: "ctype \<Rightarrow> nat \<Rightarrow> u8 list \<Rightarrow> int checked" where
  "InternalReadLittleEndian T B data = little_loop T B data [0..<B] 0"

text \<open>The specialisations.  A byte is promoted to \<^verbatim>\<open>int\<close> in those for two bytes.\<close>

definition Get :: "ctype \<Rightarrow> u8 list \<Rightarrow> nat \<Rightarrow> int checked" where
  "Get T data index = rbind (byte_at data index) (\<lambda>b. Inr (static_cast T b))"

definition Get_shl :: "ctype \<Rightarrow> u8 list \<Rightarrow> nat \<Rightarrow> nat \<Rightarrow> int checked" where
  "Get_shl T data index n = rbind (Get T data index) (\<lambda>b. shl T b n)"

definition ReadBigEndian_2 :: "ctype \<Rightarrow> u8 list \<Rightarrow> int checked" where
  "ReadBigEndian_2 T data =
     rbind (byte_at data 0) (\<lambda>a. rbind (byte_at data 1) (\<lambda>b.
     rbind (shl Uint8 a 8) (\<lambda>x. Inr (static_cast T (x OR b)))))"

definition ReadLittleEndian_2 :: "ctype \<Rightarrow> u8 list \<Rightarrow> int checked" where
  "ReadLittleEndian_2 T data =
     rbind (byte_at data 0) (\<lambda>a. rbind (byte_at data 1) (\<lambda>b.
     rbind (shl Uint8 b 8) (\<lambda>x. Inr (static_cast T (a OR x)))))"

fun or_all :: "int checked list \<Rightarrow> int \<Rightarrow> int checked" where
  "or_all [] val = Inr val"
| "or_all (m # ms) val = rbind m (\<lambda>x. or_all ms (val OR x))"

definition ReadBigEndian_4 :: "ctype \<Rightarrow> u8 list \<Rightarrow> int checked" where
  "ReadBigEndian_4 T data =
     rbind (Get_shl T data 0 24) (or_all [Get_shl T data 1 16, Get_shl T data 2 8, Get T data 3])"

definition ReadLittleEndian_4 :: "ctype \<Rightarrow> u8 list \<Rightarrow> int checked" where
  "ReadLittleEndian_4 T data =
     rbind (Get T data 0) (or_all [Get_shl T data 1 8, Get_shl T data 2 16, Get_shl T data 3 24])"

definition ReadBigEndian_8 :: "ctype \<Rightarrow> u8 list \<Rightarrow> int checked" where
  "ReadBigEndian_8 T data =
     rbind (Get_shl T data 0 56) (or_all [Get_shl T data 1 48, Get_shl T data 2 40,
       Get_shl T data 3 32, Get_shl T data 4 24, Get_shl T data 5 16, Get_shl T data 6 8, Get T data 7])"

definition ReadLittleEndian_8 :: "ctype \<Rightarrow> u8 list \<Rightarrow> int checked" where
  "ReadLittleEndian_8 T data =
     rbind (Get T data 0) (or_all [Get_shl T data 1 8, Get_shl T data 2 16,
       Get_shl T data 3 24, Get_shl T data 4 32, Get_shl T data 5 40, Get_shl T data 6 48, Get_shl T data 7 56])"

definition ReadBigEndian_unsigned :: "ctype \<Rightarrow> nat \<Rightarrow> u8 list \<Rightarrow> int checked" where
  "ReadBigEndian_unsigned T B data =
     (if B = 1 then rbind (byte_at data 0) (\<lambda>b. Inr (static_cast T b))
      else if B = 2 then ReadBigEndian_2 T data
      else if B = 4 then ReadBigEndian_4 T data
      else if B = 8 then ReadBigEndian_8 T data
      else InternalReadBigEndian T B data)"

definition ReadLittleEndian_unsigned :: "ctype \<Rightarrow> nat \<Rightarrow> u8 list \<Rightarrow> int checked" where
  "ReadLittleEndian_unsigned T B data =
     (if B = 1 then rbind (byte_at data 0) (\<lambda>b. Inr (static_cast T b))
      else if B = 2 then ReadLittleEndian_2 T data
      else if B = 4 then ReadLittleEndian_4 T data
      else if B = 8 then ReadLittleEndian_8 T data
      else InternalReadLittleEndian T B data)"

definition ReinterpretAsSigned :: "ctype \<Rightarrow> int \<Rightarrow> int" where
  "ReinterpretAsSigned T unsigned_val =
     (let kUnsignedHighestBitMask = 2 ^ (sizeof (UnsignedOf T) * 8 - 1);
          kSignedHighestBitMask = type_min T in
      if unsigned_val AND kUnsignedHighestBitMask \<noteq> 0
      then static_cast T (unsigned_val AND NOT kUnsignedHighestBitMask) OR kSignedHighestBitMask
      else static_cast T unsigned_val)"

text \<open>The constant 1 of the mask is an \<^verbatim>\<open>int\<close>, whatever the type that is read.\<close>

definition SignExtend :: "ctype \<Rightarrow> nat \<Rightarrow> int \<Rightarrow> int checked" where
  "SignExtend T B val =
     (let U = UnsignedOf T in
      rbind (shr U val ((B - 1) * 8)) (\<lambda>m.
      let kMsb = static_cast Uint8 m in
      if kMsb AND 0x80 \<noteq> 0 then
        rbind (shl Int32 1 ((B mod sizeof T) * 8)) (\<lambda>x.
        let kUsedBitsMask = static_cast U (x - 1) in
        Inr (static_cast U (NOT kUsedBitsMask OR val)))
      else Inr val))"

definition finish_signed :: "ctype \<Rightarrow> nat \<Rightarrow> int \<Rightarrow> int checked" where
  "finish_signed T B v =
     (let unsigned_val = static_cast (UnsignedOf T) v in
      rbind (if B < sizeof T then SignExtend T B unsigned_val else Inr unsigned_val) (\<lambda>u.
      Inr (ReinterpretAsSigned T u)))"

definition ReadBigEndian :: "ctype \<Rightarrow> nat \<Rightarrow> u8 list \<Rightarrow> int checked" where
  "ReadBigEndian T B data =
     (if is_signed T then rbind (ReadBigEndian_unsigned T B data) (finish_signed T B)
      else ReadBigEndian_unsigned T B data)"

definition ReadLittleEndian :: "ctype \<Rightarrow> nat \<Rightarrow> u8 list \<Rightarrow> int checked" where
  "ReadLittleEndian T B data =
     (if is_signed T then rbind (ReadLittleEndian_unsigned T B data) (finish_signed T B)
      else ReadLittleEndian_unsigned T B data)"

section \<open>Writers\<close>

text \<open>
  \<^verbatim>\<open>data[i] = val >> n;\<close> for a list of positions and counts.  The single byte and the
  last one of the specialisations are not shifted, which is a shift by 0.
\<close>

fun put_all :: "ctype \<Rightarrow> int \<Rightarrow> (nat \<times> nat) list \<Rightarrow> u8 list \<Rightarrow> u8 list checked" where
  "put_all U val [] data = Inr data"
| "put_all U val ((i, n) # ps) data =
     rbind (shr U val n) (\<lambda>x. rbind (put_byte data i x) (put_all U val ps))"

definition WriteBigEndian_1 :: "ctype \<Rightarrow> u8 list \<Rightarrow> int \<Rightarrow> u8 list checked" where
  "WriteBigEndian_1 U data val = put_all U val [(0, 0)] data"

definition WriteLittleEndian_1 :: "ctype \<Rightarrow> u8 list \<Rightarrow> int \<Rightarrow> u8 list checked" where
  "WriteLittleEndian_1 U data val = put_all U val [(0, 0)] data"

definition WriteBigEndian_2 :: "ctype \<Rightarrow> u8 list \<Rightarrow> int \<Rightarrow> u8 list checked" where
  "WriteBigEndian_2 U data val = put_all U val [(0, 8), (1, 0)] data"

definition WriteLittleEndian_2 :: "ctype \<Rightarrow> u8 list \<Rightarrow> int \<Rightarrow> u8 list checked" where
  "WriteLittleEndian_2 U data val = put_all U val [(0, 0), (1, 8)] data"

definition WriteBigEndian_4 :: "ctype \<Rightarrow> u8 list \<Rightarrow> int \<Rightarrow> u8 list checked" where
  "WriteBigEndian_4 U data val = put_all U val [(0, 24), (1, 16), (2, 8), (3, 0)] data"

definition WriteLittleEndian_4 :: "ctype \<Rightarrow> u8 list \<Rightarrow> int \<Rightarrow> u8 list checked" where
  "WriteLittleEndian_4 U data val = put_all U val [(0, 0), (1, 8), (2, 16), (3, 24)] data"

definition WriteBigEndian_8 :: "ctype \<Rightarrow> u8 list \<Rightarrow> int \<Rightarrow> u8 list checked" where
  "WriteBigEndian_8 U data val = put_all U val [(0, 56), (1, 48), (2, 40), (3, 32), (4, 24), (5, 16), (6, 8), (7, 0)] data"

definition WriteLittleEndian_8 :: "ctype \<Rightarrow> u8 list \<Rightarrow> int \<Rightarrow> u8 list checked" where
  "WriteLittleEndian_8 U data val = put_all U val [(0, 0), (1, 8), (2, 16), (3, 24), (4, 32), (5, 40), (6, 48), (7, 56)] data"

definition WriteBigEndian_unsigned :: "ctype \<Rightarrow> nat \<Rightarrow> u8 list \<Rightarrow> int \<Rightarrow> u8 list checked" where
  "WriteBigEndian_unsigned U B data val =
     (if B = 1 then WriteBigEndian_1 U data val
      else if B = 2 then WriteBigEndian_2 U data val
      else if B = 4 then WriteBigEndian_4 U data val
      else if B = 8 then WriteBigEndian_8 U data val
      else put_all U val (map (\<lambda>i. (i, (B - 1 - i) * 8)) [0..<B]) data)"

definition WriteLittleEndian_unsigned :: "ctype \<Rightarrow> nat \<Rightarrow> u8 list \<Rightarrow> int \<Rightarrow> u8 list checked" where
  "WriteLittleEndian_unsigned U B data val =
     (if B = 1 then WriteLittleEndian_1 U data val
      else if B = 2 then WriteLittleEndian_2 U data val
      else if B = 4 then WriteLittleEndian_4 U data val
      else if B = 8 then WriteLittleEndian_8 U data val
      else put_all U val (map (\<lambda>i. (i, i * 8)) [0..<B]) data)"

lemmas writer_defs = WriteBigEndian_unsigned_def WriteLittleEndian_unsigned_def WriteBigEndian_1_def WriteLittleEndian_1_def
  WriteBigEndian_2_def WriteLittleEndian_2_def WriteBigEndian_4_def WriteLittleEndian_4_def
  WriteBigEndian_8_def WriteLittleEndian_8_def

definition ReinterpretAsUnsigned :: "ctype \<Rightarrow> int \<Rightarrow> int" where
  "ReinterpretAsUnsigned T val = static_cast (UnsignedOf T) val"

definition WriteBigEndian :: "ctype \<Rightarrow> nat \<Rightarrow> u8 list \<Rightarrow> int \<Rightarrow> u8 list checked" where
  "WriteBigEndian T B data val =
     (if is_signed T then WriteBigEndian_unsigned (UnsignedOf T) B data (ReinterpretAsUnsigned T val)
      else WriteBigEndian_unsigned T B data val)"

definition WriteLittleEndian :: "ctype \<Rightarrow> nat \<Rightarrow> u8 list \<Rightarrow> int \<Rightarrow> u8 list checked" where
  "WriteLittleEndian T B data val =
     (if is_signed T then WriteLittleEndian_unsigned (UnsignedOf T) B data (ReinterpretAsUnsigned T val)
      else WriteLittleEndian_unsigned T B data val)"

section \<open>Numbers as bytes\<close>

text \<open>The specification: a number is written in base 256, least or most significant byte first.\<close>

fun to_le :: "nat \<Rightarrow> int \<Rightarrow> u8 list" where
  "to_le 0 v = []"
| "to_le (Suc n) v = word_of_int v # to_le n (v div 256)"

fun from_le :: "u8 list \<Rightarrow> int" where
  "from_le [] = 0"
| "from_le (b # bs) = uint b + 256 * from_le bs"

definition to_be :: "nat \<Rightarrow> int \<Rightarrow> u8 list" where
  "to_be n v = rev (to_le n v)"

definition from_be :: "u8 list \<Rightarrow> int" where
  "from_be bs = from_le (rev bs)"

lemma length_to_le [simp]: "length (to_le n v) = n"
  by (induction n v rule: to_le.induct) simp_all

lemma length_to_be [simp]: "length (to_be n v) = n"
  by (simp add: to_be_def)

lemma from_le_append: "from_le (xs @ ys) = from_le xs + 256 ^ length xs * from_le ys"
  by (induction xs) (simp_all add: algebra_simps)

lemma from_le_bounds: "0 \<le> from_le bs \<and> from_le bs < 256 ^ length bs"
proof (induction bs)
  case (Cons b bs)
  have "uint b < 256" "0 \<le> uint b" using uint_bounded [of b] by simp_all
  with Cons show ?case by simp
qed simp

lemma from_le_to_le: "from_le (to_le n v) = v mod 256 ^ n"
proof (induction n v rule: to_le.induct)
  case (2 n v)
  have "v mod (256 * 256 ^ n) = 256 * (v div 256 mod 256 ^ n) + v mod 256"
    by (rule zmod_zmult2_eq) simp
  then show ?case using 2 by (simp add: uint_word_of_int)
qed simp

lemma nth_to_le: "i < n \<Longrightarrow> to_le n v ! i = word_of_int (v div 256 ^ i)"
proof (induction n v arbitrary: i rule: to_le.induct)
  case (2 n v)
  then show ?case
    by (cases i) (simp_all add: div_mult2_eq [symmetric] zdiv_zmult2_eq)
qed simp

lemma from_be_snoc: "from_be (bs @ [b]) = from_be bs * 256 + uint b"
  by (simp add: from_be_def)

lemma from_be_bounds: "0 \<le> from_be bs" "from_be bs < 256 ^ length bs"
  using from_le_bounds [of "rev bs"] by (simp_all add: from_be_def)

lemma uint_byte [simp]: "uint (b :: u8) < 256"
  using uint_bounded [of b] by simp

section \<open>Bits and types\<close>

lemma or_plus: "0 \<le> b \<Longrightarrow> b < 2 ^ n \<Longrightarrow> a * 2 ^ n OR b = a * 2 ^ n + (b :: int)"
proof -
  assume b: "0 \<le> b" "b < 2 ^ n"
  then have tb: "take_bit n b = b" by (simp add: take_bit_int_eq_self)
  have "push_bit n a AND b = 0"
    by (subst tb [symmetric]) (auto intro!: bit_eqI simp: bit_simps)
  then show ?thesis by (simp add: disjunctive_add_eq_or push_bit_eq_mult)
qed

lemma static_cast_eq_iff:
  "static_cast T x = static_cast T y \<longleftrightarrow> take_bit (8 * sizeof T) x = take_bit (8 * sizeof T) y"
proof
  assume "static_cast T x = static_cast T y"
  then show "take_bit (8 * sizeof T) x = take_bit (8 * sizeof T) y"
    using static_cast_cong [of T x] static_cast_cong [of T y] by (simp add: take_bit_eq_mod type_card_sizeof)
next
  assume "take_bit (8 * sizeof T) x = take_bit (8 * sizeof T) y"
  then have "(x - type_min T) mod type_card T = (y - type_min T) mod type_card T"
    by (metis mod_diff_left_eq take_bit_eq_mod type_card_sizeof)
  then show "static_cast T x = static_cast T y" by (simp add: static_cast_def)
qed

lemma take_bit_static_cast [simp]: "take_bit (8 * sizeof T) (static_cast T x) = take_bit (8 * sizeof T) x"
  using static_cast_cong [of T x] by (simp add: take_bit_eq_mod type_card_sizeof)

lemma static_cast_or [simp]:
  "static_cast T (static_cast T x OR y) = static_cast T (x OR y)"
  "static_cast T (x OR static_cast T y) = static_cast T (x OR y)"
  by (simp_all add: static_cast_eq_iff)

lemma in_range_bits:
  "in_range T x \<longleftrightarrow>
     (if is_signed T then signed_take_bit (8 * sizeof T - 1) x else take_bit (8 * sizeof T) x) = x"
  by (cases T) (auto simp: in_range_def signed_take_bit_int_eq_self_iff take_bit_int_eq_self_iff)

lemma signed_or: "signed_take_bit n (x OR y) = signed_take_bit n x OR signed_take_bit n (y :: int)"
  by (rule bit_eqI) (auto simp: bit_simps)

lemma in_range_or: "in_range T x \<Longrightarrow> in_range T y \<Longrightarrow> in_range T (x OR y)"
  by (simp add: in_range_bits signed_or split: if_splits)

lemma static_cast_or_id: "static_cast T x OR static_cast T y = static_cast T (x OR y)"
  using static_cast_id [OF in_range_or [OF static_cast_range static_cast_range], of T x y] by simp

lemma shl_byte:
  assumes "4 \<le> sizeof T" "0 \<le> b" "b < 256" "n + 8 \<le> 8 * sizeof T"
  shows "shl T b n = Inr (static_cast T (b * 2 ^ n))"
proof -
  have "b * 2 ^ n < 2 ^ 8 * 2 ^ n" using assms(3) by simp
  also have "\<dots> = 2 ^ (n + 8)" by (simp add: power_add)
  also have "\<dots> \<le> type_card T" using assms(4) by (simp add: type_card_sizeof del: power_add_numeral2)
  finally show ?thesis
    using assms by (cases T) (simp_all add: shl_def)
qed

lemma byte_range: "4 \<le> sizeof T \<Longrightarrow> 0 \<le> b \<Longrightarrow> b < 256 \<Longrightarrow> static_cast T b = b"
  by (cases T) (simp_all add: in_range_def)

lemma shl_cast:
  assumes "4 \<le> sizeof T" "n + 8 \<le> 8 * sizeof T"
  shows "shl T (static_cast T (uint (b :: u8))) n = Inr (static_cast T (uint b * 2 ^ n))"
  using shl_byte [OF assms(1) _ _ assms(2), of "uint b"] byte_range [OF assms(1), of "uint b"] by simp

lemma Get_byte:
  assumes "4 \<le> sizeof T" "i < length data" "n + 8 \<le> 8 * sizeof T"
  shows "Get_shl T data i n = Inr (static_cast T (uint (data ! i) * 2 ^ n))"
    and "Get T data i = Inr (static_cast T (uint (data ! i)))"
  using assms by (simp_all add: Get_shl_def Get_def byte_at_def shl_cast)

section \<open>What the readers return\<close>

lemma big_loop_value:
  assumes "4 \<le> sizeof T" "B \<le> sizeof T" "B \<le> length data" "i \<le> B"
  shows "big_loop T B data [i..<B] (static_cast T (from_be (take i data) * 256 ^ (B - i))) =
    Inr (static_cast T (from_be (take B data)))"
  using assms(4)
proof (induction rule: inc_induct)
  case (step i)
  let ?b = "uint (data ! i)" and ?k = "B - Suc i"
  have k: "B - i = Suc ?k" using step.hyps by simp
  have e: "from_be (take (Suc i) data) * 256 ^ ?k =
      from_be (take i data) * 256 ^ (B - i) + ?b * 256 ^ ?k"
    using step.hyps assms(3) by (simp add: take_Suc_conv_app_nth from_be_snoc k algebra_simps)
  have p: "(256 :: int) ^ n = 2 ^ (8 * n)" for n by (simp add: power_mult)
  have "?b * 2 ^ (8 * ?k) < 256 * 2 ^ (8 * ?k)" by simp
  also have "\<dots> = 2 ^ (8 * (B - i))" by (simp add: k power_add)
  finally have "from_be (take i data) * 256 ^ (B - i) OR ?b * 256 ^ ?k =
      from_be (take i data) * 256 ^ (B - i) + ?b * 256 ^ ?k"
    unfolding p by (intro or_plus) auto
  moreover have "?k * 8 + 8 \<le> 8 * sizeof T" using step.hyps assms(2) by simp
  ultimately show ?case
    using step.hyps step.IH assms
    by (subst upt_conv_Cons) (simp_all add: byte_at_def shl_cast e [unfolded p] p mult.commute [of _ 8])
qed simp

lemma little_loop_value:
  assumes "4 \<le> sizeof T" "B \<le> sizeof T" "B \<le> length data" "i \<le> B"
  shows "little_loop T B data [i..<B] (static_cast T (from_le (take i data))) =
    Inr (static_cast T (from_le (take B data)))"
  using assms(4)
proof (induction rule: inc_induct)
  case (step i)
  let ?b = "uint (data ! i)"
  have e: "from_le (take (Suc i) data) = from_le (take i data) + ?b * 256 ^ i"
    using step.hyps assms(3) by (simp add: take_Suc_conv_app_nth from_le_append min_def)
  have p: "(256 :: int) ^ n = 2 ^ (8 * n)" for n by (simp add: power_mult)
  have "from_le (take i data) < 2 ^ (8 * i)" "0 \<le> from_le (take i data)"
    using from_le_bounds [of "take i data"] step.hyps assms(3) by (simp_all add: p min_def)
  then have "from_le (take i data) OR ?b * 256 ^ i = from_le (take i data) + ?b * 256 ^ i"
    unfolding p using or_plus [of "from_le (take i data)" "8 * i" ?b] by (simp add: ac_simps)
  moreover have "i * 8 + 8 \<le> 8 * sizeof T" using step.hyps assms(2) by simp
  ultimately show ?case
    using step.hyps step.IH assms
    by (subst upt_conv_Cons) (simp_all add: byte_at_def shl_cast e [unfolded p] p mult.commute [of _ 8])
qed simp


text \<open>The specialisations agree with the generic loop.\<close>

lemma read_4:
  assumes "4 \<le> sizeof T" "4 \<le> length data"
  shows "ReadBigEndian_4 T data = InternalReadBigEndian T 4 data"
    and "ReadLittleEndian_4 T data = InternalReadLittleEndian T 4 data"
proof -
  have l: "[0..<4] = [0, 1, 2, 3]" by (simp add: upt_rec)
  have s: "n + 8 \<le> 32 \<Longrightarrow> n + 8 \<le> 8 * sizeof T" for n using assms(1) by simp
  note g = Get_byte [OF assms(1) _ s]
  have ne: "data \<noteq> []" using assms(2) by auto
  show "ReadBigEndian_4 T data = InternalReadBigEndian T 4 data"
    "ReadLittleEndian_4 T data = InternalReadLittleEndian T 4 data"
    using assms ne
    by (simp_all add: ReadBigEndian_4_def ReadLittleEndian_4_def InternalReadBigEndian_def
        InternalReadLittleEndian_def l g g(2) [of _ _ 0] byte_at_def shl_cast static_cast_or_id)
qed

lemma read_8:
  assumes "8 \<le> sizeof T" "8 \<le> length data"
  shows "ReadBigEndian_8 T data = InternalReadBigEndian T 8 data"
    and "ReadLittleEndian_8 T data = InternalReadLittleEndian T 8 data"
proof -
  have l: "[0..<8] = [0, 1, 2, 3, 4, 5, 6, 7]" by (simp add: upt_rec)
  have t: "4 \<le> sizeof T" using assms(1) by simp
  have s: "n + 8 \<le> 64 \<Longrightarrow> n + 8 \<le> 8 * sizeof T" for n using assms(1) by simp
  note g = Get_byte [OF t _ s]
  have ne: "data \<noteq> []" using assms(2) by auto
  show "ReadBigEndian_8 T data = InternalReadBigEndian T 8 data"
    "ReadLittleEndian_8 T data = InternalReadLittleEndian T 8 data"
    using assms t ne
    by (simp_all add: ReadBigEndian_8_def ReadLittleEndian_8_def InternalReadBigEndian_def
        InternalReadLittleEndian_def l g g(2) [of _ _ 0] byte_at_def shl_cast static_cast_or_id)
qed

lemma read_2:
  assumes "2 \<le> length data"
  shows "ReadBigEndian_2 T data = Inr (static_cast T (from_be (take 2 data)))"
    and "ReadLittleEndian_2 T data = Inr (static_cast T (from_le (take 2 data)))"
proof -
  obtain a b rest where d: "data = a # b # rest"
    using assms by (cases data; cases "tl data") auto
  have sh: "shl Uint8 (uint x) 8 = Inr (uint x * 2 ^ 8)" for x :: u8
  proof -
    have "uint x < 256" "0 \<le> uint x" by simp_all
    then have "uint x * 256 < 4294967296" "in_range Int32 (uint x * 256)" unfolding in_range_def type_min.simps type_max.simps by linarith+
    then show ?thesis by (simp add: shl_def type_card_def)
  qed
  have o: "uint x * 256 OR uint y = uint y + 256 * uint x" "uint y OR uint x * 256 = uint y + 256 * uint x" for x y :: u8
    using or_plus [of "uint y" 8 "uint x"] by (simp_all add: or.commute)
  show "ReadBigEndian_2 T data = Inr (static_cast T (from_be (take 2 data)))"
    by (simp add: d ReadBigEndian_2_def byte_at_def sh o from_be_def)
  show "ReadLittleEndian_2 T data = Inr (static_cast T (from_le (take 2 data)))"
    by (simp add: d ReadLittleEndian_2_def byte_at_def sh o)
qed

lemma read_unsigned:
  assumes "instantiable T B" "B \<le> length data"
  shows "ReadBigEndian_unsigned T B data = Inr (static_cast T (from_be (take B data)))"
    and "ReadLittleEndian_unsigned T B data = Inr (static_cast T (from_le (take B data)))"
proof -
  have internal: "InternalReadBigEndian T B data = Inr (static_cast T (from_be (take B data)))"
      "InternalReadLittleEndian T B data = Inr (static_cast T (from_le (take B data)))" if "4 \<le> sizeof T"
    using big_loop_value [OF that, of B data 0] little_loop_value [OF that, of B data 0] assms
    by (simp_all add: InternalReadBigEndian_def InternalReadLittleEndian_def instantiable_def from_be_def)
  have "4 \<le> sizeof T \<or> B = 1 \<or> B = 2"
    using assms(1) by (cases T) (auto simp: instantiable_def)
  moreover have "take 1 data = [data ! 0]" if "B = 1" using that assms(2) by (cases data) auto
  ultimately show "ReadBigEndian_unsigned T B data = Inr (static_cast T (from_be (take B data)))"
    "ReadLittleEndian_unsigned T B data = Inr (static_cast T (from_le (take B data)))"
    using internal assms read_4 [of T data] read_8 [of T data] read_2 [of data T]
    by (auto simp: ReadBigEndian_unsigned_def ReadLittleEndian_unsigned_def byte_at_def from_be_def instantiable_def)
qed


text \<open>Signed values: the sign bit of \<open>B\<close> bytes is extended to the whole type.\<close>

lemma high_bit:
  assumes "0 \<le> u" "u < 2 ^ Suc n"
  shows "u AND 2 ^ n \<noteq> 0 \<longleftrightarrow> 2 ^ n \<le> (u :: int)"
    and "2 ^ n \<le> u \<Longrightarrow> u AND NOT (2 ^ n) = u - 2 ^ n"
proof -
  have bit: "bit u n \<longleftrightarrow> 2 ^ n \<le> u"
  proof (cases "2 ^ n \<le> u")
    case True
    then have "u div 2 ^ n = 1" using assms by (intro int_div_pos_eq [of _ _ _ "u - 2 ^ n"]) auto
    with True show ?thesis by (simp add: bit_iff_odd)
  next
    case False
    then show ?thesis using assms by (simp add: bit_iff_odd)
  qed
  have "u AND 2 ^ n = of_bool (bit u n) * 2 ^ n"
    by (rule bit_eqI) (auto simp: bit_simps)
  then show "u AND 2 ^ n \<noteq> 0 \<longleftrightarrow> 2 ^ n \<le> u" by (simp add: bit)
  show "u AND NOT (2 ^ n) = u - 2 ^ n" if "2 ^ n \<le> u"
    using that bit by (intro disjunctive_diff [symmetric]) (auto simp: bit_simps)
qed

lemma le_div_int:
  assumes "0 < d"
  shows "k \<le> x div d \<longleftrightarrow> k * d \<le> (x :: int)"
proof
  assume "k \<le> x div d"
  with assms have "k * d \<le> x div d * d" by simp
  also have "\<dots> \<le> x" using assms pos_mod_sign [OF assms, of x] by (simp add: minus_mod_eq_div_mult [symmetric])
  finally show "k * d \<le> x" .
next
  assume "k * d \<le> x"
  from zdiv_mono1 [OF this assms] assms show "k \<le> x div d" by simp
qed

text \<open>The value of \<open>B\<close> bytes read as a signed number.\<close>

definition sext :: "nat \<Rightarrow> int \<Rightarrow> int" where
  "sext B x = (if 2 ^ (8 * B - 1) \<le> x then x - 2 ^ (8 * B) else x)"

lemma ReinterpretAsSigned_value:
  assumes "is_signed T" "in_range (UnsignedOf T) u"
  shows "ReinterpretAsSigned T u = sext (sizeof T) u"
proof -
  have r: "0 \<le> u" "u < 2 ^ Suc (8 * sizeof T - 1)" and U: "sizeof (UnsignedOf T) = sizeof T"
    using assms by (cases T; simp add: in_range_def)+
  note h = high_bit [OF r]
  show ?thesis
  proof (cases "2 ^ (8 * sizeof T - 1) \<le> u")
    case True
    let ?w = "u - 2 ^ (8 * sizeof T - 1)"
    have "in_range T ?w" "type_min T = -1 * 2 ^ (8 * sizeof T - 1)" "(2 :: int) ^ (8 * sizeof T) = 2 * 2 ^ (8 * sizeof T - 1)"
      using assms r True by (cases T; simp add: in_range_def)+
    moreover have "-1 * 2 ^ (8 * sizeof T - 1) OR ?w = -1 * 2 ^ (8 * sizeof T - 1) + ?w"
      using r True by (intro or_plus) simp_all
    ultimately show ?thesis
      using True h by (simp add: ReinterpretAsSigned_def Let_def sext_def U mult.commute or.commute)
  next
    case False
    then have "in_range T u" using assms r by (cases T) (simp_all add: in_range_def)
    with False h show ?thesis by (simp add: ReinterpretAsSigned_def sext_def U mult.commute)
  qed
qed


lemma UnsignedOf_simps [simp]: "sizeof (UnsignedOf T) = sizeof T" "is_signed (UnsignedOf T) = False"
  by (cases T; simp)+

lemma in_range_unsigned: "\<not> is_signed U \<Longrightarrow> in_range U x \<longleftrightarrow> 0 \<le> x \<and> x < 2 ^ (8 * sizeof U)"
  by (cases U) (auto simp: in_range_def)

lemma narrow_range:
  assumes "B \<le> sizeof T" "0 \<le> x" "x < 2 ^ (8 * B)"
  shows "in_range (UnsignedOf T) x"
proof -
  have "(2 :: int) ^ (8 * B) \<le> 2 ^ (8 * sizeof T)" using assms(1) by simp
  from less_le_trans [OF assms(3) this] assms(2) show ?thesis by (simp add: in_range_unsigned)
qed

lemma in_range_signed:
  "is_signed T \<Longrightarrow> in_range T x \<longleftrightarrow> - (2 ^ (8 * sizeof T - 1)) \<le> x \<and> x < 2 ^ (8 * sizeof T - 1)"
  by (cases T) (auto simp: in_range_def)

lemma sext_bounds:
  assumes "1 \<le> B" "0 \<le> x" "x < 2 ^ (8 * B)"
  shows "- (2 ^ (8 * B - 1)) \<le> sext B x" "sext B x < 2 ^ (8 * B - 1)"
proof -
  have "(2 :: int) ^ (8 * B) = 2 * 2 ^ (8 * B - 1)" using assms(1) by (simp flip: power_Suc)
  with assms show "- (2 ^ (8 * B - 1)) \<le> sext B x" "sext B x < 2 ^ (8 * B - 1)"
    by (auto simp: sext_def)
qed

lemma static_cast_same_size: "sizeof U = sizeof T \<Longrightarrow> static_cast U (static_cast T x) = static_cast U x"
  using take_bit_static_cast [of T x] by (simp add: static_cast_eq_iff)

lemma sext_cast:
  assumes "is_signed T" "in_range T y"
  shows "sext (sizeof T) (static_cast (UnsignedOf T) y) = y"
proof (cases "0 \<le> y")
  case True
  then have "in_range (UnsignedOf T) y" "y < 2 ^ (8 * sizeof T - 1)"
    using assms by (cases T; simp add: in_range_def)+
  then show ?thesis by (simp add: sext_def)
next
  case False
  have "static_cast (UnsignedOf T) y = static_cast (UnsignedOf T) (y + 2 ^ (8 * sizeof T))"
    by (simp add: static_cast_eq_iff take_bit_eq_mod)
  moreover have "in_range (UnsignedOf T) (y + 2 ^ (8 * sizeof T))" "2 ^ (8 * sizeof T - 1) \<le> y + 2 ^ (8 * sizeof T)"
    using assms False by (cases T; simp add: in_range_def)+
  ultimately show ?thesis by (simp add: sext_def)
qed

text \<open>Where the mask of \<^verbatim>\<open>SignExtend\<close> shifts beyond the width of \<^verbatim>\<open>int\<close>.\<close>

definition sign_extend_undefined :: "ctype \<Rightarrow> nat \<Rightarrow> int \<Rightarrow> bool" where
  "sign_extend_undefined T B v \<longleftrightarrow> T = Int64 \<and> 4 \<le> B \<and> B < 8 \<and> v < 0"

lemma SignExtend_value:
  assumes T: "is_signed T" and B: "2 \<le> B" "B < sizeof T" and x: "0 \<le> x" "x < 2 ^ (8 * B)"
  shows "SignExtend T B x =
    (if sign_extend_undefined T B (sext B x) then Inl Undefined else Inr (static_cast (UnsignedOf T) (sext B x)))"
proof -
  let ?U = "UnsignedOf T" and ?m = "x div 2 ^ (8 * (B - 1))"
  obtain k where k: "B = Suc k" using B by (cases B) auto
  have p: "(2 :: int) ^ (8 * B) = 256 * 2 ^ (8 * (B - 1))" "(2 :: int) ^ (8 * B - 1) = 128 * 2 ^ (8 * (B - 1))"
    by (simp_all add: k power_add)
  have "256 \<le> ?m \<longleftrightarrow> 256 * 2 ^ (8 * (B - 1)) \<le> x" by (simp add: le_div_int)
  with x have m: "0 \<le> ?m" "?m < 2 ^ Suc 7"
    by (simp_all add: p pos_imp_zdiv_nonneg_iff)
  have "128 \<le> ?m \<longleftrightarrow> 2 ^ (8 * B - 1) \<le> x" unfolding p(2) by (simp add: le_div_int)
  then have msb: "static_cast Uint8 ?m AND 128 \<noteq> 0 \<longleftrightarrow> 2 ^ (8 * B - 1) \<le> x"
    using high_bit(1) [OF m] m by (simp add: in_range_def)
  have shr: "shr ?U x ((B - 1) * 8) = Inr ?m"
    using B T by (cases T) (simp_all add: shr_def mult.commute)
  show ?thesis
  proof (cases "2 ^ (8 * B - 1) \<le> x")
    case False
    then show ?thesis
      using x B T shr msb narrow_range [OF _ x, of T] by (simp add: SignExtend_def sext_def sign_extend_undefined_def)
  next
    case True
    then have neg: "sext B x = x - 2 ^ (8 * B)" "sext B x < 0" using x by (simp_all add: sext_def)
    have "-1 * 2 ^ (8 * B) OR x = -1 * 2 ^ (8 * B) + x" using x by (rule or_plus)
    then have o: "NOT (2 ^ (8 * B) - 1) OR x = sext B x" by (simp add: neg not_eq_complement)
    have mask: "in_range ?U (2 ^ (8 * B) - 1)"
      using B by (intro narrow_range [of B]) simp_all
    have "shl Int32 1 (B * 8) = (if 4 \<le> B then Inl Undefined else Inr (2 ^ (8 * B)))"
      using B by (cases "B = 2"; cases "B = 3"; simp add: shl_def type_card_def in_range_def)
    moreover have "T = Int64 \<and> B < 8" if "4 \<le> B" using that B T by (cases T) auto
    ultimately show ?thesis
      using True msb shr B mask o neg(2)
      by (simp add: SignExtend_def Let_def sign_extend_undefined_def)
  qed
qed

lemma finish_signed_value:
  assumes T: "is_signed T" and B: "instantiable T B" and x: "0 \<le> x" "x < 2 ^ (8 * B)"
  shows "finish_signed T B (static_cast T x) =
    (if sign_extend_undefined T B (sext B x) then Inl Undefined else Inr (sext B x))"
proof -
  have U: "in_range (UnsignedOf T) x" using B x by (intro narrow_range) (simp_all add: instantiable_def)
  then have u: "static_cast (UnsignedOf T) (static_cast T x) = x" by (simp add: static_cast_same_size)
  show ?thesis
  proof (cases "B < sizeof T")
    case True
    then have "2 \<le> B" using B T by (cases T) (auto simp: instantiable_def)
    moreover have "in_range T (sext B x)"
    proof -
      have "(2 :: int) ^ (8 * B - 1) \<le> 2 ^ (8 * sizeof T - 1)" using True by simp
      moreover have "- (2 ^ (8 * B - 1)) \<le> sext B x" "sext B x < 2 ^ (8 * B - 1)"
        using sext_bounds [OF _ x] \<open>2 \<le> B\<close> by simp_all
      ultimately show ?thesis unfolding in_range_signed [OF T] by linarith
    qed
    ultimately show ?thesis
      using True T x SignExtend_value [OF T _ True x]
      by (simp add: finish_signed_def u ReinterpretAsSigned_value sext_cast)
  next
    case False
    then have "B = sizeof T" using B by (simp add: instantiable_def)
    then show ?thesis
      using T U by (auto simp: finish_signed_def u ReinterpretAsSigned_value sign_extend_undefined_def)
  qed
qed


section \<open>What the writers store\<close>

lemma put_all_value:
  assumes "list_all (\<lambda>(i, n). i < length data \<and> n < 8 * sizeof U) ps"
  shows "put_all U v ps data = Inr (foldl (\<lambda>d (i, n). d[i := word_of_int (v div 2 ^ n)]) data ps)"
  using assms
proof (induction ps arbitrary: data)
  case (Cons p ps)
  obtain i n where p: "p = (i, n)" by (cases p)
  with Cons.prems have i: "i < length data" and "n < 8 * sizeof U" by auto
  then have "shr U v n = Inr (v div 2 ^ n)" by (cases U) (simp_all add: shr_def)
  then show ?case using Cons i by (simp add: p put_byte_def)
qed simp

lemma foldl_update:
  assumes "B \<le> length data"
  shows "foldl (\<lambda>d (i, n). d[i := f n]) data (map (\<lambda>i. (i, g i)) [0..<B]) = map (\<lambda>i. f (g i)) [0..<B] @ drop B data"
  using assms
proof (induction B)
  case (Suc B)
  then have "drop B data = data ! B # drop (Suc B) data" by (simp add: Cons_nth_drop_Suc)
  with Suc show ?case by (simp add: list_update_append)
qed simp

lemma map_to_le: "map (\<lambda>i. word_of_int (v div 2 ^ (i * 8))) [0..<B] = to_le B v"
  by (rule nth_equalityI) (simp_all add: nth_to_le power_mult mult.commute [of _ 8])

lemma map_to_be: "map (\<lambda>i. word_of_int (v div 2 ^ ((B - 1 - i) * 8))) [0..<B] = to_be B v"
  by (rule nth_equalityI) (simp_all add: to_be_def rev_nth nth_to_le power_mult mult.commute [of _ 8])

lemma put_range:
  assumes "B \<le> sizeof U" "B \<le> length data"
  shows "put_all U v (map (\<lambda>i. (i, (B - 1 - i) * 8)) [0..<B]) data = Inr (to_be B v @ drop B data)"
    and "put_all U v (map (\<lambda>i. (i, i * 8)) [0..<B]) data = Inr (to_le B v @ drop B data)"
proof -
  have ok: "list_all (\<lambda>(i, n). i < length data \<and> n < 8 * sizeof U) (map (\<lambda>i. (i, (B - 1 - i) * 8)) [0..<B])"
    "list_all (\<lambda>(i, n). i < length data \<and> n < 8 * sizeof U) (map (\<lambda>i. (i, i * 8)) [0..<B])"
    using assms by (auto simp: list_all_iff)
  note f = foldl_update [OF assms(2), of "\<lambda>n. word_of_int (v div 2 ^ n)"]
  show "put_all U v (map (\<lambda>i. (i, (B - 1 - i) * 8)) [0..<B]) data = Inr (to_be B v @ drop B data)"
    "put_all U v (map (\<lambda>i. (i, i * 8)) [0..<B]) data = Inr (to_le B v @ drop B data)"
    unfolding put_all_value [OF ok(1)] put_all_value [OF ok(2)] f map_to_le map_to_be by simp_all
qed

lemma write_unsigned:
  assumes "B \<le> sizeof U" "B \<le> length data"
  shows "WriteBigEndian_unsigned U B data v = Inr (to_be B v @ drop B data)"
    and "WriteLittleEndian_unsigned U B data v = Inr (to_le B v @ drop B data)"
proof -
  have l: "[0..<2] = [0, 1]" "[0..<4] = [0, 1, 2, 3]" "[0..<8] = [0, 1, 2, 3, 4, 5, 6, 7]" by (simp_all add: upt_rec)
  have "WriteBigEndian_unsigned U B data v = put_all U v (map (\<lambda>i. (i, (B - 1 - i) * 8)) [0..<B]) data"
    by (simp add: writer_defs l)
  moreover have "WriteLittleEndian_unsigned U B data v = put_all U v (map (\<lambda>i. (i, i * 8)) [0..<B]) data"
    by (simp add: writer_defs l)
  ultimately show "WriteBigEndian_unsigned U B data v = Inr (to_be B v @ drop B data)"
    "WriteLittleEndian_unsigned U B data v = Inr (to_le B v @ drop B data)"
    using put_range [OF assms] by simp_all
qed

text \<open>The bytes of a number are those of its residue.\<close>

lemma digits_unique:
  "256 * q + r = 256 * q' + r' \<Longrightarrow> 0 \<le> r \<Longrightarrow> r < 256 \<Longrightarrow> 0 \<le> r' \<Longrightarrow> r' < 256 \<Longrightarrow> q = q' \<and> r = (r' :: int)"
proof -
  assume e: "256 * q + r = 256 * q' + r'" and r: "0 \<le> r" "r < 256" "0 \<le> r'" "r' < 256"
  have "q = (256 * q + r) div 256" "q' = (256 * q' + r') div 256" using r by simp_all
  with e show ?thesis by simp
qed

lemma to_le_cong: "v mod 256 ^ n = w mod 256 ^ n \<Longrightarrow> to_le n v = to_le n w"
proof (induction n arbitrary: v w)
  case (Suc n)
  have "x mod 256 ^ Suc n = 256 * (x div 256 mod 256 ^ n) + x mod 256" for x :: int
    using zmod_zmult2_eq [of "256 ^ n" x 256] by simp
  with Suc.prems have e: "256 * (v div 256 mod 256 ^ n) + v mod 256 = 256 * (w div 256 mod 256 ^ n) + w mod 256"
    by simp
  from digits_unique [OF e] have r: "v mod 256 = w mod 256" "v div 256 mod 256 ^ n = w div 256 mod 256 ^ n" by simp_all
  then have "(word_of_int v :: u8) = word_of_int w" by (simp add: word_of_int_eq_iff take_bit_eq_mod)
  with Suc.IH [OF r(2)] show ?case by simp
qed simp

text \<open>The values that fit into \<open>B\<close> bytes of a signed or unsigned type.\<close>

definition fits :: "ctype \<Rightarrow> nat \<Rightarrow> int \<Rightarrow> bool" where
  "fits T B v =
     (if is_signed T then - (2 ^ (8 * B - 1)) \<le> v \<and> v < 2 ^ (8 * B - 1) else 0 \<le> v \<and> v < 2 ^ (8 * B))"

lemma sext_mod: "1 \<le> B \<Longrightarrow> - (2 ^ (8 * B - 1)) \<le> v \<Longrightarrow> v < 2 ^ (8 * B - 1) \<Longrightarrow> sext B (v mod 2 ^ (8 * B)) = v"
proof -
  assume B: "1 \<le> B" and v: "- (2 ^ (8 * B - 1)) \<le> v" "v < 2 ^ (8 * B - 1)"
  have p: "(2 :: int) ^ (8 * B) = 2 * 2 ^ (8 * B - 1)" using B by (simp flip: power_Suc)
  have "v mod 2 ^ (8 * B) = (if 0 \<le> v then v else v + 2 ^ (8 * B))"
  proof (cases "0 \<le> v")
    case False
    have "v mod 2 ^ (8 * B) = (v + 2 ^ (8 * B)) mod 2 ^ (8 * B)" by simp
    also have "\<dots> = v + 2 ^ (8 * B)" using False v p by (intro mod_pos_pos_trivial) auto
    finally show ?thesis using False by simp
  qed (use v p in simp)
  then show ?thesis using v p by (auto simp: sext_def)
qed

lemma to_bytes_cast:
  assumes "B \<le> sizeof U"
  shows "to_le B (static_cast U v) = to_le B v" "to_be B (static_cast U v) = to_be B v"
proof -
  have "take_bit (8 * B) (take_bit (8 * sizeof U) (static_cast U v)) = take_bit (8 * B) (take_bit (8 * sizeof U) v)"
    by (simp only: take_bit_static_cast)
  then have "take_bit (8 * B) (static_cast U v) = take_bit (8 * B) v"
    using assms unfolding take_bit_take_bit by (simp add: min_def)
  then show "to_le B (static_cast U v) = to_le B v"
    by (intro to_le_cong) (simp add: take_bit_eq_mod power_mult)
  then show "to_be B (static_cast U v) = to_be B v" by (simp add: to_be_def)
qed

lemma read_back:
  assumes "instantiable T B" "fits T B v"
  shows "(if is_signed T then finish_signed T B (static_cast T (v mod 2 ^ (8 * B)))
      else Inr (static_cast T (v mod 2 ^ (8 * B)))) = (if sign_extend_undefined T B v then Inl Undefined else Inr v)"
proof (cases "is_signed T")
  case True
  have "sext B (v mod 2 ^ (8 * B)) = v"
    using assms True by (intro sext_mod) (simp_all add: fits_def instantiable_def)
  with True show ?thesis
    using finish_signed_value [OF True assms(1), of "v mod 2 ^ (8 * B)"] by simp
next
  case False
  have "UnsignedOf T = T" using False by (cases T) simp_all
  with False have "in_range T v" "v mod 2 ^ (8 * B) = v" "T \<noteq> Int64"
    using assms narrow_range [of B T v] by (auto simp: fits_def instantiable_def)
  with False show ?thesis by (simp add: sign_extend_undefined_def)
qed

text \<open>
  (C31) Byte order conversion.  A value that fits into \<open>B\<close> bytes is written as its digits in base
  256, in two's complement when it is negative, the most significant byte first or last; nothing else is written.  Reading gives it back for
  every type and number of bytes, except that a negative number of four to seven bytes read into 64 bits
  is undefined: the mask of the sign extension is computed in \<^verbatim>\<open>int\<close>.
\<close>

theorem byte_io_roundtrip:
  assumes "instantiable T B" "B \<le> length data" "fits T B v"
  shows "WriteBigEndian T B data v = Inr (to_be B v @ drop B data) \<and>
    WriteLittleEndian T B data v = Inr (to_le B v @ drop B data) \<and>
    ReadBigEndian T B (to_be B v @ drop B data) = (if sign_extend_undefined T B v then Inl Undefined else Inr v) \<and>
    ReadLittleEndian T B (to_le B v @ drop B data) = (if sign_extend_undefined T B v then Inl Undefined else Inr v)"
proof -
  have B: "B \<le> sizeof T" "B \<le> sizeof (UnsignedOf T)" using assms(1) by (simp_all add: instantiable_def)
  have f: "from_le (to_le B v) = v mod 2 ^ (8 * B)" by (simp add: from_le_to_le power_mult)
  have "WriteBigEndian T B data v = Inr (to_be B v @ drop B data)"
    "WriteLittleEndian T B data v = Inr (to_le B v @ drop B data)"
    using write_unsigned [OF B(1) assms(2)] write_unsigned [OF B(2) assms(2)] to_bytes_cast [OF B(2), of v]
    by (simp_all add: WriteBigEndian_def WriteLittleEndian_def ReinterpretAsUnsigned_def)
  moreover have "ReadBigEndian T B (to_be B v @ drop B data) = (if sign_extend_undefined T B v then Inl Undefined else Inr v)"
    "ReadLittleEndian T B (to_le B v @ drop B data) = (if sign_extend_undefined T B v then Inl Undefined else Inr v)"
    using read_unsigned [OF assms(1), of "to_be B v @ drop B data"]
      read_unsigned [OF assms(1), of "to_le B v @ drop B data"] read_back [OF assms(1,3)]
    by (auto simp: ReadBigEndian_def ReadLittleEndian_def from_be_def to_be_def f split: if_splits)
  ultimately show ?thesis by blast
qed
end
