(* ===== verification/Rtc_ByteBuffer.thy ===== *)
theory Rtc_ByteBuffer
  imports Rtc_ByteIO Rtc_Buffer
begin

text \<open>
  \<^verbatim>\<open>rtc_base/byte_order.h\<close> and the writer of \<^verbatim>\<open>rtc_base/byte_buffer.h\<close>: numbers in
  network or host order in memory, and a buffer they are appended to.

  The byte order of the host is an argument, \<open>True\<close> for a big endian one: it decides how a number lies in
  memory, and what \<^verbatim>\<open>htobe16\<close> and its relatives of \<^verbatim>\<open>endian.h\<close> do.  Accesses
  are assumed to be aligned.  The readers are defined in a file that is not part of the repository; the
  specification has a decoder in their place.
\<close>

section \<open>Byte order\<close>

definition native :: "bool \<Rightarrow> nat \<Rightarrow> int \<Rightarrow> u8 list" where
  "native big n v = (if big then to_be n v else to_le n v)"

definition store_native :: "bool \<Rightarrow> u8 list \<Rightarrow> 'a::len word \<Rightarrow> u8 list checked" where
  "store_native big memory v =
     (let n = LENGTH('a) div 8 in
      if n \<le> length memory then Inr (native big n (uint v) @ drop n memory) else Inl Undefined)"

definition load_native :: "bool \<Rightarrow> u8 list \<Rightarrow> 'a::len word checked" where
  "load_native big memory =
     (let n = LENGTH('a) div 8; bs = take n memory in
      if n \<le> length memory then Inr (word_of_int (if big then from_be bs else from_le bs)) else Inl Undefined)"

definition bswap :: "'a::len word \<Rightarrow> 'a word" where
  "bswap v = word_of_int (from_be (to_le (LENGTH('a) div 8) (uint v)))"

definition htobe :: "bool \<Rightarrow> 'a::len word \<Rightarrow> 'a word" where
  "htobe big v = (if big then v else bswap v)"

definition htole :: "bool \<Rightarrow> 'a::len word \<Rightarrow> 'a word" where
  "htole big v = (if big then bswap v else v)"

definition Set8 :: "u8 list \<Rightarrow> nat \<Rightarrow> u8 \<Rightarrow> u8 list checked" where
  "Set8 memory offset v = (if offset < length memory then Inr (memory[offset := v]) else Inl Undefined)"

definition Get8 :: "u8 list \<Rightarrow> nat \<Rightarrow> u8 checked" where
  "Get8 memory offset = (if offset < length memory then Inr (memory ! offset) else Inl Undefined)"

definition SetBE16 :: "bool \<Rightarrow> u8 list \<Rightarrow> u16 \<Rightarrow> u8 list checked" where
  "SetBE16 big memory v = store_native big memory (htobe big v)"

definition SetBE32 :: "bool \<Rightarrow> u8 list \<Rightarrow> u32 \<Rightarrow> u8 list checked" where
  "SetBE32 big memory v = store_native big memory (htobe big v)"

definition SetBE64 :: "bool \<Rightarrow> u8 list \<Rightarrow> u64 \<Rightarrow> u8 list checked" where
  "SetBE64 big memory v = store_native big memory (htobe big v)"

definition GetBE16 :: "bool \<Rightarrow> u8 list \<Rightarrow> u16 checked" where
  "GetBE16 big memory = rbind (load_native big memory) (\<lambda>v. Inr (htobe big v))"

definition GetBE32 :: "bool \<Rightarrow> u8 list \<Rightarrow> u32 checked" where
  "GetBE32 big memory = rbind (load_native big memory) (\<lambda>v. Inr (htobe big v))"

definition GetBE64 :: "bool \<Rightarrow> u8 list \<Rightarrow> u64 checked" where
  "GetBE64 big memory = rbind (load_native big memory) (\<lambda>v. Inr (htobe big v))"

definition SetLE16 :: "bool \<Rightarrow> u8 list \<Rightarrow> u16 \<Rightarrow> u8 list checked" where
  "SetLE16 big memory v = store_native big memory (htole big v)"

definition SetLE32 :: "bool \<Rightarrow> u8 list \<Rightarrow> u32 \<Rightarrow> u8 list checked" where
  "SetLE32 big memory v = store_native big memory (htole big v)"

definition SetLE64 :: "bool \<Rightarrow> u8 list \<Rightarrow> u64 \<Rightarrow> u8 list checked" where
  "SetLE64 big memory v = store_native big memory (htole big v)"

definition GetLE16 :: "bool \<Rightarrow> u8 list \<Rightarrow> u16 checked" where
  "GetLE16 big memory = rbind (load_native big memory) (\<lambda>v. Inr (htole big v))"

definition GetLE32 :: "bool \<Rightarrow> u8 list \<Rightarrow> u32 checked" where
  "GetLE32 big memory = rbind (load_native big memory) (\<lambda>v. Inr (htole big v))"

definition GetLE64 :: "bool \<Rightarrow> u8 list \<Rightarrow> u64 checked" where
  "GetLE64 big memory = rbind (load_native big memory) (\<lambda>v. Inr (htole big v))"

definition IsHostBigEndian :: "bool \<Rightarrow> bool" where
  "IsHostBigEndian big = big"

definition HostToNetwork16 :: "bool \<Rightarrow> u16 \<Rightarrow> u16" where
  "HostToNetwork16 big n = htobe big n"

definition HostToNetwork32 :: "bool \<Rightarrow> u32 \<Rightarrow> u32" where
  "HostToNetwork32 big n = htobe big n"

definition HostToNetwork64 :: "bool \<Rightarrow> u64 \<Rightarrow> u64" where
  "HostToNetwork64 big n = htobe big n"

definition NetworkToHost16 :: "bool \<Rightarrow> u16 \<Rightarrow> u16" where
  "NetworkToHost16 big n = htobe big n"

definition NetworkToHost32 :: "bool \<Rightarrow> u32 \<Rightarrow> u32" where
  "NetworkToHost32 big n = htobe big n"

definition NetworkToHost64 :: "bool \<Rightarrow> u64 \<Rightarrow> u64" where
  "NetworkToHost64 big n = htobe big n"

section \<open>The writer\<close>

text \<open>
  \<^verbatim>\<open>ByteBufferWriterT<BufferT<char>>\<close>.  The bytes of a \<^verbatim>\<open>char\<close> array are those of
  the numbers written to it; the buffer does not zero its blocks.
\<close>

datatype ByteOrder = ORDER_NETWORK | ORDER_HOST

record ByteBufferWriter =
  byte_order :: ByteOrder
  wbuffer :: "u8 BufferT"

definition WriteBytes :: "bool \<Rightarrow> u8 list \<Rightarrow> ByteBufferWriter \<Rightarrow> ByteBufferWriter checked" where
  "WriteBytes d bs w = rbind (AppendData d False bs (wbuffer w)) (\<lambda>b. Inr (w\<lparr>wbuffer := b\<rparr>))"

definition kDefaultCapacity :: nat where
  "kDefaultCapacity = 4096"

definition Construct :: "bool \<Rightarrow> u8 list option \<Rightarrow> nat \<Rightarrow> ByteBufferWriter \<Rightarrow> ByteBufferWriter checked" where
  "Construct d bytes sz w =
     (case bytes of
        Some bs \<Rightarrow> rbind (AppendData d False (take sz bs) (wbuffer w)) (\<lambda>b. Inr (w\<lparr>wbuffer := b\<rparr>))
      | None \<Rightarrow> rbind (EnsureCapacity d False sz (wbuffer w)) (\<lambda>b. Inr (w\<lparr>wbuffer := b\<rparr>)))"

definition ByteBufferWriter_new :: "bool \<Rightarrow> ByteOrder \<Rightarrow> ByteBufferWriter checked" where
  "ByteBufferWriter_new d order =
     Construct d None kDefaultCapacity \<lparr>byte_order = order, wbuffer = BufferT_new\<rparr>"

definition ByteBufferWriter_from :: "bool \<Rightarrow> u8 list \<Rightarrow> ByteOrder \<Rightarrow> ByteBufferWriter checked" where
  "ByteBufferWriter_from d bytes order =
     Construct d (Some bytes) (length bytes) \<lparr>byte_order = order, wbuffer = BufferT_new\<rparr>"

definition Length :: "bool \<Rightarrow> ByteBufferWriter \<Rightarrow> nat checked" where
  "Length d w = buffer_size d (wbuffer w)"

definition Capacity :: "bool \<Rightarrow> ByteBufferWriter \<Rightarrow> nat checked" where
  "Capacity d w = buffer_capacity d (wbuffer w)"

definition WriteUInt8 :: "bool \<Rightarrow> u8 \<Rightarrow> ByteBufferWriter \<Rightarrow> ByteBufferWriter checked" where
  "WriteUInt8 d val w = WriteBytes d [val] w"

definition WriteUInt16 :: "bool \<Rightarrow> bool \<Rightarrow> u16 \<Rightarrow> ByteBufferWriter \<Rightarrow> ByteBufferWriter checked" where
  "WriteUInt16 d big val w =
     (let v = (if byte_order w = ORDER_NETWORK then HostToNetwork16 big val else val) in
      WriteBytes d (native big 2 (uint v)) w)"

definition WriteUInt24 :: "bool \<Rightarrow> bool \<Rightarrow> u32 \<Rightarrow> ByteBufferWriter \<Rightarrow> ByteBufferWriter checked" where
  "WriteUInt24 d big val w =
     (let v = (if byte_order w = ORDER_NETWORK then HostToNetwork32 big val else val);
          start = (if byte_order w = ORDER_NETWORK \<or> IsHostBigEndian big then 1 else 0) in
      WriteBytes d (take 3 (drop start (native big 4 (uint v)))) w)"

definition WriteUInt32 :: "bool \<Rightarrow> bool \<Rightarrow> u32 \<Rightarrow> ByteBufferWriter \<Rightarrow> ByteBufferWriter checked" where
  "WriteUInt32 d big val w =
     (let v = (if byte_order w = ORDER_NETWORK then HostToNetwork32 big val else val) in
      WriteBytes d (native big 4 (uint v)) w)"

definition WriteUInt64 :: "bool \<Rightarrow> bool \<Rightarrow> u64 \<Rightarrow> ByteBufferWriter \<Rightarrow> ByteBufferWriter checked" where
  "WriteUInt64 d big val w =
     (let v = (if byte_order w = ORDER_NETWORK then HostToNetwork64 big val else val) in
      WriteBytes d (native big 8 (uint v)) w)"

text \<open>The loop of \<^verbatim>\<open>WriteUVarint\<close> shifts a 64-bit number that is at least 128.\<close>

function WriteUVarint :: "bool \<Rightarrow> u64 \<Rightarrow> ByteBufferWriter \<Rightarrow> ByteBufferWriter checked" where
  "WriteUVarint d val w =
     (if 0x80 \<le> val then
        rbind (WriteBytes d [ucast val OR 0x80] w) (\<lambda>w. WriteUVarint d (drop_bit 7 val) w)
      else WriteBytes d [ucast val] w)"
  by pat_completeness auto
termination
proof (relation "measure (\<lambda>(d, val, w). unat val)")
  fix d val and w w' :: ByteBufferWriter
  assume "0x80 \<le> (val :: u64)"
  then have "128 \<le> unat val" by (simp add: word_le_nat_alt)
  then show "((d, drop_bit 7 val, w'), d, val, w) \<in> measure (\<lambda>(d, val, w). unat val)"
    by (simp add: drop_bit_eq_div unat_div)
qed simp

declare WriteUVarint.simps [simp del]

definition WriteString :: "bool \<Rightarrow> u8 list \<Rightarrow> ByteBufferWriter \<Rightarrow> ByteBufferWriter checked" where
  "WriteString d val w = WriteBytes d val w"

text \<open>The result of \<^verbatim>\<open>ReserveWriteBuffer\<close> is a pointer to the start of the whole buffer: its offset.\<close>

definition ReserveWriteBuffer :: "bool \<Rightarrow> nat \<Rightarrow> ByteBufferWriter \<Rightarrow> (nat \<times> ByteBufferWriter) checked" where
  "ReserveWriteBuffer d len w =
     rbind (buffer_size d (wbuffer w)) (\<lambda>n.
     rbind (SetSize d False (size_t_add n len) (wbuffer w)) (\<lambda>b. Inr (0, w\<lparr>wbuffer := b\<rparr>)))"

definition Resize :: "bool \<Rightarrow> nat \<Rightarrow> ByteBufferWriter \<Rightarrow> ByteBufferWriter checked" where
  "Resize d sz w = rbind (SetSize d False sz (wbuffer w)) (\<lambda>b. Inr (w\<lparr>wbuffer := b\<rparr>))"

definition ClearWriter :: "bool \<Rightarrow> ByteBufferWriter \<Rightarrow> ByteBufferWriter checked" where
  "ClearWriter d w = rbind (Clear d False (wbuffer w)) (\<lambda>b. Inr (w\<lparr>wbuffer := b\<rparr>))"

section \<open>Words as bytes\<close>

text \<open>A type whose width is \<open>n\<close> bytes.\<close>

definition wide :: "'a::len word itself \<Rightarrow> nat \<Rightarrow> bool" where
  "wide t n \<longleftrightarrow> LENGTH('a) = 8 * n"

lemma wide_words: "wide TYPE(u16) 2" "wide TYPE(u32) 4" "wide TYPE(u64) 8"
  by (simp_all add: wide_def)

lemma to_le_from_le: "to_le (length bs) (from_le bs) = bs"
proof (induction bs)
  case (Cons b bs)
  have "(uint b + 256 * from_le bs) div 256 = from_le bs" by simp
  moreover have "(word_of_int (uint b + 256 * from_le bs) :: u8) = word_of_int (uint b)"
    by (simp only: word_of_int_eq_iff take_bit_eq_mod) simp
  ultimately show ?case using Cons by simp
qed simp

lemma uint_mod_wide: "wide TYPE('a::len word) n \<Longrightarrow> uint (v :: 'a word) mod 256 ^ n = uint v"
  using uint_bounded [of v] by (simp add: wide_def power_mult)

lemma uint_bswap:
  assumes "wide TYPE('a::len word) n"
  shows "uint (bswap (v :: 'a word)) = from_be (to_le n (uint v))"
proof -
  have "from_be (to_le n (uint v)) < 2 ^ LENGTH('a)"
    using from_be_bounds(2) [of "to_le n (uint v)"] assms by (simp add: wide_def power_mult)
  then show ?thesis
    using from_be_bounds(1) assms by (simp add: bswap_def wide_def uint_word_of_int)
qed

lemma native_swapped:
  assumes "wide TYPE('a::len word) n"
  shows "native big n (uint (htobe big (v :: 'a word))) = to_be n (uint v)"
    and "native big n (uint (htole big v)) = to_le n (uint v)"
proof -
  have "to_le n (uint (bswap v)) = rev (to_le n (uint v))"
    using to_le_from_le [of "rev (to_le n (uint v))"] by (simp add: uint_bswap [OF assms] from_be_def)
  then show "native big n (uint (htobe big v)) = to_be n (uint v)" "native big n (uint (htole big v)) = to_le n (uint v)"
    by (simp_all add: native_def htobe_def htole_def to_be_def)
qed

lemma bswap_bswap:
  assumes "wide TYPE('a::len word) n"
  shows "bswap (bswap v) = (v :: 'a word)"
proof -
  have "to_le n (uint (bswap v)) = rev (to_le n (uint v))"
    using native_swapped(1) [OF assms, of False v] by (simp add: native_def htobe_def to_be_def)
  then have "uint (bswap (bswap v)) = uint v"
    by (simp add: uint_bswap [OF assms] from_be_def from_le_to_le uint_mod_wide [OF assms])
  then show ?thesis by (simp only: word_uint_eq_iff)
qed

lemma swap_swap: "wide TYPE('a::len word) n \<Longrightarrow> htobe big (htobe big v) = (v :: 'a word)"
  "wide TYPE('a::len word) n \<Longrightarrow> htole big (htole big v) = (v :: 'a word)"
  by (simp_all add: htobe_def htole_def bswap_bswap)

lemma store_load:
  fixes v :: "'a::len word"
  assumes "wide TYPE('a word) n" "n \<le> length memory"
  shows "store_native big memory (htobe big v) = Inr (to_be n (uint v) @ drop n memory)"
    and "store_native big memory (htole big v) = Inr (to_le n (uint v) @ drop n memory)"
    and "rbind (load_native big (to_be n (uint v) @ drop n memory)) (\<lambda>x. Inr (htobe big x)) = Inr v"
    and "rbind (load_native big (to_le n (uint v) @ drop n memory)) (\<lambda>x. Inr (htole big x)) = Inr v"
proof -
  have l: "LENGTH('a) div 8 = n" using assms(1) by (simp add: wide_def)
  show "store_native big memory (htobe big v) = Inr (to_be n (uint v) @ drop n memory)"
    "store_native big memory (htole big v) = Inr (to_le n (uint v) @ drop n memory)"
    using assms(2) by (simp_all add: store_native_def l native_swapped [OF assms(1)])
  have "load_native big (native big n (uint x) @ drop n memory) = Inr x" for x :: "'a word"
    by (simp add: load_native_def l native_def from_be_def to_be_def from_le_to_le uint_mod_wide [OF assms(1)])
  from this [of "htobe big v"] this [of "htole big v"]
  show "rbind (load_native big (to_be n (uint v) @ drop n memory)) (\<lambda>x. Inr (htobe big x)) = Inr v"
    "rbind (load_native big (to_le n (uint v) @ drop n memory)) (\<lambda>x. Inr (htole big x)) = Inr v"
    by (simp_all add: native_swapped [OF assms(1)] swap_swap [OF assms(1)])
qed

section \<open>What the writer appends\<close>

text \<open>Writers over reachable states; a writer only appends.\<close>

definition writer_inv :: "ByteBufferWriter \<Rightarrow> bool" where
  "writer_inv w \<longleftrightarrow> buffer_inv (wbuffer w) \<and> zeroed False (wbuffer w)"

definition written :: "ByteBufferWriter \<Rightarrow> u8 option list" where
  "written w = contents (wbuffer w)"

interpretation writer: append_container
  "\<lambda>w. writer_inv w \<and> byte_order w = order" written "WriteBytes d" "2 ^ 64"
  for d order
proof
  fix s and xs :: "u8 list"
  assume "writer_inv s \<and> byte_order s = order" "length (written s) + length xs < 2 ^ 64"
  then show "returns (WriteBytes d xs s) (\<lambda>s'. (writer_inv s' \<and> byte_order s' = order) \<and> written s' = written s @ map Some xs)"
    using buffer.append_law [of "wbuffer s" False xs d]
    by (auto simp: WriteBytes_def writer_inv_def written_def elim!: returns_mono)
qed

text \<open>
  The specification: an item of a message, and its bytes in a given order.  A 24-bit item is the number without
  its highest byte; a variable length one has seven bits in each byte, the highest bit set in all but the last.
\<close>

datatype item = U8 u8 | U16 u16 | U24 u32 | U32 u32 | U64 u64 | UVarint u64 | Bytes "u8 list"

function uvarint :: "nat \<Rightarrow> u8 list" where
  "uvarint n = (if n < 128 then [of_nat n] else of_nat (128 + n mod 128) # uvarint (n div 128))"
  by pat_completeness auto
termination
  by (relation "measure id") simp_all

declare uvarint.simps [simp del]

definition ordered :: "bool \<Rightarrow> ByteOrder \<Rightarrow> nat \<Rightarrow> int \<Rightarrow> u8 list" where
  "ordered big order n v = (if order = ORDER_NETWORK then to_be n v else native big n v)"

fun item_bytes :: "bool \<Rightarrow> ByteOrder \<Rightarrow> item \<Rightarrow> u8 list" where
  "item_bytes big order (U8 v) = [v]"
| "item_bytes big order (U16 v) = ordered big order 2 (uint v)"
| "item_bytes big order (U24 v) = ordered big order 3 (uint v)"
| "item_bytes big order (U32 v) = ordered big order 4 (uint v)"
| "item_bytes big order (U64 v) = ordered big order 8 (uint v)"
| "item_bytes big order (UVarint v) = uvarint (unat v)"
| "item_bytes big order (Bytes bs) = bs"

fun write_item :: "bool \<Rightarrow> bool \<Rightarrow> item \<Rightarrow> ByteBufferWriter \<Rightarrow> ByteBufferWriter checked" where
  "write_item d big (U8 v) = WriteUInt8 d v"
| "write_item d big (U16 v) = WriteUInt16 d big v"
| "write_item d big (U24 v) = WriteUInt24 d big v"
| "write_item d big (U32 v) = WriteUInt32 d big v"
| "write_item d big (U64 v) = WriteUInt64 d big v"
| "write_item d big (UVarint v) = WriteUVarint d v"
| "write_item d big (Bytes bs) = WriteString d bs"

fun write_items :: "bool \<Rightarrow> bool \<Rightarrow> item list \<Rightarrow> ByteBufferWriter \<Rightarrow> ByteBufferWriter checked" where
  "write_items d big [] w = Inr w"
| "write_items d big (it # its) w = rbind (write_item d big it w) (write_items d big its)"

lemma top_bit_set:
  assumes "\<And>n. n < 8 \<Longrightarrow> n \<noteq> k \<Longrightarrow> n < k" and "k < 8"
  shows "(ucast val OR 2 ^ k :: u8) = of_nat (2 ^ k + take_bit k (unat (val :: u64)))"
proof -
  have "2 ^ k + take_bit k (unat val) = 2 ^ k OR take_bit k (unat val)"
    by (rule disjunctive_add) (auto simp: bit_exp_iff bit_take_bit_iff)
  moreover have "(ucast val OR 2 ^ k :: u8) = of_nat (2 ^ k OR take_bit k (unat val))"
    by (rule bit_word_eqI) (use assms in \<open>auto simp: bit_simps\<close>)
  ultimately show ?thesis by simp
qed

lemma continuation_byte: "(ucast val OR 0x80 :: u8) = of_nat (128 + unat (val :: u64) mod 128)"
  using top_bit_set [of 7 val] by (simp add: take_bit_eq_mod)

lemma WriteUVarint_returns:
  assumes "writer_inv w \<and> byte_order w = order" "length (written w) + length (uvarint (unat val)) < 2 ^ 64"
  shows "returns (WriteUVarint d val w) (\<lambda>w'. (writer_inv w' \<and> byte_order w' = order) \<and>
    written w' = written w @ map Some (uvarint (unat val)))"
  using assms
proof (induction d val w rule: WriteUVarint.induct)
  case (1 d val w)
  show ?case
  proof (cases "0x80 \<le> val")
    case True
    then have big: "128 \<le> unat val" by (simp add: word_le_nat_alt)
    have dr: "unat (drop_bit 7 val) = unat val div 128" by (simp add: drop_bit_eq_div unat_div)
    have u: "uvarint (unat val) = of_nat (128 + unat val mod 128) # uvarint (unat val div 128)"
      using big by (subst uvarint.simps) simp
    have "returns (WriteBytes d [ucast val OR 0x80] w) (\<lambda>w'. (writer_inv w' \<and> byte_order w' = order) \<and>
        written w' = written w @ map Some [ucast val OR 0x80])"
      using "1.prems" u by (intro writer.append_law) auto
    then obtain w' where w': "WriteBytes d [ucast val OR 0x80] w = Inr w'"
      "writer_inv w' \<and> byte_order w' = order" "written w' = written w @ [Some (ucast val OR 0x80)]"
      by (auto elim: returnsE)
    have "returns (WriteUVarint d (drop_bit 7 val) w') (\<lambda>w''. (writer_inv w'' \<and> byte_order w'' = order) \<and>
        written w'' = written w' @ map Some (uvarint (unat (drop_bit 7 val))))"
      using "1.IH" [OF True w'(1,2)] w'(3) "1.prems" u dr by simp
    then have "returns (WriteUVarint d (drop_bit 7 val) w') (\<lambda>w''. (writer_inv w'' \<and> byte_order w'' = order) \<and>
        written w'' = written w @ map Some (uvarint (unat val)))"
      using w'(3) u dr continuation_byte [of val] by simp
    with True w'(1) show ?thesis by (subst WriteUVarint.simps) simp
  next
    case False
    then have small: "unat val < 128" by (simp add: word_le_nat_alt)
    then have u: "uvarint (unat val) = [ucast val]"
      by (subst uvarint.simps) simp
    have "returns (WriteBytes d [ucast val] w) (\<lambda>w'. (writer_inv w' \<and> byte_order w' = order) \<and>
        written w' = written w @ map Some [ucast val])"
      using "1.prems" u by (intro writer.append_law) auto
    with False u show ?thesis by (subst WriteUVarint.simps) simp
  qed
qed

text \<open>Every operation appends the bytes of its item.\<close>

lemma native_order:
  assumes "wide TYPE('a::len word) n"
  shows "native big n (uint (if order = ORDER_NETWORK then htobe big v else (v :: 'a word))) = ordered big order n (uint v)"
  using native_swapped(1) [OF assms, of big v] by (simp add: ordered_def)

lemma three_of_four:
  "drop 1 (to_be 4 v) = to_be 3 v" "take 3 (to_le 4 v) = to_le 3 v" "take 3 (to_be 3 v) = to_be 3 v"
  by (simp_all add: to_be_def numeral_eq_Suc)

lemma ordered_24:
  "take 3 (drop (if order = ORDER_NETWORK \<or> big then 1 else 0) (ordered big order 4 v)) = ordered big order 3 v"
  using three_of_four by (cases order; cases big) (simp_all add: ordered_def native_def)

lemma write_item_chunk:
  assumes "byte_order w = order" "\<forall>v. it \<noteq> UVarint v"
  shows "write_item d big it w = WriteBytes d (item_bytes big order it) w"
  using assms
  by (cases it)
    (simp_all add: WriteUInt8_def WriteUInt16_def WriteUInt24_def WriteUInt32_def WriteUInt64_def WriteString_def
      HostToNetwork16_def HostToNetwork32_def HostToNetwork64_def IsHostBigEndian_def Let_def ordered_24 [unfolded One_nat_def]
      native_order [OF wide_words(1)] native_order [OF wide_words(2)] native_order [OF wide_words(3)]
      split del: if_split cong del: if_weak_cong)

lemma write_item_returns:
  assumes "writer_inv w \<and> byte_order w = order" "length (written w) + length (item_bytes big order it) < 2 ^ 64"
  shows "returns (write_item d big it w) (\<lambda>w'. (writer_inv w' \<and> byte_order w' = order) \<and>
    written w' = written w @ map Some (item_bytes big order it))"
proof (cases "\<exists>v. it = UVarint v")
  case True
  then obtain v where it: "it = UVarint v" by blast
  with WriteUVarint_returns [OF assms(1), of v d] assms(2) show ?thesis by simp
next
  case False
  then show ?thesis
    using writer.append_law [OF assms] write_item_chunk [of w order it d big] assms(1) by simp
qed

lemma write_items_returns:
  assumes "writer_inv w \<and> byte_order w = order"
    and "length (written w) + length (concat (map (item_bytes big order) its)) < 2 ^ 64"
  shows "returns (write_items d big its w) (\<lambda>w'. writer_inv w' \<and> byte_order w' = order \<and>
    written w' = written w @ map Some (concat (map (item_bytes big order) its)))"
  using assms
proof (induction its arbitrary: w)
  case (Cons it its)
  from Cons.prems have "returns (write_item d big it w) (\<lambda>w'. (writer_inv w' \<and> byte_order w' = order) \<and>
      written w' = written w @ map Some (item_bytes big order it))"
    by (intro write_item_returns) auto
  then obtain w' where w': "write_item d big it w = Inr w'" "writer_inv w' \<and> byte_order w' = order"
      "written w' = written w @ map Some (item_bytes big order it)"
    by (auto elim: returnsE)
  with Cons.IH [OF w'(2)] Cons.prems(2) show ?case by simp
qed simp

lemma writer_new:
  "returns (ByteBufferWriter_new d order) (\<lambda>w. (writer_inv w \<and> byte_order w = order) \<and> written w = [])"
  "length bs < 2 ^ 64 \<Longrightarrow> returns (ByteBufferWriter_from d bs order)
     (\<lambda>w. (writer_inv w \<and> byte_order w = order) \<and> written w = map Some bs)"
proof -
  have inv: "buffer_inv (BufferT_new :: u8 BufferT)" "zeroed False (BufferT_new :: u8 BufferT)"
      "contents (BufferT_new :: u8 BufferT) = []"
    by (simp_all add: buffer_inv_def zeroed_def cells_def contents_def BufferT_new_def)
  show "returns (ByteBufferWriter_new d order) (\<lambda>w. (writer_inv w \<and> byte_order w = order) \<and> written w = [])"
    using Ensure_returns [OF inv(1,2), of d kDefaultCapacity False] inv
    by (auto simp: ByteBufferWriter_new_def Construct_def EnsureCapacity_def writer_inv_def written_def elim!: returns_mono)
  show "returns (ByteBufferWriter_from d bs order) (\<lambda>w. (writer_inv w \<and> byte_order w = order) \<and> written w = map Some bs)"
    if "length bs < 2 ^ 64"
    using buffer.append_law [of BufferT_new False bs d] inv that
    by (auto simp: ByteBufferWriter_from_def Construct_def writer_inv_def written_def elim!: returns_mono)
qed

section \<open>Reading back\<close>

text \<open>The decoder of the specification: what the items of a message are is known to its reader.\<close>

datatype shape = S8 | S16 | S24 | S32 | S64 | SVar | SBytes nat

fun decode_uvarint :: "u8 list \<Rightarrow> (nat \<times> u8 list) option" where
  "decode_uvarint [] = None"
| "decode_uvarint (b # bs) =
     (if unat b < 128 then Some (unat b, bs)
      else case decode_uvarint bs of None \<Rightarrow> None | Some (n, rest) \<Rightarrow> Some (unat b - 128 + 128 * n, rest))"

fun decode_item :: "shape \<Rightarrow> u8 list \<Rightarrow> item option" where
  "decode_item S8 bs = Some (U8 (word_of_int (from_be (take 1 bs))))"
| "decode_item S16 bs = Some (U16 (word_of_int (from_be (take 2 bs))))"
| "decode_item S24 bs = Some (U24 (word_of_int (from_be (take 3 bs))))"
| "decode_item S32 bs = Some (U32 (word_of_int (from_be (take 4 bs))))"
| "decode_item S64 bs = Some (U64 (word_of_int (from_be (take 8 bs))))"
| "decode_item SVar bs = map_option (\<lambda>(n, rest). UVarint (of_nat n)) (decode_uvarint bs)"
| "decode_item (SBytes n) bs = Some (Bytes (take n bs))"

fun shape_rest :: "shape \<Rightarrow> u8 list \<Rightarrow> u8 list" where
  "shape_rest S8 bs = drop 1 bs"
| "shape_rest S16 bs = drop 2 bs"
| "shape_rest S24 bs = drop 3 bs"
| "shape_rest S32 bs = drop 4 bs"
| "shape_rest S64 bs = drop 8 bs"
| "shape_rest SVar bs = (case decode_uvarint bs of None \<Rightarrow> [] | Some (n, rest) \<Rightarrow> rest)"
| "shape_rest (SBytes n) bs = drop n bs"

fun decode_items :: "shape list \<Rightarrow> u8 list \<Rightarrow> item list option" where
  "decode_items [] bs = (if bs = [] then Some [] else None)"
| "decode_items (sh # shs) bs =
     (case decode_item sh bs of
        None \<Rightarrow> None
      | Some it \<Rightarrow> map_option ((#) it) (decode_items shs (shape_rest sh bs)))"

fun shape_of :: "item \<Rightarrow> shape" where
  "shape_of (U8 v) = S8"
| "shape_of (U16 v) = S16"
| "shape_of (U24 v) = S24"
| "shape_of (U32 v) = S32"
| "shape_of (U64 v) = S64"
| "shape_of (UVarint v) = SVar"
| "shape_of (Bytes bs) = SBytes (length bs)"

fun storable :: "item \<Rightarrow> bool" where
  "storable (U24 v) = (uint v < 2 ^ 24)"
| "storable _ = True"

lemma decode_uvarint_bytes: "decode_uvarint (uvarint n @ rest) = Some (n, rest)"
proof (induction n rule: uvarint.induct)
  case (1 n)
  show ?case
  proof (cases "n < 128")
    case True
    then have "unat (of_nat n :: u8) = n" by (simp add: unat_of_nat)
    with True show ?thesis by (subst uvarint.simps) simp
  next
    case False
    have "unat (of_nat (128 + n mod 128) :: u8) = 128 + n mod 128" by (simp add: unat_of_nat del: of_nat_add)
    with False 1 show ?thesis by (subst uvarint.simps) (simp del: of_nat_add)
  qed
qed

lemma from_be_to_be: "from_be (to_be n v) = v mod 256 ^ n"
  by (simp add: from_be_def to_be_def from_le_to_le)

lemma decode_item_bytes:
  assumes "storable it"
  shows "decode_item (shape_of it) (item_bytes big ORDER_NETWORK it @ rest) = Some it"
    and "shape_rest (shape_of it) (item_bytes big ORDER_NETWORK it @ rest) = rest"
proof -
  have one: "from_be [v] = uint v" for v by (simp add: from_be_def)
  show "decode_item (shape_of it) (item_bytes big ORDER_NETWORK it @ rest) = Some it"
    using assms
    by (cases it) (simp_all add: ordered_def from_be_to_be one decode_uvarint_bytes uint_mod_wide [OF wide_words(1), simplified]
        uint_mod_wide [OF wide_words(2), simplified] uint_mod_wide [OF wide_words(3), simplified])
  show "shape_rest (shape_of it) (item_bytes big ORDER_NETWORK it @ rest) = rest"
    by (cases it) (simp_all add: ordered_def decode_uvarint_bytes)
qed

lemma decode_items_bytes:
  "list_all storable its \<Longrightarrow>
   decode_items (map shape_of its) (concat (map (item_bytes big ORDER_NETWORK) its)) = Some its"
  by (induction its) (simp_all add: decode_item_bytes)

text \<open>
  Numbers in memory.  Whatever the byte order of the host, \<^verbatim>\<open>SetBE\<close> stores the most
  significant byte first and \<^verbatim>\<open>SetLE\<close> the least significant one, nothing behind the number
  changes, the getters read it back, and the conversions to and from network order are inverse.
\<close>

lemma byte_order_exact:
  fixes v16 :: u16 and v32 :: u32 and v64 :: u64
  assumes "8 \<le> length m"
  shows "SetBE16 big m v16 = Inr (to_be 2 (uint v16) @ drop 2 m) \<and> GetBE16 big (to_be 2 (uint v16) @ drop 2 m) = Inr v16 \<and>
    SetBE32 big m v32 = Inr (to_be 4 (uint v32) @ drop 4 m) \<and> GetBE32 big (to_be 4 (uint v32) @ drop 4 m) = Inr v32 \<and>
    SetBE64 big m v64 = Inr (to_be 8 (uint v64) @ drop 8 m) \<and> GetBE64 big (to_be 8 (uint v64) @ drop 8 m) = Inr v64 \<and>
    SetLE16 big m v16 = Inr (to_le 2 (uint v16) @ drop 2 m) \<and> GetLE16 big (to_le 2 (uint v16) @ drop 2 m) = Inr v16 \<and>
    SetLE32 big m v32 = Inr (to_le 4 (uint v32) @ drop 4 m) \<and> GetLE32 big (to_le 4 (uint v32) @ drop 4 m) = Inr v32 \<and>
    SetLE64 big m v64 = Inr (to_le 8 (uint v64) @ drop 8 m) \<and> GetLE64 big (to_le 8 (uint v64) @ drop 8 m) = Inr v64 \<and>
    NetworkToHost16 big (HostToNetwork16 big v16) = v16 \<and> NetworkToHost32 big (HostToNetwork32 big v32) = v32 \<and>
    NetworkToHost64 big (HostToNetwork64 big v64) = v64"
proof -
  have l: "2 \<le> length m" "4 \<le> length m" using assms by simp_all
  show ?thesis
    unfolding SetBE16_def SetBE32_def SetBE64_def GetBE16_def GetBE32_def GetBE64_def
      SetLE16_def SetLE32_def SetLE64_def GetLE16_def GetLE32_def GetLE64_def
      NetworkToHost16_def NetworkToHost32_def NetworkToHost64_def HostToNetwork16_def HostToNetwork32_def HostToNetwork64_def
    using store_load [OF wide_words(1) l(1)] store_load [OF wide_words(2) l(2)] store_load [OF wide_words(3) assms]
      swap_swap(1) [OF wide_words(1)] swap_swap(1) [OF wide_words(2)] swap_swap(1) [OF wide_words(3)]
    by (intro conjI) assumption+
qed

text \<open>
  (C32) Messages.  A new writer in network order that is given a sequence of items holds exactly their bytes, one after
  the other, the same on every host; a reader that knows the kinds of the items gets all of them back.  A
  24-bit item must be less than \<open>2 ^ 24\<close>; the number of bytes must be less than \<open>2 ^ 64\<close>.
\<close>

theorem byte_buffer_message:
  assumes "length (concat (map (item_bytes big ORDER_NETWORK) its)) < 2 ^ 64" "list_all storable its"
  shows "\<exists>bs. returns (rbind (ByteBufferWriter_new d ORDER_NETWORK) (write_items d big its)) (\<lambda>w. written w = map Some bs) \<and>
    decode_items (map shape_of its) bs = Some its \<and> bs = concat (map (item_bytes big' ORDER_NETWORK) its)"
proof -
  let ?bs = "concat (map (item_bytes big ORDER_NETWORK) its)"
  obtain w where w: "ByteBufferWriter_new d ORDER_NETWORK = Inr w" "writer_inv w \<and> byte_order w = ORDER_NETWORK" "written w = []"
    using writer_new(1) [of d ORDER_NETWORK] by (auto elim: returnsE)
  have "returns (write_items d big its w) (\<lambda>w. written w = map Some ?bs)"
    using write_items_returns [OF w(2), of big its d] assms(1) w(3) by (auto elim: returns_mono)
  moreover have "item_bytes big' ORDER_NETWORK = item_bytes big ORDER_NETWORK"
  proof
    show "item_bytes big' ORDER_NETWORK it = item_bytes big ORDER_NETWORK it" for it
      by (cases it) (simp_all add: ordered_def)
  qed
  ultimately show ?thesis
    using w(1) decode_items_bytes [OF assms(2), of big] by (intro exI [of _ ?bs]) simp
qed

end
