(* ===== verification/Rtc_Sigslot.thy ===== *)
theory Rtc_Sigslot
  imports Rtc_Numeric "HOL-Library.Sublist"
begin

text \<open>
  Signals and slots (\<^verbatim>\<open>rtc_base/third_party/sigslot/sigslot.h\<close>): a signal keeps the list of
  its connections, an object with slots keeps the set of signals it is connected to, and firing a signal calls the slots, which may connect,
  disconnect and destroy while the list is being walked.

  Objects are numbered; one that is not in its map does not exist, and using it is \<open>Dangling\<close>.  An
  iterator of \<^verbatim>\<open>std::list\<close> is the node it points to, the end is \<^const>\<open>None\<close>; nodes get new numbers, so an iterator to an
  erased node is never valid again.  The set of senders is ordered by address, as \<^verbatim>\<open>std::set\<close> is.  The
  policy is \<^verbatim>\<open>single_threaded\<close>, the default of this copy, whose locks do nothing.  What the slots do when they are called is
  a parameter: a function from the calls so far, the present one last, to the operations the slot performs.
\<close>

section \<open>State\<close>

datatype sfault = Misuse | Dangling

type_synonym 'x sresult = "sfault + 'x"

record 'm connection =
  pdest :: nat
  pmethod :: 'm

type_synonym 'm connections_list = "(nat \<times> 'm connection) list"

record 'm signal =
  m_connected_slots :: "'m connections_list"
  m_current_iterator :: "nat option"

record ('m, 'a) world =
  signals :: "nat \<rightharpoonup> 'm signal"
  senders :: "nat \<rightharpoonup> nat list"
  next_node :: nat
  firing :: "nat list"
  calls :: "(nat \<times> 'm \<times> 'a) list"

definition get_signal :: "nat \<Rightarrow> ('m, 'a) world \<Rightarrow> 'm signal sresult" where
  "get_signal s w = (case signals w s of None \<Rightarrow> Inl Dangling | Some sg \<Rightarrow> Inr sg)"

definition set_signal :: "nat \<Rightarrow> 'm signal \<Rightarrow> ('m, 'a) world \<Rightarrow> ('m, 'a) world" where
  "set_signal s sg w = w\<lparr>signals := (signals w)(s \<mapsto> sg)\<rparr>"

definition get_senders :: "nat \<Rightarrow> ('m, 'a) world \<Rightarrow> nat list sresult" where
  "get_senders p w = (case senders w p of None \<Rightarrow> Inl Dangling | Some ss \<Rightarrow> Inr ss)"

definition set_senders :: "nat \<Rightarrow> nat list \<Rightarrow> ('m, 'a) world \<Rightarrow> ('m, 'a) world" where
  "set_senders p ss w = w\<lparr>senders := (senders w)(p \<mapsto> ss)\<rparr>"

section \<open>Lists with stable iterators\<close>

definition begin_iter :: "'m connections_list \<Rightarrow> nat option" where
  "begin_iter cs = (case cs of [] \<Rightarrow> None | (n, c) # _ \<Rightarrow> Some n)"

fun next_iter :: "nat \<Rightarrow> 'm connections_list \<Rightarrow> nat option" where
  "next_iter n [] = None"
| "next_iter n ((k, c) # cs) = (if k = n then begin_iter cs else next_iter n cs)"

text \<open>\<^verbatim>\<open>erase\<close>, and the assignment of its result to the current iterator if that is the one erased.\<close>

definition erase :: "nat \<Rightarrow> 'm signal \<Rightarrow> 'm signal" where
  "erase n sg = sg\<lparr>
     m_connected_slots := filter (\<lambda>x. fst x \<noteq> n) (m_connected_slots sg),
     m_current_iterator := (if m_current_iterator sg = Some n then next_iter n (m_connected_slots sg)
                            else m_current_iterator sg)\<rparr>"

definition push_back :: "nat \<Rightarrow> 'm connection \<Rightarrow> ('m, 'a) world \<Rightarrow> ('m, 'a) world sresult" where
  "push_back s c w =
     rbind (get_signal s w) (\<lambda>sg.
     Inr ((set_signal s (sg\<lparr>m_connected_slots := m_connected_slots sg @ [(next_node w, c)]\<rparr>) w)
       \<lparr>next_node := Suc (next_node w)\<rparr>))"

section \<open>Objects with slots, first part\<close>

definition do_signal_connect :: "nat \<Rightarrow> nat \<Rightarrow> ('m, 'a) world \<Rightarrow> ('m, 'a) world sresult" where
  "do_signal_connect self sender w =
     rbind (get_senders self w) (\<lambda>ss. Inr (set_senders self (insort_insert sender ss) w))"

definition do_signal_disconnect :: "nat \<Rightarrow> nat \<Rightarrow> ('m, 'a) world \<Rightarrow> ('m, 'a) world sresult" where
  "do_signal_disconnect self sender w =
     rbind (get_senders self w) (\<lambda>ss. Inr (set_senders self (filter (\<lambda>t. t \<noteq> sender) ss) w))"

section \<open>Signals\<close>

definition signal_new :: "nat \<Rightarrow> ('m, 'a) world \<Rightarrow> ('m, 'a) world" where
  "signal_new s w = set_signal s \<lparr>m_connected_slots = [], m_current_iterator = None\<rparr> w"

definition duplicate :: "'m connection \<Rightarrow> nat \<Rightarrow> 'm connection" where
  "duplicate c newtarget = c\<lparr>pdest := newtarget\<rparr>"

fun copy_connections :: "nat \<Rightarrow> 'm connections_list \<Rightarrow> ('m, 'a) world \<Rightarrow> ('m, 'a) world sresult" where
  "copy_connections s [] w = Inr w"
| "copy_connections s ((n, c) # cs) w =
     rbind (do_signal_connect (pdest c) s w) (\<lambda>w.
     rbind (push_back s c w) (copy_connections s cs))"

definition signal_copy :: "nat \<Rightarrow> nat \<Rightarrow> ('m, 'a) world \<Rightarrow> ('m, 'a) world sresult" where
  "signal_copy src s w =
     rbind (get_signal src w) (\<lambda>sg. copy_connections s (m_connected_slots sg) (signal_new s w))"

definition signal_is_empty :: "nat \<Rightarrow> ('m, 'a) world \<Rightarrow> bool sresult" where
  "signal_is_empty s w = rbind (get_signal s w) (\<lambda>sg. Inr (m_connected_slots sg = []))"

text \<open>
  The loop takes the first connection off the list until there is none.  Meanwhile the current iterator may point to an
  erased node; it is not used before it is set to the end.
\<close>

fun pop_connections :: "nat \<Rightarrow> 'm connections_list \<Rightarrow> ('m, 'a) world \<Rightarrow> ('m, 'a) world sresult" where
  "pop_connections s [] w = Inr w"
| "pop_connections s ((n, c) # cs) w =
     rbind (get_signal s w) (\<lambda>sg.
     rbind (do_signal_disconnect (pdest c) s (set_signal s (sg\<lparr>m_connected_slots := cs\<rparr>) w)) (\<lambda>w.
     pop_connections s cs w))"

definition disconnect_all :: "nat \<Rightarrow> ('m, 'a) world \<Rightarrow> ('m, 'a) world sresult" where
  "disconnect_all s w =
     rbind (get_signal s w) (\<lambda>sg.
     rbind (pop_connections s (m_connected_slots sg) w) (\<lambda>w.
     rbind (get_signal s w) (\<lambda>sg. Inr (set_signal s (sg\<lparr>m_current_iterator := None\<rparr>) w))))"

definition signal_delete :: "nat \<Rightarrow> ('m, 'a) world \<Rightarrow> ('m, 'a) world sresult" where
  "signal_delete s w =
     rbind (disconnect_all s w) (\<lambda>w. Inr (w\<lparr>signals := (signals w)(s := None)\<rparr>))"

fun find_dest :: "nat \<Rightarrow> 'm connections_list \<Rightarrow> nat option" where
  "find_dest p [] = None"
| "find_dest p ((n, c) # cs) = (if pdest c = p then Some n else find_dest p cs)"

definition connected :: "nat \<Rightarrow> nat \<Rightarrow> ('m, 'a) world \<Rightarrow> bool sresult" where
  "connected s pclass w = rbind (get_signal s w) (\<lambda>sg. Inr (find_dest pclass (m_connected_slots sg) \<noteq> None))"

definition disconnect :: "nat \<Rightarrow> nat \<Rightarrow> ('m, 'a) world \<Rightarrow> ('m, 'a) world sresult" where
  "disconnect s pclass w =
     rbind (get_signal s w) (\<lambda>sg.
     case find_dest pclass (m_connected_slots sg) of
       None \<Rightarrow> Inr w
     | Some n \<Rightarrow> do_signal_disconnect pclass s (set_signal s (erase n sg) w))"

fun erase_dest :: "nat \<Rightarrow> 'm connections_list \<Rightarrow> 'm signal \<Rightarrow> 'm signal" where
  "erase_dest pslot [] sg = sg"
| "erase_dest pslot ((n, c) # cs) sg = erase_dest pslot cs (if pdest c = pslot then erase n sg else sg)"

definition do_slot_disconnect :: "nat \<Rightarrow> nat \<Rightarrow> ('m, 'a) world \<Rightarrow> ('m, 'a) world sresult" where
  "do_slot_disconnect s pslot w =
     rbind (get_signal s w) (\<lambda>sg. Inr (set_signal s (erase_dest pslot (m_connected_slots sg) sg) w))"

text \<open>
  The loop also reaches the connections it appends; they lead to the new target, not to the old one, and
  are passed over.
\<close>

fun duplicate_connections :: "nat \<Rightarrow> nat \<Rightarrow> nat \<Rightarrow> 'm connections_list \<Rightarrow> ('m, 'a) world \<Rightarrow> ('m, 'a) world sresult" where
  "duplicate_connections s oldtarget newtarget [] w = Inr w"
| "duplicate_connections s oldtarget newtarget ((n, c) # cs) w =
     rbind (if pdest c = oldtarget then push_back s (duplicate c newtarget) w else Inr w)
       (duplicate_connections s oldtarget newtarget cs)"

definition do_slot_duplicate :: "nat \<Rightarrow> nat \<Rightarrow> nat \<Rightarrow> ('m, 'a) world \<Rightarrow> ('m, 'a) world sresult" where
  "do_slot_duplicate s oldtarget newtarget w =
     rbind (get_signal s w) (\<lambda>sg. duplicate_connections s oldtarget newtarget (m_connected_slots sg) w)"

definition connect :: "nat \<Rightarrow> nat \<Rightarrow> 'm \<Rightarrow> ('m, 'a) world \<Rightarrow> ('m, 'a) world sresult" where
  "connect s pclass pmemfun w =
     rbind (push_back s \<lparr>pdest = pclass, pmethod = pmemfun\<rparr> w) (do_signal_connect pclass s)"

section \<open>Objects with slots, second part\<close>

definition has_slots_new :: "nat \<Rightarrow> ('m, 'a) world \<Rightarrow> ('m, 'a) world" where
  "has_slots_new p w = set_senders p [] w"

fun copy_senders :: "nat \<Rightarrow> nat \<Rightarrow> nat list \<Rightarrow> ('m, 'a) world \<Rightarrow> ('m, 'a) world sresult" where
  "copy_senders src p [] w = Inr w"
| "copy_senders src p (s # ss) w =
     rbind (do_slot_duplicate s src p w) (\<lambda>w.
     rbind (do_signal_connect p s w) (copy_senders src p ss))"

definition has_slots_copy :: "nat \<Rightarrow> nat \<Rightarrow> ('m, 'a) world \<Rightarrow> ('m, 'a) world sresult" where
  "has_slots_copy src p w =
     rbind (get_senders src w) (\<lambda>ss. copy_senders src p ss (has_slots_new p w))"

fun slot_disconnect_each :: "nat \<Rightarrow> nat list \<Rightarrow> ('m, 'a) world \<Rightarrow> ('m, 'a) world sresult" where
  "slot_disconnect_each p [] w = Inr w"
| "slot_disconnect_each p (s # ss) w = rbind (do_slot_disconnect s p w) (slot_disconnect_each p ss)"

text \<open>The outer loop runs once: disconnecting a slot from a signal adds nothing to the set that was swapped out.\<close>

definition do_disconnect_all :: "nat \<Rightarrow> ('m, 'a) world \<Rightarrow> ('m, 'a) world sresult" where
  "do_disconnect_all p w =
     rbind (get_senders p w) (\<lambda>ss. slot_disconnect_each p ss (set_senders p [] w))"

definition has_slots_delete :: "nat \<Rightarrow> ('m, 'a) world \<Rightarrow> ('m, 'a) world sresult" where
  "has_slots_delete p w =
     rbind (do_disconnect_all p w) (\<lambda>w. Inr (w\<lparr>senders := (senders w)(p := None)\<rparr>))"

section \<open>Programs\<close>

datatype ('m, 'a) sop =
    NewSignal nat
  | CopySignal nat nat
  | DeleteSignal nat
  | NewSlots nat
  | CopySlots nat nat
  | DeleteSlots nat
  | Connect nat nat 'm
  | Disconnect nat nat
  | DisconnectAll nat
  | SlotsDisconnectAll nat
  | Emit nat 'a

fun perform :: "('m, 'a) sop \<Rightarrow> ('m, 'a) world \<Rightarrow> ('m, 'a) world sresult" where
  "perform (NewSignal s) w = Inr (signal_new s w)"
| "perform (CopySignal src s) w = signal_copy src s w"
| "perform (DeleteSignal s) w = signal_delete s w"
| "perform (NewSlots p) w = Inr (has_slots_new p w)"
| "perform (CopySlots src p) w = has_slots_copy src p w"
| "perform (DeleteSlots p) w = has_slots_delete p w"
| "perform (Connect s p m) w = connect s p m w"
| "perform (Disconnect s p) w = disconnect s p w"
| "perform (DisconnectAll s) w = disconnect_all s w"
| "perform (SlotsDisconnectAll p) w = do_disconnect_all p w"
| "perform (Emit s a) w = Inr w"

text \<open>
  The contract of the operations: constructors get a fresh address, the other operations existing objects; a
  signal is not destroyed while it is firing, and \<^verbatim>\<open>disconnect\<close> is not used on a pair that is connected more than once.
\<close>

definition connection_count :: "nat \<Rightarrow> nat \<Rightarrow> ('m, 'a) world \<Rightarrow> nat" where
  "connection_count s p w =
     (case signals w s of None \<Rightarrow> 0 | Some sg \<Rightarrow> length (filter (\<lambda>(n, c). pdest c = p) (m_connected_slots sg)))"

fun contract :: "('m, 'a) sop \<Rightarrow> ('m, 'a) world \<Rightarrow> bool" where
  "contract (NewSignal s) w = (signals w s = None)"
| "contract (CopySignal src s) w = (signals w src \<noteq> None \<and> signals w s = None)"
| "contract (DeleteSignal s) w = (signals w s \<noteq> None \<and> s \<notin> set (firing w))"
| "contract (NewSlots p) w = (senders w p = None)"
| "contract (CopySlots src p) w = (senders w src \<noteq> None \<and> senders w p = None)"
| "contract (DeleteSlots p) w = (senders w p \<noteq> None)"
| "contract (Connect s p m) w = (signals w s \<noteq> None \<and> senders w p \<noteq> None)"
| "contract (Disconnect s p) w = (signals w s \<noteq> None \<and> senders w p \<noteq> None \<and> connection_count s p w \<le> 1)"
| "contract (DisconnectAll s) w = (signals w s \<noteq> None)"
| "contract (SlotsDisconnectAll p) w = (senders w p \<noteq> None)"
| "contract (Emit s a) w = (signals w s \<noteq> None)"

text \<open>
  \<^verbatim>\<open>emit\<close>.  The ghost list \<open>firing\<close> has the signals whose loops are on the stack.  The
  iterator is advanced before the slot is called, and the slot's object must exist.
\<close>

definition emit_begin :: "nat \<Rightarrow> ('m, 'a) world \<Rightarrow> ('m, 'a) world sresult" where
  "emit_begin s w =
     rbind (get_signal s w) (\<lambda>sg.
     Inr ((set_signal s (sg\<lparr>m_current_iterator := begin_iter (m_connected_slots sg)\<rparr>) w)\<lparr>firing := s # firing w\<rparr>))"

definition emit_end :: "('m, 'a) world \<Rightarrow> ('m, 'a) world" where
  "emit_end w = w\<lparr>firing := tl (firing w)\<rparr>"

definition emit_next :: "nat \<Rightarrow> 'a \<Rightarrow> ('m, 'a) world \<Rightarrow> ('m, 'a) world option sresult" where
  "emit_next s args w =
     rbind (get_signal s w) (\<lambda>sg.
     case m_current_iterator sg of
       None \<Rightarrow> Inr None
     | Some n \<Rightarrow>
         (case map_of (m_connected_slots sg) n of
            None \<Rightarrow> Inl Dangling
          | Some conn \<Rightarrow>
              rbind (get_senders (pdest conn) w) (\<lambda>_.
              Inr (Some ((set_signal s (sg\<lparr>m_current_iterator := next_iter n (m_connected_slots sg)\<rparr>) w)
                \<lparr>calls := calls w @ [(pdest conn, pmethod conn, args)]\<rparr>)))))"

text \<open>
  The run of a program: a sequence of operations, or the loop of \<^verbatim>\<open>emit\<close>.  Slots may fire
  signals again, so the depth of calls is not bounded: the first number is the fuel, and \<^const>\<open>None\<close> means that it was not enough.  With
  \<open>monitor\<close> a use against the contract stops the run with \<open>Misuse\<close>; the code has no such check.
\<close>

datatype ('m, 'a) task = Do "('m, 'a) sop list" | Loop nat 'a

definition seq :: "'w sresult option \<Rightarrow> ('w \<Rightarrow> 'v sresult option) \<Rightarrow> 'v sresult option" where
  "seq r f = (case r of None \<Rightarrow> None | Some (Inl e) \<Rightarrow> Some (Inl e) | Some (Inr w) \<Rightarrow> f w)"

fun run :: "bool \<Rightarrow> ((nat \<times> 'm \<times> 'a) list \<Rightarrow> ('m, 'a) sop list) \<Rightarrow> nat \<Rightarrow> ('m, 'a) task \<Rightarrow> ('m, 'a) world \<Rightarrow>
    ('m, 'a) world sresult option" where
  "run monitor slot 0 t w = None"
| "run monitor slot (Suc n) (Do []) w = Some (Inr w)"
| "run monitor slot (Suc n) (Do (op # ops)) w =
     (if monitor \<and> \<not> contract op w then Some (Inl Misuse)
      else case op of
        Emit s args \<Rightarrow>
          seq (Some (emit_begin s w)) (\<lambda>w.
          seq (run monitor slot n (Loop s args) w) (\<lambda>w.
          run monitor slot n (Do ops) (emit_end w)))
      | _ \<Rightarrow> seq (Some (perform op w)) (run monitor slot n (Do ops)))"
| "run monitor slot (Suc n) (Loop s args) w =
     seq (Some (emit_next s args w)) (\<lambda>next.
     case next of
       None \<Rightarrow> Some (Inr w)
     | Some w' \<Rightarrow>
         seq (run monitor slot n (Do (slot (calls w'))) w') (run monitor slot n (Loop s args)))"

section \<open>The invariant\<close>

text \<open>
  A signal is well formed if its nodes are different and older than \<open>k\<close>, and its current
  iterator is the end or one of its nodes.
\<close>

definition nodes :: "'m signal \<Rightarrow> nat list" where
  "nodes sg = map fst (m_connected_slots sg)"

definition dests :: "'m connections_list \<Rightarrow> nat set" where
  "dests cs = (\<lambda>(n, c). pdest c) ` set cs"

definition sig_ok :: "nat \<Rightarrow> 'm signal \<Rightarrow> bool" where
  "sig_ok k sg \<longleftrightarrow> distinct (nodes sg) \<and> (\<forall>n \<in> set (nodes sg). n < k) \<and>
     (case m_current_iterator sg of None \<Rightarrow> True | Some n \<Rightarrow> n \<in> set (nodes sg))"

definition all_ok :: "('m, 'a) world \<Rightarrow> bool" where
  "all_ok w \<longleftrightarrow> (\<forall>s sg. signals w s = Some sg \<longrightarrow> sig_ok (next_node w) sg)"

text \<open>The two sides of a connection: the signal's list and the object's set.\<close>

definition linked :: "('m, 'a) world \<Rightarrow> nat \<Rightarrow> nat \<Rightarrow> bool" where
  "linked w s p \<longleftrightarrow> (\<exists>sg. signals w s = Some sg \<and> p \<in> dests (m_connected_slots sg))"

definition knows :: "('m, 'a) world \<Rightarrow> nat \<Rightarrow> nat \<Rightarrow> bool" where
  "knows w p s \<longleftrightarrow> (\<exists>ss. senders w p = Some ss \<and> s \<in> set ss)"

definition world_inv :: "('m, 'a) world \<Rightarrow> bool" where
  "world_inv w \<longleftrightarrow> all_ok w \<and> (\<forall>s p. linked w s p \<longleftrightarrow> knows w p s) \<and> (\<forall>s \<in> set (firing w). signals w s \<noteq> None)"

lemma dests_simps [simp]: "dests [] = {}" "dests ((n, c) # cs) = insert (pdest c) (dests cs)"
  "dests (cs @ ds) = dests cs \<union> dests ds"
  by (auto simp: dests_def)

lemma set_signal_simps [simp]:
  "signals (set_signal s sg w) = (signals w)(s \<mapsto> sg)" "senders (set_signal s sg w) = senders w"
  "next_node (set_signal s sg w) = next_node w" "firing (set_signal s sg w) = firing w" "calls (set_signal s sg w) = calls w"
  by (simp_all add: set_signal_def)

lemma set_senders_simps [simp]:
  "signals (set_senders p ss w) = signals w" "senders (set_senders p ss w) = (senders w)(p \<mapsto> ss)"
  "next_node (set_senders p ss w) = next_node w" "firing (set_senders p ss w) = firing w" "calls (set_senders p ss w) = calls w"
  by (simp_all add: set_senders_def)

lemma get_simps [simp]:
  "signals w s = Some sg \<Longrightarrow> get_signal s w = Inr sg" "senders w p = Some ss \<Longrightarrow> get_senders p w = Inr ss"
  by (simp_all add: get_signal_def get_senders_def)

text \<open>
  \<open>effect w w' L K\<close>: from \<open>w\<close> to \<open>w'\<close> no object is made or destroyed, the links are \<open>L\<close> and
  the known senders \<open>K\<close>, and every signal is well formed.
\<close>

definition effect :: "('m, 'a) world \<Rightarrow> ('m, 'a) world \<Rightarrow> (nat \<Rightarrow> nat \<Rightarrow> bool) \<Rightarrow> (nat \<Rightarrow> nat \<Rightarrow> bool) \<Rightarrow> bool" where
  "effect w w' L K \<longleftrightarrow> all_ok w' \<and> linked w' = L \<and> knows w' = K \<and> dom (signals w') = dom (signals w) \<and>
     dom (senders w') = dom (senders w) \<and> firing w' = firing w \<and> calls w' = calls w"

lemma effect_trans: "effect w w1 L1 K1 \<Longrightarrow> effect w1 w2 L K \<Longrightarrow> effect w w2 L K"
  by (simp add: effect_def)

lemma effect_refl: "all_ok w \<Longrightarrow> effect w w (linked w) (knows w)"
  by (simp add: effect_def)

lemma effect_live:
  "effect w w' L K \<Longrightarrow> signals w' s \<noteq> None \<longleftrightarrow> signals w s \<noteq> None"
  "effect w w' L K \<Longrightarrow> senders w' p \<noteq> None \<longleftrightarrow> senders w p \<noteq> None"
  by (auto simp: effect_def dom_def set_eq_iff)

lemma effect_ok: "effect w w' L K \<Longrightarrow> all_ok w'"
  by (simp add: effect_def)

text \<open>Changing one signal, or the senders of one object.\<close>

lemma linked_set_signal: "linked (set_signal s sg w) t q \<longleftrightarrow> (if t = s then q \<in> dests (m_connected_slots sg) else linked w t q)"
  by (auto simp: linked_def)

lemma set_signal_effect:
  assumes "all_ok w" "signals w s \<noteq> None" "sig_ok (next_node w) sg"
  shows "effect w (set_signal s sg w) (\<lambda>t q. if t = s then q \<in> dests (m_connected_slots sg) else linked w t q) (knows w)"
  using assms by (auto simp: effect_def all_ok_def linked_set_signal knows_def fun_eq_iff split: if_splits)

lemma do_signal_connect_effect:
  assumes "all_ok w" "senders w p \<noteq> None"
  shows "returns (do_signal_connect p s w) (\<lambda>w'. effect w w' (linked w) (\<lambda>q t. knows w q t \<or> q = p \<and> t = s))"
  using assms
  by (auto simp: do_signal_connect_def effect_def all_ok_def linked_def knows_def fun_eq_iff set_insort_insert split: if_splits)

lemma do_signal_disconnect_effect:
  assumes "all_ok w" "senders w p \<noteq> None"
  shows "returns (do_signal_disconnect p s w) (\<lambda>w'. effect w w' (linked w) (\<lambda>q t. knows w q t \<and> \<not> (q = p \<and> t = s)))"
  using assms
  by (auto simp: do_signal_disconnect_def effect_def all_ok_def linked_def knows_def fun_eq_iff split: if_splits)

lemma sig_ok_Suc: "sig_ok k sg \<Longrightarrow> sig_ok (Suc k) sg"
  by (auto simp: sig_ok_def)

lemma sig_ok_push: "sig_ok k sg \<Longrightarrow> sig_ok (Suc k) (sg\<lparr>m_connected_slots := m_connected_slots sg @ [(k, c)]\<rparr>)"
  by (auto simp: sig_ok_def nodes_def split: option.splits)

lemma push_back_effect:
  assumes "all_ok w" "signals w s \<noteq> None"
  shows "returns (push_back s c w) (\<lambda>w'. effect w w' (\<lambda>t q. linked w t q \<or> t = s \<and> q = pdest c) (knows w))"
proof -
  from assms(2) obtain sg where sg: "signals w s = Some sg" by blast
  then have "sig_ok (next_node w) sg" using assms(1) by (simp add: all_ok_def)
  with assms(1) sg show ?thesis
    by (auto simp: push_back_def effect_def all_ok_def linked_def knows_def fun_eq_iff
        intro: sig_ok_Suc sig_ok_push split: if_splits)
qed

text \<open>Erasing nodes.\<close>

lemma next_iter_node: "next_iter n cs = Some k \<Longrightarrow> distinct (map fst cs) \<Longrightarrow> k \<in> set (map fst cs) \<and> k \<noteq> n"
proof (induction n cs rule: next_iter.induct)
  case (2 n j c cs)
  then show ?case by (cases cs) (auto simp: begin_iter_def split: if_splits)
qed simp

lemma nodes_erase: "nodes (erase n sg) = filter (\<lambda>k. k \<noteq> n) (nodes sg)"
  by (simp add: nodes_def erase_def filter_map comp_def)

lemma erase_ok: "sig_ok k sg \<Longrightarrow> sig_ok k (erase n sg)"
  using next_iter_node [of n "m_connected_slots sg"]
  by (auto simp: sig_ok_def nodes_erase) (auto simp: erase_def nodes_def split: option.splits if_splits)

lemma erase_dest_ok: "sig_ok k sg \<Longrightarrow> sig_ok k (erase_dest p cs sg)"
  by (induction p cs sg rule: erase_dest.induct) (simp_all add: erase_ok)

lemma erase_dest_slots:
  "m_connected_slots (erase_dest p cs sg) =
     filter (\<lambda>x. \<nexists>c. (fst x, c) \<in> set cs \<and> pdest c = p) (m_connected_slots sg)"
proof (induction p cs sg rule: erase_dest.induct)
  case (2 p n c cs sg)
  then show ?case
    by (auto simp: erase_def intro!: filter_cong)
qed simp

lemma erase_dest_filter:
  assumes "distinct (nodes sg)"
  shows "m_connected_slots (erase_dest p (m_connected_slots sg) sg) =
    filter (\<lambda>x. pdest (snd x) \<noteq> p) (m_connected_slots sg)"
  unfolding erase_dest_slots using assms eq_key_imp_eq_value [of "m_connected_slots sg"]
  by (intro filter_cong) (auto simp: nodes_def, blast)

lemma do_slot_disconnect_effect:
  assumes "all_ok w" "signals w s \<noteq> None"
  shows "returns (do_slot_disconnect s p w) (\<lambda>w'. effect w w' (\<lambda>t q. linked w t q \<and> \<not> (t = s \<and> q = p)) (knows w))"
proof -
  from assms(2) obtain sg where sg: "signals w s = Some sg" by blast
  then have ok: "sig_ok (next_node w) sg" using assms(1) by (simp add: all_ok_def)
  let ?sg = "erase_dest p (m_connected_slots sg) sg"
  have d: "dests (m_connected_slots ?sg) = dests (m_connected_slots sg) - {p}"
    using ok by (force simp: erase_dest_filter sig_ok_def dests_def)
  have "(\<lambda>t q. if t = s then q \<in> dests (m_connected_slots ?sg) else linked w t q) =
      (\<lambda>t q. linked w t q \<and> \<not> (t = s \<and> q = p))"
    unfolding d using sg by (auto simp: linked_def fun_eq_iff)
  with set_signal_effect [OF assms erase_dest_ok [OF ok], of p "m_connected_slots sg"] show ?thesis
    using sg by (simp add: do_slot_disconnect_def)
qed

lemma find_dest_node: "find_dest p cs = Some n \<Longrightarrow> \<exists>c. (n, c) \<in> set cs \<and> pdest c = p"
  by (induction p cs rule: find_dest.induct) (auto split: if_splits)

lemma find_dest_None: "find_dest p cs = None \<longleftrightarrow> p \<notin> dests cs"
  by (induction p cs rule: find_dest.induct) auto

lemma find_dest_only:
  assumes "find_dest p cs = Some n" "length (filter (\<lambda>(n, c). pdest c = p) cs) \<le> 1" "distinct (map fst cs)"
  shows "dests (filter (\<lambda>x. fst x \<noteq> n) cs) = dests cs - {p}"
  using assms
proof (induction p cs rule: find_dest.induct)
  case (2 p k c cs)
  show ?case
  proof (cases "pdest c = p")
    case True
    then have "n = k" "filter (\<lambda>(n, c). pdest c = p) cs = []" using "2.prems" by simp_all
    moreover from this have "filter (\<lambda>x. fst x \<noteq> n) cs = cs" "p \<notin> dests cs"
      using "2.prems"(3) by (force simp: filter_id_conv filter_empty_conv dests_def)+
    ultimately show ?thesis using True by auto
  next
    case False
    then have "n \<noteq> k" using "2.prems" find_dest_node [of p cs n] by force
    with False 2 show ?thesis by auto
  qed
qed simp

lemma disconnect_effect:
  assumes inv: "all_ok w" "\<forall>s p. linked w s p \<longleftrightarrow> knows w p s" and l: "contract (Disconnect s p) w"
  shows "returns (disconnect s p w) (\<lambda>w'. effect w w'
    (\<lambda>t q. linked w t q \<and> \<not> (t = s \<and> q = p)) (\<lambda>q t. knows w q t \<and> \<not> (q = p \<and> t = s)))"
proof -
  from l obtain sg where sg: "signals w s = Some sg" by auto
  then have ok: "sig_ok (next_node w) sg" using inv(1) by (simp add: all_ok_def)
  show ?thesis
  proof (cases "find_dest p (m_connected_slots sg)")
    case None
    then have "\<not> linked w s p" using sg by (simp add: find_dest_None linked_def)
    then have "(\<lambda>t q. linked w t q \<and> \<not> (t = s \<and> q = p)) = linked w"
      "(\<lambda>q t. knows w q t \<and> \<not> (q = p \<and> t = s)) = knows w"
      using inv(2) by (auto simp: fun_eq_iff)
    with effect_refl [OF inv(1)] None sg show ?thesis by (simp add: disconnect_def)
  next
    case (Some n)
    let ?w = "set_signal s (erase n sg) w"
    have "dests (m_connected_slots (erase n sg)) = dests (m_connected_slots sg) - {p}"
      using find_dest_only [OF Some] l ok sg by (simp add: erase_def connection_count_def sig_ok_def nodes_def)
    then have L: "(\<lambda>t q. if t = s then q \<in> dests (m_connected_slots (erase n sg)) else linked w t q) =
        (\<lambda>t q. linked w t q \<and> \<not> (t = s \<and> q = p))"
      using sg by (auto simp: linked_def fun_eq_iff)
    have e: "effect w ?w (\<lambda>t q. linked w t q \<and> \<not> (t = s \<and> q = p)) (knows w)"
      using set_signal_effect [OF inv(1) _ erase_ok [OF ok], of s n] sg unfolding L by simp
    then have "returns (do_signal_disconnect p s ?w) (\<lambda>w'. effect ?w w' (linked ?w) (\<lambda>q t. knows ?w q t \<and> \<not> (q = p \<and> t = s)))"
      using l by (intro do_signal_disconnect_effect) (auto simp: effect_def)
    moreover have "linked ?w = (\<lambda>t q. linked w t q \<and> \<not> (t = s \<and> q = p))" "knows ?w = knows w"
      using e by (auto simp: effect_def)
    ultimately show ?thesis
      using Some sg e by (auto simp: disconnect_def elim!: returns_mono intro: effect_trans)
  qed
qed

lemma pop_connections_returns:
  assumes "signals w s = Some sg" "m_connected_slots sg = cs" "\<forall>p \<in> dests cs. senders w p \<noteq> None"
  shows "returns (pop_connections s cs w) (\<lambda>w'. signals w' = (signals w)(s \<mapsto> sg\<lparr>m_connected_slots := []\<rparr>) \<and>
    knows w' = (\<lambda>q t. knows w q t \<and> \<not> (t = s \<and> q \<in> dests cs)) \<and> dom (senders w') = dom (senders w) \<and>
    next_node w' = next_node w \<and> firing w' = firing w \<and> calls w' = calls w)"
  using assms
proof (induction cs arbitrary: w sg)
  case Nil
  then show ?case by (cases sg) auto
next
  case (Cons x cs)
  obtain n c where x: "x = (n, c)" by (cases x)
  with Cons.prems obtain ss where ss: "senders w (pdest c) = Some ss" by auto
  let ?sg = "sg\<lparr>m_connected_slots := cs\<rparr>"
  let ?w = "set_senders (pdest c) (filter (\<lambda>t. t \<noteq> s) ss) (set_signal s ?sg w)"
  have "returns (pop_connections s cs ?w) (\<lambda>w'. signals w' = (signals ?w)(s \<mapsto> ?sg\<lparr>m_connected_slots := []\<rparr>) \<and>
      knows w' = (\<lambda>q t. knows ?w q t \<and> \<not> (t = s \<and> q \<in> dests cs)) \<and> dom (senders w') = dom (senders ?w) \<and>
      next_node w' = next_node ?w \<and> firing w' = firing ?w \<and> calls w' = calls ?w)"
    using Cons.prems x by (intro Cons.IH) auto
  moreover have "knows ?w = (\<lambda>q t. knows w q t \<and> \<not> (q = pdest c \<and> t = s))"
    using ss by (auto simp: knows_def fun_eq_iff)
  moreover have "dom (senders ?w) = dom (senders w)" using ss by auto
  ultimately have "returns (pop_connections s cs ?w) (\<lambda>w'. signals w' = (signals w)(s \<mapsto> sg\<lparr>m_connected_slots := []\<rparr>) \<and>
      knows w' = (\<lambda>q t. knows w q t \<and> \<not> (t = s \<and> q \<in> dests (x # cs))) \<and> dom (senders w') = dom (senders w) \<and>
      next_node w' = next_node w \<and> firing w' = firing w \<and> calls w' = calls w)"
    by (auto simp: x fun_eq_iff elim!: returns_mono)
  moreover have "pop_connections s (x # cs) w = pop_connections s cs ?w"
    using Cons.prems ss by (simp add: x do_signal_disconnect_def)
  ultimately show ?case by (simp only:)
qed

lemma disconnect_all_effect:
  assumes inv: "all_ok w" "\<forall>s p. linked w s p \<longleftrightarrow> knows w p s" and sg: "signals w s = Some sg"
  shows "returns (disconnect_all s w) (\<lambda>w'. effect w w' (\<lambda>t q. linked w t q \<and> t \<noteq> s) (\<lambda>q t. knows w q t \<and> t \<noteq> s) \<and>
    signals w' s = Some \<lparr>m_connected_slots = [], m_current_iterator = None\<rparr>)"
proof -
  have "\<forall>p \<in> dests (m_connected_slots sg). senders w p \<noteq> None"
    using inv(2) sg by (force simp: linked_def knows_def)
  from pop_connections_returns [OF sg refl this]
  obtain w' where w': "pop_connections s (m_connected_slots sg) w = Inr w'"
    "signals w' = (signals w)(s \<mapsto> sg\<lparr>m_connected_slots := []\<rparr>)"
    "knows w' = (\<lambda>q t. knows w q t \<and> \<not> (t = s \<and> q \<in> dests (m_connected_slots sg)))"
    "dom (senders w') = dom (senders w)" "next_node w' = next_node w" "firing w' = firing w" "calls w' = calls w"
    by (auto elim!: returnsE)
  let ?w = "set_signal s \<lparr>m_connected_slots = [], m_current_iterator = None\<rparr> w'"
  have "effect w ?w (\<lambda>t q. linked w t q \<and> t \<noteq> s) (\<lambda>q t. knows w q t \<and> t \<noteq> s)"
  proof -
    have "all_ok ?w" using inv(1) w'(2,5) by (auto simp: all_ok_def sig_ok_def nodes_def)
    moreover have "linked ?w = (\<lambda>t q. linked w t q \<and> t \<noteq> s)" using w'(2) by (auto simp: linked_def fun_eq_iff)
    moreover have "knows ?w = (\<lambda>q t. knows w q t \<and> t \<noteq> s)"
    proof -
      have "knows ?w = knows w'" by (simp add: knows_def fun_eq_iff)
      also have "\<dots> = (\<lambda>q t. knows w q t \<and> t \<noteq> s)"
        unfolding w'(3) inv(2) [rule_format, symmetric] using sg by (auto simp: fun_eq_iff linked_def)
      finally show ?thesis .
    qed
    ultimately show ?thesis using w' sg by (auto simp: effect_def)
  qed
  then show ?thesis using w'(1,2) sg by (cases sg) (simp add: disconnect_all_def)
qed

lemma copy_connections_effect:
  assumes "all_ok w" "signals w s \<noteq> None" "\<forall>p \<in> dests cs. senders w p \<noteq> None"
  shows "returns (copy_connections s cs w) (\<lambda>w'. effect w w' (\<lambda>t q. linked w t q \<or> t = s \<and> q \<in> dests cs)
    (\<lambda>q t. knows w q t \<or> t = s \<and> q \<in> dests cs))"
  using assms
proof (induction cs arbitrary: w)
  case Nil
  then show ?case using effect_refl [of w] by simp
next
  case (Cons x cs)
  obtain n c where x: "x = (n, c)" by (cases x)
  from Cons.prems x have "senders w (pdest c) \<noteq> None" by simp
  from do_signal_connect_effect [OF Cons.prems(1) this, of s] obtain w1 where
    w1: "do_signal_connect (pdest c) s w = Inr w1" "effect w w1 (linked w) (\<lambda>q t. knows w q t \<or> q = pdest c \<and> t = s)"
    by (auto elim: returnsE)
  then have "all_ok w1" "signals w1 s \<noteq> None"
    using Cons.prems(2) effect_live [OF w1(2)] effect_ok [OF w1(2)] by blast+
  from push_back_effect [OF this, of c] obtain w2 where
    w2: "push_back s c w1 = Inr w2" "effect w1 w2 (\<lambda>t q. linked w1 t q \<or> t = s \<and> q = pdest c) (knows w1)"
    by (auto elim: returnsE)
  note e = effect_trans [OF w1(2) w2(2)]
  then have p: "all_ok w2" "signals w2 s \<noteq> None" "\<forall>p \<in> dests cs. senders w2 p \<noteq> None"
    using Cons.prems(2,3) x effect_live [OF e] effect_ok [OF e] by (blast, blast, simp)
  have "linked w1 = linked w" "linked w2 = (\<lambda>t q. linked w1 t q \<or> t = s \<and> q = pdest c)"
    "knows w2 = (\<lambda>q t. knows w q t \<or> q = pdest c \<and> t = s)"
    using w1(2) w2(2) by (auto simp: effect_def)
  then have "(\<lambda>t q. linked w2 t q \<or> t = s \<and> q \<in> dests cs) = (\<lambda>t q. linked w t q \<or> t = s \<and> q \<in> dests (x # cs))"
    "(\<lambda>q t. knows w2 q t \<or> t = s \<and> q \<in> dests cs) = (\<lambda>q t. knows w q t \<or> t = s \<and> q \<in> dests (x # cs))"
    by (auto simp: x fun_eq_iff)
  with Cons.IH [OF p] have "returns (copy_connections s cs w2) (\<lambda>w'. effect w w'
      (\<lambda>t q. linked w t q \<or> t = s \<and> q \<in> dests (x # cs)) (\<lambda>q t. knows w q t \<or> t = s \<and> q \<in> dests (x # cs)))"
    by (auto elim!: returns_mono intro: effect_trans [OF e])
  then show ?case by (simp add: x w1(1) w2(1))
qed

lemma duplicate_connections_effect:
  assumes "all_ok w" "signals w s \<noteq> None"
  shows "returns (duplicate_connections s oldp newp cs w) (\<lambda>w'. effect w w'
    (\<lambda>t q. linked w t q \<or> t = s \<and> q = newp \<and> oldp \<in> dests cs) (knows w))"
  using assms
proof (induction cs arbitrary: w)
  case Nil
  then show ?case using effect_refl [of w] by simp
next
  case (Cons x cs)
  obtain n c where x: "x = (n, c)" by (cases x)
  have "returns (if pdest c = oldp then push_back s (duplicate c newp) w else Inr w)
      (\<lambda>w'. effect w w' (\<lambda>t q. linked w t q \<or> t = s \<and> q = newp \<and> pdest c = oldp) (knows w))"
    using push_back_effect [OF Cons.prems, of "duplicate c newp"] effect_refl [OF Cons.prems(1)]
    by (simp add: duplicate_def)
  then obtain w1 where w1: "(if pdest c = oldp then push_back s (duplicate c newp) w else Inr w) = Inr w1"
      "effect w w1 (\<lambda>t q. linked w t q \<or> t = s \<and> q = newp \<and> pdest c = oldp) (knows w)"
    by (auto elim: returnsE)
  have p: "all_ok w1" "signals w1 s \<noteq> None"
    using Cons.prems(2) effect_live [OF w1(2)] effect_ok [OF w1(2)] by blast+
  have "linked w1 = (\<lambda>t q. linked w t q \<or> t = s \<and> q = newp \<and> pdest c = oldp)" "knows w1 = knows w"
    using w1(2) by (auto simp: effect_def)
  then have "(\<lambda>t q. linked w1 t q \<or> t = s \<and> q = newp \<and> oldp \<in> dests cs) =
      (\<lambda>t q. linked w t q \<or> t = s \<and> q = newp \<and> oldp \<in> dests (x # cs))" "knows w1 = knows w"
    by (auto simp: x fun_eq_iff)
  with Cons.IH [OF p] have "returns (duplicate_connections s oldp newp cs w1) (\<lambda>w'. effect w w'
      (\<lambda>t q. linked w t q \<or> t = s \<and> q = newp \<and> oldp \<in> dests (x # cs)) (knows w))"
    by (auto elim!: returns_mono intro: effect_trans [OF w1(2)])
  then show ?case by (simp add: x w1(1))
qed

lemma copy_senders_effect:
  assumes "all_ok w" "senders w p \<noteq> None" "src \<noteq> p" "\<forall>s \<in> set ss. linked w s src"
  shows "returns (copy_senders src p ss w) (\<lambda>w'. effect w w' (\<lambda>t q. linked w t q \<or> q = p \<and> t \<in> set ss)
    (\<lambda>q t. knows w q t \<or> q = p \<and> t \<in> set ss))"
  using assms
proof (induction ss arbitrary: w)
  case Nil
  then show ?case using effect_refl [of w] by simp
next
  case (Cons s ss)
  then obtain sg where sg: "signals w s = Some sg" "src \<in> dests (m_connected_slots sg)" by (auto simp: linked_def)
  from duplicate_connections_effect [OF Cons.prems(1), of s src p "m_connected_slots sg"] sg obtain w1 where
    w1: "do_slot_duplicate s src p w = Inr w1" "effect w w1 (\<lambda>t q. linked w t q \<or> t = s \<and> q = p) (knows w)"
    by (auto simp: do_slot_duplicate_def elim: returnsE)
  have "all_ok w1" "senders w1 p \<noteq> None"
    using Cons.prems(2) effect_live [OF w1(2)] effect_ok [OF w1(2)] by blast+
  from do_signal_connect_effect [OF this, of s] obtain w2 where
    w2: "do_signal_connect p s w1 = Inr w2" "effect w1 w2 (linked w1) (\<lambda>q t. knows w1 q t \<or> q = p \<and> t = s)"
    by (auto elim: returnsE)
  note e = effect_trans [OF w1(2) w2(2)]
  have lk: "linked w2 = (\<lambda>t q. linked w t q \<or> t = s \<and> q = p)" "knows w2 = (\<lambda>q t. knows w q t \<or> q = p \<and> t = s)"
    using w1(2) w2(2) by (auto simp: effect_def)
  have pr: "all_ok w2" "senders w2 p \<noteq> None" "\<forall>s \<in> set ss. linked w2 s src"
    using Cons.prems(2,4) effect_live [OF e] effect_ok [OF e] lk by (blast, blast, simp)
  have "(\<lambda>t q. linked w2 t q \<or> q = p \<and> t \<in> set ss) = (\<lambda>t q. linked w t q \<or> q = p \<and> t \<in> set (s # ss))"
    "(\<lambda>q t. knows w2 q t \<or> q = p \<and> t \<in> set ss) = (\<lambda>q t. knows w q t \<or> q = p \<and> t \<in> set (s # ss))"
    by (auto simp: lk fun_eq_iff)
  with Cons.IH [OF pr(1,2) Cons.prems(3) pr(3)] have "returns (copy_senders src p ss w2) (\<lambda>w'. effect w w'
      (\<lambda>t q. linked w t q \<or> q = p \<and> t \<in> set (s # ss)) (\<lambda>q t. knows w q t \<or> q = p \<and> t \<in> set (s # ss)))"
    by (auto elim!: returns_mono intro: effect_trans [OF e])
  then show ?case by (simp add: w1(1) w2(1))
qed

lemma slot_disconnect_each_effect:
  assumes "all_ok w" "\<forall>s \<in> set ss. signals w s \<noteq> None"
  shows "returns (slot_disconnect_each p ss w) (\<lambda>w'. effect w w' (\<lambda>t q. linked w t q \<and> \<not> (q = p \<and> t \<in> set ss)) (knows w))"
  using assms
proof (induction ss arbitrary: w)
  case Nil
  then show ?case using effect_refl [of w] by simp
next
  case (Cons s ss)
  then obtain w1 where w1: "do_slot_disconnect s p w = Inr w1"
      "effect w w1 (\<lambda>t q. linked w t q \<and> \<not> (t = s \<and> q = p)) (knows w)"
    using do_slot_disconnect_effect [of w s p] by (auto elim: returnsE)
  have pr: "all_ok w1" "\<forall>s \<in> set ss. signals w1 s \<noteq> None"
    using Cons.prems(2) effect_ok [OF w1(2)] effect_live(1) [OF w1(2)] by (blast, simp)
  have lk: "linked w1 = (\<lambda>t q. linked w t q \<and> \<not> (t = s \<and> q = p))" "knows w1 = knows w"
    using w1(2) by (auto simp: effect_def)
  have "(\<lambda>t q. linked w1 t q \<and> \<not> (q = p \<and> t \<in> set ss)) = (\<lambda>t q. linked w t q \<and> \<not> (q = p \<and> t \<in> set (s # ss)))"
    by (auto simp: lk fun_eq_iff)
  with Cons.IH [OF pr] lk(2) have "returns (slot_disconnect_each p ss w1) (\<lambda>w'. effect w w'
      (\<lambda>t q. linked w t q \<and> \<not> (q = p \<and> t \<in> set (s # ss))) (knows w))"
    by (auto elim!: returns_mono intro: effect_trans [OF w1(2)])
  then show ?case by (simp add: w1(1))
qed

text \<open>Every operation keeps the invariant.\<close>

lemma effect_inv:
  assumes "world_inv w" "effect w w' L K" "\<And>s p. L s p \<longleftrightarrow> K p s"
  shows "world_inv w' \<and> firing w' = firing w \<and> calls w' = calls w"
  using assms by (auto simp: world_inv_def effect_def dom_def set_eq_iff)

lemma effect_inv_returns:
  assumes "world_inv w" "returns m (\<lambda>w'. effect w w' L K)" "\<And>s p. L s p \<longleftrightarrow> K p s"
  shows "returns m (\<lambda>w'. world_inv w' \<and> firing w' = firing w \<and> calls w' = calls w)"
  by (rule returns_mono [OF assms(2)]) (rule effect_inv [OF assms(1) _ assms(3)])

lemma new_signal_inv:
  assumes "world_inv w" "signals w s = None"
  shows "world_inv (signal_new s w)" "linked (signal_new s w) = linked w" "knows (signal_new s w) = knows w"
proof -
  show l: "linked (signal_new s w) = linked w" "knows (signal_new s w) = knows w"
    using assms(2) by (auto simp: signal_new_def linked_def knows_def fun_eq_iff)
  show "world_inv (signal_new s w)"
    using assms unfolding world_inv_def l
    by (auto simp: signal_new_def all_ok_def sig_ok_def nodes_def)
qed

lemma new_slots_inv:
  assumes "world_inv w" "senders w p = None"
  shows "world_inv (has_slots_new p w)" "linked (has_slots_new p w) = linked w" "knows (has_slots_new p w) = knows w"
proof -
  show l: "linked (has_slots_new p w) = linked w" "knows (has_slots_new p w) = knows w"
    using assms(2) by (auto simp: has_slots_new_def linked_def knows_def fun_eq_iff)
  show "world_inv (has_slots_new p w)"
    using assms unfolding world_inv_def l by (auto simp: has_slots_new_def all_ok_def)
qed

lemma do_disconnect_all_effect:
  assumes inv: "world_inv w" and p: "senders w p \<noteq> None"
  shows "returns (do_disconnect_all p w) (\<lambda>w'. effect w w' (\<lambda>t q. linked w t q \<and> q \<noteq> p) (\<lambda>q t. knows w q t \<and> q \<noteq> p))"
proof -
  from p obtain ss where ss: "senders w p = Some ss" by blast
  let ?w = "set_senders p [] w"
  have links: "linked ?w = linked w" "knows ?w = (\<lambda>q t. knows w q t \<and> q \<noteq> p)"
    by (auto simp: linked_def knows_def fun_eq_iff)
  have lk: "linked w s p \<longleftrightarrow> s \<in> set ss" for s
    using inv ss by (auto simp: world_inv_def knows_def)
  have "all_ok ?w" using inv by (simp add: world_inv_def all_ok_def)
  moreover have "\<forall>s \<in> set ss. signals ?w s \<noteq> None"
    using lk by (auto simp: linked_def)
  ultimately have pre: "all_ok ?w" "\<forall>s \<in> set ss. signals ?w s \<noteq> None" by simp_all
  from slot_disconnect_each_effect [OF pre, of p]
  have "returns (slot_disconnect_each p ss ?w) (\<lambda>w'. effect ?w w' (\<lambda>t q. linked w t q \<and> q \<noteq> p) (\<lambda>q t. knows w q t \<and> q \<noteq> p))"
    unfolding links by (rule returns_mono) (use lk in \<open>auto simp: effect_def fun_eq_iff\<close>)
  moreover have "dom (senders ?w) = dom (senders w)" using ss by auto
  ultimately show ?thesis using ss by (auto simp: do_disconnect_all_def effect_def elim!: returns_mono)
qed

lemma perform_inv:
  assumes inv: "world_inv w" and c: "contract op w"
  shows "returns (perform op w) (\<lambda>w'. world_inv w' \<and> firing w' = firing w \<and> calls w' = calls w)"
proof -
  have ok: "all_ok w" and lk: "\<forall>s p. linked w s p \<longleftrightarrow> knows w p s" using inv by (simp_all add: world_inv_def)
  show ?thesis
  proof (cases op)
    case (NewSignal s)
    then show ?thesis using new_signal_inv [OF inv] c by (simp add: signal_new_def)
  next
    case (NewSlots p)
    then show ?thesis using new_slots_inv [OF inv] c by (simp add: has_slots_new_def)
  next
    case (Connect s p m)
    with c have "signals w s \<noteq> None" "senders w p \<noteq> None" by simp_all
    from push_back_effect [OF ok this(1), of "\<lparr>pdest = p, pmethod = m\<rparr>"] obtain w1 where
      w1: "push_back s \<lparr>pdest = p, pmethod = m\<rparr> w = Inr w1" "effect w w1 (\<lambda>t q. linked w t q \<or> t = s \<and> q = p) (knows w)"
      by (auto elim: returnsE)
    have "returns (do_signal_connect p s w1) (\<lambda>w'. effect w1 w' (linked w1) (\<lambda>q t. knows w1 q t \<or> q = p \<and> t = s))"
      using \<open>senders w p \<noteq> None\<close> effect_live [OF w1(2)] effect_ok [OF w1(2)] by (intro do_signal_connect_effect) auto
    then have "returns (perform op w) (\<lambda>w'. effect w w' (\<lambda>t q. linked w t q \<or> t = s \<and> q = p) (\<lambda>q t. knows w q t \<or> q = p \<and> t = s))"
      using Connect w1 by (auto simp: connect_def effect_def elim!: returns_mono)
    from effect_inv_returns [OF inv this] lk show ?thesis by auto
  next
    case (Disconnect s p)
    with disconnect_effect [OF ok lk, of s p] c
    have "returns (perform op w) (\<lambda>w'. effect w w' (\<lambda>t q. linked w t q \<and> \<not> (t = s \<and> q = p)) (\<lambda>q t. knows w q t \<and> \<not> (q = p \<and> t = s)))"
      by simp
    from effect_inv_returns [OF inv this] lk show ?thesis by auto
  next
    case (DisconnectAll s)
    then obtain sg where "signals w s = Some sg" using c by auto
    with disconnect_all_effect [OF ok lk, of s sg] DisconnectAll
    have "returns (perform op w) (\<lambda>w'. effect w w' (\<lambda>t q. linked w t q \<and> t \<noteq> s) (\<lambda>q t. knows w q t \<and> t \<noteq> s))"
      by (auto elim: returns_mono)
    from effect_inv_returns [OF inv this] lk show ?thesis by auto
  next
    case (SlotsDisconnectAll p)
    with do_disconnect_all_effect [OF inv, of p] c
    have "returns (perform op w) (\<lambda>w'. effect w w' (\<lambda>t q. linked w t q \<and> q \<noteq> p) (\<lambda>q t. knows w q t \<and> q \<noteq> p))"
      by simp
    from effect_inv_returns [OF inv this] lk show ?thesis by auto
  next
    case (DeleteSignal s)
    then obtain sg where sg: "signals w s = Some sg" and nf: "s \<notin> set (firing w)" using c by auto
    from disconnect_all_effect [OF ok lk sg] obtain w1 where
      w1: "disconnect_all s w = Inr w1" "effect w w1 (\<lambda>t q. linked w t q \<and> t \<noteq> s) (\<lambda>q t. knows w q t \<and> t \<noteq> s)"
      by (auto elim: returnsE)
    let ?w = "w1\<lparr>signals := (signals w1)(s := None)\<rparr>"
    have "linked ?w t q \<longleftrightarrow> linked w1 t q" "knows ?w q t \<longleftrightarrow> knows w1 q t" for t q
      using w1(2) by (auto simp: effect_def linked_def knows_def fun_eq_iff)
    then have "world_inv ?w \<and> firing ?w = firing w \<and> calls ?w = calls w"
      using effect_inv [OF inv w1(2)] lk nf by (auto simp: world_inv_def all_ok_def)
    then show ?thesis using DeleteSignal w1(1) by (simp add: signal_delete_def)
  next
    case (DeleteSlots p)
    then have p: "senders w p \<noteq> None" using c by simp
    from do_disconnect_all_effect [OF inv p] obtain w1 where
      w1: "do_disconnect_all p w = Inr w1" "effect w w1 (\<lambda>t q. linked w t q \<and> q \<noteq> p) (\<lambda>q t. knows w q t \<and> q \<noteq> p)"
      by (auto elim: returnsE)
    let ?w = "w1\<lparr>senders := (senders w1)(p := None)\<rparr>"
    have "linked ?w t q \<longleftrightarrow> linked w1 t q" "knows ?w q t \<longleftrightarrow> knows w1 q t" for t q
      using w1(2) by (auto simp: effect_def linked_def knows_def fun_eq_iff)
    then have "world_inv ?w \<and> firing ?w = firing w \<and> calls ?w = calls w"
      using effect_inv [OF inv w1(2)] lk by (auto simp: world_inv_def all_ok_def)
    then show ?thesis using DeleteSlots w1(1) by (simp add: has_slots_delete_def)
  next
    case (CopySignal src s)
    then obtain sg where sg: "signals w src = Some sg" and s: "signals w s = None" using c by auto
    let ?w = "signal_new s w"
    note n = new_signal_inv [OF inv s]
    have "\<forall>p \<in> dests (m_connected_slots sg). senders ?w p \<noteq> None"
      using lk sg by (force simp: linked_def knows_def signal_new_def)
    with n(1) have "returns (copy_connections s (m_connected_slots sg) ?w) (\<lambda>w'. effect ?w w'
        (\<lambda>t q. linked ?w t q \<or> t = s \<and> q \<in> dests (m_connected_slots sg)) (\<lambda>q t. knows ?w q t \<or> t = s \<and> q \<in> dests (m_connected_slots sg)))"
      by (intro copy_connections_effect) (auto simp: world_inv_def signal_new_def)
    from effect_inv_returns [OF n(1) this] lk n(2,3) CopySignal sg show ?thesis
      by (simp add: signal_copy_def) (simp add: signal_new_def)
  next
    case (CopySlots src p)
    then obtain ss where ss: "senders w src = Some ss" and p: "senders w p = None" using c by auto
    let ?w = "has_slots_new p w"
    note n = new_slots_inv [OF inv p]
    have "\<forall>s \<in> set ss. linked ?w s src" "src \<noteq> p" "all_ok ?w" "senders ?w p \<noteq> None"
      using lk ss n p by (auto simp: knows_def world_inv_def has_slots_new_def)
    then have "returns (copy_senders src p ss ?w) (\<lambda>w'. effect ?w w' (\<lambda>t q. linked ?w t q \<or> q = p \<and> t \<in> set ss)
        (\<lambda>q t. knows ?w q t \<or> q = p \<and> t \<in> set ss))"
      by (intro copy_senders_effect)
    from effect_inv_returns [OF n(1) this] lk n(2,3) CopySlots ss show ?thesis
      by (simp add: has_slots_copy_def) (simp add: has_slots_new_def)
  next
    case (Emit s a)
    then show ?thesis using inv by simp
  qed
qed

end
