(* ===== verification/Rtc_SigslotRun.thy ===== *)
theory Rtc_SigslotRun
  imports Rtc_Sigslot
begin

text \<open>
  Whole runs of programs over the signals and slots of theory \<open>Rtc_Sigslot\<close>: by induction over the depth of calls the invariant holds
  whatever the slots do, and an emission during which no slot connects to the signal
  calls its connections in order, each at most once, leaving out those that were disconnected.
\<close>

section \<open>Firing keeps the invariant\<close>

lemma begin_iter_node: "begin_iter cs = Some n \<Longrightarrow> n \<in> set (map fst cs)"
  by (cases cs) (auto simp: begin_iter_def)

lemma cur_ok:
  assumes "sig_ok k sg" "\<And>n. it = Some n \<Longrightarrow> n \<in> set (nodes sg)"
  shows "sig_ok k (sg\<lparr>m_current_iterator := it\<rparr>)"
  using assms by (auto simp: sig_ok_def nodes_def split: option.splits)

lemma set_current_effect:
  assumes "all_ok w" "signals w s = Some sg" "\<And>n. it = Some n \<Longrightarrow> n \<in> set (nodes sg)"
  shows "effect w (set_signal s (sg\<lparr>m_current_iterator := it\<rparr>) w) (linked w) (knows w)"
proof -
  have "sig_ok (next_node w) sg" using assms(1,2) by (simp add: all_ok_def)
  then have c: "sig_ok (next_node w) (sg\<lparr>m_current_iterator := it\<rparr>)" using assms(3) by (rule cur_ok)
  have eq: "(\<lambda>t q. if t = s then q \<in> dests (m_connected_slots (sg\<lparr>m_current_iterator := it\<rparr>)) else linked w t q) = linked w"
    using assms(2) by (auto simp: linked_def fun_eq_iff)
  have "signals w s \<noteq> None" using assms(2) by simp
  from set_signal_effect [OF assms(1) this c] show ?thesis unfolding eq .
qed

lemma emit_begin_inv:
  assumes "world_inv w" "signals w s = Some sg"
  shows "emit_begin s w = Inr ((set_signal s (sg\<lparr>m_current_iterator := begin_iter (m_connected_slots sg)\<rparr>) w)\<lparr>firing := s # firing w\<rparr>)"
    and "world_inv ((set_signal s (sg\<lparr>m_current_iterator := begin_iter (m_connected_slots sg)\<rparr>) w)\<lparr>firing := s # firing w\<rparr>)"
proof -
  let ?w = "set_signal s (sg\<lparr>m_current_iterator := begin_iter (m_connected_slots sg)\<rparr>) w"
  have "effect w ?w (linked w) (knows w)"
    using assms begin_iter_node by (intro set_current_effect) (auto simp: world_inv_def nodes_def)
  from effect_inv [OF assms(1) this] assms show "world_inv (?w\<lparr>firing := s # firing w\<rparr>)"
    by (auto simp: world_inv_def all_ok_def linked_def knows_def)
qed (use assms(2) in \<open>simp add: emit_begin_def\<close>)

lemma emit_end_inv: "world_inv w \<Longrightarrow> world_inv (emit_end w)"
  by (cases "firing w") (auto simp: world_inv_def emit_end_def all_ok_def linked_def knows_def)

lemma emit_next_cases:
  assumes inv: "world_inv w" and sg: "signals w s = Some sg"
  shows "case m_current_iterator sg of
      None \<Rightarrow> emit_next s a w = Inr None
    | Some n \<Rightarrow> \<exists>c w'. map_of (m_connected_slots sg) n = Some c \<and> emit_next s a w = Inr (Some w') \<and>
        world_inv w' \<and> firing w' = firing w \<and> calls w' = calls w @ [(pdest c, pmethod c, a)] \<and>
        signals w' s = Some (sg\<lparr>m_current_iterator := next_iter n (m_connected_slots sg)\<rparr>)"
proof (cases "m_current_iterator sg")
  case None
  then show ?thesis using sg by (simp add: emit_next_def)
next
  case (Some n)
  have ok: "sig_ok (next_node w) sg" using inv sg by (simp add: world_inv_def all_ok_def)
  then have n: "n \<in> set (map fst (m_connected_slots sg))" and dist: "distinct (map fst (m_connected_slots sg))"
    using Some by (simp_all add: sig_ok_def nodes_def)
  then obtain c where c: "map_of (m_connected_slots sg) n = Some c"
    by (metis map_of_eq_None_iff not_None_eq set_map)
  then have "linked w s (pdest c)" using sg map_of_SomeD [OF c] by (force simp: linked_def dests_def)
  then obtain ss where ss: "senders w (pdest c) = Some ss" using inv by (auto simp: world_inv_def knows_def)
  let ?w = "set_signal s (sg\<lparr>m_current_iterator := next_iter n (m_connected_slots sg)\<rparr>) w"
  have "effect w ?w (linked w) (knows w)"
    using inv sg next_iter_node [OF _ dist, of n] by (intro set_current_effect) (auto simp: world_inv_def nodes_def)
  from effect_inv [OF inv this] inv have "world_inv (?w\<lparr>calls := calls w @ [(pdest c, pmethod c, a)]\<rparr>)"
    by (auto simp: world_inv_def all_ok_def linked_def knows_def)
  then show ?thesis using Some sg c ss by (auto simp: emit_next_def)
qed

lemma seq_Some: "seq m f = Some r \<longleftrightarrow> (\<exists>e. m = Some (Inl e) \<and> r = Inl e) \<or> (\<exists>x. m = Some (Inr x) \<and> f x = Some r)"
  by (auto simp: seq_def split: option.splits sum.splits)

lemma seq_simps [simp]: "seq (Some (Inr x)) f = f x" "seq (Some (Inl e)) f = Some (Inl e)" "seq None f = None"
  by (simp_all add: seq_def)

lemma run_Do:
  assumes "\<not> monitor \<or> contract op w" "\<nexists>s a. op = Emit s a"
  shows "run monitor slot (Suc n) (Do (op # ops)) w = seq (Some (perform op w)) (run monitor slot n (Do ops))"
  using assms by (cases monitor; cases op) (simp_all del: contract.simps perform.simps)

lemma run_Emit:
  assumes "\<not> monitor \<or> contract (Emit s a) w"
  shows "run monitor slot (Suc n) (Do (Emit s a # ops)) w =
    seq (Some (emit_begin s w)) (\<lambda>w. seq (run monitor slot n (Loop s a) w) (\<lambda>w. run monitor slot n (Do ops) (emit_end w)))"
  using assms by (cases monitor) (simp_all del: contract.simps)

lemma run_Misuse: "\<not> contract op w \<Longrightarrow> run True slot (Suc n) (Do (op # ops)) w = Some (Inl Misuse)"
  by simp

text \<open>Induction over the depth of calls: a monitored run never meets a destroyed object or an erased node.\<close>

definition outcome_ok :: "('m, 'a) world \<Rightarrow> ('m, 'a) world sresult \<Rightarrow> bool" where
  "outcome_ok w r = (case r of Inl f \<Rightarrow> f = Misuse | Inr w' \<Rightarrow> world_inv w' \<and> firing w' = firing w)"

lemma outcome_ok_simps [simp]:
  "outcome_ok w (Inl f) \<longleftrightarrow> f = Misuse" "outcome_ok w (Inr w') \<longleftrightarrow> world_inv w' \<and> firing w' = firing w"
  by (simp_all add: outcome_ok_def)

lemma outcome_ok_cong: "firing w = firing v \<Longrightarrow> outcome_ok w r = outcome_ok v r"
  by (simp add: outcome_ok_def split: sum.splits)

lemma run_safe:
  assumes "run True slot n t w = Some r" "world_inv w" "case t of Do ops \<Rightarrow> True | Loop s a \<Rightarrow> s \<in> set (firing w)"
  shows "outcome_ok w r"
  using assms
proof (induction n arbitrary: t w r)
  case (Suc n)
  show ?case
  proof (cases t)
    case (Do prog)
    show ?thesis
    proof (cases prog)
      case Nil
      with Suc.prems Do show ?thesis by auto
    next
      case (Cons op ops)
      show ?thesis
      proof (cases "contract op w")
        case False
        with Suc.prems(1) run_Misuse [OF this, of slot n ops] Do Cons show ?thesis by auto
      next
        case True
        show ?thesis
        proof (cases "\<exists>s a. op = Emit s a")
          case True
          then obtain s a sg where op: "op = Emit s a" and sg: "signals w s = Some sg"
            using \<open>contract op w\<close> by auto
          let ?w = "(set_signal s (sg\<lparr>m_current_iterator := begin_iter (m_connected_slots sg)\<rparr>) w)\<lparr>firing := s # firing w\<rparr>"
          note b = emit_begin_inv [OF Suc.prems(2) sg]
          from Suc.prems(1) Do Cons op b(1) run_Emit [of True s a w slot n ops] \<open>contract op w\<close>
          have "seq (run True slot n (Loop s a) ?w) (\<lambda>w. run True slot n (Do ops) (emit_end w)) = Some r"
            by (simp del: run.simps contract.simps)
          then consider e where "run True slot n (Loop s a) ?w = Some (Inl e)" "r = Inl e"
            | w2 where "run True slot n (Loop s a) ?w = Some (Inr w2)" "run True slot n (Do ops) (emit_end w2) = Some r"
            by (auto simp: seq_Some)
          then show ?thesis
          proof cases
            case 1
            with Suc.IH [OF 1(1) b(2)] show ?thesis by simp
          next
            case 2
            with Suc.IH [OF 2(1) b(2)] have w2: "world_inv w2" "firing w2 = s # firing w" by simp_all
            from Suc.IH [OF 2(2) emit_end_inv [OF w2(1)]] w2(2) show ?thesis
              using outcome_ok_cong [of "emit_end w2" w r] by (simp add: emit_end_def)
          qed
        next
          case False
          obtain w1 where w1: "perform op w = Inr w1" "world_inv w1" "firing w1 = firing w"
            using perform_inv [OF Suc.prems(2) \<open>contract op w\<close>] by (auto elim: returnsE)
          have "run True slot n (Do ops) w1 = Some r"
            using Suc.prems(1) Do Cons run_Do [of True op w slot n ops] \<open>contract op w\<close> False w1(1) by simp
          from Suc.IH [OF this w1(2)] w1(3) show ?thesis using outcome_ok_cong by auto
        qed
      qed
    qed
  next
    case (Loop s a)
    with Suc.prems obtain sg where sg: "signals w s = Some sg" by (auto simp: world_inv_def)
    note nx = emit_next_cases [OF Suc.prems(2) sg, of a]
    show ?thesis
    proof (cases "m_current_iterator sg")
      case None
      with nx Suc.prems Loop show ?thesis by auto
    next
      case (Some k)
      with nx obtain w1 where w1: "emit_next s a w = Inr (Some w1)" "world_inv w1" "firing w1 = firing w" by auto
      with Suc.prems(1) Loop consider e where "run True slot n (Do (slot (calls w1))) w1 = Some (Inl e)" "r = Inl e"
        | w2 where "run True slot n (Do (slot (calls w1))) w1 = Some (Inr w2)" "run True slot n (Loop s a) w2 = Some r"
        by (auto simp: seq_Some)
      then show ?thesis
      proof cases
        case 1
        with Suc.IH [OF 1(1) w1(2)] show ?thesis by simp
      next
        case 2
        with Suc.IH [OF 2(1) w1(2)] w1(3) have w2: "world_inv w2" "firing w2 = firing w" by simp_all
        from Suc.IH [OF 2(2) w2(1)] w2(2) Suc.prems(3) Loop show ?thesis using outcome_ok_cong by auto
      qed
    qed
  qed
qed simp

text \<open>The monitor changes nothing unless it stops the run.\<close>

lemma seq_agree:
  assumes "m = Some (Inl Misuse) \<or> m' = m" "\<And>x. f x = Some (Inl Misuse) \<or> f' x = f x"
  shows "seq m f = Some (Inl Misuse) \<or> seq m' f' = seq m f"
  using assms by (auto simp: seq_def split: option.splits sum.splits)

lemma run_unmonitored: "run True slot n t w = Some (Inl Misuse) \<or> run False slot n t w = run True slot n t w"
proof (induction n arbitrary: t w)
  case (Suc n)
  show ?case
  proof (cases t)
    case (Do prog)
    show ?thesis
    proof (cases prog)
      case (Cons op ops)
      show ?thesis
      proof (cases "contract op w")
        case False
        then show ?thesis unfolding Do Cons by (intro disjI1 run_Misuse)
      next
        case True
        then have c: "\<not> True \<or> contract op w" "\<not> False \<or> contract op w" by simp_all
        show ?thesis
        proof (cases "\<exists>s a. op = Emit s a")
          case True
          then obtain s a where op: "op = Emit s a" by blast
          show ?thesis
            unfolding Do Cons op run_Emit [OF c(1) [unfolded op]] run_Emit [OF c(2) [unfolded op]]
            by (intro seq_agree Suc.IH) simp
        next
          case False
          show ?thesis
            unfolding Do Cons run_Do [OF c(1) False] run_Do [OF c(2) False] by (intro seq_agree Suc.IH) simp
        qed
      qed
    qed (use Do in simp)
  next
    case (Loop s a)
    have "(case x of None \<Rightarrow> Some (Inr w) | Some w' \<Rightarrow>
          seq (run True slot n (Do (slot (calls w'))) w') (run True slot n (Loop s a))) = Some (Inl Misuse) \<or>
        (case x of None \<Rightarrow> Some (Inr w) | Some w' \<Rightarrow>
          seq (run False slot n (Do (slot (calls w'))) w') (run False slot n (Loop s a))) =
        (case x of None \<Rightarrow> Some (Inr w) | Some w' \<Rightarrow>
          seq (run True slot n (Do (slot (calls w'))) w') (run True slot n (Loop s a)))" for x
      using seq_agree [OF Suc.IH Suc.IH] by (cases x) simp_all
    then show ?thesis unfolding Loop run.simps by (intro seq_agree) auto
  qed
qed simp

section \<open>Safety\<close>

definition empty_world :: "('m, 'a) world" where
  "empty_world = \<lparr>signals = (\<lambda>_. None), senders = (\<lambda>_. None), next_node = 0, firing = [], calls = []\<rparr>"

lemma empty_world_inv: "world_inv empty_world"
  by (simp add: world_inv_def all_ok_def linked_def knows_def empty_world_def)

text \<open>
  (C30) Signals and slots are safe.  A program that keeps to the contract, slots that connect, disconnect, destroy and fire
  again while a signal is firing included, never calls a slot of a destroyed object and never uses an
  iterator to an erased node or a destroyed signal; when it is done, every
  connection is known on both sides.  The clause about \<^verbatim>\<open>disconnect\<close> is needed: after
  connecting twice and disconnecting once, the object no longer knows the signal, and firing calls into it after it was destroyed.
\<close>

theorem sigslot_safe:
  assumes "run True slot n (Do prog) empty_world \<noteq> Some (Inl Misuse)"
  shows "(case run False slot n (Do prog) empty_world of
       None \<Rightarrow> True
     | Some (Inl fault) \<Rightarrow> False
     | Some (Inr w) \<Rightarrow> all_ok w \<and> (\<forall>s p. linked w s p \<longleftrightarrow> knows w p s)) \<and>
    run False slot 8 (Do [NewSignal 0, NewSlots 1, Connect 0 1 m, Connect 0 1 m, Disconnect 0 1, DeleteSlots 1, Emit 0 a])
      empty_world = Some (Inl Dangling)"
proof
  have eq: "run False slot n (Do prog) empty_world = run True slot n (Do prog) empty_world"
    using run_unmonitored [of slot n "Do prog" empty_world] assms by auto
  show "case run False slot n (Do prog) empty_world of None \<Rightarrow> True | Some (Inl fault) \<Rightarrow> False
      | Some (Inr w) \<Rightarrow> all_ok w \<and> (\<forall>s p. linked w s p \<longleftrightarrow> knows w p s)"
    unfolding eq
    using run_safe [OF _ empty_world_inv, of slot n "Do prog"] assms
    by (auto simp: world_inv_def split: option.splits sum.splits)
  show "run False slot 8 (Do [NewSignal 0, NewSlots 1, Connect 0 1 m, Connect 0 1 m, Disconnect 0 1, DeleteSlots 1, Emit 0 a])
      empty_world = Some (Inl Dangling)"
    by (simp add: numeral_eq_Suc empty_world_def signal_new_def has_slots_new_def set_signal_def set_senders_def connect_def
        push_back_def get_signal_def get_senders_def do_signal_connect_def do_signal_disconnect_def insort_insert_key_def
        disconnect_def erase_def has_slots_delete_def do_disconnect_all_def emit_begin_def emit_next_def begin_iter_def)
qed

section \<open>The order of calls\<close>

text \<open>
  Operations that add no connection to the signal \<open>s\<close>, and do not fire or destroy it.
\<close>

fun quiet :: "nat \<Rightarrow> ('m, 'a) sop \<Rightarrow> bool" where
  "quiet s (Connect t p m) = (t \<noteq> s)"
| "quiet s (CopySlots src p) = False"
| "quiet s (DeleteSignal t) = (t \<noteq> s)"
| "quiet s (Emit t a) = False"
| "quiet s _ = True"

text \<open>
  A signal in the middle of an emission: the connections that the iterator has passed, and those that are left,
  the first of which it points to.
\<close>

definition split_at :: "'m signal \<Rightarrow> 'm connections_list \<Rightarrow> 'm connections_list \<Rightarrow> bool" where
  "split_at sg A Q \<longleftrightarrow> m_connected_slots sg = A @ Q \<and> m_current_iterator sg = begin_iter Q"

definition shrunk :: "nat \<Rightarrow> 'm connections_list \<Rightarrow> 'm connections_list \<Rightarrow> ('m, 'a) world \<Rightarrow> bool" where
  "shrunk s A Q w \<longleftrightarrow> (\<exists>sg A' Q'. signals w s = Some sg \<and> split_at sg A' Q' \<and> subseq A' A \<and> subseq Q' Q)"

lemma shrunkI: "signals w s = Some sg \<Longrightarrow> split_at sg A Q \<Longrightarrow> shrunk s A Q w"
  by (auto simp: shrunk_def)

lemma shrunk_trans: "signals w s = Some sg \<Longrightarrow> split_at sg A' Q' \<Longrightarrow> subseq A' A \<Longrightarrow> subseq Q' Q \<Longrightarrow> shrunk s A Q w"
  by (auto simp: shrunk_def)

lemma next_iter_append: "n \<notin> set (map fst A) \<Longrightarrow> next_iter n (A @ (n, c) # Q) = begin_iter Q"
  by (induction A) auto

lemma filter_other: "n \<notin> set (map fst cs) \<Longrightarrow> filter (\<lambda>x. fst x \<noteq> n) cs = cs"
  by (induction cs) auto

lemma erase_split:
  assumes "distinct (nodes sg)" "split_at sg A Q"
  shows "split_at (erase n sg) (filter (\<lambda>x. fst x \<noteq> n) A) (filter (\<lambda>x. fst x \<noteq> n) Q)"
proof (cases "\<exists>c Q'. Q = (n, c) # Q'")
  case True
  then obtain c Q' where Q: "Q = (n, c) # Q'" by blast
  with assms have "n \<notin> set (map fst A)" "n \<notin> set (map fst Q')" by (auto simp: nodes_def split_at_def)
  with assms(2) Q show ?thesis
    by (simp add: split_at_def erase_def next_iter_append filter_other begin_iter_def)
next
  case False
  then have "begin_iter Q \<noteq> Some n" "begin_iter (filter (\<lambda>x. fst x \<noteq> n) Q) = begin_iter Q"
    by (auto simp: begin_iter_def split: list.splits)
  with assms(2) show ?thesis by (simp add: split_at_def erase_def)
qed

lemma erase_dest_split:
  assumes "sig_ok k sg" "split_at sg A Q"
  shows "\<exists>A' Q'. split_at (erase_dest p cs sg) A' Q' \<and> subseq A' A \<and> subseq Q' Q"
  using assms
proof (induction cs arbitrary: sg A Q)
  case (Cons x cs)
  obtain n c where x: "x = (n, c)" by (cases x)
  show ?case
  proof (cases "pdest c = p")
    case True
    have "split_at (erase n sg) (filter (\<lambda>x. fst x \<noteq> n) A) (filter (\<lambda>x. fst x \<noteq> n) Q)"
      using Cons.prems by (intro erase_split) (simp_all add: sig_ok_def)
    from Cons.IH [OF erase_ok [OF Cons.prems(1)] this] obtain A' Q' where
      aq: "split_at (erase_dest p cs (erase n sg)) A' Q'" "subseq A' (filter (\<lambda>x. fst x \<noteq> n) A)"
        "subseq Q' (filter (\<lambda>x. fst x \<noteq> n) Q)" by blast
    have "subseq A' A" "subseq Q' Q"
      using aq(2,3) subseq_filter_left subseq_order.trans by blast+
    with aq(1) True x show ?thesis by auto
  next
    case False
    with Cons x show ?thesis by simp
  qed
qed auto

text \<open>Operations on other signals leave the signal as it is.\<close>

lemma slots_frame:
  "do_signal_connect p t w = Inr w' \<Longrightarrow> signals w' = signals w"
  "do_signal_disconnect p t w = Inr w' \<Longrightarrow> signals w' = signals w"
  by (auto simp: do_signal_connect_def do_signal_disconnect_def get_senders_def split: option.splits)

lemma push_back_frame: "push_back t c w = Inr w' \<Longrightarrow> t \<noteq> s \<Longrightarrow> signals w' s = signals w s"
  by (auto simp: push_back_def get_signal_def split: option.splits)

lemma copy_connections_frame: "copy_connections t cs w = Inr w' \<Longrightarrow> t \<noteq> s \<Longrightarrow> signals w' s = signals w s"
proof (induction t cs w rule: copy_connections.induct)
  case (2 t n c cs w)
  then show ?case using slots_frame(1) push_back_frame by (fastforce simp: rbind_eq_Inr)
qed simp

lemma pop_connections_frame: "pop_connections t cs w = Inr w' \<Longrightarrow> t \<noteq> s \<Longrightarrow> signals w' s = signals w s"
proof (induction t cs w rule: pop_connections.induct)
  case (2 t n c cs w)
  then show ?case using slots_frame(2) by (fastforce simp: rbind_eq_Inr)
qed simp

lemma disconnect_all_frame: "disconnect_all t w = Inr w' \<Longrightarrow> t \<noteq> s \<Longrightarrow> signals w' s = signals w s"
  using pop_connections_frame [of t _ w _ s] by (auto simp: disconnect_all_def rbind_eq_Inr)

lemma slot_disconnect_each_shrunk:
  assumes "slot_disconnect_each p ss w = Inr w'" "all_ok w" "signals w s = Some sg" "split_at sg A Q"
  shows "shrunk s A Q w'"
  using assms
proof (induction ss arbitrary: w sg A Q)
  case Nil
  then show ?case by (auto intro: shrunkI)
next
  case (Cons t ss)
  then obtain g where g: "signals w t = Some g" by (auto simp: do_slot_disconnect_def get_signal_def split: option.splits)
  let ?w = "set_signal t (erase_dest p (m_connected_slots g) g) w"
  have w1: "slot_disconnect_each p ss ?w = Inr w'" using Cons.prems(1) g by (simp add: do_slot_disconnect_def)
  have "sig_ok (next_node w) g" using Cons.prems(2) g by (simp add: all_ok_def)
  then have "sig_ok (next_node w) (erase_dest p (m_connected_slots g) g)" by (rule erase_dest_ok)
  then have ok: "all_ok ?w" using Cons.prems(2) by (simp add: all_ok_def)
  show ?case
  proof (cases "t = s")
    case False
    with Cons.IH [OF w1 ok _ Cons.prems(4)] Cons.prems(3) show ?thesis by simp
  next
    case True
    with g Cons.prems(2,3) have "g = sg" "sig_ok (next_node w) sg" by (auto simp: all_ok_def)
    with erase_dest_split [OF _ Cons.prems(4), of _ p "m_connected_slots sg"] obtain A' Q' where
      aq: "split_at (erase_dest p (m_connected_slots g) g) A' Q'" "subseq A' A" "subseq Q' Q" by blast
    from Cons.IH [OF w1 ok _ aq(1)] True have "shrunk s A' Q' w'" by simp
    with aq(2,3) show ?thesis by (fastforce simp: shrunk_def intro: subseq_order.trans)
  qed
qed

lemma quiet_perform:
  assumes inv: "world_inv w" and sg: "signals w s = Some sg" "split_at sg A Q"
    and q: "quiet s op" "contract op w" "perform op w = Inr w'"
  shows "shrunk s A Q w'"
proof -
  have ok: "all_ok w" and lk: "\<forall>s p. linked w s p \<longleftrightarrow> knows w p s" using inv by (simp_all add: world_inv_def)
  have same: "shrunk s A Q w'" if "signals w' s = signals w s" using that sg by (auto intro: shrunkI)
  show ?thesis
  proof (cases op)
    case (NewSignal t)
    with q sg show ?thesis by (intro same) (auto simp: signal_new_def)
  next
    case (CopySignal src t)
    with q sg have "t \<noteq> s" by auto
    with CopySignal q show ?thesis
      using copy_connections_frame [of t _ "signal_new t w" w' s]
      by (intro same) (auto simp: signal_copy_def rbind_eq_Inr signal_new_def)
  next
    case (DeleteSignal t)
    with q show ?thesis
      using disconnect_all_frame [of t w _ s] by (intro same) (auto simp: signal_delete_def rbind_eq_Inr)
  next
    case (NewSlots p)
    with q show ?thesis by (intro same) (auto simp: has_slots_new_def)
  next
    case (Connect t p m)
    with q obtain x where x: "push_back t \<lparr>pdest = p, pmethod = m\<rparr> w = Inr x" "do_signal_connect p t x = Inr w'" "t \<noteq> s"
      by (auto simp: connect_def rbind_eq_Inr)
    with slots_frame(1) [OF x(2)] push_back_frame [OF x(1,3)] show ?thesis by (intro same) simp
  next
    case (Disconnect t p)
    show ?thesis
    proof (cases "t = s \<and> find_dest p (m_connected_slots sg) \<noteq> None")
      case False
      with Disconnect q sg show ?thesis
        by (intro same) (auto simp: disconnect_def rbind_eq_Inr get_signal_def split: option.splits dest!: slots_frame(2))
    next
      case True
      then obtain n where n: "find_dest p (m_connected_slots sg) = Some n" by blast
      with True Disconnect q sg have "signals w' s = Some (erase n sg)"
        by (auto simp: disconnect_def rbind_eq_Inr dest!: slots_frame(2))
      moreover have "split_at (erase n sg) (filter (\<lambda>x. fst x \<noteq> n) A) (filter (\<lambda>x. fst x \<noteq> n) Q)"
        using ok sg by (intro erase_split) (auto simp: all_ok_def sig_ok_def)
      ultimately show ?thesis by (rule shrunk_trans) simp_all
    qed
  next
    case (DisconnectAll t)
    show ?thesis
    proof (cases "t = s")
      case False
      with DisconnectAll q show ?thesis using disconnect_all_frame [of t w w' s] by (intro same) auto
    next
      case True
      with disconnect_all_effect [OF ok lk sg(1)] DisconnectAll q
      have "signals w' s = Some \<lparr>m_connected_slots = [], m_current_iterator = None\<rparr>" by simp
      moreover have "split_at \<lparr>m_connected_slots = [], m_current_iterator = None\<rparr> [] []"
        by (simp add: split_at_def begin_iter_def)
      ultimately show ?thesis by (rule shrunk_trans) simp_all
    qed
  next
    case (SlotsDisconnectAll p)
    then obtain ss where "slot_disconnect_each p ss (set_senders p [] w) = Inr w'"
      using q by (auto simp: do_disconnect_all_def rbind_eq_Inr)
    with slot_disconnect_each_shrunk [OF this, of s sg A Q] ok sg show ?thesis by (simp add: all_ok_def)
  next
    case (DeleteSlots p)
    then obtain ss w1 where w1: "slot_disconnect_each p ss (set_senders p [] w) = Inr w1"
        "w' = w1\<lparr>senders := (senders w1)(p := None)\<rparr>"
      using q by (auto simp: has_slots_delete_def do_disconnect_all_def rbind_eq_Inr)
    with slot_disconnect_each_shrunk [OF w1(1), of s sg A Q] ok sg show ?thesis by (simp add: all_ok_def shrunk_def)
  qed (use q in simp_all)
qed

text \<open>More fuel gives the same result.\<close>

lemma seq_mono:
  assumes "seq m f = Some r" "\<And>x. m = Some x \<Longrightarrow> m' = Some x" "\<And>x r. f x = Some r \<Longrightarrow> f' x = Some r"
  shows "seq m' f' = Some r"
  using assms by (auto simp: seq_Some)

lemma run_mono: "run mon slot n t w = Some r \<Longrightarrow> n \<le> k \<Longrightarrow> run mon slot k t w = Some r"
proof (induction n arbitrary: t w r k)
  case (Suc n)
  obtain j where k: "k = Suc j" "n \<le> j" using Suc.prems(2) by (cases k) auto
  note IH = Suc.IH [OF _ k(2)]
  show ?case
  proof (cases t)
    case (Do prog)
    show ?thesis
    proof (cases prog)
      case Nil
      with Suc.prems Do k show ?thesis by simp
    next
      case (Cons op ops)
      show ?thesis
      proof (cases "\<not> mon \<or> contract op w")
        case False
        then have "\<not> contract op w" "mon" by simp_all
        with Suc.prems(1) run_Misuse [OF this(1)] show ?thesis unfolding Do Cons k by (simp del: run.simps)
      next
        case c: True
        show ?thesis
        proof (cases "\<exists>s a. op = Emit s a")
          case True
          then obtain s a where op: "op = Emit s a" by blast
          show ?thesis
            using Suc.prems(1) unfolding Do Cons op k run_Emit [OF c [unfolded op]]
            by (elim seq_mono) (assumption | rule seq_mono IH)+
        next
          case False
          show ?thesis
            using Suc.prems(1) unfolding Do Cons k run_Do [OF c False] by (elim seq_mono) (assumption | rule IH)+
        qed
      qed
    qed
  next
    case (Loop s a)
    show ?thesis
      using Suc.prems(1) unfolding Loop k run.simps
      by (elim seq_mono) (auto split: option.splits elim: seq_mono IH)
  qed
qed simp

text \<open>A slot that is quiet for \<open>s\<close> only takes connections of \<open>s\<close> away.\<close>

lemma run_quiet:
  assumes "list_all (quiet s) ops" "world_inv w" "signals w s = Some sg" "split_at sg A Q"
  shows "\<exists>r. run True slot (Suc (length ops)) (Do ops) w = Some r \<and>
    (r = Inl Misuse \<or> (\<exists>w'. r = Inr w' \<and> world_inv w' \<and> firing w' = firing w \<and> calls w' = calls w \<and> shrunk s A Q w'))"
  using assms
proof (induction ops arbitrary: w sg A Q)
  case Nil
  then show ?case by (auto intro: shrunkI)
next
  case (Cons op ops)
  show ?case
  proof (cases "contract op w")
    case False
    then show ?thesis using run_Misuse [OF False] by auto
  next
    case c: True
    have ne: "\<nexists>s a. op = Emit s a" using Cons.prems(1) by (cases op) auto
    obtain w1 where w1: "perform op w = Inr w1" "world_inv w1" "firing w1 = firing w" "calls w1 = calls w"
      using perform_inv [OF Cons.prems(2) c] by (auto elim: returnsE)
    obtain g A' Q' where g: "signals w1 s = Some g" "split_at g A' Q'" "subseq A' A" "subseq Q' Q"
      using quiet_perform [OF Cons.prems(2-4) _ c w1(1)] Cons.prems(1) by (auto simp: shrunk_def)
    have eq: "run True slot (Suc (length (op # ops))) (Do (op # ops)) w = run True slot (Suc (length ops)) (Do ops) w1"
      using run_Do [of True op w slot "Suc (length ops)" ops] c ne w1(1) by simp
    have "shrunk s A' Q' v \<Longrightarrow> shrunk s A Q v" for v :: "('a, 'b) world"
      using g(3,4) by (fastforce simp: shrunk_def intro: subseq_order.trans)
    with Cons.IH [OF _ w1(2) g(1,2)] Cons.prems(1) w1(3,4) show ?thesis unfolding eq by auto
  qed
qed

definition call_of :: "'a \<Rightarrow> nat \<times> 'm connection \<Rightarrow> nat \<times> 'm \<times> 'a" where
  "call_of a x = (pdest (snd x), pmethod (snd x), a)"

definition called :: "nat \<Rightarrow> 'a \<Rightarrow> 'm connections_list \<Rightarrow> 'm connections_list \<Rightarrow> ('m, 'a) world \<Rightarrow> ('m, 'a) world \<Rightarrow> bool" where
  "called s a A Q w w' \<longleftrightarrow> (\<exists>cs sg'. subseq cs Q \<and> calls w' = calls w @ map (call_of a) cs \<and>
     signals w' s = Some sg' \<and> subseq (m_connected_slots sg') (A @ cs))"

lemma called_step:
  assumes "called s a A' Q' w2 w'" "calls w2 = calls w @ [call_of a x]" "subseq A' (A @ [x])" "subseq Q' Q"
  shows "called s a A (x # Q) w w'"
proof -
  obtain cs sg' where cs: "subseq cs Q'" "calls w' = calls w2 @ map (call_of a) cs"
      "signals w' s = Some sg'" "subseq (m_connected_slots sg') (A' @ cs)"
    using assms(1) by (auto simp: called_def)
  have "subseq (A' @ cs) (A @ x # cs)" using list_emb_append_mono [OF assms(3), of cs cs] by simp
  with cs(4) have "subseq (m_connected_slots sg') (A @ x # cs)" by (rule subseq_order.trans)
  moreover have "subseq (x # cs) (x # Q)" using cs(1) assms(4) by (auto intro: subseq_order.trans)
  ultimately show ?thesis using cs(2,3) assms(2) unfolding called_def
    by (intro exI [of _ "x # cs"] exI [of _ sg']) simp
qed

lemma loop_calls:
  assumes "\<And>log. list_all (quiet s) (slot log)" "world_inv w" "s \<in> set (firing w)" "signals w s = Some sg" "split_at sg A Q"
  shows "\<exists>N r. run True slot N (Loop s a) w = Some r \<and> (r = Inl Misuse \<or> (\<exists>w'. r = Inr w' \<and> called s a A Q w w'))"
  using assms(2-)
proof (induction "length Q" arbitrary: w sg A Q rule: less_induct)
  case less
  note nx = emit_next_cases [OF less.prems(1,3), of a]
  show ?case
  proof (cases Q)
    case Nil
    then have "emit_next s a w = Inr None" using nx less.prems(4) by (simp add: split_at_def begin_iter_def)
    then have "run True slot (Suc 0) (Loop s a) w = Some (Inr w)" by simp
    moreover have "called s a A Q w w" using less.prems(3,4) Nil by (auto simp: called_def split_at_def)
    ultimately show ?thesis by blast
  next
    case (Cons x Q1)
    obtain n c where x: "x = (n, c)" by (cases x)
    have cur: "m_current_iterator sg = Some n" and sl: "m_connected_slots sg = A @ (n, c) # Q1"
      using less.prems(4) Cons x by (simp_all add: split_at_def begin_iter_def)
    have d: "n \<notin> set (map fst A)"
    proof -
      have "sig_ok (next_node w) sg" using less.prems(1,3) by (simp add: world_inv_def all_ok_def)
      with sl show ?thesis by (auto simp: sig_ok_def nodes_def)
    qed
    then have m: "map_of (m_connected_slots sg) n = Some c" "next_iter n (m_connected_slots sg) = begin_iter Q1"
      using sl map_of_eq_None_iff [of A n] by (auto simp: map_add_def next_iter_append split: option.splits)
    obtain w1 where w1: "emit_next s a w = Inr (Some w1)" "world_inv w1" "firing w1 = firing w"
        "calls w1 = calls w @ [call_of a x]" "signals w1 s = Some (sg\<lparr>m_current_iterator := begin_iter Q1\<rparr>)"
      using nx cur m x by (auto simp: call_of_def)
    have "split_at (sg\<lparr>m_current_iterator := begin_iter Q1\<rparr>) (A @ [x]) Q1" using sl x by (simp add: split_at_def)
    from run_quiet [OF assms(1) w1(2,5) this] obtain k r where
      r: "run True slot k (Do (slot (calls w1))) w1 = Some r" "r = Inl Misuse \<or> (\<exists>w'. r = Inr w' \<and> world_inv w' \<and>
        firing w' = firing w1 \<and> calls w' = calls w1 \<and> shrunk s (A @ [x]) Q1 w')" by blast
    from r(2) show ?thesis
    proof (elim disjE exE conjE)
      assume "r = Inl Misuse"
      then have "run True slot (Suc k) (Loop s a) w = Some (Inl Misuse)" using r(1) w1(1) by simp
      then show ?thesis by blast
    next
      fix w2 assume w2: "r = Inr w2" "world_inv w2" "firing w2 = firing w1" "calls w2 = calls w1" "shrunk s (A @ [x]) Q1 w2"
      then obtain g A' Q' where g: "signals w2 s = Some g" "split_at g A' Q'" "subseq A' (A @ [x])" "subseq Q' Q1"
        by (auto simp: shrunk_def)
      have "length Q' < length Q" using g(4) Cons list_emb_length by fastforce
      from less.hyps [OF this w2(2) _ g(1,2)] w2(3) w1(3) less.prems(2) obtain N r' where
        l: "run True slot N (Loop s a) w2 = Some r'" "r' = Inl Misuse \<or> (\<exists>w'. r' = Inr w' \<and> called s a A' Q' w2 w')" by auto
      have "run True slot (max k N) (Do (slot (calls w1))) w1 = Some (Inr w2)" "run True slot (max k N) (Loop s a) w2 = Some r'"
        using run_mono [OF r(1), of "max k N"] run_mono [OF l(1), of "max k N"] w2(1) by simp_all
      then have "run True slot (Suc (max k N)) (Loop s a) w = Some r'" using w1(1) by simp
      moreover have "called s a A' Q' w2 w' \<Longrightarrow> called s a A Q w w'" for w'
        using called_step [OF _ _ g(3,4)] w2(4) w1(4) Cons by auto
      ultimately show ?thesis using l(2) by blast
    qed
  qed
qed

text \<open>
  The order of an emission.  If the slots that are called do not connect to the firing signal, fire again or destroy it,
  the emission ends, and unless a slot breaks the contract it calls connections of the signal in the order of
  the list, each at most once, with the given arguments, and
  every connection that is left on the signal afterwards was called: only disconnected ones are left out.  In
  particular slots that do nothing are all called.
\<close>

theorem emit_calls:
  assumes "world_inv w" "signals w s = Some sg" "\<forall>log. list_all (quiet s) (slot log)"
  shows "\<exists>N. run True slot N (Do [Emit s a]) w = Some (Inl Misuse) \<or>
    (\<exists>w' cs sg'. run False slot N (Do [Emit s a]) w = Some (Inr w') \<and>
       subseq cs (m_connected_slots sg) \<and> calls w' = calls w @ map (call_of a) cs \<and>
       signals w' s = Some sg' \<and> subseq (m_connected_slots sg') cs)"
proof -
  let ?w = "(set_signal s (sg\<lparr>m_current_iterator := begin_iter (m_connected_slots sg)\<rparr>) w)\<lparr>firing := s # firing w\<rparr>"
  note b = emit_begin_inv [OF assms(1,2)]
  have "signals ?w s = Some (sg\<lparr>m_current_iterator := begin_iter (m_connected_slots sg)\<rparr>)" by simp
  moreover have "split_at (sg\<lparr>m_current_iterator := begin_iter (m_connected_slots sg)\<rparr>) [] (m_connected_slots sg)"
    by (simp add: split_at_def)
  ultimately obtain N r where l: "run True slot N (Loop s a) ?w = Some r"
      "r = Inl Misuse \<or> (\<exists>w'. r = Inr w' \<and> called s a [] (m_connected_slots sg) ?w w')"
    using loop_calls [OF _ b(2), of s slot] assms(3) by fastforce
  have l': "run True slot (Suc N) (Loop s a) ?w = Some r" using run_mono [OF l(1), of "Suc N"] by (simp del: run.simps)
  have e: "run True slot (Suc (Suc N)) (Do [Emit s a]) w = seq (Some r) (\<lambda>w. Some (Inr (emit_end w)))"
    using run_Emit [of True s a w slot "Suc N" "[]"] assms(2) b(1) l' by (simp del: run.simps(4))
  show ?thesis
  proof (cases "r = Inl Misuse")
    case True
    then have "run True slot (Suc (Suc N)) (Do [Emit s a]) w = Some (Inl Misuse)" using e by simp
    then show ?thesis by blast
  next
    case False
    with l(2) obtain w' where w': "r = Inr w'" "called s a [] (m_connected_slots sg) ?w w'" by blast
    with e have "run False slot (Suc (Suc N)) (Do [Emit s a]) w = Some (Inr (emit_end w'))"
      using run_unmonitored [of slot "Suc (Suc N)" "Do [Emit s a]" w] by auto
    moreover obtain cs sg' where "subseq cs (m_connected_slots sg)" "calls (emit_end w') = calls w @ map (call_of a) cs"
        "signals (emit_end w') s = Some sg'" "subseq (m_connected_slots sg') cs"
      using w'(2) by (auto simp: called_def emit_end_def)
    ultimately show ?thesis by blast
  qed
qed

end
