(* ===== verification/Rtc_MovingMax.thy ===== *)
theory Rtc_MovingMax
  imports Rtc_Numeric
begin

text \<open>
  The maximum over a moving window of time (\<^verbatim>\<open>rtc_base/numerics/moving_max_counter.h\<close>).  The counter
  keeps only samples that can still become the maximum; the reference keeps every sample and looks at
  all those inside the window.
\<close>

section \<open>Operations\<close>

record 'a MovingMaxCounter =
  window_length_ms :: int
  max_samples :: "(int \<times> 'a) list"
  last_call_time_ms :: int

definition MovingMaxCounter_new :: "int \<Rightarrow> 'a MovingMaxCounter" where
  "MovingMaxCounter_new window = \<lparr>window_length_ms = window, max_samples = [], last_call_time_ms = type_min Int64\<rparr>"

text \<open>
  \<^verbatim>\<open>last_call_time_ms_\<close> exists only where \<^verbatim>\<open>RTC_DCHECK\<close> is on.  The subtraction is one of
  signed 64-bit integers.
\<close>

definition RollWindow :: "bool \<Rightarrow> int \<Rightarrow> 'a MovingMaxCounter \<Rightarrow> 'a MovingMaxCounter checked" where
  "RollWindow d new_time_ms c =
     rbind (RTC_DCHECK d (last_call_time_ms c \<le> new_time_ms)) (\<lambda>_.
     let c = (if d then c\<lparr>last_call_time_ms := new_time_ms\<rparr> else c) in
     rbind (i64 (new_time_ms - window_length_ms c)) (\<lambda>window_begin_ms.
     Inr (c\<lparr>max_samples := dropWhile (\<lambda>s. fst s < window_begin_ms) (max_samples c)\<rparr>)))"

definition pop_back_smaller :: "'a::linorder \<Rightarrow> (int \<times> 'a) list \<Rightarrow> (int \<times> 'a) list" where
  "pop_back_smaller sample ss = rev (dropWhile (\<lambda>s. snd s \<le> sample) (rev ss))"

definition Add :: "bool \<Rightarrow> 'a::linorder \<Rightarrow> int \<Rightarrow> 'a MovingMaxCounter \<Rightarrow> 'a MovingMaxCounter checked" where
  "Add d sample current_time_ms c =
     rbind (RollWindow d current_time_ms c) (\<lambda>c.
     let ss = pop_back_smaller sample (max_samples c) in
     Inr (c\<lparr>max_samples :=
       (if ss = [] \<or> fst (last ss) < current_time_ms then ss @ [(current_time_ms, sample)] else ss)\<rparr>))"

definition Max_in_window :: "bool \<Rightarrow> int \<Rightarrow> 'a MovingMaxCounter \<Rightarrow> ('a option \<times> 'a MovingMaxCounter) checked" where
  "Max_in_window d current_time_ms c =
     rbind (RollWindow d current_time_ms c) (\<lambda>c.
     Inr (case max_samples c of [] \<Rightarrow> None | s # _ \<Rightarrow> Some (snd s), c))"

definition ResetMax :: "'a MovingMaxCounter \<Rightarrow> 'a MovingMaxCounter" where
  "ResetMax c = c\<lparr>max_samples := []\<rparr>"

section \<open>The reference\<close>

datatype 'a max_op = AddSample 'a int | QueryMax int | ResetSamples

text \<open>The answers of the counter to a sequence of calls, and those of a list of all samples.\<close>

fun run_max :: "bool \<Rightarrow> 'a::linorder max_op list \<Rightarrow> 'a MovingMaxCounter \<Rightarrow> 'a option list checked" where
  "run_max d [] c = Inr []"
| "run_max d (AddSample x t # ops) c = rbind (Add d x t c) (run_max d ops)"
| "run_max d (QueryMax t # ops) c =
     rbind (Max_in_window d t c) (\<lambda>(r, c). rbind (run_max d ops c) (\<lambda>rs. Inr (r # rs)))"
| "run_max d (ResetSamples # ops) c = run_max d ops (ResetMax c)"

definition window_max :: "int \<Rightarrow> (int \<times> 'a::linorder) list \<Rightarrow> 'a option" where
  "window_max b hist =
     (let xs = map snd (filter (\<lambda>s. b \<le> fst s) hist) in if xs = [] then None else Some (Max (set xs)))"

fun answers :: "int \<Rightarrow> (int \<times> 'a::linorder) list \<Rightarrow> 'a max_op list \<Rightarrow> 'a option list" where
  "answers W hist [] = []"
| "answers W hist (AddSample x t # ops) = answers W (hist @ [(t, x)]) ops"
| "answers W hist (QueryMax t # ops) = window_max (t - W) hist # answers W hist ops"
| "answers W hist (ResetSamples # ops) = answers W [] ops"

fun op_times :: "'a max_op list \<Rightarrow> int list" where
  "op_times [] = []"
| "op_times (AddSample x t # ops) = t # op_times ops"
| "op_times (QueryMax t # ops) = t # op_times ops"
| "op_times (ResetSamples # ops) = op_times ops"

section \<open>Invariant\<close>

text \<open>
  Every sample since \<open>b\<close> is dominated by a kept one that is at least as young and at least as large; times
  of kept samples increase, their values decrease.
\<close>

definition keeps :: "int \<Rightarrow> int \<Rightarrow> (int \<times> 'a::linorder) list \<Rightarrow> (int \<times> 'a) list \<Rightarrow> bool" where
  "keeps now b hist ss \<longleftrightarrow>
     sorted_wrt (\<lambda>s s'. fst s < fst s' \<and> snd s' < snd s) ss \<and> set ss \<subseteq> set hist \<and>
     (\<forall>s \<in> set hist. fst s \<le> now) \<and>
     (\<forall>s \<in> set hist. b \<le> fst s \<longrightarrow> (\<exists>s' \<in> set ss. fst s \<le> fst s' \<and> snd s \<le> snd s'))"

lemma sorted_dropWhile_old:
  fixes ss :: "(int \<times> 'a::linorder) list"
  assumes "sorted_wrt (\<lambda>s s'. fst s < fst s' \<and> snd s' < snd s) ss"
  shows "dropWhile (\<lambda>s. fst s < b) ss = filter (\<lambda>s. b \<le> fst s) ss"
  using assms
proof (induction ss)
  case (Cons s ss)
  show ?case
  proof (cases "fst s < b")
    case False
    with Cons.prems have "filter (\<lambda>s. b \<le> fst s) ss = ss" by (auto simp: filter_id_conv)
    with False show ?thesis by simp
  qed (use Cons in auto)
qed simp

lemma keeps_roll:
  assumes "keeps now b hist ss" "now \<le> now'" "b \<le> b'"
  shows "keeps now' b' hist (dropWhile (\<lambda>s. fst s < b') ss)"
proof -
  have s: "sorted_wrt (\<lambda>s s'. fst s < fst s' \<and> snd s' < snd s) ss" using assms(1) by (simp add: keeps_def)
  have "\<exists>s' \<in> set (filter (\<lambda>s. b' \<le> fst s) ss). fst s \<le> fst s' \<and> snd s \<le> snd s'" if "s \<in> set hist" "b' \<le> fst s" for s
  proof -
    obtain s' where "s' \<in> set ss" "fst s \<le> fst s'" "snd s \<le> snd s'"
      using assms(1,3) \<open>s \<in> set hist\<close> \<open>b' \<le> fst s\<close> unfolding keeps_def by (meson order_trans)
    then show ?thesis using \<open>b' \<le> fst s\<close> by (intro bexI [of _ s']) auto
  qed
  then show ?thesis
    using assms(1,2) by (force simp: keeps_def sorted_dropWhile_old [OF s] sorted_wrt_filter)
qed

lemma keeps_front:
  assumes "keeps now b hist ss"
  shows "(case dropWhile (\<lambda>s. fst s < b) ss of [] \<Rightarrow> None | s # _ \<Rightarrow> Some (snd s)) = window_max b hist"
proof -
  have k: "keeps now b hist (dropWhile (\<lambda>s. fst s < b) ss)" using assms by (rule keeps_roll) simp_all
  show ?thesis
  proof (cases "dropWhile (\<lambda>s. fst s < b) ss")
    case Nil
    from k have "filter (\<lambda>s. b \<le> fst s) hist = []" unfolding Nil by (auto simp: keeps_def filter_empty_conv)
    then show ?thesis unfolding Nil by (simp add: window_max_def)
  next
    case (Cons s rest)
    have "b \<le> fst s" using Cons dropWhile_eq_Cons_conv [of "\<lambda>s. fst s < b" ss s rest] by simp
    moreover have "s \<in> set hist" using k Cons by (auto simp: keeps_def)
    ultimately have m: "snd s \<in> snd ` set (filter (\<lambda>s. b \<le> fst s) hist)" by auto
    have "snd t \<le> snd s" if t: "t \<in> set hist" "b \<le> fst t" for t
    proof -
      obtain s' where s': "s' \<in> set (s # rest)" "snd t \<le> snd s'"
        using k t unfolding Cons keeps_def by blast
      have "snd s' \<le> snd s" using s'(1) k unfolding Cons by (auto simp: keeps_def)
      with s'(2) show ?thesis by simp
    qed
    with m have "Max (snd ` set (filter (\<lambda>s. b \<le> fst s) hist)) = snd s" by (intro Max_eqI) auto
    with m Cons show ?thesis by (auto simp: window_max_def filter_empty_conv)
  qed
qed

lemma pop_back_smaller_split:
  fixes ss :: "(int \<times> 'a::linorder) list"
  assumes "sorted_wrt (\<lambda>s s'. fst s < fst s' \<and> snd s' < snd s) ss"
  shows "\<exists>us. ss = pop_back_smaller x ss @ us \<and> (\<forall>u \<in> set us. snd u \<le> x) \<and>
    (\<forall>v \<in> set (pop_back_smaller x ss). x < snd v)"
proof -
  let ?us = "rev (takeWhile (\<lambda>s. snd s \<le> x) (rev ss))"
  have "rev ss = takeWhile (\<lambda>s. snd s \<le> x) (rev ss) @ dropWhile (\<lambda>s. snd s \<le> x) (rev ss)" by simp
  then have eq: "ss = pop_back_smaller x ss @ ?us" unfolding pop_back_smaller_def by (metis rev_append rev_rev_ident)
  have "x < snd v" if "v \<in> set (pop_back_smaller x ss)" for v
  proof (cases "dropWhile (\<lambda>s. snd s \<le> x) (rev ss)")
    case Nil
    with that show ?thesis by (simp add: pop_back_smaller_def)
  next
    case (Cons l vs)
    then have l: "x < snd l" using dropWhile_eq_Cons_conv [of "\<lambda>s. snd s \<le> x" "rev ss" l vs] by (metis not_le)
    have p: "pop_back_smaller x ss = rev vs @ [l]" using Cons by (simp add: pop_back_smaller_def)
    have "sorted_wrt (\<lambda>s s'. fst s < fst s' \<and> snd s' < snd s) (rev vs @ [l])"
    proof -
      have "sorted_wrt (\<lambda>s s'. fst s < fst s' \<and> snd s' < snd s) (pop_back_smaller x ss @ ?us)"
        unfolding eq [symmetric] by (rule assms)
      then show ?thesis unfolding p by (simp add: sorted_wrt_append)
    qed
    with l that p show ?thesis by (auto simp: sorted_wrt_append intro: less_trans)
  qed
  moreover have "\<forall>u \<in> set ?us. snd u \<le> x" using set_takeWhileD [of _ "\<lambda>s. snd s \<le> x" "rev ss"] by simp
  ultimately show ?thesis using eq by blast
qed

lemma keeps_add:
  assumes k: "keeps now b hist ss" and ss': "ss' = pop_back_smaller x ss"
  shows "keeps now b (hist @ [(now, x)]) (if ss' = [] \<or> fst (last ss') < now then ss' @ [(now, x)] else ss')"
proof -
  obtain us where us: "ss = ss' @ us" "\<forall>u \<in> set us. snd u \<le> x" "\<forall>v \<in> set ss'. x < snd v"
    using pop_back_smaller_split [of ss x] k unfolding ss' keeps_def by blast
  have times: "\<forall>s \<in> set hist. fst s \<le> now" "set ss \<subseteq> set hist" using k by (auto simp: keeps_def)
  have so: "sorted_wrt (\<lambda>s s'. fst s < fst s' \<and> snd s' < snd s) ss'" using k us(1) by (simp add: keeps_def sorted_wrt_append)
  have dom: "\<exists>s' \<in> set (ss' @ [(now, x)]). fst s \<le> fst s' \<and> snd s \<le> snd s'" if s: "s \<in> set hist" "b \<le> fst s" for s
  proof -
    obtain s' where s': "s' \<in> set ss" "fst s \<le> fst s'" "snd s \<le> snd s'" using k s unfolding keeps_def by blast
    show ?thesis
    proof (cases "s' \<in> set ss'")
      case False
      with s'(1) us have "snd s' \<le> x" by auto
      with s' times(1) s(1) show ?thesis by (intro bexI [of _ "(now, x)"]) auto
    qed (use s' in auto)
  qed
  show ?thesis
  proof (cases "ss' = [] \<or> fst (last ss') < now")
    case True
    have "fst v < now" if v: "v \<in> set ss'" for v
    proof -
      from v obtain vs l where l: "ss' = vs @ [l]" by (cases ss' rule: rev_cases) auto
      with True v so show ?thesis by (auto simp: sorted_wrt_append intro: less_trans)
    qed
    with True so us times dom show ?thesis by (auto simp: keeps_def sorted_wrt_append)
  next
    case False
    then obtain vs l where l: "ss' = vs @ [l]" by (cases ss' rule: rev_cases) auto
    then have "l \<in> set ss" using us(1) by simp
    then have "fst l \<le> now" using times by blast
    with False l have "fst l = now" by simp
    moreover have "x < snd l" using us(3) l by simp
    ultimately have "\<exists>s' \<in> set ss'. fst s \<le> fst s' \<and> snd s \<le> snd s'" if "s \<in> set (hist @ [(now, x)])" "b \<le> fst s" for s
      using dom [of s] that l times by (auto intro: less_imp_le order_trans)
    with False so us times show ?thesis by (auto simp: keeps_def)
  qed
qed

text \<open>The counter after some calls, the last of them at time \<open>now\<close>.\<close>

definition max_inv :: "bool \<Rightarrow> int \<Rightarrow> (int \<times> 'a::linorder) list \<Rightarrow> 'a MovingMaxCounter \<Rightarrow> bool" where
  "max_inv d now hist c \<longleftrightarrow> (d \<longrightarrow> last_call_time_ms c \<le> now) \<and> keeps now (now - window_length_ms c) hist (max_samples c)"

lemma RollWindow_keeps:
  assumes "max_inv d now hist c" "now \<le> t" "in_range Int64 (t - window_length_ms c)"
  shows "returns (RollWindow d t c) (\<lambda>c'. max_inv d t hist c' \<and> window_length_ms c' = window_length_ms c \<and>
    (case max_samples c' of [] \<Rightarrow> None | s # _ \<Rightarrow> Some (snd s)) = window_max (t - window_length_ms c) hist)"
proof -
  have k: "keeps now (now - window_length_ms c) hist (max_samples c)" using assms(1) by (simp add: max_inv_def)
  have "keeps t (t - window_length_ms c) hist (dropWhile (\<lambda>s. fst s < t - window_length_ms c) (max_samples c))"
    using k assms(2) by (intro keeps_roll) auto
  moreover have "keeps now (t - window_length_ms c) hist (max_samples c)" using k assms(2) by (auto simp: keeps_def)
  note keeps_front [OF this]
  ultimately show ?thesis using assms by (auto simp: RollWindow_def max_inv_def)
qed

lemma Add_keeps:
  assumes "max_inv d now hist c" "now \<le> t" "in_range Int64 (t - window_length_ms c)"
  shows "returns (Add d x t c) (\<lambda>c'. max_inv d t (hist @ [(t, x)]) c' \<and> window_length_ms c' = window_length_ms c)"
proof -
  obtain c1 where c1: "RollWindow d t c = Inr c1" "max_inv d t hist c1" "window_length_ms c1 = window_length_ms c"
    using RollWindow_keeps [OF assms] by (auto elim: returnsE)
  have "keeps t (t - window_length_ms c1) hist (max_samples c1)" using c1(2) by (simp add: max_inv_def)
  from keeps_add [OF this refl, of x] c1 show ?thesis by (simp add: Add_def max_inv_def Let_def)
qed

lemma run_max_answers:
  assumes "max_inv d now hist c" "sorted (now # op_times ops)"
    and "\<forall>t \<in> set (op_times ops). in_range Int64 (t - window_length_ms c)"
  shows "run_max d ops c = Inr (answers (window_length_ms c) hist ops)"
  using assms
proof (induction ops arbitrary: now hist c)
  case (Cons op ops)
  show ?case
  proof (cases op)
    case (AddSample x t)
    with Cons.prems have t: "now \<le> t" "in_range Int64 (t - window_length_ms c)" by auto
    from Add_keeps [OF Cons.prems(1) this, of x] obtain c' where
      c': "Add d x t c = Inr c'" "max_inv d t (hist @ [(t, x)]) c'" "window_length_ms c' = window_length_ms c"
      by (auto elim: returnsE)
    from Cons.IH [OF c'(2)] Cons.prems AddSample c' show ?thesis by simp
  next
    case (QueryMax t)
    with Cons.prems have t: "now \<le> t" "in_range Int64 (t - window_length_ms c)" by auto
    from RollWindow_keeps [OF Cons.prems(1) this] obtain c' where
      c': "RollWindow d t c = Inr c'" "max_inv d t hist c'" "window_length_ms c' = window_length_ms c"
        "(case max_samples c' of [] \<Rightarrow> None | s # _ \<Rightarrow> Some (snd s)) = window_max (t - window_length_ms c) hist"
      by (auto elim: returnsE)
    from Cons.IH [OF c'(2)] Cons.prems QueryMax c' show ?thesis by (simp add: Max_in_window_def)
  next
    case ResetSamples
    have "max_inv d now [] (ResetMax c)" using Cons.prems(1) by (simp add: max_inv_def keeps_def ResetMax_def)
    from Cons.IH [OF this] Cons.prems ResetSamples show ?thesis by (simp add: ResetMax_def)
  qed
qed simp

text \<open>
  (C40) The moving maximum.  For every sequence of calls whose times do not decrease, \<^verbatim>\<open>Max\<close> returns the largest of all
  the samples added since the last reset that are not older than the window, and nothing if there is none, although almost all
  samples are thrown away.  The start of the window must be representable.
\<close>

theorem moving_max_exact:
  assumes "sorted (op_times ops)" "\<forall>t \<in> set (op_times ops). in_range Int64 t \<and> in_range Int64 (t - W)"
  shows "run_max d ops (MovingMaxCounter_new W) = Inr (answers W [] ops)"
proof -
  have "max_inv d (type_min Int64) [] (MovingMaxCounter_new W :: 'a MovingMaxCounter)"
    by (simp add: max_inv_def keeps_def MovingMaxCounter_new_def)
  from run_max_answers [OF this, of ops] assms show ?thesis by (auto simp: in_range_def MovingMaxCounter_new_def)
qed

end
