(* ===== verification/Rtc_Percentile.thy ===== *)
theory Rtc_Percentile
  imports Rtc_Numeric "HOL-Library.Multiset"
begin

text \<open>
  Percentiles and medians of a changing collection (\<^verbatim>\<open>rtc_base/numerics/percentile_filter.h\<close> and
  \<^verbatim>\<open>moving_median_filter.h\<close>).  The filter keeps an iterator into a \<^verbatim>\<open>std::multiset\<close> and moves it by the
  difference of positions after each change; the reference sorts the collection anew.

  The set is the list of its nodes in order, a node being a number and a value, and an iterator is the number of
  its node or \<^const>\<open>None\<close> for the end.  Moving an iterator beyond the ends and reading the end are
  \<^const>\<open>Undefined\<close>.
\<close>

section \<open>Single precision numbers\<close>

text \<open>
  A percentile is a float between 0 and 1: \<open>Float m k\<close> stands for \<open>m / 2 ^ k\<close> with a significand \<open>m\<close> of 24 bits.  Conversions and
  products are rounded to 24 bits, to the nearest and ties to even.  A product too small for the
  exponent of a float is less than 1 with and without rounding, and becomes 0 below.
\<close>

datatype float32 = Float nat nat

fun bits :: "nat \<Rightarrow> nat" where
  "bits n = (if n = 0 then 0 else Suc (bits (n div 2)))"

declare bits.simps [simp del]

definition round_even :: "nat \<Rightarrow> nat \<Rightarrow> nat" where
  "round_even n s = n div 2 ^ s +
     (if 2 ^ s < 2 * (n mod 2 ^ s) \<or> 2 ^ s = 2 * (n mod 2 ^ s) \<and> odd (n div 2 ^ s) then 1 else 0)"

definition to_float :: "nat \<Rightarrow> nat \<times> nat" where
  "to_float n = (let s = bits n - 24 in (round_even n s, s))"

text \<open>\<^verbatim>\<open>static_cast<int64_t>(percentile_ * (set_.size() - 1))\<close>\<close>

fun target_index :: "float32 \<Rightarrow> nat \<Rightarrow> nat" where
  "target_index (Float m k) sz =
     (let (a, e) = to_float (sz - 1); s = bits (m * a) - 24 in (round_even (m * a) s * 2 ^ (s + e)) div 2 ^ k)"

fun is_percentile :: "float32 \<Rightarrow> bool" where
  "is_percentile (Float m k) \<longleftrightarrow> m < 2 ^ 24 \<and> m \<le> 2 ^ k"

section \<open>Ordered sets with iterators\<close>

type_synonym 'a nodes = "(nat \<times> 'a) list"

fun insert_upper :: "nat \<times> 'a::linorder \<Rightarrow> 'a nodes \<Rightarrow> 'a nodes" where
  "insert_upper x [] = [x]"
| "insert_upper x (y # ys) = (if snd x < snd y then x # y # ys else y # insert_upper x ys)"

definition lower_bound :: "'a::linorder \<Rightarrow> 'a nodes \<Rightarrow> (nat \<times> 'a) option" where
  "lower_bound v xs = (case dropWhile (\<lambda>y. snd y < v) xs of [] \<Rightarrow> None | y # _ \<Rightarrow> Some y)"

definition iter_at :: "'a nodes \<Rightarrow> nat \<Rightarrow> nat option" where
  "iter_at xs i = (if i < length xs then Some (fst (xs ! i)) else None)"

fun node_pos :: "nat \<Rightarrow> 'a nodes \<Rightarrow> nat option" where
  "node_pos n [] = None"
| "node_pos n (x # xs) = (if fst x = n then Some 0 else map_option Suc (node_pos n xs))"

definition iter_pos :: "nat option \<Rightarrow> 'a nodes \<Rightarrow> nat checked" where
  "iter_pos it xs = (case it of None \<Rightarrow> Inr (length xs)
     | Some n \<Rightarrow> (case node_pos n xs of None \<Rightarrow> Inl Undefined | Some i \<Rightarrow> Inr i))"

definition advance :: "nat option \<Rightarrow> int \<Rightarrow> 'a nodes \<Rightarrow> nat option checked" where
  "advance it d xs =
     rbind (iter_pos it xs) (\<lambda>i.
     if 0 \<le> int i + d \<and> int i + d \<le> int (length xs) then Inr (iter_at xs (nat (int i + d))) else Inl Undefined)"

definition deref :: "nat option \<Rightarrow> 'a nodes \<Rightarrow> 'a checked" where
  "deref it xs = (case it of None \<Rightarrow> Inl Undefined
     | Some n \<Rightarrow> (case map_of xs n of None \<Rightarrow> Inl Undefined | Some v \<Rightarrow> Inr v))"

definition remove_node :: "nat \<Rightarrow> 'a nodes \<Rightarrow> 'a nodes" where
  "remove_node n xs = filter (\<lambda>x. fst x \<noteq> n) xs"

section \<open>The percentile filter\<close>

record 'a PercentileFilter =
  percentile :: float32
  pset :: "'a nodes"
  percentile_it :: "nat option"
  percentile_index :: int
  next_id :: nat

definition PercentileFilter_new :: "float32 \<Rightarrow> 'a PercentileFilter checked" where
  "PercentileFilter_new p =
     rbind (RTC_CHECK (case p of Float m k \<Rightarrow> m \<le> 2 ^ k)) (\<lambda>_.
     Inr \<lparr>percentile = p, pset = [], percentile_it = None, percentile_index = 0, next_id = 0\<rparr>)"

definition UpdatePercentileIterator :: "'a PercentileFilter \<Rightarrow> 'a PercentileFilter checked" where
  "UpdatePercentileIterator f =
     (if pset f = [] then Inr f
      else
        let index = int (target_index (percentile f) (length (pset f))) in
        rbind (advance (percentile_it f) (index - percentile_index f) (pset f)) (\<lambda>it.
        Inr (f\<lparr>percentile_it := it, percentile_index := index\<rparr>)))"

text \<open>After a change the index is brought in line with the node the iterator points to.\<close>

definition track_insert :: "'a::linorder \<Rightarrow> 'a PercentileFilter \<Rightarrow> 'a PercentileFilter checked" where
  "track_insert v f =
     (if length (pset f) = 1 then Inr (f\<lparr>percentile_it := iter_at (pset f) 0, percentile_index := 0\<rparr>)
      else rbind (deref (percentile_it f) (pset f)) (\<lambda>y.
        Inr (if v < y then f\<lparr>percentile_index := percentile_index f + 1\<rparr> else f)))"

definition PInsert :: "'a::linorder \<Rightarrow> 'a PercentileFilter \<Rightarrow> 'a PercentileFilter checked" where
  "PInsert v f =
     rbind (track_insert v (f\<lparr>pset := insert_upper (next_id f, v) (pset f), next_id := Suc (next_id f)\<rparr>))
       UpdatePercentileIterator"

definition track_erase :: "'a::linorder \<Rightarrow> nat \<Rightarrow> 'a PercentileFilter \<Rightarrow> 'a PercentileFilter checked" where
  "track_erase v n f =
     (let xs = remove_node n (pset f) in
      if percentile_it f = Some n
      then rbind (advance (Some n) 1 (pset f)) (\<lambda>it. Inr (f\<lparr>pset := xs, percentile_it := it\<rparr>))
      else rbind (deref (percentile_it f) xs) (\<lambda>z.
        Inr (f\<lparr>pset := xs, percentile_index := (if v \<le> z then percentile_index f - 1 else percentile_index f)\<rparr>)))"

definition PErase :: "'a::linorder \<Rightarrow> 'a PercentileFilter \<Rightarrow> (bool \<times> 'a PercentileFilter) checked" where
  "PErase v f =
     (case lower_bound v (pset f) of
        None \<Rightarrow> Inr (False, f)
      | Some (n, y) \<Rightarrow>
          if y \<noteq> v then Inr (False, f)
          else rbind (track_erase v n f) (\<lambda>f. rbind (UpdatePercentileIterator f) (\<lambda>f. Inr (True, f))))"

definition GetPercentileValue :: "'a::{linorder, zero} PercentileFilter \<Rightarrow> 'a checked" where
  "GetPercentileValue f = (if pset f = [] then Inr 0 else deref (percentile_it f) (pset f))"

definition PReset :: "'a PercentileFilter \<Rightarrow> 'a PercentileFilter" where
  "PReset f = f\<lparr>pset := [], percentile_it := None, percentile_index := 0\<rparr>"

section \<open>The median of the latest samples\<close>

record 'a MovingMedianFilter =
  percentile_filter :: "'a PercentileFilter"
  med_samples :: "'a list"
  samples_stored :: nat
  window_size :: nat

definition MovingMedianFilter_new :: "nat \<Rightarrow> 'a MovingMedianFilter checked" where
  "MovingMedianFilter_new window =
     rbind (PercentileFilter_new (Float 1 1)) (\<lambda>pf.
     rbind (RTC_CHECK (0 < window)) (\<lambda>_.
     Inr \<lparr>percentile_filter = pf, med_samples = [], samples_stored = 0, window_size = window\<rparr>))"

definition MInsert :: "'a::linorder \<Rightarrow> 'a MovingMedianFilter \<Rightarrow> 'a MovingMedianFilter checked" where
  "MInsert v m =
     rbind (PInsert v (percentile_filter m)) (\<lambda>pf.
     let m = m\<lparr>percentile_filter := pf, med_samples := med_samples m @ [v], samples_stored := samples_stored m + 1\<rparr> in
     if window_size m < samples_stored m then
       rbind (PErase (hd (med_samples m)) (percentile_filter m)) (\<lambda>(_, pf).
       Inr (m\<lparr>percentile_filter := pf, med_samples := tl (med_samples m), samples_stored := samples_stored m - 1\<rparr>))
     else Inr m)"

definition GetFilteredValue :: "'a::{linorder, zero} MovingMedianFilter \<Rightarrow> 'a checked" where
  "GetFilteredValue m = GetPercentileValue (percentile_filter m)"

definition MReset :: "'a MovingMedianFilter \<Rightarrow> 'a MovingMedianFilter" where
  "MReset m = m\<lparr>percentile_filter := PReset (percentile_filter m), med_samples := [], samples_stored := 0\<rparr>"

section \<open>Rounding\<close>

lemma bits_less: "n < 2 ^ bits n"
proof (induction n rule: bits.induct)
  case (1 n)
  then show ?case by (subst bits.simps) auto
qed

lemma bits_le: "n < 2 ^ k \<Longrightarrow> bits n \<le> k"
proof (induction k arbitrary: n)
  case 0
  then show ?case by (subst bits.simps) simp
next
  case (Suc k)
  then have "bits (n div 2) \<le> k" by simp
  then show ?case by (subst bits.simps) simp
qed

lemma bits_ge: "Suc k \<le> bits n \<Longrightarrow> 2 ^ k \<le> n"
  using bits_le [of n k] by (meson not_less not_less_eq_eq)

lemma bits_eq: "2 ^ k \<le> n \<Longrightarrow> n < 2 ^ Suc k \<Longrightarrow> bits n = Suc k"
  using bits_le [of n "Suc k"] bits_less [of n] power_increasing [of "bits n" k "2 :: nat"]
  by (metis le_SucE le_less_trans linorder_not_less one_le_numeral)

lemma round_even_le:
  assumes "n \<le> q * 2 ^ s"
  shows "round_even n s \<le> q"
proof (cases "n div 2 ^ s < q")
  case True
  then show ?thesis by (simp add: round_even_def)
next
  case False
  have "n div 2 ^ s \<le> q" using assms by (metis div_le_mono nonzero_mult_div_cancel_right power_not_zero zero_neq_numeral)
  with False have d: "n div 2 ^ s = q" by simp
  then have "n mod 2 ^ s = 0" using assms div_mult_mod_eq [of n "2 ^ s"] by simp
  with d show ?thesis by (simp add: round_even_def)
qed

lemma round_even_0 [simp]: "round_even n 0 = n"
  by (simp add: round_even_def)

lemma target_index_bound:
  assumes "is_percentile p" "0 < sz" "sz \<le> 2 ^ 24"
  shows "target_index p sz < sz"
proof (cases p)
  case (Float m k)
  let ?N = "sz - 1" let ?M = "m * (sz - 1)" let ?s = "bits (m * (sz - 1)) - 24"
  have N: "?N < 2 ^ 24" using assms by simp
  then have f: "to_float ?N = (?N, 0)" using bits_le [OF N] by (simp add: to_float_def)
  have M: "?M \<le> ?N * 2 ^ k" using assms(1) Float by simp
  have "round_even ?M ?s * 2 ^ ?s \<le> ?N * 2 ^ k"
  proof (cases "?s \<le> k")
    case True
    have eq: "?N * 2 ^ k = ?N * 2 ^ (k - ?s) * 2 ^ ?s" using True by (simp add: power_add [symmetric])
    have "?M \<le> ?N * 2 ^ (k - ?s) * 2 ^ ?s" using M unfolding eq .
    then have "round_even ?M ?s \<le> ?N * 2 ^ (k - ?s)" by (rule round_even_le)
    then show ?thesis unfolding eq by (rule mult_right_mono) simp
  next
    case False
    then have "2 ^ (k + 24) \<le> ?M" by (intro bits_ge) simp
    with M have "2 ^ (k + 24) \<le> ?N * 2 ^ k" by (rule order_trans [rotated])
    moreover have "?N * 2 ^ k < 2 ^ 24 * 2 ^ k" using N by (intro mult_strict_right_mono) simp_all
    ultimately show ?thesis by (simp add: power_add)
  qed
  then have "round_even ?M ?s * 2 ^ ?s div 2 ^ k \<le> ?N"
    by (metis div_le_mono nonzero_mult_div_cancel_right power_not_zero zero_neq_numeral)
  then show ?thesis using Float f assms(2) by (simp add: Let_def) linarith
qed

text \<open>
  The position in exact arithmetic.  With the product \<open>x = percentile * (n - 1)\<close> it is the whole part of a number that is not
  below the whole part of \<open>x\<close> and exceeds \<open>x\<close> by no more than its \<open>2 ^ 24\<close>-th part; when the product of the
  significand and \<open>n - 1\<close> fits into 24 bits it is the whole part of \<open>x\<close>.
\<close>

fun near_position :: "float32 \<Rightarrow> nat \<Rightarrow> nat \<Rightarrow> bool" where
  "near_position (Float m k) n i \<longleftrightarrow>
     i < n \<and> m * (n - 1) div 2 ^ k \<le> i \<and> i * 2 ^ k * 2 ^ 24 \<le> m * (n - 1) * (2 ^ 24 + 1) \<and>
     (m * (n - 1) < 2 ^ 24 \<longrightarrow> i = m * (n - 1) div 2 ^ k)"

lemma round_even_near:
  "n div 2 ^ s \<le> round_even n s" "2 * (round_even n s * 2 ^ s) \<le> 2 * n + 2 ^ s"
proof -
  show "n div 2 ^ s \<le> round_even n s" by (simp add: round_even_def)
  have n: "n div 2 ^ s * 2 ^ s + n mod 2 ^ s = n" by (rule div_mult_mod_eq)
  show "2 * (round_even n s * 2 ^ s) \<le> 2 * n + 2 ^ s"
  proof (cases "2 ^ s \<le> 2 * (n mod 2 ^ s)")
    case True
    have "round_even n s * 2 ^ s \<le> (n div 2 ^ s + 1) * 2 ^ s" by (intro mult_right_mono) (simp_all add: round_even_def)
    also have "\<dots> = n div 2 ^ s * 2 ^ s + 2 ^ s" by (simp add: algebra_simps)
    finally show ?thesis using n True by linarith
  next
    case False
    then have r: "round_even n s = n div 2 ^ s" by (auto simp: round_even_def)
    have "n div 2 ^ s * 2 ^ s \<le> n" by simp
    then show ?thesis unfolding r by linarith
  qed
qed

lemma rounded_product:
  assumes "M < 2 ^ 24 * 2 ^ k" and s: "s = bits M - 24"
  shows "M div 2 ^ k \<le> round_even M s * 2 ^ s div 2 ^ k" "round_even M s * 2 ^ s div 2 ^ k * 2 ^ k * 2 ^ 24 \<le> M * (2 ^ 24 + 1)"
proof -
  have "bits M \<le> 24 + k" using assms(1) by (intro bits_le) (simp add: power_add)
  then have "s \<le> k" using s by simp
  then have k: "(2 :: nat) ^ k = 2 ^ s * 2 ^ (k - s)" by (simp add: power_add [symmetric])
  have "M div 2 ^ k = M div 2 ^ s div 2 ^ (k - s)" unfolding k by (simp add: div_mult2_eq)
  also have "\<dots> \<le> round_even M s div 2 ^ (k - s)" by (intro div_le_mono round_even_near)
  also have "\<dots> = round_even M s * 2 ^ s div 2 ^ k" unfolding k by (simp add: mult.commute)
  finally show "M div 2 ^ k \<le> round_even M s * 2 ^ s div 2 ^ k" .
  have "round_even M s * 2 ^ s * 2 ^ 24 \<le> M * (2 ^ 24 + 1)"
  proof (cases s)
    case 0
    then show ?thesis by simp
  next
    case (Suc t)
    then have "2 ^ (24 + t) \<le> M" using s by (intro bits_ge) simp
    then have "2 ^ s * 2 ^ 24 \<le> 2 * M" using Suc by (simp add: power_add)
    moreover have "2 * (round_even M s * 2 ^ s) * 2 ^ 24 \<le> (2 * M + 2 ^ s) * 2 ^ 24"
      by (intro mult_right_mono round_even_near) simp
    ultimately have "2 * (round_even M s * 2 ^ s * 2 ^ 24) \<le> 2 * (M * (2 ^ 24 + 1))" by (simp add: algebra_simps)
    then show ?thesis by simp
  qed
  moreover have "round_even M s * 2 ^ s div 2 ^ k * 2 ^ k \<le> round_even M s * 2 ^ s" by simp
  ultimately show "round_even M s * 2 ^ s div 2 ^ k * 2 ^ k * 2 ^ 24 \<le> M * (2 ^ 24 + 1)"
    by (meson le_trans mult_le_mono1)
qed

lemma target_index_near:
  assumes "is_percentile p" "0 < n" "n \<le> 2 ^ 24"
  shows "near_position p n (target_index p n)"
proof (cases p)
  case (Float m k)
  let ?M = "m * (n - 1)"
  have N: "n - 1 < 2 ^ 24" using assms by simp
  then have t: "target_index p n = round_even ?M (bits ?M - 24) * 2 ^ (bits ?M - 24) div 2 ^ k"
    using Float bits_le [OF N] by (simp add: to_float_def Let_def)
  have "?M \<le> (n - 1) * 2 ^ k" using assms(1) Float by simp
  also have "\<dots> < 2 ^ 24 * 2 ^ k" using N by (intro mult_strict_right_mono) simp_all
  finally have M: "?M < 2 ^ 24 * 2 ^ k" .
  have "target_index p n = ?M div 2 ^ k" if "?M < 2 ^ 24" using bits_le [OF that] t by simp
  then show ?thesis
    using rounded_product [OF M refl] target_index_bound [OF assms] unfolding Float near_position.simps t [unfolded Float] by auto
qed

section \<open>Sorted nodes\<close>

definition wf_nodes :: "nat \<Rightarrow> 'a::linorder nodes \<Rightarrow> bool" where
  "wf_nodes k xs \<longleftrightarrow> sorted (map snd xs) \<and> distinct (map fst xs) \<and> (\<forall>x \<in> set xs. fst x < k)"

lemma node_pos_nth: "distinct (map fst xs) \<Longrightarrow> i < length xs \<Longrightarrow> node_pos (fst (xs ! i)) xs = Some i"
proof (induction xs arbitrary: i)
  case (Cons x xs)
  then show ?case using nth_mem [of "i - 1" xs] by (cases i) auto
qed simp

lemma iter_pos_at: "distinct (map fst xs) \<Longrightarrow> i \<le> length xs \<Longrightarrow> iter_pos (iter_at xs i) xs = Inr i"
  by (auto simp: iter_pos_def iter_at_def node_pos_nth)

lemma advance_at:
  assumes "distinct (map fst xs)" "i \<le> length xs" "j \<le> length xs" "d = int j - int i"
  shows "advance (iter_at xs i) d xs = Inr (iter_at xs j)"
  using assms by (simp add: advance_def iter_pos_at)

lemma deref_at: "distinct (map fst xs) \<Longrightarrow> i < length xs \<Longrightarrow> deref (iter_at xs i) xs = Inr (snd (xs ! i))"
  by (auto simp: deref_def iter_at_def map_of_eq_Some_iff [THEN iffD2] split: option.splits)
    (metis map_of_eq_Some_iff nth_mem option.inject option.distinct(1) prod.collapse)+

text \<open>Insertion puts the new node behind the values that are not larger, removal takes out the first of its value.\<close>

lemma insert_upper_split:
  assumes "sorted (map snd xs)"
  shows "\<exists>us vs. xs = us @ vs \<and> insert_upper x xs = us @ x # vs \<and> (\<forall>u \<in> set us. snd u \<le> snd x) \<and> (\<forall>v \<in> set vs. snd x < snd v)"
  using assms
proof (induction xs)
  case (Cons y ys)
  show ?case
  proof (cases "snd x < snd y")
    case True
    with Cons.prems show ?thesis by (intro exI [of _ "[]"] exI [of _ "y # ys"]) auto
  next
    case False
    from Cons obtain us vs where "ys = us @ vs" "insert_upper x ys = us @ x # vs"
      "\<forall>u \<in> set us. snd u \<le> snd x" "\<forall>v \<in> set vs. snd x < snd v" by auto
    with False show ?thesis by (intro exI [of _ "y # us"] exI [of _ vs]) auto
  qed
qed auto

lemma lower_bound_split:
  assumes "sorted (map snd xs)"
  shows "case lower_bound v xs of
      None \<Rightarrow> v \<notin> snd ` set xs
    | Some y \<Rightarrow> \<exists>us vs. xs = us @ y # vs \<and> (\<forall>u \<in> set us. snd u < v) \<and> (snd y \<noteq> v \<longrightarrow> v \<notin> snd ` set xs)"
  using assms
proof (induction xs)
  case (Cons x xs)
  show ?case
  proof (cases "snd x < v")
    case True
    then have eq: "lower_bound v (x # xs) = lower_bound v xs" by (simp add: lower_bound_def)
    have IH: "case lower_bound v xs of
        None \<Rightarrow> v \<notin> snd ` set xs
      | Some y \<Rightarrow> \<exists>us vs. xs = us @ y # vs \<and> (\<forall>u \<in> set us. snd u < v) \<and> (snd y \<noteq> v \<longrightarrow> v \<notin> snd ` set xs)"
      using Cons by simp
    show ?thesis
    proof (cases "lower_bound v xs")
      case None
      with IH True eq show ?thesis by auto
    next
      case (Some y)
      with IH obtain us vs where "xs = us @ y # vs" "\<forall>u \<in> set us. snd u < v" "snd y \<noteq> v \<longrightarrow> v \<notin> snd ` set xs" by auto
      with True eq Some show ?thesis by (simp only: option.case) (intro exI [of _ "x # us"] exI [of _ vs], auto)
    qed
  next
    case False
    then have "lower_bound v (x # xs) = Some x" by (simp add: lower_bound_def)
    with False Cons.prems show ?thesis by (simp only: option.case) (intro exI [of _ "[]"] exI [of _ xs], auto)
  qed
qed (simp add: lower_bound_def)

lemma remove_node_split:
  assumes "distinct (map fst (us @ y # vs))"
  shows "remove_node (fst y) (us @ y # vs) = us @ vs"
proof -
  have "fst y \<notin> fst ` set us" "fst y \<notin> fst ` set vs" using assms by auto
  then have "\<forall>x \<in> set us. fst x \<noteq> fst y" "\<forall>x \<in> set vs. fst x \<noteq> fst y" by (metis imageI)+
  then show ?thesis by (simp add: remove_node_def)
qed

section \<open>The iterator follows its position\<close>

text \<open>The iterator points to position \<open>i\<close>, which the filter knows.\<close>

definition points :: "nat \<Rightarrow> 'a::linorder PercentileFilter \<Rightarrow> bool" where
  "points i f \<longleftrightarrow> wf_nodes (next_id f) (pset f) \<and> i \<le> length (pset f) \<and>
     percentile_it f = iter_at (pset f) i \<and> percentile_index f = int i"

text \<open>Between calls that position is the target, or 0 in an empty filter.\<close>

definition filter_inv :: "'a::linorder PercentileFilter \<Rightarrow> bool" where
  "filter_inv f \<longleftrightarrow> is_percentile (percentile f) \<and>
     points (if pset f = [] then 0 else target_index (percentile f) (length (pset f))) f"

lemma Update_points:
  assumes "points i f" "is_percentile (percentile f)" "length (pset f) \<le> 2 ^ 24" "pset f = [] \<longrightarrow> i = 0"
  shows "returns (UpdatePercentileIterator f) (\<lambda>f'. filter_inv f' \<and> pset f' = pset f \<and> percentile f' = percentile f)"
proof (cases "pset f = []")
  case True
  with assms show ?thesis by (simp add: UpdatePercentileIterator_def filter_inv_def)
next
  case False
  let ?t = "target_index (percentile f) (length (pset f))"
  have t: "?t < length (pset f)" using False assms by (intro target_index_bound) auto
  have "advance (iter_at (pset f) i) (int ?t - int i) (pset f) = Inr (iter_at (pset f) ?t)"
    using assms(1) t by (intro advance_at) (auto simp: points_def wf_nodes_def)
  with False assms t show ?thesis by (auto simp: UpdatePercentileIterator_def Let_def points_def filter_inv_def)
qed

lemma wf_insert:
  assumes "wf_nodes k xs"
  shows "wf_nodes (Suc k) (insert_upper (k, v) xs)" "mset (map snd (insert_upper (k, v) xs)) = add_mset v (mset (map snd xs))"
    "length (insert_upper (k, v) xs) = Suc (length xs)"
proof -
  from insert_upper_split [of xs "(k, v)"] assms obtain us vs where s: "xs = us @ vs" "insert_upper (k, v) xs = us @ (k, v) # vs"
    "\<forall>u \<in> set us. snd u \<le> v" "\<forall>u \<in> set vs. v < snd u" by (auto simp: wf_nodes_def)
  from assms have "k \<notin> fst ` set xs" by (auto simp: wf_nodes_def)
  with assms s show "wf_nodes (Suc k) (insert_upper (k, v) xs)"
    by (auto simp: wf_nodes_def sorted_append intro: less_imp_le less_SucI)
  show "mset (map snd (insert_upper (k, v) xs)) = add_mset v (mset (map snd xs))"
    "length (insert_upper (k, v) xs) = Suc (length xs)" using s by simp_all
qed

lemma track_insert_points:
  assumes inv: "filter_inv f" and len: "length (pset f) < 2 ^ 24"
    and f': "f' = f\<lparr>pset := insert_upper (next_id f, v) (pset f), next_id := Suc (next_id f)\<rparr>"
  shows "\<exists>i. returns (track_insert v f') (\<lambda>g. points i g \<and> pset g = pset f' \<and> percentile g = percentile f)"
proof -
  let ?xs = "insert_upper (next_id f, v) (pset f)"
  have wf: "wf_nodes (next_id f) (pset f)" and p: "is_percentile (percentile f)"
    using inv by (simp_all add: filter_inv_def points_def)
  note ins = wf_insert [OF wf, of v]
  show ?thesis
  proof (cases "pset f = []")
    case True
    then show ?thesis using ins(1) f' by (intro exI [of _ 0]) (auto simp: points_def track_insert_def)
  next
    case False
    let ?t = "target_index (percentile f) (length (pset f))"
    have t: "?t < length (pset f)" using False p len by (intro target_index_bound) auto
    have it: "percentile_it f = Some (fst (pset f ! ?t))" "percentile_index f = int ?t"
      using inv False t by (simp_all add: filter_inv_def points_def iter_at_def)
    from insert_upper_split [of "pset f" "(next_id f, v)"] wf obtain us vs where
      s: "pset f = us @ vs" "?xs = us @ (next_id f, v) # vs" "\<forall>u \<in> set us. snd u \<le> v" "\<forall>u \<in> set vs. v < snd u"
      by (auto simp: wf_nodes_def)
    let ?i = "if length us \<le> ?t then Suc ?t else ?t"
    have i: "?i < length ?xs" "?xs ! ?i = pset f ! ?t" using s t by (auto simp: nth_append Suc_diff_le)
    have "v < snd (pset f ! ?t) \<longleftrightarrow> length us \<le> ?t"
      using s t by (auto simp: nth_append not_less [symmetric] dest: nth_mem [of "?t" us])
    moreover have "deref (percentile_it f) ?xs = Inr (snd (pset f ! ?t))"
      using deref_at [of ?xs ?i] ins(1) i it(1) by (simp add: wf_nodes_def iter_at_def)
    ultimately show ?thesis using ins(1,3) False it i f'
      by (intro exI [of _ ?i]) (auto simp: track_insert_def points_def iter_at_def)
  qed
qed

lemma PInsert_inv:
  assumes inv: "filter_inv f" and len: "length (pset f) < 2 ^ 24"
  shows "returns (PInsert v f) (\<lambda>f'. filter_inv f' \<and> percentile f' = percentile f \<and>
    mset (map snd (pset f')) = add_mset v (mset (map snd (pset f))))"
proof -
  let ?f = "f\<lparr>pset := insert_upper (next_id f, v) (pset f), next_id := Suc (next_id f)\<rparr>"
  have wf: "wf_nodes (next_id f) (pset f)" and p: "is_percentile (percentile f)"
    using inv by (simp_all add: filter_inv_def points_def)
  note ins = wf_insert [OF wf, of v]
  obtain i g where g: "track_insert v ?f = Inr g" "points i g" "pset g = pset ?f" "percentile g = percentile f"
    using track_insert_points [OF inv len refl, of v] by (auto elim: returnsE)
  have "returns (UpdatePercentileIterator g) (\<lambda>f'. filter_inv f' \<and> pset f' = pset g \<and> percentile f' = percentile g)"
    using g p len ins(3) by (intro Update_points) auto
  then show ?thesis using g ins(2) by (auto simp: PInsert_def elim!: returns_mono)
qed

lemma track_erase_points:
  assumes inv: "filter_inv f" and len: "length (pset f) \<le> 2 ^ 24"
    and s: "pset f = us @ y # vs" "\<forall>u \<in> set us. snd u < snd y"
  shows "\<exists>i. returns (track_erase (snd y) (fst y) f)
    (\<lambda>g. points i g \<and> pset g = us @ vs \<and> percentile g = percentile f \<and> (us @ vs = [] \<longrightarrow> i = 0))"
proof -
  let ?t = "target_index (percentile f) (length (pset f))"
  have wf: "wf_nodes (next_id f) (pset f)" and p: "is_percentile (percentile f)"
    using inv by (simp_all add: filter_inv_def points_def)
  have dist: "distinct (map fst (us @ y # vs))" and so: "sorted (map snd (us @ y # vs))"
    using wf s(1) by (simp_all add: wf_nodes_def)
  have wf': "wf_nodes (next_id f) (us @ vs)" using wf s(1) by (auto simp: wf_nodes_def sorted_append)
  note rm = remove_node_split [OF dist]
  have t: "?t < length (pset f)" using s p len by (intro target_index_bound) auto
  have it: "percentile_it f = Some (fst (pset f ! ?t))" "percentile_index f = int ?t"
    using inv s t by (simp_all add: filter_inv_def points_def iter_at_def)
  show ?thesis
  proof (cases "?t = length us")
    case True
    then have "percentile_it f = Some (fst y)" using it s by simp
    moreover have "advance (Some (fst y)) 1 (pset f) = Inr (iter_at (pset f) (Suc (length us)))"
      using advance_at [of "pset f" "length us" "Suc (length us)" 1] dist s by (simp add: iter_at_def)
    moreover have "iter_at (pset f) (Suc (length us)) = iter_at (us @ vs) (length us)"
      using s by (simp add: iter_at_def nth_append)
    ultimately show ?thesis using wf' it True rm s
      by (intro exI [of _ "length us"]) (auto simp: track_erase_def points_def)
  next
    case False
    let ?i = "if length us < ?t then ?t - 1 else ?t"
    have i: "?i < length (us @ vs)" "(us @ vs) ! ?i = pset f ! ?t"
      using s t False by (auto simp: nth_append nth_Cons' not_less)
    have ne: "fst (pset f ! ?t) \<noteq> fst y"
    proof -
      have "map fst (pset f) ! ?t = fst (pset f ! ?t)" using t by (rule nth_map)
      moreover have "map fst (pset f) ! length us = fst y" using s(1) by (simp add: nth_append)
      moreover have "distinct (map fst (pset f))" using dist s(1) by simp
      ultimately show ?thesis using nth_eq_iff_index_eq [of "map fst (pset f)" ?t "length us"] t False s(1) by auto
    qed
    have "snd y \<le> snd (pset f ! ?t) \<longleftrightarrow> length us < ?t"
    proof (cases "length us < ?t")
      case True
      then have "snd (pset f ! ?t) \<in> snd ` set vs" using s t by (auto simp: nth_append nth_Cons')
      with True so show ?thesis by (auto simp: sorted_append)
    next
      case F: False
      with False have "pset f ! ?t \<in> set us" using s by (simp add: nth_append)
      with F s(2) show ?thesis by force
    qed
    moreover have "deref (percentile_it f) (us @ vs) = Inr (snd (pset f ! ?t))"
      using deref_at [of "us @ vs" ?i] wf' i it(1) by (simp add: wf_nodes_def iter_at_def)
    ultimately show ?thesis using wf' it i ne rm s
      by (intro exI [of _ ?i]) (auto simp: track_erase_def points_def iter_at_def)
  qed
qed

lemma PErase_inv:
  assumes inv: "filter_inv f" and len: "length (pset f) \<le> 2 ^ 24"
  shows "returns (PErase v f) (\<lambda>(r, f'). filter_inv f' \<and> percentile f' = percentile f \<and>
    r = (v \<in># mset (map snd (pset f))) \<and> mset (map snd (pset f')) = mset (map snd (pset f)) - {#v#})"
proof -
  have so: "sorted (map snd (pset f))" and p: "is_percentile (percentile f)"
    using inv by (simp_all add: filter_inv_def points_def wf_nodes_def)
  note lb = lower_bound_split [OF so, of v]
  show ?thesis
  proof (cases "lower_bound v (pset f)")
    case None
    with lb inv show ?thesis by (auto simp: PErase_def diff_single_trivial)
  next
    case (Some y)
    with lb obtain us vs where s: "pset f = us @ y # vs" "\<forall>u \<in> set us. snd u < v" "snd y \<noteq> v \<longrightarrow> v \<notin> snd ` set (pset f)"
      by auto
    show ?thesis
    proof (cases "snd y = v")
      case False
      with Some s(3) inv show ?thesis by (cases y) (auto simp: PErase_def diff_single_trivial)
    next
      case True
      obtain i where "returns (track_erase (snd y) (fst y) f)
          (\<lambda>g. points i g \<and> pset g = us @ vs \<and> percentile g = percentile f \<and> (us @ vs = [] \<longrightarrow> i = 0))"
        using track_erase_points [OF inv len s(1)] s(2) True by blast
      from returnsE [OF this] obtain g where g: "track_erase (snd y) (fst y) f = Inr g" "points i g" "pset g = us @ vs"
          "percentile g = percentile f" "us @ vs = [] \<longrightarrow> i = 0" by blast
      have "returns (UpdatePercentileIterator g) (\<lambda>f'. filter_inv f' \<and> pset f' = pset g \<and> percentile f' = percentile g)"
        using g p len s(1) by (intro Update_points) auto
      then show ?thesis using g Some True s(1) by (cases y) (auto simp: PErase_def elim!: returns_mono)
    qed
  qed
qed

lemma GetPercentileValue_inv:
  assumes inv: "filter_inv f" and len: "length (pset f) \<le> 2 ^ 24" and ys: "mset ys = mset (map snd (pset f))"
  shows "GetPercentileValue f = Inr (if ys = [] then 0 else sort ys ! target_index (percentile f) (length ys))"
proof (cases "pset f = []")
  case True
  with ys show ?thesis by (simp add: GetPercentileValue_def)
next
  case False
  let ?t = "target_index (percentile f) (length (pset f))"
  have wf: "wf_nodes (next_id f) (pset f)" and p: "is_percentile (percentile f)"
    using inv by (simp_all add: filter_inv_def points_def)
  have t: "?t < length (pset f)" using False p len by (intro target_index_bound) auto
  have "sort ys = map snd (pset f)" using ys wf by (metis properties_for_sort wf_nodes_def)
  moreover have "length ys = length (pset f)" using ys by (metis length_map size_mset)
  moreover have "deref (percentile_it f) (pset f) = Inr (snd (pset f ! ?t))"
    using deref_at [of "pset f" ?t] wf t inv False by (simp add: wf_nodes_def filter_inv_def points_def)
  moreover have "ys \<noteq> []" using False ys by auto
  ultimately show ?thesis using False t by (simp add: GetPercentileValue_def)
qed

section \<open>Correctness\<close>

datatype 'a percentile_op = InsertValue 'a | EraseValue 'a | ResetValues

text \<open>The calls with their answers: what the call returned, and the percentile after it.\<close>

fun perform_op :: "'a::linorder percentile_op \<Rightarrow> 'a PercentileFilter \<Rightarrow> (bool \<times> 'a PercentileFilter) checked" where
  "perform_op (InsertValue v) f = rbind (PInsert v f) (\<lambda>f. Inr (True, f))"
| "perform_op (EraseValue v) f = PErase v f"
| "perform_op ResetValues f = Inr (True, PReset f)"

fun run_filter :: "'a::{linorder, zero} percentile_op list \<Rightarrow> 'a PercentileFilter \<Rightarrow> (bool \<times> 'a) list checked" where
  "run_filter [] f = Inr []"
| "run_filter (op # ops) f =
     rbind (perform_op op f) (\<lambda>(r, f). rbind (GetPercentileValue f) (\<lambda>v. rbind (run_filter ops f) (\<lambda>rs. Inr ((r, v) # rs))))"

text \<open>The reference keeps the values in a list and sorts it for each answer.\<close>

fun reference_op :: "'a percentile_op \<Rightarrow> 'a list \<Rightarrow> bool \<times> 'a list" where
  "reference_op (InsertValue v) ys = (True, v # ys)"
| "reference_op (EraseValue v) ys = (v \<in> set ys, remove1 v ys)"
| "reference_op ResetValues ys = (True, [])"

fun reference :: "(nat \<Rightarrow> nat) \<Rightarrow> 'a::{linorder, zero} percentile_op list \<Rightarrow> 'a list \<Rightarrow> (bool \<times> 'a) list" where
  "reference pos [] ys = []"
| "reference pos (op # ops) ys =
     (let (r, ys) = reference_op op ys in
      (r, if ys = [] then 0 else sort ys ! pos (length ys)) # reference pos ops ys)"

text \<open>The sizes of the collection after each call.\<close>

fun collection_sizes :: "'a percentile_op list \<Rightarrow> 'a list \<Rightarrow> nat list" where
  "collection_sizes [] ys = []"
| "collection_sizes (op # ops) ys = (let ys = snd (reference_op op ys) in length ys # collection_sizes ops ys)"

lemma perform_op_reference:
  assumes "filter_inv f" "length ys \<le> 2 ^ 24" "length (snd (reference_op op ys)) \<le> 2 ^ 24" "mset ys = mset (map snd (pset f))"
  shows "returns (perform_op op f) (\<lambda>(r, f'). filter_inv f' \<and> percentile f' = percentile f \<and>
    r = fst (reference_op op ys) \<and> mset (snd (reference_op op ys)) = mset (map snd (pset f')))"
proof -
  have len: "length (pset f) = length ys" using assms(4) by (metis length_map size_mset)
  show ?thesis
  proof (cases op)
    case (InsertValue v)
    with assms(3) len have "length (pset f) < 2 ^ 24" by simp
    from InsertValue PInsert_inv [OF assms(1) this, of v] assms(4) show ?thesis by (auto elim!: returns_mono)
  next
    case (EraseValue v)
    have "v \<in> set ys \<longleftrightarrow> v \<in># mset (map snd (pset f))" using assms(4) by (metis set_mset_mset)
    with EraseValue PErase_inv [OF assms(1), of v] len assms(2,4) show ?thesis by (auto elim!: returns_mono)
  next
    case ResetValues
    have "points 0 (PReset f)" using assms(1) by (simp add: PReset_def points_def wf_nodes_def iter_at_def)
    with ResetValues assms(1) show ?thesis by (simp add: filter_inv_def PReset_def)
  qed
qed

lemma run_filter_reference:
  assumes "filter_inv f" "length ys \<le> 2 ^ 24" "list_all (\<lambda>n. n \<le> 2 ^ 24) (collection_sizes ops ys)"
    and "mset ys = mset (map snd (pset f))"
  shows "run_filter ops f = Inr (reference (target_index (percentile f)) ops ys)"
  using assms
proof (induction ops arbitrary: f ys)
  case (Cons op ops)
  let ?ys = "snd (reference_op op ys)"
  have len: "length ?ys \<le> 2 ^ 24" "list_all (\<lambda>n. n \<le> 2 ^ 24) (collection_sizes ops ?ys)" using Cons.prems(3) by (simp_all add: Let_def)
  from perform_op_reference [OF Cons.prems(1,2) len(1) Cons.prems(4)] obtain r f' where
    f': "perform_op op f = Inr (r, f')" "filter_inv f'" "percentile f' = percentile f"
      "r = fst (reference_op op ys)" "mset ?ys = mset (map snd (pset f'))"
    by (auto elim: returnsE)
  have "length (pset f') \<le> 2 ^ 24" using f'(5) len(1) by (metis length_map size_mset)
  from GetPercentileValue_inv [OF f'(2) this f'(5)] Cons.IH [OF f'(2) len f'(5)] f' show ?case
    by (simp add: case_prod_beta Let_def)
qed simp

text \<open>
  (C39) Percentiles.  While the collection never has more than \<open>2 ^ 24\<close> values, the filter answers every sequence of
  insertions, removals and resets, however long, as the reference that sorts the collection anew: \<^verbatim>\<open>Erase\<close> tells
  whether the value was there, and the percentile is the value at a position of the sorted collection that depends only on its size
  \<open>n\<close>.  The position is inside the collection and is the whole part of \<open>x = percentile * (n - 1)\<close>, up to one
  rounding of the product: it is not below the whole part and exceeds \<open>x\<close> by at most \<open>x / 2 ^ 24\<close>, and it is the
  whole part when no rounding is needed.  A larger collection is not safe: its size is rounded to a float,
  and with the percentile 1 and 16777220 values the position is beyond the end.
\<close>

theorem percentile_exact:
  assumes "is_percentile p" "list_all (\<lambda>n. n \<le> 2 ^ 24) (collection_sizes ops [])"
  shows "(\<exists>pos. rbind (PercentileFilter_new p) (run_filter ops) = Inr (reference pos ops []) \<and>
      (\<forall>n. 0 < n \<and> n \<le> 2 ^ 24 \<longrightarrow> near_position p n (pos n))) \<and>
    target_index (Float 1 0) 16777220 = 16777220"
proof
  obtain m k where p: "p = Float m k" by (cases p)
  let ?f = "\<lparr>percentile = p, pset = [], percentile_it = None, percentile_index = 0, next_id = 0\<rparr>"
  have "filter_inv ?f" using assms(1) by (simp add: filter_inv_def points_def wf_nodes_def iter_at_def)
  from run_filter_reference [OF this, of "[]" ops] assms p
  have "rbind (PercentileFilter_new p) (run_filter ops) = Inr (reference (target_index p) ops [])"
    by (simp add: PercentileFilter_new_def)
  then show "\<exists>pos. rbind (PercentileFilter_new p) (run_filter ops) = Inr (reference pos ops []) \<and>
      (\<forall>n. 0 < n \<and> n \<le> 2 ^ 24 \<longrightarrow> near_position p n (pos n))"
    using target_index_near [OF assms(1)] by blast
  show "target_index (Float 1 0) 16777220 = 16777220"
    using bits_eq [of 24 16777219] bits_eq [of 23 8388610] by (simp add: to_float_def round_even_def)
qed

text \<open>The position of the median is exact.\<close>

lemma target_index_median: "sz \<le> 2 ^ 24 \<Longrightarrow> target_index (Float 1 1) sz = (sz - 1) div 2"
  using bits_le [of "sz - 1" 24] by (cases sz) (auto simp: to_float_def Let_def)

definition latest :: "nat \<Rightarrow> 'a list \<Rightarrow> 'a list" where
  "latest w xs = drop (length xs - w) xs"

lemma latest_snoc:
  assumes "0 < w"
  shows "latest w (xs @ [v]) = (if w < Suc (length (latest w xs)) then tl (latest w xs) @ [v] else latest w xs @ [v])"
  using assms by (auto simp: latest_def drop_Suc [symmetric] tl_drop Suc_diff_le not_le)

definition median_inv :: "nat \<Rightarrow> 'a::linorder list \<Rightarrow> 'a MovingMedianFilter \<Rightarrow> bool" where
  "median_inv w xs m \<longleftrightarrow> filter_inv (percentile_filter m) \<and> percentile (percentile_filter m) = Float 1 1 \<and>
     window_size m = w \<and> med_samples m = latest w xs \<and> samples_stored m = length (latest w xs) \<and>
     mset (map snd (pset (percentile_filter m))) = mset (latest w xs)"

lemma MInsert_inv:
  assumes inv: "median_inv w xs m" and w: "0 < w" "w < 2 ^ 24"
  shows "returns (MInsert v m) (median_inv w (xs @ [v]))"
proof -
  let ?l = "latest w xs"
  have l: "length ?l \<le> w" by (simp add: latest_def)
  have len: "length (pset (percentile_filter m)) = length ?l" using inv by (metis length_map median_inv_def size_mset)
  obtain pf where pf: "PInsert v (percentile_filter m) = Inr pf" "filter_inv pf" "percentile pf = Float 1 1"
      "mset (map snd (pset pf)) = add_mset v (mset ?l)"
    using PInsert_inv [of "percentile_filter m" v] inv len l w by (auto simp: median_inv_def elim!: returnsE)
  show ?thesis
  proof (cases "w < Suc (length ?l)")
    case False
    with inv pf w show ?thesis by (auto simp: MInsert_def Let_def median_inv_def latest_snoc)
  next
    case True
    then obtain a as where l': "?l = a # as" using w by (cases ?l) auto
    have "length (pset pf) = Suc (length ?l)" using pf(4) by (metis length_map size_add_mset size_mset)
    with PErase_inv [OF pf(2), of a] l w obtain r pf' where
      e: "PErase a pf = Inr (r, pf')" "filter_inv pf'" "percentile pf' = Float 1 1"
        "mset (map snd (pset pf')) = add_mset v (mset ?l) - {#a#}"
      using pf(3,4) by (auto elim!: returnsE)
    with inv pf(1) True l' w show ?thesis by (simp add: MInsert_def Let_def median_inv_def latest_snoc)
  qed
qed

fun insert_samples :: "'a::linorder list \<Rightarrow> 'a MovingMedianFilter \<Rightarrow> 'a MovingMedianFilter checked" where
  "insert_samples [] m = Inr m"
| "insert_samples (x # xs) m = rbind (MInsert x m) (insert_samples xs)"

lemma insert_samples_inv:
  assumes "median_inv w xs m" "0 < w" "w < 2 ^ 24"
  shows "returns (insert_samples ys m) (median_inv w (xs @ ys))"
  using assms(1)
proof (induction ys arbitrary: xs m)
  case (Cons y ys)
  from MInsert_inv [OF Cons.prems assms(2,3), of y] obtain m' where "MInsert y m = Inr m'" "median_inv w (xs @ [y]) m'"
    by (auto elim: returnsE)
  with Cons.IH [of "xs @ [y]" m'] show ?case by simp
qed simp

text \<open>
  The moving median.  After any number of samples the filter returns the lower median of the latest ones, as many as
  the window holds, and 0 if there is none.
\<close>

theorem moving_median_exact:
  fixes xs :: "'a::{linorder, zero} list"
  assumes "0 < w" "w < 2 ^ 24"
  shows "rbind (rbind (MovingMedianFilter_new w) (insert_samples xs)) GetFilteredValue =
    Inr (let ys = sort (latest w xs) in if ys = [] then 0 else ys ! ((length ys - 1) div 2))"
proof -
  obtain m0 :: "'a MovingMedianFilter" where m0: "MovingMedianFilter_new w = Inr m0" "median_inv w [] m0"
    using assms by (simp add: MovingMedianFilter_new_def PercentileFilter_new_def median_inv_def filter_inv_def
        points_def wf_nodes_def iter_at_def latest_def)
  from insert_samples_inv [OF m0(2) assms, of xs] obtain m where m: "insert_samples xs m0 = Inr m" "median_inv w xs m"
    by (auto elim: returnsE)
  let ?l = "latest w xs"
  have len: "length ?l \<le> w" "length (pset (percentile_filter m)) = length ?l"
    using m(2) by (simp add: latest_def) (metis length_map m(2) median_inv_def size_mset)
  have "GetPercentileValue (percentile_filter m) = Inr (if ?l = [] then 0 else sort ?l ! target_index (Float 1 1) (length ?l))"
    using GetPercentileValue_inv [of "percentile_filter m" ?l] m(2) len assms(2) by (simp add: median_inv_def)
  moreover have "target_index (Float 1 1) (length ?l) = (length ?l - 1) div 2"
    using len(1) assms(2) by (intro target_index_median) simp
  moreover have "sort ?l = [] \<longleftrightarrow> ?l = []" by (metis length_0_conv length_sort)
  ultimately show ?thesis using m0(1) m(1) by (simp add: GetFilteredValue_def Let_def del: target_index.simps)
qed

end
