(* ===== verification/Rtc_Fifo.thy ===== *)
theory Rtc_Fifo
  imports Rtc_Numeric
begin

text \<open>
  What a queue promises its clients, and facts about ring buffers that the queues share.  The clients are threads that put and
  get items in any order; each operation holds the lock of the queue, so an execution is a sequence of whole operations.
\<close>

section \<open>Rings\<close>

text \<open>A ring is seen from its first item: position \<open>i\<close> of the rotated list is cell \<open>(b + i) mod n\<close>.\<close>

lemma rotate_update:
  assumes "i < length xs"
  shows "rotate b (xs[(b + i) mod length xs := v]) = (rotate b xs)[i := v]"
proof (rule nth_equalityI)
  fix j
  assume "j < length (rotate b (xs[(b + i) mod length xs := v]))"
  then have j: "j < length xs" by simp
  have "(b + i) mod length xs = (b + j) mod length xs \<longleftrightarrow> i = j"
  proof
    assume "(b + i) mod length xs = (b + j) mod length xs"
    then have "i mod length xs = j mod length xs" by (simp add: mod_add_eq nat_mod_eq_iff)
    with assms j show "i = j" by simp
  qed simp
  moreover have "(b + i) mod length xs < length xs" using j by (intro mod_less_divisor) linarith
  ultimately show "rotate b (xs[(b + i) mod length xs := v]) ! j = (rotate b xs)[i := v] ! j"
    using j assms by (auto simp: nth_rotate nth_list_update)
qed simp

lemma rotate_step: "rotate (b mod length xs) xs = rotate b xs"
  by (simp add: rotate_conv_mod [symmetric])

lemma rotate_add: "rotate (b + k) xs = rotate k (rotate b xs)"
  by (simp add: rotate_rotate add.commute)

lemma rotate_append': "length us = k \<Longrightarrow> rotate k (us @ vs) = vs @ us"
  by (metis rotate_append)

section \<open>Queues\<close>

datatype 'a answer = Stored bool | Fetched "'a option"

datatype ('t, 'a) queue_op = Put 't 'a | Get 't

fun run_queue :: "('t \<Rightarrow> 'a \<Rightarrow> 'q \<Rightarrow> (bool \<times> 'q) checked) \<Rightarrow> ('t \<Rightarrow> 'q \<Rightarrow> ('a option \<times> 'q) checked) \<Rightarrow>
    ('t, 'a) queue_op list \<Rightarrow> 'q \<Rightarrow> ('a answer list \<times> 'q) checked" where
  "run_queue put get [] q = Inr ([], q)"
| "run_queue put get (Put t x # ops) q =
     rbind (put t x q) (\<lambda>(r, q). rbind (run_queue put get ops q) (\<lambda>(rs, q). Inr (Stored r # rs, q)))"
| "run_queue put get (Get t # ops) q =
     rbind (get t q) (\<lambda>(r, q). rbind (run_queue put get ops q) (\<lambda>(rs, q). Inr (Fetched r # rs, q)))"

text \<open>The abstract queue: a list of at most \<open>limit\<close> items.\<close>

fun spec_queue :: "nat \<Rightarrow> ('t, 'a) queue_op list \<Rightarrow> 'a list \<Rightarrow> 'a answer list \<times> 'a list" where
  "spec_queue limit [] xs = ([], xs)"
| "spec_queue limit (Put t x # ops) xs =
     (let (rs, ys) = spec_queue limit ops (if length xs < limit then xs @ [x] else xs)
      in (Stored (length xs < limit) # rs, ys))"
| "spec_queue limit (Get t # ops) xs =
     (let (rs, ys) = spec_queue limit ops (tl xs) in (Fetched (case xs of [] \<Rightarrow> None | x # _ \<Rightarrow> Some x) # rs, ys))"

fun put_items :: "('t, 'a) queue_op list \<Rightarrow> 'a list" where
  "put_items [] = []"
| "put_items (Put t x # ops) = x # put_items ops"
| "put_items (Get t # ops) = put_items ops"

fun stored :: "('t, 'a) queue_op list \<Rightarrow> 'a answer list \<Rightarrow> 'a list" where
  "stored (Put t x # ops) (Stored r # rs) = (if r then x # stored ops rs else stored ops rs)"
| "stored (Get t # ops) (r # rs) = stored ops rs"
| "stored ops rs = []"

fun fetched :: "'a answer list \<Rightarrow> 'a list" where
  "fetched [] = []"
| "fetched (Fetched (Some x) # rs) = x # fetched rs"
| "fetched (r # rs) = fetched rs"

text \<open>Items leave the abstract queue in the order in which they were stored.\<close>

lemma spec_queue_order:
  "spec_queue limit ops xs = (rs, ys) \<Longrightarrow> xs @ stored ops rs = fetched rs @ ys"
proof (induction limit ops xs arbitrary: rs ys rule: spec_queue.induct)
  case (2 limit t x ops xs)
  then show ?case by (auto simp: Let_def case_prod_beta split: if_splits prod.splits)
next
  case (3 limit t ops xs)
  then show ?case by (cases xs) (auto simp: Let_def case_prod_beta split: prod.splits)
qed simp

lemma spec_queue_bound: "spec_queue limit ops xs = (rs, ys) \<Longrightarrow> length xs \<le> limit \<Longrightarrow> length ys \<le> limit"
proof (induction limit ops xs arbitrary: rs ys rule: spec_queue.induct)
  case (2 limit t x ops xs)
  then show ?case by (auto simp: Let_def split: if_splits prod.splits)
next
  case (3 limit t ops xs)
  then show ?case by (auto simp: Let_def split: prod.splits)
qed simp

text \<open>
  A queue whose operations agree with the abstract one step by step gives the same answers, whatever the order of the
  operations; \<open>refuses\<close> says whether it can be asked to store when it is full.
\<close>

lemma run_queue_answers:
  assumes put: "\<And>q x t. good q \<Longrightarrow> valid x \<Longrightarrow> refuses \<or> length (items q) < limit \<Longrightarrow>
      returns (put t x q) (\<lambda>(r, q'). good q' \<and> r = (length (items q) < limit) \<and>
        items q' = (if length (items q) < limit then items q @ [x] else items q))"
    and get: "\<And>q t. good q \<Longrightarrow> returns (get t q) (\<lambda>(r, q').
      good q' \<and> r = (case items q of [] \<Rightarrow> None | x # _ \<Rightarrow> Some x) \<and> items q' = tl (items q))"
    and "good q" "list_all valid (put_items ops)" "refuses \<or> length (items q) + length (put_items ops) \<le> limit"
  shows "returns (run_queue put get ops q) (\<lambda>(rs, q'). good q' \<and> (rs, items q') = spec_queue limit ops (items q))"
  using assms(3-)
proof (induction ops arbitrary: q)
  case (Cons op ops)
  show ?case
  proof (cases op)
    case (Put t x)
    with Cons.prems put [of q x t] obtain q' where
      q': "put t x q = Inr (length (items q) < limit, q')" "good q'"
        "items q' = (if length (items q) < limit then items q @ [x] else items q)"
      by (fastforce elim!: returnsE)
    have "refuses \<or> length (items q') + length (put_items ops) \<le> limit" using Cons.prems(3) Put q'(3) by auto
    from Cons.IH [OF q'(2) _ this] Cons.prems(2) Put q' show ?thesis
      by (auto simp: Let_def elim!: returns_mono split: prod.splits)
  next
    case (Get t)
    with Cons.prems get [of q t] obtain q' where
      q': "get t q = Inr (case items q of [] \<Rightarrow> None | x # _ \<Rightarrow> Some x, q')" "good q'" "items q' = tl (items q)"
      by (auto elim: returnsE)
    have "refuses \<or> length (items q') + length (put_items ops) \<le> limit" using Cons.prems(3) Get q'(3) by auto
    from Cons.IH [OF q'(2) _ this] Cons.prems(2) Get q' show ?thesis
      by (auto simp: Let_def elim!: returns_mono split: prod.splits)
  qed
qed simp

text \<open>A queue that takes items as long as it has less than \<open>limit\<close> of them.\<close>

locale fifo =
  fixes put :: "'t \<Rightarrow> 'a \<Rightarrow> 'q \<Rightarrow> (bool \<times> 'q) checked"
    and get :: "'t \<Rightarrow> 'q \<Rightarrow> ('a option \<times> 'q) checked"
    and items :: "'q \<Rightarrow> 'a list"
    and good :: "'q \<Rightarrow> bool"
    and valid :: "'a \<Rightarrow> bool"
    and limit :: nat
  assumes put_law: "good q \<Longrightarrow> valid x \<Longrightarrow> length (items q) < limit \<Longrightarrow>
      returns (put t x q) (\<lambda>(r, q'). good q' \<and> r \<and> items q' = items q @ [x])"
    and get_law: "good q \<Longrightarrow> returns (get t q) (\<lambda>(r, q').
      good q' \<and> r = (case items q of [] \<Rightarrow> None | x # _ \<Rightarrow> Some x) \<and> items q' = tl (items q))"
begin

lemma run_within:
  assumes "good q" "list_all valid (put_items ops)" "length (items q) + length (put_items ops) \<le> limit"
  shows "returns (run_queue put get ops q) (\<lambda>(rs, q'). good q' \<and> (rs, items q') = spec_queue limit ops (items q))"
  by (rule run_queue_answers [where refuses = False and valid = valid and good = good and items = items])
    (use put_law get_law assms in \<open>auto elim!: returns_mono\<close>)

end

text \<open>A bounded queue refuses an item when it is full, so that every sequence of operations is answered.\<close>

locale bounded_fifo = fifo +
  assumes put_full: "good q \<Longrightarrow> valid x \<Longrightarrow> \<not> length (items q) < limit \<Longrightarrow>
      returns (put t x q) (\<lambda>(r, q'). good q' \<and> \<not> r \<and> items q' = items q)"
begin

lemma run_any:
  assumes "good q" "list_all valid (put_items ops)"
  shows "returns (run_queue put get ops q) (\<lambda>(rs, q'). good q' \<and> (rs, items q') = spec_queue limit ops (items q))"
  by (rule run_queue_answers [where refuses = True and valid = valid and good = good and items = items])
    (use put_law put_full get_law assms in \<open>auto elim!: returns_mono\<close>)

end

end
