(* ===== verification/Rtc_SwapQueue.thy ===== *)
theory Rtc_SwapQueue
  imports Rtc_Fifo
begin

text \<open>
  The fixed-size queue between threads of \<^verbatim>\<open>rtc_base/swap_queue.h\<close>: producers swap full items for empty ones, consumers
  empty ones for full ones.  Every operation holds the lock \<^verbatim>\<open>crit_queue_\<close> from its first access to its last.  The
  verifier of items is a parameter.
\<close>

section \<open>Operations\<close>

record 'a SwapQueue =
  next_write_index :: nat
  next_read_index :: nat
  num_elements :: nat
  slots :: "'a list"

fun VerifyQueueSlots :: "bool \<Rightarrow> ('a \<Rightarrow> bool) \<Rightarrow> 'a list \<Rightarrow> bool checked" where
  "VerifyQueueSlots d verifier [] = Inr True"
| "VerifyQueueSlots d verifier (v # vs) = rbind (RTC_DCHECK d (verifier v)) (\<lambda>_. VerifyQueueSlots d verifier vs)"

text \<open>The constructors: \<open>items\<close> are default constructed values or copies of the prototype.\<close>

definition SwapQueue_new :: "bool \<Rightarrow> ('a \<Rightarrow> bool) \<Rightarrow> nat \<Rightarrow> 'a \<Rightarrow> 'a SwapQueue checked" where
  "SwapQueue_new d verifier sz prototype =
     rbind (VerifyQueueSlots d verifier (replicate sz prototype)) (\<lambda>v. rbind (RTC_DCHECK d v) (\<lambda>_.
     Inr \<lparr>next_write_index = 0, next_read_index = 0, num_elements = 0, slots = replicate sz prototype\<rparr>))"

definition ClearQueue :: "'a SwapQueue \<Rightarrow> 'a SwapQueue" where
  "ClearQueue q = q\<lparr>next_write_index := 0, next_read_index := 0, num_elements := 0\<rparr>"

definition swap_slot :: "nat \<Rightarrow> 'a \<Rightarrow> 'a list \<Rightarrow> ('a \<times> 'a list) checked" where
  "swap_slot i x xs = (if i < length xs then Inr (xs ! i, xs[i := x]) else Inl Undefined)"

definition next_index :: "nat \<Rightarrow> 'a SwapQueue \<Rightarrow> nat" where
  "next_index i q = (if Suc i = length (slots q) then 0 else Suc i)"

text \<open>The results: whether the item was inserted or removed, what is in the caller's variable, the queue.\<close>

definition Insert :: "bool \<Rightarrow> ('a \<Rightarrow> bool) \<Rightarrow> 'a \<Rightarrow> 'a SwapQueue \<Rightarrow> (bool \<times> 'a \<times> 'a SwapQueue) checked" where
  "Insert d verifier input q =
     rbind (RTC_DCHECK d (verifier input)) (\<lambda>_.
     if num_elements q = length (slots q) then Inr (False, input, q)
     else
       rbind (swap_slot (next_write_index q) input (slots q)) (\<lambda>(out, xs).
       let q = q\<lparr>slots := xs, next_write_index := next_index (next_write_index q) q, num_elements := num_elements q + 1\<rparr> in
       rbind (RTC_DCHECK d (next_write_index q < length (slots q))) (\<lambda>_.
       rbind (RTC_DCHECK d (num_elements q \<le> length (slots q))) (\<lambda>_.
       Inr (True, out, q)))))"

definition Remove :: "bool \<Rightarrow> ('a \<Rightarrow> bool) \<Rightarrow> 'a \<Rightarrow> 'a SwapQueue \<Rightarrow> (bool \<times> 'a \<times> 'a SwapQueue) checked" where
  "Remove d verifier output q =
     rbind (RTC_DCHECK d (verifier output)) (\<lambda>_.
     if num_elements q = 0 then Inr (False, output, q)
     else
       rbind (swap_slot (next_read_index q) output (slots q)) (\<lambda>(out, xs).
       let q = q\<lparr>slots := xs, next_read_index := next_index (next_read_index q) q, num_elements := num_elements q - 1\<rparr> in
       rbind (RTC_DCHECK d (next_read_index q < length (slots q))) (\<lambda>_.
       rbind (RTC_DCHECK d (num_elements q \<le> length (slots q))) (\<lambda>_.
       Inr (True, out, q)))))"

section \<open>Two queues in one ring\<close>

text \<open>
  From the read position the ring holds the full items and then the empty ones, each in the order of their
  arrival.
\<close>

definition full_items :: "'a SwapQueue \<Rightarrow> 'a list" where
  "full_items q = take (num_elements q) (rotate (next_read_index q) (slots q))"

definition empty_items :: "'a SwapQueue \<Rightarrow> 'a list" where
  "empty_items q = drop (num_elements q) (rotate (next_read_index q) (slots q))"

definition queue_inv :: "nat \<Rightarrow> ('a \<Rightarrow> bool) \<Rightarrow> 'a SwapQueue \<Rightarrow> bool" where
  "queue_inv sz verifier q \<longleftrightarrow> length (slots q) = sz \<and> num_elements q \<le> sz \<and> (0 < sz \<longrightarrow> next_read_index q < sz) \<and>
     (0 < sz \<longrightarrow> next_write_index q = (next_read_index q + num_elements q) mod sz) \<and> list_all verifier (slots q)"

lemma ring_split: "rotate (next_read_index q) (slots q) = full_items q @ empty_items q"
  by (simp add: full_items_def empty_items_def)

lemma length_full: "queue_inv sz verifier q \<Longrightarrow> length (full_items q) = num_elements q"
  by (simp add: queue_inv_def full_items_def)

lemma length_empty: "queue_inv sz verifier q \<Longrightarrow> length (empty_items q) = sz - num_elements q"
  by (simp add: queue_inv_def empty_items_def)

lemma next_index_mod: "i < length (slots q) \<Longrightarrow> next_index i q = Suc i mod length (slots q)"
  by (auto simp: next_index_def mod_Suc)

lemma items_verified: "queue_inv sz verifier q \<Longrightarrow> list_all verifier (full_items q @ empty_items q)"
  by (simp add: queue_inv_def ring_split [symmetric] list_all_iff)

lemma Insert_law:
  assumes inv: "queue_inv sz verifier q" and x: "verifier x"
  shows "returns (Insert d verifier x q) (\<lambda>(r, out, q'). queue_inv sz verifier q' \<and> verifier out \<and>
    (if length (full_items q) < sz
     then r \<and> full_items q' = full_items q @ [x] \<and> empty_items q = out # empty_items q'
     else \<not> r \<and> out = x \<and> q' = q))"
proof (cases "num_elements q < sz")
  case False
  then show ?thesis using inv x length_full [OF inv] by (auto simp: Insert_def queue_inv_def)
next
  case True
  let ?w = "next_write_index q"
  have n: "length (slots q) = sz" "0 < sz" and w: "?w = (next_read_index q + num_elements q) mod sz" "?w < sz"
    using inv True by (auto simp: queue_inv_def)
  obtain e es where e: "empty_items q = e # es" using length_empty [OF inv] True by (cases "empty_items q") auto
  have "rotate (next_read_index q) (slots q) ! num_elements q = slots q ! ?w" using n w True by (simp add: nth_rotate)
  then have out: "slots q ! ?w = e" using e length_full [OF inv] by (simp add: ring_split nth_append)
  have rot: "rotate (next_read_index q) ((slots q)[?w := x]) = full_items q @ x # es"
    using rotate_update [of "num_elements q" "slots q" "next_read_index q" x] n w True e length_full [OF inv]
    by (simp add: ring_split list_update_append)
  let ?q = "q\<lparr>slots := (slots q)[?w := x], next_write_index := next_index ?w q, num_elements := num_elements q + 1\<rparr>"
  have i: "next_index ?w q = (next_read_index q + (num_elements q + 1)) mod sz"
    using next_index_mod [of ?w q] n w by (simp add: mod_Suc_eq)
  have f: "full_items ?q = full_items q @ [x]" "empty_items ?q = es"
  proof -
    have "full_items ?q = take (num_elements q + 1) (full_items q @ x # es)"
      "empty_items ?q = drop (num_elements q + 1) (full_items q @ x # es)"
      unfolding rot [symmetric] by (simp_all add: full_items_def empty_items_def)
    then show "full_items ?q = full_items q @ [x]" "empty_items ?q = es" using length_full [OF inv] by simp_all
  qed
  have v: "verifier e" using items_verified [OF inv] e by simp
  have "list_all verifier ((slots q)[?w := x])"
    using inv x by (auto simp: queue_inv_def list_all_iff dest: set_update_subset_insert [THEN subsetD])
  then have "queue_inv sz verifier ?q" using inv i n True by (simp add: queue_inv_def)
  then show ?thesis using True n w out f e v i x length_full [OF inv] by (simp add: Insert_def swap_slot_def)
qed

lemma Remove_law:
  assumes inv: "queue_inv sz verifier q" and y: "verifier y"
  shows "returns (Remove d verifier y q) (\<lambda>(r, out, q'). queue_inv sz verifier q' \<and> verifier out \<and>
    (case full_items q of
       [] \<Rightarrow> \<not> r \<and> out = y \<and> q' = q
     | x # xs \<Rightarrow> r \<and> out = x \<and> full_items q' = xs \<and> empty_items q' = empty_items q @ [y]))"
proof (cases "full_items q")
  case Nil
  then show ?thesis using inv y length_full [OF inv] by (auto simp: Remove_def)
next
  case (Cons x xs)
  let ?r = "next_read_index q"
  have k: "num_elements q = Suc (length xs)" using length_full [OF inv] Cons by simp
  have n: "length (slots q) = sz" "0 < sz" and r: "?r < sz" using inv k by (auto simp: queue_inv_def)
  have "rotate ?r (slots q) ! 0 = slots q ! ?r" using n r by (simp add: nth_rotate)
  then have out: "slots q ! ?r = x" using Cons by (simp add: ring_split)
  have rot: "rotate ?r ((slots q)[?r := y]) = y # xs @ empty_items q"
    using rotate_update [of 0 "slots q" ?r y] n r Cons by (simp add: ring_split)
  let ?q = "q\<lparr>slots := (slots q)[?r := y], next_read_index := next_index ?r q, num_elements := num_elements q - 1\<rparr>"
  have i: "next_index ?r q = (?r + 1) mod sz" using next_index_mod [of ?r q] n r by simp
  have "rotate (next_index ?r q) ((slots q)[?r := y]) = rotate 1 (rotate ?r ((slots q)[?r := y]))"
    using rotate_step [of "?r + 1" "(slots q)[?r := y]"] i n by (simp add: rotate_add [symmetric])
  then have rot': "rotate (next_index ?r q) ((slots q)[?r := y]) = xs @ empty_items q @ [y]"
    unfolding rot by (simp add: rotate_def)
  have f: "full_items ?q = xs" "empty_items ?q = empty_items q @ [y]"
  proof -
    have "full_items ?q = take (num_elements q - 1) (xs @ empty_items q @ [y])"
      "empty_items ?q = drop (num_elements q - 1) (xs @ empty_items q @ [y])"
      unfolding rot' [symmetric] by (simp_all add: full_items_def empty_items_def)
    then show "full_items ?q = xs" "empty_items ?q = empty_items q @ [y]" using k by simp_all
  qed
  have v: "verifier x" using items_verified [OF inv] Cons by simp
  have "list_all verifier ((slots q)[?r := y])"
    using inv y by (auto simp: queue_inv_def list_all_iff dest: set_update_subset_insert [THEN subsetD])
  then have "queue_inv sz verifier ?q" using inv i n k by (auto simp: queue_inv_def mod_simps)
  moreover have "length xs \<le> sz" using inv k by (simp add: queue_inv_def)
  ultimately show ?thesis using Cons n r out f k v i y by (simp add: Remove_def swap_slot_def)
qed

lemma ClearQueue_law:
  "queue_inv sz verifier q \<Longrightarrow> queue_inv sz verifier (ClearQueue q) \<and> full_items (ClearQueue q) = []"
  by (simp add: queue_inv_def ClearQueue_def full_items_def)

section \<open>Threads\<close>

text \<open>
  Every thread has a variable with an item of its own.  A producer fills it and inserts it, a consumer removes into it.
\<close>

type_synonym ('t, 'a) shared = "'a SwapQueue \<times> ('t \<Rightarrow> 'a)"

definition produce :: "bool \<Rightarrow> ('a \<Rightarrow> bool) \<Rightarrow> 't \<Rightarrow> 'a \<Rightarrow> ('t, 'a) shared \<Rightarrow> (bool \<times> ('t, 'a) shared) checked" where
  "produce d verifier t x st =
     rbind (Insert d verifier x (fst st)) (\<lambda>(r, out, q). Inr (r, q, (snd st)(t := out)))"

definition consume :: "bool \<Rightarrow> ('a \<Rightarrow> bool) \<Rightarrow> 't \<Rightarrow> ('t, 'a) shared \<Rightarrow> ('a option \<times> ('t, 'a) shared) checked" where
  "consume d verifier t st =
     rbind (Remove d verifier (snd st t) (fst st)) (\<lambda>(r, out, q). Inr (if r then Some out else None, q, (snd st)(t := out)))"

definition shared_inv :: "nat \<Rightarrow> ('a \<Rightarrow> bool) \<Rightarrow> ('t, 'a) shared \<Rightarrow> bool" where
  "shared_inv sz verifier st \<longleftrightarrow> queue_inv sz verifier (fst st) \<and> (\<forall>t. verifier (snd st t))"

interpretation swap_queue: bounded_fifo "produce d verifier" "consume d verifier" "\<lambda>st. full_items (fst st)"
    "shared_inv sz verifier" verifier sz
  for d verifier sz
proof
  fix q :: "('t, 'a) shared" and x t
  assume q: "shared_inv sz verifier q" and x: "verifier x"
  note ins = Insert_law [of sz verifier "fst q" x d]
  show "returns (produce d verifier t x q)
      (\<lambda>(r, q'). shared_inv sz verifier q' \<and> r \<and> full_items (fst q') = full_items (fst q) @ [x])"
    if "length (full_items (fst q)) < sz"
    using q x ins that by (auto simp: produce_def shared_inv_def elim!: returns_mono)
  show "returns (produce d verifier t x q)
      (\<lambda>(r, q'). shared_inv sz verifier q' \<and> \<not> r \<and> full_items (fst q') = full_items (fst q))"
    if "\<not> length (full_items (fst q)) < sz"
    using q x ins that by (auto simp: produce_def shared_inv_def elim!: returns_mono)
next
  fix q :: "('t, 'a) shared" and t
  assume q: "shared_inv sz verifier q"
  then show "returns (consume d verifier t q) (\<lambda>(r, q'). shared_inv sz verifier q' \<and>
      r = (case full_items (fst q) of [] \<Rightarrow> None | x # _ \<Rightarrow> Some x) \<and> full_items (fst q') = tl (full_items (fst q)))"
    using Remove_law [of sz verifier "fst q" "snd q t" d]
    by (auto simp: consume_def shared_inv_def elim!: returns_mono split: list.splits)
qed

lemma VerifyQueueSlots_ok: "list_all verifier vs \<Longrightarrow> VerifyQueueSlots d verifier vs = Inr True"
  by (induction vs) auto

lemma SwapQueue_new_inv:
  assumes "verifier prototype"
  shows "returns (SwapQueue_new d verifier sz prototype) (\<lambda>q. queue_inv sz verifier q \<and> full_items q = [])"
  using assms VerifyQueueSlots_ok [of verifier "replicate sz prototype" d]
  by (simp add: SwapQueue_new_def queue_inv_def full_items_def list_all_iff)

text \<open>
  (C38) The queue between threads.  However the operations of any number of producers and consumers interleave, the queue answers
  them as a bounded first-in first-out queue of its size: what the consumers get is a prefix of what was
  stored, in that order, an item is refused exactly when the queue is full, no access is outside the array,
  and every item that passed the verifier going in passes it coming out, the empty ones handed back to producers included.
\<close>

theorem swap_queue_fifo:
  assumes "verifier prototype" "\<forall>t. verifier (bottles t)" "list_all verifier (put_items ops)"
  shows "returns (rbind (SwapQueue_new d verifier sz prototype) (\<lambda>q.
      run_queue (produce d verifier) (consume d verifier) ops (q, bottles)))
    (\<lambda>(rs, q, bottles'). (rs, full_items q) = spec_queue sz ops [] \<and> stored ops rs = fetched rs @ full_items q \<and>
       length (full_items q) \<le> sz \<and> (\<forall>t. verifier (bottles' t)))"
proof -
  obtain q where q: "SwapQueue_new d verifier sz prototype = Inr q" "queue_inv sz verifier q" "full_items q = []"
    using SwapQueue_new_inv [of verifier prototype d sz] assms(1) by (auto elim: returnsE)
  have "shared_inv sz verifier (q, bottles)" using q(2) assms(2) by (simp add: shared_inv_def)
  from swap_queue.run_any [OF this assms(3), of d] obtain rs q' bottles' where
    r: "run_queue (produce d verifier) (consume d verifier) ops (q, bottles) = Inr (rs, q', bottles')"
      "shared_inv sz verifier (q', bottles')" "spec_queue sz ops [] = (rs, full_items q')"
    using q(3) by (auto elim!: returnsE)
  have "stored ops rs = fetched rs @ full_items q'" "length (full_items q') \<le> sz"
    using spec_queue_order [OF r(3)] spec_queue_bound [OF r(3)] by simp_all
  with q(1) r show ?thesis by (simp add: shared_inv_def)
qed

end
