(* ===== verification/Rtc_Deque.thy ===== *)
theory Rtc_Deque
  imports Rtc_Fifo
begin

text \<open>
  The double-ended queue \<^verbatim>\<open>base/containers/circular_deque.h\<close> over the raw memory of
  \<^verbatim>\<open>base/containers/vector_buffer.h\<close>.

  A buffer is the list of its cells; a cell is \<^const>\<open>None\<close> unless an object lives in it.  Reading or destroying an
  object that is not there, and any access outside the buffer, is \<^const>\<open>Undefined\<close>; \<^verbatim>\<open>CHECK\<close> and
  \<^verbatim>\<open>DCHECK\<close> are those of theory \<open>Rtc_Numeric\<close>.  The size of an element is a parameter, since allocating
  checks the product of size and count; the allocator itself does not fail.  The element type is one with a destructor and
  a move constructor, the most demanding of the variants of \<^verbatim>\<open>VectorBuffer\<close>.
\<close>

section \<open>Raw buffers\<close>

type_synonym 'a cells = "'a option list"

definition VectorBuffer_new :: "nat \<Rightarrow> nat \<Rightarrow> 'a cells checked" where
  "VectorBuffer_new esz count = rbind (RTC_CHECK (esz * count < 2 ^ 64)) (\<lambda>_. Inr (replicate count None))"

text \<open>\<^verbatim>\<open>buffer_[i]\<close> may be one past the end; the address is then not accessed.\<close>

definition vb_address :: "nat \<Rightarrow> 'a cells \<Rightarrow> unit checked" where
  "vb_address i buf = RTC_CHECK (i \<le> length buf)"

definition vb_read :: "nat \<Rightarrow> 'a cells \<Rightarrow> 'a checked" where
  "vb_read i buf = rbind (vb_address i buf) (\<lambda>_.
     if i < length buf then (case buf ! i of None \<Rightarrow> Inl Undefined | Some v \<Rightarrow> Inr v) else Inl Undefined)"

definition vb_construct :: "nat \<Rightarrow> 'a \<Rightarrow> 'a cells \<Rightarrow> 'a cells checked" where
  "vb_construct i v buf = rbind (vb_address i buf) (\<lambda>_.
     if i < length buf then Inr (buf[i := Some v]) else Inl Undefined)"

definition vb_destruct :: "nat \<Rightarrow> 'a cells \<Rightarrow> 'a cells checked" where
  "vb_destruct i buf = (if i < length buf \<and> buf ! i \<noteq> None then Inr (buf[i := None]) else Inl Undefined)"

fun destruct_loop :: "nat \<Rightarrow> nat \<Rightarrow> 'a cells \<Rightarrow> 'a cells checked" where
  "destruct_loop i 0 buf = Inr buf"
| "destruct_loop i (Suc n) buf = rbind (vb_destruct i buf) (destruct_loop (Suc i) n)"

definition vb_DestructRange :: "nat \<Rightarrow> nat \<Rightarrow> 'a cells \<Rightarrow> 'a cells checked" where
  "vb_DestructRange b e buf =
     rbind (vb_address b buf) (\<lambda>_. rbind (vb_address e buf) (\<lambda>_.
     rbind (RTC_CHECK (b \<le> e)) (\<lambda>_. destruct_loop b (e - b) buf)))"

text \<open>
  Moving a range to another buffer, which never overlaps with it, and one element inside a buffer, where the check for
  an overlap can fail.
\<close>

fun move_loop :: "nat \<Rightarrow> nat \<Rightarrow> 'a cells \<Rightarrow> nat \<Rightarrow> 'a cells \<Rightarrow> ('a cells \<times> 'a cells) checked" where
  "move_loop i 0 from j to = Inr (from, to)"
| "move_loop i (Suc n) from j to =
     rbind (vb_read i from) (\<lambda>v. rbind (vb_construct j v to) (\<lambda>to.
     rbind (vb_destruct i from) (\<lambda>from. move_loop (Suc i) n from (Suc j) to)))"

definition MoveRange :: "nat \<Rightarrow> nat \<Rightarrow> 'a cells \<Rightarrow> nat \<Rightarrow> 'a cells \<Rightarrow> ('a cells \<times> 'a cells) checked" where
  "MoveRange b e from j to =
     rbind (vb_address b from) (\<lambda>_. rbind (vb_address e from) (\<lambda>_. rbind (vb_address j to) (\<lambda>_.
     move_loop b (e - b) from j to)))"

definition RangesOverlap :: "nat \<Rightarrow> nat \<Rightarrow> nat \<Rightarrow> bool" where
  "RangesOverlap from_begin from_end to \<longleftrightarrow> \<not> (from_end \<le> to \<or> to + (from_end - from_begin) \<le> from_begin)"

definition MoveOne :: "nat \<Rightarrow> nat \<Rightarrow> 'a cells \<Rightarrow> 'a cells checked" where
  "MoveOne src dest buf =
     rbind (vb_address src buf) (\<lambda>_. rbind (vb_address (src + 1) buf) (\<lambda>_. rbind (vb_address dest buf) (\<lambda>_.
     rbind (RTC_CHECK (\<not> RangesOverlap src (src + 1) dest)) (\<lambda>_.
     rbind (vb_read src buf) (\<lambda>v. rbind (vb_construct dest v buf) (vb_destruct src))))))"

section \<open>The deque\<close>

record 'a circular_deque =
  dq_buffer :: "'a cells"
  dq_begin :: nat
  dq_end :: nat
  generation :: u64

definition kCircularBufferInitialCapacity :: nat where
  "kCircularBufferInitialCapacity = 3"

definition circular_deque_new :: "'a circular_deque" where
  "circular_deque_new = \<lparr>dq_buffer = [], dq_begin = 0, dq_end = 0, generation = 0\<rparr>"

abbreviation internal_capacity :: "'a circular_deque \<Rightarrow> nat" where
  "internal_capacity q \<equiv> length (dq_buffer q)"

definition dq_empty :: "'a circular_deque \<Rightarrow> bool" where
  "dq_empty q \<longleftrightarrow> dq_begin q = dq_end q"

definition dq_size :: "'a circular_deque \<Rightarrow> nat" where
  "dq_size q = (if dq_begin q \<le> dq_end q then dq_end q - dq_begin q else internal_capacity q - dq_begin q + dq_end q)"

definition dq_capacity :: "'a circular_deque \<Rightarrow> nat" where
  "dq_capacity q = (if internal_capacity q = 0 then 0 else internal_capacity q - 1)"

definition IncrementGeneration :: "bool \<Rightarrow> 'a circular_deque \<Rightarrow> 'a circular_deque" where
  "IncrementGeneration d q = (if d then q\<lparr>generation := generation q + 1\<rparr> else q)"

definition CheckValidIndex :: "bool \<Rightarrow> nat \<Rightarrow> 'a circular_deque \<Rightarrow> unit checked" where
  "CheckValidIndex d i q =
     RTC_DCHECK d (if dq_begin q \<le> dq_end q then dq_begin q \<le> i \<and> i < dq_end q
       else dq_begin q \<le> i \<and> i < internal_capacity q \<or> i < dq_end q)"

definition CheckValidIndexOrEnd :: "bool \<Rightarrow> nat \<Rightarrow> 'a circular_deque \<Rightarrow> unit checked" where
  "CheckValidIndexOrEnd d i q = (if i \<noteq> dq_end q then CheckValidIndex d i q else Inr ())"

section \<open>Iterators\<close>

text \<open>An iterator of the deque itself: its index and the generation it was made in.\<close>

record iterator =
  it_index :: nat
  created_generation :: u64

definition make_iterator :: "'a circular_deque \<Rightarrow> nat \<Rightarrow> iterator" where
  "make_iterator q i = \<lparr>it_index = i, created_generation = generation q\<rparr>"

definition dq_begin_iter :: "'a circular_deque \<Rightarrow> iterator" where
  "dq_begin_iter q = make_iterator q (dq_begin q)"

definition dq_end_iter :: "'a circular_deque \<Rightarrow> iterator" where
  "dq_end_iter q = make_iterator q (dq_end q)"

definition CheckUnstableUsage :: "bool \<Rightarrow> iterator \<Rightarrow> 'a circular_deque \<Rightarrow> unit checked" where
  "CheckUnstableUsage d it q = RTC_DCHECK d (created_generation it = generation q)"

definition CheckComparable :: "bool \<Rightarrow> iterator \<Rightarrow> iterator \<Rightarrow> unit checked" where
  "CheckComparable d it it' = RTC_DCHECK d (created_generation it = created_generation it')"

definition OffsetFromBegin :: "iterator \<Rightarrow> 'a circular_deque \<Rightarrow> nat" where
  "OffsetFromBegin it q =
     (if dq_begin q \<le> it_index it then it_index it - dq_begin q
      else internal_capacity q - dq_begin q + it_index it)"

definition iter_deref :: "bool \<Rightarrow> iterator \<Rightarrow> 'a circular_deque \<Rightarrow> 'a checked" where
  "iter_deref d it q =
     rbind (CheckUnstableUsage d it q) (\<lambda>_. rbind (CheckValidIndex d (it_index it) q) (\<lambda>_. vb_read (it_index it) (dq_buffer q)))"

definition Increment :: "bool \<Rightarrow> 'a circular_deque \<Rightarrow> iterator \<Rightarrow> iterator checked" where
  "Increment d q it =
     rbind (CheckUnstableUsage d it q) (\<lambda>_. rbind (CheckValidIndex d (it_index it) q) (\<lambda>_.
     Inr (it\<lparr>it_index := (if Suc (it_index it) = internal_capacity q then 0 else Suc (it_index it))\<rparr>)))"

definition Decrement :: "bool \<Rightarrow> 'a circular_deque \<Rightarrow> iterator \<Rightarrow> iterator checked" where
  "Decrement d q it =
     rbind (CheckUnstableUsage d it q) (\<lambda>_. rbind (CheckValidIndexOrEnd d (it_index it) q) (\<lambda>_.
     Inr (it\<lparr>it_index := (if it_index it = 0 then internal_capacity q - 1 else it_index it - 1)\<rparr>)))"

text \<open>The offset and \<^verbatim>\<open>begin_\<close> are added as \<^verbatim>\<open>size_t\<close>.  A buffer of capacity 0 would divide by 0.\<close>

definition AddOffset :: "bool \<Rightarrow> 'a circular_deque \<Rightarrow> int \<Rightarrow> iterator \<Rightarrow> iterator checked" where
  "AddOffset d q delta it =
     rbind (CheckUnstableUsage d it q) (\<lambda>_.
     rbind (if delta \<le> 0 then CheckValidIndexOrEnd d (it_index it) q else CheckValidIndex d (it_index it) q) (\<lambda>_.
     if delta = 0 then Inr it
     else
       let new_offset = int (OffsetFromBegin it q) + delta in
       rbind (RTC_DCHECK d (0 \<le> new_offset \<and> new_offset \<le> int (dq_size q))) (\<lambda>_.
       if internal_capacity q = 0 then Inl Undefined
       else Inr (it\<lparr>it_index := nat ((new_offset + int (dq_begin q)) mod 2 ^ 64) mod internal_capacity q\<rparr>))))"

definition iter_eq :: "bool \<Rightarrow> iterator \<Rightarrow> iterator \<Rightarrow> bool checked" where
  "iter_eq d it it' = rbind (CheckComparable d it it') (\<lambda>_. Inr (it_index it = it_index it'))"

definition iter_less :: "bool \<Rightarrow> 'a circular_deque \<Rightarrow> iterator \<Rightarrow> iterator \<Rightarrow> bool checked" where
  "iter_less d q it it' =
     rbind (CheckComparable d it it') (\<lambda>_. Inr (OffsetFromBegin it q < OffsetFromBegin it' q))"

definition iter_minus :: "bool \<Rightarrow> 'a circular_deque \<Rightarrow> iterator \<Rightarrow> iterator \<Rightarrow> int checked" where
  "iter_minus d q it it' =
     rbind (CheckComparable d it it') (\<lambda>_. Inr (int (OffsetFromBegin it q) - int (OffsetFromBegin it' q)))"

section \<open>Access\<close>

definition dq_at :: "bool \<Rightarrow> nat \<Rightarrow> 'a circular_deque \<Rightarrow> 'a checked" where
  "dq_at d i q =
     rbind (RTC_DCHECK d (i < dq_size q)) (\<lambda>_.
     let right_size = internal_capacity q - dq_begin q in
     if dq_begin q \<le> dq_end q \<or> i < right_size then vb_read (dq_begin q + i) (dq_buffer q)
     else vb_read (i - right_size) (dq_buffer q))"

definition dq_front :: "bool \<Rightarrow> 'a circular_deque \<Rightarrow> 'a checked" where
  "dq_front d q = rbind (RTC_DCHECK d (\<not> dq_empty q)) (\<lambda>_. vb_read (dq_begin q) (dq_buffer q))"

definition dq_back :: "bool \<Rightarrow> 'a circular_deque \<Rightarrow> 'a checked" where
  "dq_back d q =
     rbind (RTC_DCHECK d (\<not> dq_empty q)) (\<lambda>_. rbind (Decrement d q (dq_end_iter q)) (\<lambda>it. iter_deref d it q))"

section \<open>Memory management\<close>

definition MoveBuffer :: "'a cells \<Rightarrow> nat \<Rightarrow> nat \<Rightarrow> 'a cells \<Rightarrow> ('a cells \<times> nat \<times> nat) checked" where
  "MoveBuffer from from_begin from_end to =
     (if from_begin < from_end then
        rbind (MoveRange from_begin from_end from 0 to) (\<lambda>(_, to). Inr (to, 0, from_end - from_begin))
      else if from_end < from_begin then
        rbind (MoveRange from_begin (length from) from 0 to) (\<lambda>(from, to).
        let right_size = length from - from_begin in
        rbind (MoveRange 0 from_end from right_size to) (\<lambda>(_, to). Inr (to, 0, right_size + from_end)))
      else Inr (to, 0, 0))"

definition SetCapacityTo :: "nat \<Rightarrow> nat \<Rightarrow> 'a circular_deque \<Rightarrow> 'a circular_deque checked" where
  "SetCapacityTo esz new_capacity q =
     rbind (VectorBuffer_new esz (size_t_add new_capacity 1)) (\<lambda>new_buffer.
     rbind (MoveBuffer (dq_buffer q) (dq_begin q) (dq_end q) new_buffer) (\<lambda>(to, b, e).
     Inr (q\<lparr>dq_buffer := to, dq_begin := b, dq_end := e\<rparr>)))"

definition ExpandCapacityIfNecessary :: "nat \<Rightarrow> nat \<Rightarrow> 'a circular_deque \<Rightarrow> 'a circular_deque checked" where
  "ExpandCapacityIfNecessary esz additional_elts q =
     (let min_new_capacity = size_t_add (dq_size q) additional_elts in
      if min_new_capacity \<le> dq_capacity q then Inr q
      else
        let min_new_capacity = max min_new_capacity kCircularBufferInitialCapacity in
        SetCapacityTo esz (max min_new_capacity (size_t_add (dq_capacity q) (dq_capacity q div 4))) q)"

definition ShrinkCapacityIfNecessary :: "nat \<Rightarrow> 'a circular_deque \<Rightarrow> 'a circular_deque checked" where
  "ShrinkCapacityIfNecessary esz q =
     (if dq_capacity q \<le> kCircularBufferInitialCapacity then Inr q
      else
        let sz = dq_size q; empty_spaces = dq_capacity q - sz in
        if empty_spaces < sz then Inr q
        else
          let new_capacity = max kCircularBufferInitialCapacity (size_t_add sz (sz div 4)) in
          if new_capacity < dq_capacity q then SetCapacityTo esz new_capacity q else Inr q)"

definition dq_DestructRange :: "nat \<Rightarrow> nat \<Rightarrow> 'a cells \<Rightarrow> 'a cells checked" where
  "dq_DestructRange b e buf =
     (if e = b then Inr buf
      else if b < e then vb_DestructRange b e buf
      else rbind (vb_DestructRange b (length buf) buf) (vb_DestructRange 0 e))"

definition ClearRetainCapacity :: "bool \<Rightarrow> 'a circular_deque \<Rightarrow> 'a circular_deque checked" where
  "ClearRetainCapacity d q =
     rbind (dq_DestructRange (dq_begin q) (dq_end q) (dq_buffer q)) (\<lambda>buf.
     Inr (IncrementGeneration d (q\<lparr>dq_buffer := buf, dq_begin := 0, dq_end := 0\<rparr>)))"

definition dq_clear :: "bool \<Rightarrow> 'a circular_deque \<Rightarrow> 'a circular_deque checked" where
  "dq_clear d q = rbind (ClearRetainCapacity d q) (\<lambda>q. Inr (q\<lparr>dq_buffer := []\<rparr>))"

definition reserve :: "nat \<Rightarrow> nat \<Rightarrow> 'a circular_deque \<Rightarrow> 'a circular_deque checked" where
  "reserve esz new_capacity q = (if dq_capacity q < new_capacity then SetCapacityTo esz new_capacity q else Inr q)"

definition shrink_to_fit :: "nat \<Rightarrow> 'a circular_deque \<Rightarrow> 'a circular_deque checked" where
  "shrink_to_fit esz q =
     (if dq_empty q then Inr (if internal_capacity q \<noteq> 0 then q\<lparr>dq_buffer := []\<rparr> else q)
      else SetCapacityTo esz (dq_size q) q)"

section \<open>Operations at the ends\<close>

definition emplace_front :: "bool \<Rightarrow> nat \<Rightarrow> 'a \<Rightarrow> 'a circular_deque \<Rightarrow> 'a circular_deque checked" where
  "emplace_front d esz v q =
     rbind (ExpandCapacityIfNecessary esz 1 q) (\<lambda>q.
     let q = IncrementGeneration d (q\<lparr>dq_begin := (if dq_begin q = 0 then internal_capacity q - 1 else dq_begin q - 1)\<rparr>) in
     rbind (vb_construct (dq_begin q) v (dq_buffer q)) (\<lambda>buf.
     let q = q\<lparr>dq_buffer := buf\<rparr> in
     rbind (dq_front d q) (\<lambda>_. Inr q)))"

definition emplace_back :: "bool \<Rightarrow> nat \<Rightarrow> 'a \<Rightarrow> 'a circular_deque \<Rightarrow> 'a circular_deque checked" where
  "emplace_back d esz v q =
     rbind (ExpandCapacityIfNecessary esz 1 q) (\<lambda>q.
     rbind (vb_construct (dq_end q) v (dq_buffer q)) (\<lambda>buf.
     let q = IncrementGeneration d (q\<lparr>dq_buffer := buf,
       dq_end := (if dq_end q = internal_capacity q - 1 then 0 else Suc (dq_end q))\<rparr>) in
     rbind (dq_back d q) (\<lambda>_. Inr q)))"

definition pop_front :: "bool \<Rightarrow> nat \<Rightarrow> 'a circular_deque \<Rightarrow> 'a circular_deque checked" where
  "pop_front d esz q =
     rbind (RTC_DCHECK d (dq_size q \<noteq> 0)) (\<lambda>_.
     rbind (vb_DestructRange (dq_begin q) (dq_begin q + 1) (dq_buffer q)) (\<lambda>buf.
     rbind (ShrinkCapacityIfNecessary esz (q\<lparr>dq_buffer := buf,
       dq_begin := (if Suc (dq_begin q) = length buf then 0 else Suc (dq_begin q))\<rparr>)) (\<lambda>q.
     Inr (IncrementGeneration d q))))"

definition pop_back :: "bool \<Rightarrow> nat \<Rightarrow> 'a circular_deque \<Rightarrow> 'a circular_deque checked" where
  "pop_back d esz q =
     rbind (RTC_DCHECK d (dq_size q \<noteq> 0)) (\<lambda>_.
     let e = (if dq_end q = 0 then internal_capacity q - 1 else dq_end q - 1) in
     rbind (vb_DestructRange e (e + 1) (dq_buffer q)) (\<lambda>buf.
     rbind (ShrinkCapacityIfNecessary esz (q\<lparr>dq_buffer := buf, dq_end := e\<rparr>)) (\<lambda>q.
     Inr (IncrementGeneration d q))))"

section \<open>Insertion, removal and size\<close>

fun push_back_n :: "bool \<Rightarrow> nat \<Rightarrow> 'a list \<Rightarrow> 'a circular_deque \<Rightarrow> 'a circular_deque checked" where
  "push_back_n d esz [] q = Inr q"
| "push_back_n d esz (v # vs) q = rbind (emplace_back d esz v q) (push_back_n d esz vs)"

fun push_front_n :: "bool \<Rightarrow> nat \<Rightarrow> nat \<Rightarrow> 'a \<Rightarrow> 'a circular_deque \<Rightarrow> 'a circular_deque checked" where
  "push_front_n d esz 0 v q = Inr q"
| "push_front_n d esz (Suc n) v q = rbind (emplace_front d esz v q) (push_front_n d esz n v)"

text \<open>\<^verbatim>\<open>resize\<close>: the loop appends until the size is \<open>count\<close>.\<close>

definition resize :: "bool \<Rightarrow> nat \<Rightarrow> nat \<Rightarrow> 'a \<Rightarrow> 'a circular_deque \<Rightarrow> 'a circular_deque checked" where
  "resize d esz count v q =
     rbind
       (if dq_size q < count then
          rbind (ExpandCapacityIfNecessary esz (count - dq_size q) q) (\<lambda>q'.
          push_back_n d esz (replicate (count - dq_size q) v) q')
        else if count < dq_size q then
          let new_end = size_t_add (dq_begin q) count mod internal_capacity q in
          rbind (dq_DestructRange new_end (dq_end q) (dq_buffer q)) (\<lambda>buf.
          ShrinkCapacityIfNecessary esz (q\<lparr>dq_buffer := buf, dq_end := new_end\<rparr>))
        else Inr q)
       (\<lambda>q. Inr (IncrementGeneration d q))"

text \<open>
  The loops over iterators get the number of cells as fuel: they make at most one pass for each, and running out
  would be a fault.
\<close>

fun shift_right :: "bool \<Rightarrow> nat \<Rightarrow> iterator \<Rightarrow> iterator \<Rightarrow> iterator \<Rightarrow> 'a circular_deque \<Rightarrow> 'a circular_deque checked" where
  "shift_right d 0 src dest stop q = Inl Undefined"
| "shift_right d (Suc fuel) src dest stop q =
     rbind (iter_eq d src stop) (\<lambda>done.
     if done then Inr q
     else
       rbind (Decrement d q src) (\<lambda>src. rbind (Decrement d q dest) (\<lambda>dest.
       rbind (MoveOne (it_index src) (it_index dest) (dq_buffer q)) (\<lambda>buf.
       shift_right d fuel src dest stop (q\<lparr>dq_buffer := buf\<rparr>)))))"

definition MakeRoomFor :: "bool \<Rightarrow> nat \<Rightarrow> nat \<Rightarrow> iterator \<Rightarrow> 'a circular_deque \<Rightarrow>
    (iterator \<times> iterator \<times> 'a circular_deque) checked" where
  "MakeRoomFor d esz count insert_begin q =
     (if count = 0 then Inr (insert_begin, insert_begin, q)
      else
        let begin_offset = OffsetFromBegin insert_begin q in
        rbind (ExpandCapacityIfNecessary esz count q) (\<lambda>q.
        let insert_begin = insert_begin\<lparr>it_index := size_t_add (dq_begin q) begin_offset mod internal_capacity q\<rparr>;
            insert_end = make_iterator q (size_t_add (it_index insert_begin) count mod internal_capacity q);
            src = dq_end_iter q;
            q = q\<lparr>dq_end := size_t_add (dq_end q) count mod internal_capacity q\<rparr>;
            dest = dq_end_iter q in
        rbind (shift_right d (internal_capacity q) src dest insert_begin q) (\<lambda>q.
        Inr (insert_begin, insert_end, q))))"

text \<open>The loop that constructs copies of the items between two iterators.\<close>

fun fill_room :: "bool \<Rightarrow> 'a list \<Rightarrow> iterator \<Rightarrow> iterator \<Rightarrow> 'a circular_deque \<Rightarrow> 'a circular_deque checked" where
  "fill_room d vs cur stop q =
     rbind (iter_less d q cur stop) (\<lambda>more.
     if \<not> more then Inr q
     else case vs of
       [] \<Rightarrow> Inl Undefined
     | v # vs' \<Rightarrow>
         rbind (vb_construct (it_index cur) v (dq_buffer q)) (\<lambda>buf.
         let q = q\<lparr>dq_buffer := buf\<rparr> in
         rbind (Increment d q cur) (\<lambda>cur. fill_room d vs' cur stop q)))"

definition ValidateIterator :: "bool \<Rightarrow> iterator \<Rightarrow> 'a circular_deque \<Rightarrow> unit checked" where
  "ValidateIterator d it q = CheckUnstableUsage d it q"

definition insert_n :: "bool \<Rightarrow> nat \<Rightarrow> iterator \<Rightarrow> nat \<Rightarrow> 'a \<Rightarrow> 'a circular_deque \<Rightarrow> 'a circular_deque checked" where
  "insert_n d esz pos count v q =
     rbind (ValidateIterator d pos q) (\<lambda>_.
     rbind (iter_eq d pos (dq_begin_iter q)) (\<lambda>front.
     if front then rbind (ExpandCapacityIfNecessary esz count q) (push_front_n d esz count v)
     else
       rbind (MakeRoomFor d esz count (make_iterator q (it_index pos)) q) (\<lambda>(cur, stop, q).
       rbind (fill_room d (replicate count v) cur stop q) (\<lambda>q. Inr (IncrementGeneration d q)))))"

definition insert_range :: "bool \<Rightarrow> nat \<Rightarrow> iterator \<Rightarrow> 'a list \<Rightarrow> 'a circular_deque \<Rightarrow> 'a circular_deque checked" where
  "insert_range d esz pos vs q =
     rbind (ValidateIterator d pos q) (\<lambda>_.
     if vs = [] then Inr q
     else
       rbind (iter_eq d pos (dq_begin_iter q)) (\<lambda>front.
       rbind
         (if front then
            rbind (ExpandCapacityIfNecessary esz (length vs) q) (\<lambda>q.
            let stop = dq_begin_iter q;
                q = q\<lparr>dq_begin := (size_t_add (dq_begin q) (internal_capacity q) - length vs) mod internal_capacity q\<rparr> in
            Inr (dq_begin_iter q, stop, q))
          else MakeRoomFor d esz (length vs) (make_iterator q (it_index pos)) q)
         (\<lambda>(cur, stop, q). rbind (fill_room d vs cur stop q) (\<lambda>q. Inr (IncrementGeneration d q)))))"

definition emplace :: "bool \<Rightarrow> nat \<Rightarrow> iterator \<Rightarrow> 'a \<Rightarrow> 'a circular_deque \<Rightarrow> (iterator \<times> 'a circular_deque) checked" where
  "emplace d esz pos v q =
     rbind (ValidateIterator d pos q) (\<lambda>_.
     rbind (iter_eq d pos (dq_begin_iter q)) (\<lambda>front.
     if front then rbind (emplace_front d esz v q) (\<lambda>q. Inr (dq_begin_iter q, q))
     else
       let q = IncrementGeneration d q in
       rbind (MakeRoomFor d esz 1 (make_iterator q (it_index pos)) q) (\<lambda>(insert_begin, _, q).
       rbind (vb_construct (it_index insert_begin) v (dq_buffer q)) (\<lambda>buf.
       Inr (insert_begin, q\<lparr>dq_buffer := buf\<rparr>)))))"

fun shift_left :: "bool \<Rightarrow> nat \<Rightarrow> iterator \<Rightarrow> iterator \<Rightarrow> iterator \<Rightarrow> 'a circular_deque \<Rightarrow>
    (iterator \<times> 'a circular_deque) checked" where
  "shift_left d 0 src stop dest q = Inl Undefined"
| "shift_left d (Suc fuel) src stop dest q =
     rbind (iter_less d q src stop) (\<lambda>more.
     if \<not> more then Inr (dest, q)
     else
       rbind (MoveOne (it_index src) (it_index dest) (dq_buffer q)) (\<lambda>buf.
       let q = q\<lparr>dq_buffer := buf\<rparr> in
       rbind (Increment d q src) (\<lambda>src. rbind (Increment d q dest) (\<lambda>dest.
       shift_left d fuel src stop dest q))))"

definition erase_range :: "bool \<Rightarrow> iterator \<Rightarrow> iterator \<Rightarrow> 'a circular_deque \<Rightarrow> (iterator \<times> 'a circular_deque) checked" where
  "erase_range d first til q =
     rbind (ValidateIterator d first q) (\<lambda>_. rbind (ValidateIterator d til q) (\<lambda>_.
     let q = IncrementGeneration d q; i = it_index first; j = it_index til in
     if i = j then Inr (make_iterator q i, q)
     else
       rbind
         (if i < j then vb_DestructRange i j (dq_buffer q)
          else rbind (vb_DestructRange i (internal_capacity q) (dq_buffer q)) (vb_DestructRange 0 j)) (\<lambda>buf.
       let q = q\<lparr>dq_buffer := buf\<rparr> in
       if i = dq_begin q then
         (let q = q\<lparr>dq_begin := j\<rparr> in Inr (make_iterator q j, q))
       else
         rbind (shift_left d (Suc (internal_capacity q)) (make_iterator q j) (dq_end_iter q) (make_iterator q i) q) (\<lambda>(dest, q).
         let q = q\<lparr>dq_end := it_index dest\<rparr> in
         Inr (make_iterator q i, q)))))"

definition erase_one :: "bool \<Rightarrow> iterator \<Rightarrow> 'a circular_deque \<Rightarrow> (iterator \<times> 'a circular_deque) checked" where
  "erase_one d pos q = rbind (AddOffset d q 1 pos) (\<lambda>next. erase_range d pos next q)"

section \<open>Whole deques\<close>

definition assign_n :: "bool \<Rightarrow> nat \<Rightarrow> nat \<Rightarrow> 'a \<Rightarrow> 'a circular_deque \<Rightarrow> 'a circular_deque checked" where
  "assign_n d esz count v q =
     rbind (ClearRetainCapacity d q) (\<lambda>q. rbind (reserve esz count q) (\<lambda>q.
     rbind (push_back_n d esz (replicate count v) q) (\<lambda>q. Inr (IncrementGeneration d q))))"

definition assign_range :: "bool \<Rightarrow> nat \<Rightarrow> 'a list \<Rightarrow> 'a circular_deque \<Rightarrow> 'a circular_deque checked" where
  "assign_range d esz vs q =
     rbind (ClearRetainCapacity d q) (\<lambda>q.
     rbind (push_back_n d esz vs q) (\<lambda>q. Inr (IncrementGeneration d q)))"

definition dq_swap :: "bool \<Rightarrow> 'a circular_deque \<Rightarrow> 'a circular_deque \<Rightarrow> 'a circular_deque \<times> 'a circular_deque" where
  "dq_swap d q other =
     (IncrementGeneration d (q\<lparr>dq_buffer := dq_buffer other, dq_begin := dq_begin other, dq_end := dq_end other\<rparr>),
      other\<lparr>dq_buffer := dq_buffer q, dq_begin := dq_begin q, dq_end := dq_end q\<rparr>)"

definition move_assign :: "bool \<Rightarrow> 'a circular_deque \<Rightarrow> 'a circular_deque \<Rightarrow> ('a circular_deque \<times> 'a circular_deque) checked" where
  "move_assign d other q =
     rbind (ClearRetainCapacity d q) (\<lambda>q.
     Inr (IncrementGeneration d (q\<lparr>dq_buffer := dq_buffer other, dq_begin := dq_begin other, dq_end := dq_end other\<rparr>),
       other\<lparr>dq_buffer := [], dq_begin := 0, dq_end := 0\<rparr>))"

definition dq_delete :: "'a circular_deque \<Rightarrow> 'a cells checked" where
  "dq_delete q = dq_DestructRange (dq_begin q) (dq_end q) (dq_buffer q)"

text \<open>The elements between two iterators of a deque that is not changed meanwhile, read one after the other.\<close>

fun read_range :: "bool \<Rightarrow> nat \<Rightarrow> 'a circular_deque \<Rightarrow> iterator \<Rightarrow> iterator \<Rightarrow> 'a list checked" where
  "read_range d 0 q cur stop = Inl Undefined"
| "read_range d (Suc fuel) q cur stop =
     rbind (iter_eq d cur stop) (\<lambda>done.
     if done then Inr []
     else
       rbind (iter_deref d cur q) (\<lambda>v. rbind (Increment d q cur) (\<lambda>cur.
       rbind (read_range d fuel q cur stop) (\<lambda>vs. Inr (v # vs)))))"

definition elements :: "bool \<Rightarrow> 'a circular_deque \<Rightarrow> 'a list checked" where
  "elements d q = read_range d (Suc (internal_capacity q)) q (dq_begin_iter q) (dq_end_iter q)"

definition deque_fill :: "bool \<Rightarrow> nat \<Rightarrow> nat \<Rightarrow> 'a \<Rightarrow> 'a circular_deque checked" where
  "deque_fill d esz count v = resize d esz count v circular_deque_new"

definition deque_range :: "bool \<Rightarrow> nat \<Rightarrow> 'a list \<Rightarrow> 'a circular_deque checked" where
  "deque_range d esz vs = assign_range d esz vs circular_deque_new"

definition deque_copy :: "bool \<Rightarrow> nat \<Rightarrow> 'a circular_deque \<Rightarrow> 'a circular_deque checked" where
  "deque_copy d esz other =
     rbind (VectorBuffer_new esz (size_t_add (dq_size other) 1)) (\<lambda>buf.
     rbind (elements d other) (\<lambda>vs. assign_range d esz vs (circular_deque_new\<lparr>dq_buffer := buf\<rparr>)))"

definition deque_move :: "'a circular_deque \<Rightarrow> 'a circular_deque \<times> 'a circular_deque" where
  "deque_move other =
     (other\<lparr>generation := 0\<rparr>, other\<lparr>dq_buffer := [], dq_begin := 0, dq_end := 0\<rparr>)"

text \<open>Assignment from another deque and from a list of initializers.\<close>

definition copy_assign :: "bool \<Rightarrow> nat \<Rightarrow> 'a circular_deque \<Rightarrow> 'a circular_deque \<Rightarrow> 'a circular_deque checked" where
  "copy_assign d esz other q =
     rbind (reserve esz (dq_size other) q) (\<lambda>q. rbind (elements d other) (\<lambda>vs. assign_range d esz vs q))"

definition list_assign :: "bool \<Rightarrow> nat \<Rightarrow> 'a list \<Rightarrow> 'a circular_deque \<Rightarrow> 'a circular_deque checked" where
  "list_assign d esz vs q = rbind (reserve esz (length vs) q) (assign_range d esz vs)"

end
