(* ===== verification/Rtc_DequeRep.thy ===== *)
theory Rtc_DequeRep
  imports Rtc_Deque
begin

text \<open>
  The deque of theory \<open>Rtc_Deque\<close> refines a list.  Seen from \<^verbatim>\<open>begin_\<close>, the cells of the buffer are the elements, all alive,
  followed by at least one cell without an object.  Each operation is described by what it does to this view.
\<close>

section \<open>The view from the beginning\<close>

text \<open>\<open>ring q cs\<close>: the cells from \<^verbatim>\<open>begin_\<close> on, once around.\<close>

definition ring :: "'a circular_deque \<Rightarrow> 'a cells \<Rightarrow> bool" where
  "ring q cs \<longleftrightarrow> dq_begin q < internal_capacity q \<and> rotate (dq_begin q) (dq_buffer q) = cs"

definition slot :: "'a circular_deque \<Rightarrow> nat \<Rightarrow> nat" where
  "slot q i = (dq_begin q + i) mod internal_capacity q"

lemma ringD: "ring q cs \<Longrightarrow> dq_begin q < internal_capacity q \<and> length cs = internal_capacity q"
  by (auto simp: ring_def)

lemma slot_less: "ring q cs \<Longrightarrow> slot q i < internal_capacity q"
  unfolding slot_def by (rule mod_less_divisor) (auto simp: ring_def)

lemma ring_nth: "ring q cs \<Longrightarrow> i < length cs \<Longrightarrow> dq_buffer q ! slot q i = cs ! i"
  by (auto simp: ring_def slot_def nth_rotate)

lemma ring_update:
  assumes "ring q cs" "i < length cs"
  shows "ring (q\<lparr>dq_buffer := (dq_buffer q)[slot q i := c]\<rparr>) (cs[i := c])"
  using assms rotate_update [of i "dq_buffer q" "dq_begin q" c] by (auto simp: ring_def slot_def)

lemma slot_cases:
  assumes "ring q cs" "i \<le> length cs"
  shows "slot q i = (if dq_begin q + i < internal_capacity q then dq_begin q + i else dq_begin q + i - internal_capacity q)"
proof -
  have "dq_begin q + i - internal_capacity q < internal_capacity q" using ringD [OF assms(1)] assms(2) by linarith
  then show ?thesis unfolding slot_def by (simp add: mod_if)
qed

lemma slot_0: "ring q cs \<Longrightarrow> slot q 0 = dq_begin q"
  by (simp add: ring_def slot_def)

lemma slot_inject: "ring q cs \<Longrightarrow> i < length cs \<Longrightarrow> j < length cs \<Longrightarrow> slot q i = slot q j \<longleftrightarrow> i = j"
  using slot_cases [of q cs i] slot_cases [of q cs j] ringD [of q cs] by (auto split: if_splits)

lemma OffsetFromBegin_slot:
  assumes "ring q cs" "i < length cs" "it_index it = slot q i"
  shows "OffsetFromBegin it q = i"
  using slot_cases [OF assms(1), of i] ringD [OF assms(1)] assms(2,3) by (auto simp: OffsetFromBegin_def split: if_splits)

lemma vb_read_slot: "ring q cs \<Longrightarrow> i < length cs \<Longrightarrow> cs ! i = Some v \<Longrightarrow> vb_read (slot q i) (dq_buffer q) = Inr v"
  using slot_less [of q cs i] ring_nth [of q cs i] by (simp add: vb_read_def vb_address_def)

lemma vb_construct_slot:
  "ring q cs \<Longrightarrow> vb_construct (slot q i) v (dq_buffer q) = Inr ((dq_buffer q)[slot q i := Some v])"
  using slot_less [of q cs i] by (simp add: vb_construct_def vb_address_def)

lemma MoveOne_slot:
  assumes "ring q cs" "i < length cs" "j < length cs" "i \<noteq> j" "cs ! i = Some v"
  shows "MoveOne (slot q i) (slot q j) (dq_buffer q) = Inr ((dq_buffer q)[slot q j := Some v, slot q i := None])"
proof -
  have "slot q i \<noteq> slot q j" using assms slot_inject by blast
  moreover have "dq_buffer q ! slot q i = Some v" using ring_nth [OF assms(1,2)] assms(5) by simp
  moreover have "\<not> RangesOverlap (slot q i) (slot q i + 1) (slot q j)"
    using calculation(1) by (auto simp: RangesOverlap_def)
  ultimately show ?thesis
    using slot_less [OF assms(1), of i] slot_less [OF assms(1), of j]
    by (simp add: MoveOne_def vb_address_def vb_read_def vb_construct_def vb_destruct_def)
qed

section \<open>Elements\<close>

text \<open>
  The deque holds the list \<open>xs\<close>.  Without a buffer it is empty and the two positions are equal, whatever they are.
\<close>

definition holds :: "nat \<Rightarrow> 'a circular_deque \<Rightarrow> 'a list \<Rightarrow> bool" where
  "holds esz q xs \<longleftrightarrow>
     (dq_buffer q = [] \<and> xs = [] \<and> dq_begin q = dq_end q \<or>
      (\<exists>k. ring q (map Some xs @ replicate (Suc k) None)) \<and> dq_end q = slot q (length xs)) \<and>
     esz * internal_capacity q < 2 ^ 64 \<and> internal_capacity q < 2 ^ 63"

lemma dq_size_slot:
  assumes "ring q cs" "dq_end q = slot q n" "n < length cs"
  shows "dq_size q = n"
  using slot_cases [OF assms(1), of n] ringD [OF assms(1)] assms(2,3) by (auto simp: dq_size_def split: if_splits)

lemma dq_size_holds: "holds esz q xs \<Longrightarrow> dq_size q = length xs"
  by (auto simp: holds_def dq_size_slot) (simp add: dq_size_def)

lemma dq_empty_holds: "holds esz q xs \<Longrightarrow> dq_empty q \<longleftrightarrow> xs = []"
proof -
  assume h: "holds esz q xs"
  have "slot q (length xs) = dq_begin q \<longleftrightarrow> xs = []" if "ring q (map Some xs @ replicate (Suc k) None)" for k
    using slot_inject [OF that, of "length xs" 0] slot_0 [OF that] by simp
  with h show ?thesis by (auto simp: holds_def dq_empty_def)
qed

lemma valid_index:
  assumes "ring q cs" "dq_end q = slot q n" "n < length cs" "i < n"
  shows "CheckValidIndex d (slot q i) q = Inr ()" "CheckValidIndexOrEnd d (slot q i) q = Inr ()"
proof -
  show "CheckValidIndex d (slot q i) q = Inr ()"
    using slot_cases [OF assms(1), of n] slot_cases [OF assms(1), of i] ringD [OF assms(1)] assms(2-)
    by (auto simp: CheckValidIndex_def RTC_DCHECK_def split: if_splits)
  then show "CheckValidIndexOrEnd d (slot q i) q = Inr ()" by (simp add: CheckValidIndexOrEnd_def)
qed

lemma valid_end: "dq_end q = slot q n \<Longrightarrow> CheckValidIndexOrEnd d (slot q n) q = Inr ()"
  by (simp add: CheckValidIndexOrEnd_def)

text \<open>An iterator at position \<open>i\<close>.\<close>

definition at_pos :: "'a circular_deque \<Rightarrow> nat \<Rightarrow> iterator \<Rightarrow> bool" where
  "at_pos q i it \<longleftrightarrow> it_index it = slot q i \<and> created_generation it = generation q"

lemma Decrement_pos:
  assumes "ring q cs" "dq_end q = slot q n" "n < length cs" "at_pos q (Suc i) it" "i < n"
  shows "returns (Decrement d q it) (at_pos q i)"
proof -
  have "CheckValidIndexOrEnd d (slot q (Suc i)) q = Inr ()"
    using assms valid_index(2) [OF assms(1-3), of "Suc i"] valid_end by (cases "Suc i = n") auto
  moreover have "slot q i = (if slot q (Suc i) = 0 then internal_capacity q - 1 else slot q (Suc i) - 1)"
    using slot_cases [OF assms(1), of i] slot_cases [OF assms(1), of "Suc i"] ringD [OF assms(1)] assms(3,5)
    by (auto split: if_splits)
  ultimately show ?thesis using assms(4) by (simp add: Decrement_def CheckUnstableUsage_def at_pos_def)
qed

lemma Increment_pos:
  assumes "ring q cs" "dq_end q = slot q n" "n < length cs" "at_pos q i it" "i < n"
  shows "returns (Increment d q it) (at_pos q (Suc i))"
proof -
  have "CheckValidIndex d (slot q i) q = Inr ()" using assms valid_index(1) by blast
  moreover have "slot q (Suc i) = (if Suc (slot q i) = internal_capacity q then 0 else Suc (slot q i))"
    using slot_cases [OF assms(1), of i] slot_cases [OF assms(1), of "Suc i"] ringD [OF assms(1)] assms(3,5)
    by (auto split: if_splits)
  ultimately show ?thesis using assms(4) by (simp add: Increment_def CheckUnstableUsage_def at_pos_def)
qed

lemma iter_less_pos:
  assumes "ring q cs" "at_pos q i it" "at_pos q j it'" "i < length cs" "j < length cs"
  shows "iter_less d q it it' = Inr (i < j)"
  using assms OffsetFromBegin_slot [OF assms(1)] by (simp add: iter_less_def CheckComparable_def at_pos_def)

lemma iter_eq_pos:
  assumes "ring q cs" "at_pos q i it" "at_pos q j it'" "i < length cs" "j < length cs"
  shows "iter_eq d it it' = Inr (i = j)"
  using assms slot_inject [OF assms(1)] by (simp add: iter_eq_def CheckComparable_def at_pos_def)

section \<open>Reading\<close>

lemma dq_at_holds:
  assumes "holds esz q xs" "i < length xs"
  shows "dq_at d i q = Inr (xs ! i)"
proof -
  obtain k where k: "ring q (map Some xs @ replicate (Suc k) None)" "dq_end q = slot q (length xs)"
    using assms by (auto simp: holds_def)
  have r: "vb_read (slot q i) (dq_buffer q) = Inr (xs ! i)"
    using vb_read_slot [OF k(1), of i "xs ! i"] assms(2) by (simp add: nth_append)
  have "slot q i = (if dq_begin q \<le> dq_end q \<or> i < internal_capacity q - dq_begin q then dq_begin q + i
      else i - (internal_capacity q - dq_begin q))"
    using slot_cases [OF k(1), of i] slot_cases [OF k(1), of "length xs"] ringD [OF k(1)] k(2) assms(2)
    by (auto split: if_splits)
  with r dq_size_holds [OF assms(1)] assms(2) show ?thesis by (auto simp: dq_at_def Let_def split: if_splits)
qed

lemma dq_front_holds: "holds esz q (x # xs) \<Longrightarrow> dq_front d q = Inr x"
proof -
  assume h: "holds esz q (x # xs)"
  then obtain k where k: "ring q (map Some (x # xs) @ replicate (Suc k) None)" by (auto simp: holds_def)
  show ?thesis
    using vb_read_slot [OF k, of 0 x] slot_0 [OF k] dq_empty_holds [OF h] by (simp add: dq_front_def)
qed

lemma dq_back_holds: "holds esz q (xs @ [x]) \<Longrightarrow> dq_back d q = Inr x"
proof -
  assume h: "holds esz q (xs @ [x])"
  then obtain k where k: "ring q (map Some (xs @ [x]) @ replicate (Suc k) None)" "dq_end q = slot q (Suc (length xs))"
    by (auto simp: holds_def)
  have "at_pos q (Suc (length xs)) (dq_end_iter q)" using k(2) by (simp add: at_pos_def dq_end_iter_def make_iterator_def)
  then obtain it where it: "Decrement d q (dq_end_iter q) = Inr it" "at_pos q (length xs) it"
    using Decrement_pos [OF k, of "length xs" "dq_end_iter q" d] by (auto elim: returnsE)
  have "iter_deref d it q = Inr x"
    using it(2) valid_index(1) [OF k, of "length xs" d] vb_read_slot [OF k(1), of "length xs" x]
    by (simp add: iter_deref_def CheckUnstableUsage_def at_pos_def nth_append)
  with it(1) dq_empty_holds [OF h] show ?thesis by (simp add: dq_back_def)
qed

section \<open>Destroying and moving\<close>

lemma ring_eqI:
  assumes "dq_begin q < length buf" "length buf = internal_capacity q" "length cs = length buf"
    and "\<And>p. p < length buf \<Longrightarrow> buf ! slot q p = cs ! p"
  shows "ring (q\<lparr>dq_buffer := buf\<rparr>) cs"
  using assms by (auto simp: ring_def slot_def nth_rotate intro!: nth_equalityI)

lemma slot_surj:
  assumes "ring q cs" "k < internal_capacity q"
  obtains p where "p < internal_capacity q" "k = slot q p"
proof (cases "dq_begin q \<le> k")
  case True
  then show ?thesis using that [of "k - dq_begin q"] slot_cases [OF assms(1), of "k - dq_begin q"] ringD [OF assms(1)] assms(2) by auto
next
  case False
  let ?p = "internal_capacity q - dq_begin q + k"
  have "k = slot q ?p" using slot_cases [OF assms(1), of ?p] ringD [OF assms(1)] assms(2) False by auto
  moreover have "?p < internal_capacity q" using False ringD [OF assms(1)] by auto
  ultimately show ?thesis using that by blast
qed

lemma destruct_loop_returns:
  assumes "a + m \<le> length buf" "\<And>i. a \<le> i \<Longrightarrow> i < a + m \<Longrightarrow> buf ! i \<noteq> None"
  shows "returns (destruct_loop a m buf) (\<lambda>buf'. length buf' = length buf \<and>
    (\<forall>i < length buf. buf' ! i = (if a \<le> i \<and> i < a + m then None else buf ! i)))"
  using assms
proof (induction m arbitrary: a buf)
  case (Suc m)
  have "vb_destruct a buf = Inr (buf[a := None])" using Suc.prems by (simp add: vb_destruct_def)
  moreover have "returns (destruct_loop (Suc a) m (buf[a := None])) (\<lambda>buf'. length buf' = length (buf[a := None]) \<and>
      (\<forall>i < length (buf[a := None]). buf' ! i = (if Suc a \<le> i \<and> i < Suc a + m then None else buf[a := None] ! i)))"
    using Suc.prems by (intro Suc.IH) auto
  ultimately show ?case by (auto elim!: returns_mono simp: nth_list_update)
qed auto

lemma vb_DestructRange_returns:
  assumes "a \<le> e" "e \<le> length buf" "\<And>i. a \<le> i \<Longrightarrow> i < e \<Longrightarrow> buf ! i \<noteq> None"
  shows "returns (vb_DestructRange a e buf) (\<lambda>buf'. length buf' = length buf \<and>
    (\<forall>i < length buf. buf' ! i = (if a \<le> i \<and> i < e then None else buf ! i)))"
  using destruct_loop_returns [of a "e - a" buf] assms by (simp add: vb_DestructRange_def vb_address_def)

text \<open>Destroying the elements at the positions from \<open>i\<close> up to \<open>j\<close>.\<close>

lemma slot_between:
  assumes "ring q cs" "i < j" "j < length cs" "p < length cs"
  shows "slot q i < slot q j \<Longrightarrow> slot q i \<le> slot q p \<and> slot q p < slot q j \<longleftrightarrow> i \<le> p \<and> p < j"
    and "slot q j < slot q i \<Longrightarrow> slot q i \<le> slot q p \<or> slot q p < slot q j \<longleftrightarrow> i \<le> p \<and> p < j"
    and "slot q i \<noteq> slot q j"
  using slot_cases [OF assms(1), of i] slot_cases [OF assms(1), of j] slot_cases [OF assms(1), of p] ringD [OF assms(1)] assms(2-)
  by (auto split: if_splits)

lemma destruct_slots:
  assumes r: "ring q cs" and ij: "i \<le> j" "j < length cs" and live: "\<And>p. i \<le> p \<Longrightarrow> p < j \<Longrightarrow> cs ! p \<noteq> None"
  shows "returns (dq_DestructRange (slot q i) (slot q j) (dq_buffer q))
    (\<lambda>buf. ring (q\<lparr>dq_buffer := buf\<rparr>) (take i cs @ replicate (j - i) None @ drop j cs) \<and> length buf = internal_capacity q)"
proof (cases "i = j")
  case True
  with r show ?thesis using ringD [OF r] by (simp add: dq_DestructRange_def ring_def)
next
  case False
  let ?n = "internal_capacity q" let ?R = "take i cs @ replicate (j - i) None @ drop j cs"
  have n: "length cs = ?n" "dq_begin q < ?n" using ringD [OF r] by auto
  note btw = slot_between [OF r, of i j]
  have ne: "slot q i \<noteq> slot q j" using btw(3) [of i] False ij by simp
  have live': "dq_buffer q ! slot q p \<noteq> None" if "i \<le> p" "p < j" for p
    using live [OF that] that ij by (simp add: ring_nth [OF r])
  have R: "?R ! p = (if i \<le> p \<and> p < j then None else cs ! p)" if "p < ?n" for p
    using that n ij by (auto simp: nth_append)
  have conc: "ring (q\<lparr>dq_buffer := buf\<rparr>) ?R \<and> length buf = ?n"
    if "length buf = ?n" "\<And>p. p < ?n \<Longrightarrow> buf ! slot q p = (if i \<le> p \<and> p < j then None else dq_buffer q ! slot q p)" for buf
    using that n ij R by (intro conjI ring_eqI) (auto simp: ring_nth [OF r])
  show ?thesis
  proof (cases "slot q i < slot q j")
    case True
    have "dq_buffer q ! k \<noteq> None" if k: "slot q i \<le> k" "k < slot q j" for k
    proof -
      have "k < ?n" using k(2) slot_less [OF r, of j] by simp
      then obtain p where "p < ?n" "k = slot q p" by (rule slot_surj [OF r])
      then show ?thesis using btw(1) [of p] k True False ij n live' by auto
    qed
    then have "returns (vb_DestructRange (slot q i) (slot q j) (dq_buffer q)) (\<lambda>buf'. length buf' = ?n \<and>
        (\<forall>k < ?n. buf' ! k = (if slot q i \<le> k \<and> k < slot q j then None else dq_buffer q ! k)))"
      using True slot_less [OF r, of j] by (intro vb_DestructRange_returns) auto
    then show ?thesis using True False ij n btw(1) slot_less [OF r]
      by (auto simp: dq_DestructRange_def elim!: returns_mono intro!: conc)
  next
    case F: False
    with ne have lt: "slot q j < slot q i" by simp
    have live2: "dq_buffer q ! k \<noteq> None" if k: "slot q i \<le> k \<or> k < slot q j" "k < ?n" for k
    proof -
      obtain p where "p < ?n" "k = slot q p" using k(2) by (rule slot_surj [OF r])
      then show ?thesis using btw(2) [of p] k lt False ij n live' by auto
    qed
    have d1: "returns (vb_DestructRange (slot q i) ?n (dq_buffer q)) (\<lambda>buf'. length buf' = ?n \<and>
        (\<forall>k < ?n. buf' ! k = (if slot q i \<le> k \<and> k < ?n then None else dq_buffer q ! k)))"
      using live2 slot_less [OF r, of i] by (intro vb_DestructRange_returns) auto
    obtain buf1 where b1: "vb_DestructRange (slot q i) ?n (dq_buffer q) = Inr buf1" "length buf1 = ?n"
        "\<And>k. k < ?n \<Longrightarrow> buf1 ! k = (if slot q i \<le> k then None else dq_buffer q ! k)"
      using d1 by (auto elim!: returnsE)
    have "returns (vb_DestructRange 0 (slot q j) buf1) (\<lambda>buf'. length buf' = length buf1 \<and>
        (\<forall>k < length buf1. buf' ! k = (if 0 \<le> k \<and> k < slot q j then None else buf1 ! k)))"
      using live2 lt b1 slot_less [OF r, of j] by (intro vb_DestructRange_returns) auto
    then obtain buf2 where b2: "vb_DestructRange 0 (slot q j) buf1 = Inr buf2" "length buf2 = ?n"
        "\<And>k. k < ?n \<Longrightarrow> buf2 ! k = (if k < slot q j then None else buf1 ! k)"
      using b1(2) by (auto elim!: returnsE)
    have "buf2 ! slot q p = (if i \<le> p \<and> p < j then None else dq_buffer q ! slot q p)" if "p < ?n" for p
      using btw(2) [of p] that b1(3) b2(3) slot_less [OF r, of p] lt False ij n by auto
    from conc [OF b2(2) this] b1(1) b2(1) lt show ?thesis by (simp add: dq_DestructRange_def)
  qed
qed

lemma move_loop_returns:
  assumes "i + m \<le> length src" "j + m \<le> length dst" "\<And>k. i \<le> k \<Longrightarrow> k < i + m \<Longrightarrow> src ! k \<noteq> None"
  shows "returns (move_loop i m src j dst) (\<lambda>(src', dst'). length src' = length src \<and> length dst' = length dst \<and>
    (\<forall>k < length src. k < i \<or> i + m \<le> k \<longrightarrow> src' ! k = src ! k) \<and>
    (\<forall>k < length dst. dst' ! k = (if j \<le> k \<and> k < j + m then src ! (i + k - j) else dst ! k)))"
  using assms
proof (induction m arbitrary: i src j dst)
  case (Suc m)
  obtain v where v: "src ! i = Some v" using Suc.prems(3) [of i] by auto
  have "vb_read i src = Inr v" "vb_construct j v dst = Inr (dst[j := Some v])" "vb_destruct i src = Inr (src[i := None])"
    using Suc.prems v by (simp_all add: vb_read_def vb_construct_def vb_destruct_def vb_address_def)
  moreover have "returns (move_loop (Suc i) m (src[i := None]) (Suc j) (dst[j := Some v])) (\<lambda>(src', dst').
      length src' = length (src[i := None]) \<and> length dst' = length (dst[j := Some v]) \<and>
      (\<forall>k < length (src[i := None]). k < Suc i \<or> Suc i + m \<le> k \<longrightarrow> src' ! k = src[i := None] ! k) \<and>
      (\<forall>k < length (dst[j := Some v]). dst' ! k =
        (if Suc j \<le> k \<and> k < Suc j + m then src[i := None] ! (Suc i + k - Suc j) else dst[j := Some v] ! k)))"
    using Suc.prems by (intro Suc.IH) auto
  ultimately show ?case using v Suc.prems
    by (auto elim!: returns_mono simp: nth_list_update not_less_eq_eq dest: le_antisym)
qed auto

lemma MoveRange_run:
  assumes "i \<le> e" "e \<le> length src" "j + (e - i) \<le> length dst" "\<And>k. i \<le> k \<Longrightarrow> k < e \<Longrightarrow> src ! k \<noteq> None"
  shows "\<exists>src' dst'. MoveRange i e src j dst = Inr (src', dst') \<and> length src' = length src \<and> length dst' = length dst \<and>
    (\<forall>k < i. src' ! k = src ! k) \<and>
    (\<forall>k < length dst. dst' ! k = (if j \<le> k \<and> k < j + (e - i) then src ! (i + k - j) else dst ! k))"
proof -
  have "returns (MoveRange i e src j dst) (\<lambda>(src', dst'). length src' = length src \<and> length dst' = length dst \<and>
      (\<forall>k < length src. k < i \<or> e \<le> k \<longrightarrow> src' ! k = src ! k) \<and>
      (\<forall>k < length dst. dst' ! k = (if j \<le> k \<and> k < j + (e - i) then src ! (i + k - j) else dst ! k)))"
    using move_loop_returns [of i "e - i" src j dst] assms by (simp add: MoveRange_def vb_address_def)
  then show ?thesis using assms(1,2) by (auto elim!: returnsE)
qed

lemma MoveBuffer_ring:
  assumes r: "ring q (map Some xs @ replicate (Suc m) None)" and e: "dq_end q = slot q (length xs)" and N: "length xs \<le> N"
  shows "MoveBuffer (dq_buffer q) (dq_begin q) (dq_end q) (replicate N None) =
    Inr (map Some xs @ replicate (N - length xs) None, 0, length xs)"
proof -
  let ?b = "dq_begin q" let ?n = "internal_capacity q" let ?l = "length xs"
  let ?R = "map Some xs @ replicate (N - length xs) None"
  have n: "Suc (?l + m) = ?n" "?b < ?n" using ringD [OF r] by auto
  have e': "dq_end q = (if ?b + ?l < ?n then ?b + ?l else ?b + ?l - ?n)" using e slot_cases [OF r, of ?l] n by simp
  have buf: "dq_buffer q ! (if ?b + p < ?n then ?b + p else ?b + p - ?n) = Some (xs ! p)" if "p < ?l" for p
    using ring_nth [OF r, of p] slot_cases [OF r, of p] that by (simp add: nth_append)
  consider "xs = []" | "xs \<noteq> []" "?b + ?l < ?n" | "\<not> ?b + ?l < ?n" by blast
  then show ?thesis
  proof cases
    case 1
    with e' n show ?thesis by (simp add: MoveBuffer_def)
  next
    case 2
    have live: "dq_buffer q ! k = Some (xs ! (k - ?b))" if "?b \<le> k" "k < ?b + ?l" for k
      using buf [of "k - ?b"] that 2 by simp
    have "?b \<le> ?b + ?l" "?b + ?l \<le> ?n" "0 + (?b + ?l - ?b) \<le> length (replicate N (None :: 'a option))" using 2 N by auto
    from MoveRange_run [OF this] live obtain src' dst' where
      d: "MoveRange ?b (?b + ?l) (dq_buffer q) 0 (replicate N None) = Inr (src', dst')" "length dst' = N"
        "\<And>k. k < N \<Longrightarrow> dst' ! k = (if k < ?l then dq_buffer q ! (?b + k) else None)"
      by auto
    have "dst' ! k = ?R ! k" if "k < N" for k using d(3) [OF that] live [of "?b + k"] that by (simp add: nth_append)
    then have "dst' = ?R" using d(2) N by (intro nth_equalityI) auto
    with d(1) 2 e' show ?thesis by (simp add: MoveBuffer_def)
  next
    case 3
    let ?s = "?n - ?b"
    have live: "dq_buffer q ! k = Some (xs ! (k - ?b))" if "?b \<le> k" "k < ?n" for k
      using buf [of "k - ?b"] that 3 by (simp add: less_diff_conv2)
    have live': "dq_buffer q ! k = Some (xs ! (?s + k))" if "k < dq_end q" for k
    proof -
      have "?s + k < ?l" "\<not> ?b + (?s + k) < ?n" "?b + (?s + k) - ?n = k" using that e' 3 n by auto
      then show ?thesis using buf [of "?s + k"] by simp
    qed
    have "?b \<le> ?n" "?n \<le> ?n" "0 + (?n - ?b) \<le> length (replicate N (None :: 'a option))" using 3 N n by auto
    from MoveRange_run [OF this] live obtain src' dst' where
      d: "MoveRange ?b ?n (dq_buffer q) 0 (replicate N None) = Inr (src', dst')"
        "length src' = ?n" "length dst' = N" "\<And>k. k < ?b \<Longrightarrow> src' ! k = dq_buffer q ! k"
        "\<And>k. k < N \<Longrightarrow> dst' ! k = (if k < ?s then dq_buffer q ! (?b + k) else None)"
      by auto
    have e1: "dq_end q = ?b + ?l - ?n" "dq_end q < ?b" "?s + dq_end q = ?l" using e' 3 n by auto
    have "0 \<le> dq_end q" "dq_end q \<le> length src'" "?s + (dq_end q - 0) \<le> length dst'" using e1 d(2,3) n N by auto
    from MoveRange_run [OF this] live' d(4) e1(2) obtain src'' dst'' where
      d2: "MoveRange 0 (dq_end q) src' ?s dst' = Inr (src'', dst'')"
        "length dst'' = N" "\<And>k. k < N \<Longrightarrow> dst'' ! k = (if ?s \<le> k \<and> k < ?l then src' ! (k - ?s) else dst' ! k)"
      using d(3) e1(3) by auto
    have "dst'' ! k = ?R ! k" if "k < N" for k
    proof (cases "?s \<le> k")
      case True
      then show ?thesis using d2(3) [OF that] d(4) [of "k - ?s"] d(5) [OF that] live' [of "k - ?s"] e1 that
        by (auto simp: nth_append)
    next
      case False
      then show ?thesis using d2(3) [OF that] d(5) [OF that] live [of "?b + k"] e1 that n by (auto simp: nth_append)
    qed
    then have "dst'' = ?R" using d2(2) N by (intro nth_equalityI) auto
    with d(1,2) d2(1) e1 show ?thesis by (simp add: MoveBuffer_def Let_def)
  qed
qed

section \<open>Capacity\<close>

text \<open>The deque has a buffer with room for \<open>k\<close> more elements.\<close>

definition has_room :: "'a circular_deque \<Rightarrow> 'a list \<Rightarrow> nat \<Rightarrow> bool" where
  "has_room q xs k \<longleftrightarrow> ring q (map Some xs @ replicate (Suc k) None) \<and> dq_end q = slot q (length xs)"

definition sized :: "nat \<Rightarrow> 'a circular_deque \<Rightarrow> bool" where
  "sized esz q \<longleftrightarrow> esz * internal_capacity q < 2 ^ 64 \<and> internal_capacity q < 2 ^ 63"

lemma holds_alt:
  "holds esz q xs \<longleftrightarrow>
     sized esz q \<and> (dq_buffer q = [] \<and> xs = [] \<and> dq_begin q = dq_end q \<or> (\<exists>k. has_room q xs k))"
  by (auto simp: holds_def has_room_def sized_def)

lemma room_capacity: "has_room q xs k \<Longrightarrow> internal_capacity q = Suc (length xs + k)"
  using ringD by (fastforce simp: has_room_def)

lemma room_begin: "has_room q xs k \<Longrightarrow> dq_begin q < internal_capacity q"
  by (simp add: has_room_def ring_def)

text \<open>How many elements a deque may be asked to hold: up to half of what the address space allows.\<close>

definition fits_space :: "nat \<Rightarrow> nat \<Rightarrow> bool" where
  "fits_space esz m \<longleftrightarrow> esz * (2 * m + 4) < 2 ^ 64 \<and> 2 * m + 4 < 2 ^ 63"

lemma fits_less: "fits_space esz m \<Longrightarrow> n \<le> 2 * m + 4 \<Longrightarrow> esz * n < 2 ^ 64 \<and> n < 2 ^ 63"
  unfolding fits_space_def by (meson le_less_trans mult_le_mono2)

lemma fits_mono: "fits_space esz m \<Longrightarrow> n \<le> m \<Longrightarrow> fits_space esz n"
  using fits_less [of esz m "2 * n + 4"] by (simp add: fits_space_def)

lemma room_fresh:
  assumes "length xs \<le> c"
  shows "has_room (q\<lparr>dq_buffer := map Some xs @ replicate (Suc c - length xs) None, dq_begin := 0, dq_end := length xs\<rparr>) xs
    (c - length xs)"
  using assms by (simp add: has_room_def ring_def slot_def Suc_diff_le)

lemma SetCapacityTo_holds:
  assumes h: "holds esz q xs" and c: "length xs \<le> c" "esz * Suc c < 2 ^ 64" "Suc c < 2 ^ 63"
  shows "returns (SetCapacityTo esz c q) (\<lambda>q'. holds esz q' xs \<and> has_room q' xs (c - length xs) \<and> generation q' = generation q)"
proof -
  have "MoveBuffer (dq_buffer q) (dq_begin q) (dq_end q) (replicate (Suc c) None) =
      Inr (map Some xs @ replicate (Suc c - length xs) None, 0, length xs)"
  proof (cases "dq_buffer q = []")
    case True
    with h have "xs = []" "dq_begin q = dq_end q" by (auto simp: holds_def ring_def)
    then show ?thesis by (simp add: MoveBuffer_def)
  next
    case False
    with h obtain k where "ring q (map Some xs @ replicate (Suc k) None)" "dq_end q = slot q (length xs)"
      by (auto simp: holds_def)
    from MoveBuffer_ring [OF this, of "Suc c"] c(1) show ?thesis by simp
  qed
  moreover have "size_t_add c 1 = Suc c" using c(3) by (simp add: size_t_add_eq)
  ultimately show ?thesis
    using c room_fresh [OF c(1), of q] by (auto simp: SetCapacityTo_def VectorBuffer_new_def holds_alt sized_def)
qed

lemma ExpandCapacity_holds:
  assumes h: "holds esz q xs" and f: "fits_space esz (length xs + n)" and n: "0 < n"
  shows "returns (ExpandCapacityIfNecessary esz n q) (\<lambda>q'.
    holds esz q' xs \<and> (\<exists>k \<ge> n. has_room q' xs k) \<and> generation q' = generation q)"
proof -
  let ?m = "length xs + n"
  have sz: "dq_size q = length xs" by (rule dq_size_holds [OF h])
  have m: "size_t_add (length xs) n = ?m" using f by (simp add: size_t_add_eq fits_space_def)
  show ?thesis
  proof (cases "?m \<le> dq_capacity q")
    case True
    with n h obtain k where k: "has_room q xs k" by (auto simp: holds_alt dq_capacity_def)
    moreover have "n \<le> k" using True room_capacity [OF k] by (simp add: dq_capacity_def)
    ultimately show ?thesis using True h sz m by (auto simp: ExpandCapacityIfNecessary_def)
  next
    case False
    let ?c = "max (max ?m kCircularBufferInitialCapacity) (size_t_add (dq_capacity q) (dq_capacity q div 4))"
    have "size_t_add (dq_capacity q) (dq_capacity q div 4) = dq_capacity q + dq_capacity q div 4"
      using False f by (intro size_t_add_eq) (auto simp: fits_space_def)
    then have c: "?m \<le> ?c" "Suc ?c \<le> 2 * ?m + 4" using False by (auto simp: kCircularBufferInitialCapacity_def)
    have "length xs \<le> ?c" using c(1) by linarith
    from SetCapacityTo_holds [OF h this] fits_less [OF f c(2)] have
      "returns (SetCapacityTo esz ?c q) (\<lambda>q'. holds esz q' xs \<and> has_room q' xs (?c - length xs) \<and> generation q' = generation q)"
      by blast
    moreover have "n \<le> ?c - length xs" using c(1) by linarith
    ultimately show ?thesis using False sz m by (auto simp: ExpandCapacityIfNecessary_def Let_def elim!: returns_mono)
  qed
qed

lemma ShrinkCapacity_holds:
  assumes h: "holds esz q xs"
  shows "returns (ShrinkCapacityIfNecessary esz q) (\<lambda>q'. holds esz q' xs \<and> generation q' = generation q)"
proof (cases "dq_capacity q \<le> kCircularBufferInitialCapacity \<or> dq_capacity q - length xs < length xs")
  case True
  then show ?thesis using h dq_size_holds [OF h] by (auto simp: ShrinkCapacityIfNecessary_def Let_def)
next
  case False
  then obtain k where k: "has_room q xs k" using h by (auto simp: holds_alt dq_capacity_def)
  let ?c = "max kCircularBufferInitialCapacity (size_t_add (length xs) (length xs div 4))"
  have s: "esz * internal_capacity q < 2 ^ 64" "internal_capacity q < 2 ^ 63" using h by (auto simp: holds_def)
  have cap: "dq_capacity q = length xs + k" using room_capacity [OF k] by (simp add: dq_capacity_def)
  have a: "size_t_add (length xs) (length xs div 4) = length xs + length xs div 4"
    using s(2) room_capacity [OF k] by (intro size_t_add_eq) auto
  show ?thesis
  proof (cases "?c < dq_capacity q")
    case True
    have "Suc ?c \<le> internal_capacity q" using True cap room_capacity [OF k] by linarith
    then have "esz * Suc ?c < 2 ^ 64" "Suc ?c < 2 ^ 63"
      using s mult_le_mono2 [of "Suc ?c" "internal_capacity q" esz] by linarith+
    moreover have "length xs \<le> ?c" using a by simp
    ultimately have "returns (SetCapacityTo esz ?c q) (\<lambda>q'. holds esz q' xs \<and> generation q' = generation q)"
      using SetCapacityTo_holds [OF h, of ?c] by (auto elim!: returns_mono)
    then show ?thesis using False True dq_size_holds [OF h] by (simp add: ShrinkCapacityIfNecessary_def Let_def)
  next
    case F: False
    then show ?thesis using False h dq_size_holds [OF h] by (simp add: ShrinkCapacityIfNecessary_def Let_def)
  qed
qed

section \<open>The ends\<close>

lemma generation_simps [simp]:
  "ring (IncrementGeneration d q) cs \<longleftrightarrow> ring q cs" "has_room (IncrementGeneration d q) xs k \<longleftrightarrow> has_room q xs k"
  "holds esz (IncrementGeneration d q) xs \<longleftrightarrow> holds esz q xs"
  "dq_buffer (IncrementGeneration d q) = dq_buffer q" "dq_begin (IncrementGeneration d q) = dq_begin q"
  "dq_end (IncrementGeneration d q) = dq_end q"
  by (simp_all add: IncrementGeneration_def ring_def has_room_def holds_def slot_def)

lemma room_holds: "has_room q xs k \<Longrightarrow> sized esz q \<Longrightarrow> holds esz q xs"
  by (auto simp: holds_alt)

lemma sized_cong [simp]:
  "sized esz (q\<lparr>dq_begin := b\<rparr>) = sized esz q" "sized esz (q\<lparr>dq_end := e\<rparr>) = sized esz q"
  "length buf = internal_capacity q \<Longrightarrow> sized esz (q\<lparr>dq_buffer := buf\<rparr>) = sized esz q"
  "sized esz (IncrementGeneration d q) = sized esz q"
  by (simp_all add: sized_def)

text \<open>Another cell becomes the beginning.\<close>

lemma ring_turn:
  assumes "ring q (us @ vs)" "b = slot q (length us)"
  shows "ring (q\<lparr>dq_begin := b\<rparr>) (vs @ us)"
proof -
  have "rotate (dq_begin q + length us) (dq_buffer q) = vs @ us"
    using assms(1) by (simp add: ring_def rotate_add rotate_append')
  then show ?thesis
    using slot_less [OF assms(1), of "length us"] assms(2) rotate_step [of "dq_begin q + length us" "dq_buffer q"]
    by (simp add: ring_def slot_def)
qed

lemma slot_turn: "b = slot q k \<Longrightarrow> slot (q\<lparr>dq_begin := b\<rparr>) i = slot q (k + i)"
  by (simp add: slot_def mod_add_left_eq add.assoc)

lemma slot_around: "slot q (internal_capacity q + i) = slot q i"
  by (metis add.left_commute mod_add_self1 slot_def)

lemma slot_cong [simp]:
  "slot (q\<lparr>dq_end := e\<rparr>) i = slot q i" "slot (q\<lparr>generation := g\<rparr>) i = slot q i"
  "length buf = internal_capacity q \<Longrightarrow> slot (q\<lparr>dq_buffer := buf\<rparr>) i = slot q i"
  "slot (IncrementGeneration d q) i = slot q i"
  by (simp_all add: slot_def)

lemma ring_cong [simp]: "ring (q\<lparr>dq_end := e\<rparr>) cs = ring q cs" "ring (q\<lparr>generation := g\<rparr>) cs = ring q cs"
  by (simp_all add: ring_def)

lemma slot_next: "ring q cs \<Longrightarrow> i < length cs \<Longrightarrow>
    (if Suc (slot q i) = internal_capacity q then 0 else Suc (slot q i)) = slot q (Suc i)"
  using slot_cases [of q cs i] slot_cases [of q cs "Suc i"] ringD [of q cs] by (auto split: if_splits)

lemma slot_prev: "ring q cs \<Longrightarrow> i < length cs \<Longrightarrow>
    (if slot q (Suc i) = 0 then internal_capacity q - 1 else slot q (Suc i) - 1) = slot q i"
  using slot_cases [of q cs i] slot_cases [of q cs "Suc i"] ringD [of q cs] by (auto split: if_splits)

lemma emplace_front_holds:
  assumes h: "holds esz q xs" and f: "fits_space esz (length xs + 1)"
  shows "returns (emplace_front d esz v q) (\<lambda>q'. holds esz q' (v # xs))"
proof -
  from ExpandCapacity_holds [OF h f] obtain q1 k where
    q1: "ExpandCapacityIfNecessary esz 1 q = Inr q1" "holds esz q1 xs" "has_room q1 xs (Suc k)"
    by (auto elim!: returnsE dest!: Suc_le_D)
  let ?n = "internal_capacity q1" let ?us = "map Some xs @ replicate (Suc k) None"
  let ?b = "if dq_begin q1 = 0 then ?n - 1 else dq_begin q1 - 1"
  let ?q = "q1\<lparr>dq_begin := ?b, dq_buffer := (dq_buffer q1)[?b := Some v]\<rparr>"
  have r: "ring q1 (?us @ [None])" "dq_end q1 = slot q1 (length xs)"
    using q1(3) by (auto simp: has_room_def replicate_append_same)
  have n: "?n = Suc (length ?us)" using ringD [OF r(1)] by simp
  have b: "?b = slot q1 (length ?us)"
    using slot_prev [OF r(1), of "length ?us"] slot_around [of q1 0] slot_0 [OF r(1)] n by (auto split: if_splits)
  have t: "ring (q1\<lparr>dq_begin := ?b\<rparr>) (None # ?us)" using ring_turn [OF r(1) b] by simp
  then have "ring ?q (Some v # ?us)" using ring_update [OF t, of 0 "Some v"] slot_0 [OF t] by simp
  moreover have "slot ?q (Suc (length xs)) = slot q1 (length xs)"
    using slot_turn [OF b, of "Suc (length xs)"] slot_around [of q1 "length xs"] n by (simp add: slot_def)
  ultimately have "has_room ?q (v # xs) k" using r(2) by (simp add: has_room_def)
  then have h': "holds esz ?q (v # xs)" using q1(2) by (auto simp: holds_alt)
  have "?b < ?n" using slot_less [OF r(1)] b by simp
  then have "vb_construct ?b v (dq_buffer q1) = Inr ((dq_buffer q1)[?b := Some v])"
    by (simp add: vb_construct_def vb_address_def)
  moreover have "(IncrementGeneration d (q1\<lparr>dq_begin := ?b\<rparr>))\<lparr>dq_buffer := (dq_buffer q1)[?b := Some v]\<rparr> = IncrementGeneration d ?q"
    by (simp add: IncrementGeneration_def)
  moreover have "dq_front d (IncrementGeneration d ?q) = Inr v" using h' by (intro dq_front_holds) simp
  ultimately show ?thesis using h' q1(1) by (simp add: emplace_front_def Let_def)
qed

lemma emplace_back_holds:
  assumes h: "holds esz q xs" and f: "fits_space esz (length xs + 1)"
  shows "returns (emplace_back d esz v q) (\<lambda>q'. holds esz q' (xs @ [v]))"
proof -
  from ExpandCapacity_holds [OF h f] obtain q1 k where
    q1: "ExpandCapacityIfNecessary esz 1 q = Inr q1" "holds esz q1 xs" "has_room q1 xs (Suc k)"
    by (auto elim!: returnsE dest!: Suc_le_D)
  let ?cs = "map Some xs @ None # replicate (Suc k) None" let ?n = "internal_capacity q1"
  have r: "ring q1 ?cs" and e: "dq_end q1 = slot q1 (length xs)" using q1(3) by (auto simp: has_room_def)
  let ?q = "q1\<lparr>dq_buffer := (dq_buffer q1)[dq_end q1 := Some v], dq_end := slot q1 (Suc (length xs))\<rparr>"
  have n: "0 < ?n" using ringD [OF r] by auto
  have e': "(if dq_end q1 = ?n - 1 then 0 else Suc (dq_end q1)) = slot q1 (Suc (length xs))"
    using slot_next [OF r, of "length xs"] e n by (auto split: if_splits)
  have "ring ?q (map Some (xs @ [v]) @ replicate (Suc k) None)"
    using ring_update [OF r, of "length xs" "Some v"] e by (simp add: list_update_append)
  then have "has_room ?q (xs @ [v]) k" by (simp add: has_room_def)
  then have h': "holds esz ?q (xs @ [v])" using q1(2) by (auto simp: holds_alt)
  have "vb_construct (dq_end q1) v (dq_buffer q1) = Inr ((dq_buffer q1)[dq_end q1 := Some v])"
    using vb_construct_slot [OF r] e by simp
  moreover have "dq_back d (IncrementGeneration d ?q) = Inr v" using h' by (intro dq_back_holds) simp
  ultimately show ?thesis using h' q1(1) e' by (simp add: emplace_back_def Let_def)
qed

end
