(* ===== verification/Rtc_DequeOps.thy ===== *)
theory Rtc_DequeOps
  imports Rtc_DequeRep
begin

text \<open>The operations of the deque of theory \<open>Rtc_Deque\<close>, each with what it does to the list of elements.\<close>

section \<open>Removing at the ends\<close>

lemma destruct_one: "i < length buf \<Longrightarrow> buf ! i \<noteq> None \<Longrightarrow> vb_DestructRange i (i + 1) buf = Inr (buf[i := None])"
  by (simp add: vb_DestructRange_def vb_address_def vb_destruct_def)

lemma holds_room: "holds esz q (x # xs) \<Longrightarrow> \<exists>k. has_room q (x # xs) k"
  by (simp add: holds_alt)

lemma pop_front_holds:
  assumes h: "holds esz q (x # xs)"
  shows "returns (pop_front d esz q) (\<lambda>q'. holds esz q' xs)"
proof -
  obtain k where k: "has_room q (x # xs) k" using holds_room [OF h] by blast
  let ?us = "map Some xs @ replicate (Suc k) None" let ?buf = "(dq_buffer q)[dq_begin q := None]"
  let ?b = "slot q 1" let ?q = "q\<lparr>dq_buffer := ?buf, dq_begin := ?b\<rparr>"
  have r: "ring q (Some x # ?us)" and e: "dq_end q = slot q (Suc (length xs))" using k by (auto simp: has_room_def)
  have r': "ring (q\<lparr>dq_buffer := ?buf\<rparr>) ([None] @ ?us)" using ring_update [OF r, of 0 None] slot_0 [OF r] by simp
  have "ring ?q (?us @ [None])" by (rule ring_turn [OF r']) simp
  then have "ring ?q (map Some xs @ replicate (Suc (Suc k)) None)" by (simp add: replicate_append_same)
  moreover have "slot ?q (length xs) = slot q (Suc (length xs))"
    using slot_turn [of ?b "q\<lparr>dq_buffer := ?buf\<rparr>" 1 "length xs"] by simp
  ultimately have "has_room ?q xs (Suc k)" using e by (simp add: has_room_def)
  then have "holds esz ?q xs" using h by (auto simp: holds_alt)
  moreover have "vb_DestructRange (dq_begin q) (dq_begin q + 1) (dq_buffer q) = Inr ?buf"
    using ring_nth [OF r, of 0] slot_0 [OF r] ringD [OF r] by (intro destruct_one) auto
  moreover have "(if Suc (dq_begin q) = internal_capacity q then 0 else Suc (dq_begin q)) = ?b"
    using slot_next [OF r, of 0] slot_0 [OF r] by (auto split: if_splits)
  ultimately show ?thesis
    using ShrinkCapacity_holds [of esz ?q xs] dq_size_holds [OF h] by (auto simp: pop_front_def elim!: returnsE)
qed

lemma pop_back_holds:
  assumes h: "holds esz q (xs @ [x])"
  shows "returns (pop_back d esz q) (\<lambda>q'. holds esz q' xs)"
proof -
  obtain k where k: "has_room q (xs @ [x]) k" using h by (auto simp: holds_alt)
  let ?e = "slot q (length xs)" let ?buf = "(dq_buffer q)[?e := None]"
  let ?q = "q\<lparr>dq_buffer := ?buf, dq_end := ?e\<rparr>"
  have r: "ring q (map Some xs @ Some x # replicate (Suc k) None)" and e: "dq_end q = slot q (Suc (length xs))"
    using k by (auto simp: has_room_def)
  have "ring ?q (map Some xs @ replicate (Suc (Suc k)) None)"
    using ring_update [OF r, of "length xs" None] by (simp add: list_update_append)
  then have "has_room ?q xs (Suc k)" by (simp add: has_room_def)
  then have "holds esz ?q xs" using h by (auto simp: holds_alt)
  moreover have "vb_DestructRange ?e (?e + 1) (dq_buffer q) = Inr ?buf"
    using ring_nth [OF r, of "length xs"] slot_less [OF r] by (intro destruct_one) (auto simp: nth_append)
  moreover have "(if dq_end q = 0 then internal_capacity q - 1 else dq_end q - 1) = ?e"
    using slot_prev [OF r, of "length xs"] e by (auto split: if_splits)
  ultimately show ?thesis
    using ShrinkCapacity_holds [of esz ?q xs] dq_size_holds [OF h] by (auto simp: pop_back_def elim!: returnsE)
qed

section \<open>Whole deques\<close>

lemma push_back_n_holds:
  assumes "holds esz q xs" "fits_space esz (length xs + length vs)"
  shows "returns (push_back_n d esz vs q) (\<lambda>q'. holds esz q' (xs @ vs))"
  using assms
proof (induction vs arbitrary: q xs)
  case (Cons v vs)
  have f: "fits_space esz (length xs + 1)" using Cons.prems(2) by (rule fits_mono) simp
  from emplace_back_holds [OF Cons.prems(1) f, of d v] obtain q' where
    "emplace_back d esz v q = Inr q'" "holds esz q' (xs @ [v])" by (auto elim: returnsE)
  with Cons.IH [of q' "xs @ [v]"] Cons.prems(2) show ?case by simp
qed simp

lemma push_front_n_holds:
  assumes "holds esz q xs" "fits_space esz (length xs + n)"
  shows "returns (push_front_n d esz n v q) (\<lambda>q'. holds esz q' (replicate n v @ xs))"
  using assms
proof (induction n arbitrary: q xs)
  case (Suc n)
  have f: "fits_space esz (length xs + 1)" using Suc.prems(2) by (rule fits_mono) simp
  from emplace_front_holds [OF Suc.prems(1) f, of d v] obtain q' where
    "emplace_front d esz v q = Inr q'" "holds esz q' (v # xs)" by (auto elim: returnsE)
  with Suc.IH [of q' "v # xs"] Suc.prems(2) show ?case by (simp add: replicate_app_Cons_same)
qed simp

text \<open>Destroying all elements from position \<open>i\<close> on.\<close>

lemma destruct_tail:
  assumes "has_room q xs k" "i \<le> length xs"
  shows "returns (dq_DestructRange (slot q i) (dq_end q) (dq_buffer q))
    (\<lambda>buf. has_room (q\<lparr>dq_buffer := buf, dq_end := slot q i\<rparr>) (take i xs) (k + (length xs - i)) \<and> length buf = internal_capacity q)"
proof -
  have r: "ring q (map Some xs @ replicate (Suc k) None)" and e: "dq_end q = slot q (length xs)"
    using assms(1) by (auto simp: has_room_def)
  have "take i (map Some xs @ replicate (Suc k) None) @ replicate (length xs - i) None @
      drop (length xs) (map Some xs @ replicate (Suc k) None) = map Some (take i xs) @ replicate (Suc (k + (length xs - i))) None"
    using assms(2) by (simp add: take_map replicate_add [symmetric] add.commute flip: replicate_Suc)
  moreover have "length (take i xs) = i" using assms(2) by simp
  ultimately show ?thesis
    using destruct_slots [OF r assms(2)] e by (auto simp: has_room_def nth_append elim!: returns_mono)
qed

lemma ClearRetainCapacity_holds:
  assumes h: "holds esz q xs"
  shows "returns (ClearRetainCapacity d q) (\<lambda>q'. holds esz q' [])"
proof (cases "dq_buffer q = []")
  case True
  with h show ?thesis by (auto simp: ClearRetainCapacity_def dq_DestructRange_def holds_alt has_room_def ring_def)
next
  case False
  with h obtain k where k: "has_room q xs k" by (auto simp: holds_alt)
  then have r: "ring q (map Some xs @ replicate (Suc k) None)" by (simp add: has_room_def)
  from destruct_tail [OF k, of 0] slot_0 [OF r] obtain buf where
    b: "dq_DestructRange (dq_begin q) (dq_end q) (dq_buffer q) = Inr buf" "length buf = internal_capacity q"
      "ring (q\<lparr>dq_buffer := buf\<rparr>) (replicate (Suc (k + length xs)) None)"
    by (auto simp: has_room_def elim!: returnsE)
  have "rotate (dq_begin q) buf = replicate (Suc (k + length xs)) None" using b(3) by (simp add: ring_def)
  then have "set (rotate (dq_begin q) buf) = set (replicate (Suc (k + length xs)) None)" by (rule arg_cong)
  then have "set buf = {None}" by (simp del: replicate_Suc)
  then have "buf = replicate (length buf) None" by (intro replicate_eqI) auto
  moreover have "0 < length buf" using b(2) False by simp
  ultimately have "has_room (q\<lparr>dq_buffer := buf, dq_begin := 0, dq_end := 0\<rparr>) [] (length buf - 1)"
    by (simp add: has_room_def ring_def slot_def)
  with h b(1,2) show ?thesis by (auto simp: ClearRetainCapacity_def holds_alt)
qed

lemma dq_clear_holds: "holds esz q xs \<Longrightarrow> returns (dq_clear d q) (\<lambda>q'. holds esz q' [])"
proof -
  assume "holds esz q xs"
  then obtain buf where "dq_DestructRange (dq_begin q) (dq_end q) (dq_buffer q) = Inr buf"
    using ClearRetainCapacity_holds [of esz q xs d] by (auto simp: ClearRetainCapacity_def rbind_eq_Inr elim!: returnsE)
  then show ?thesis by (simp add: dq_clear_def ClearRetainCapacity_def holds_def IncrementGeneration_def)
qed

lemma reserve_holds:
  assumes h: "holds esz q xs" and c: "esz * Suc c < 2 ^ 64" "Suc c < 2 ^ 63"
  shows "returns (reserve esz c q) (\<lambda>q'. holds esz q' xs \<and> c \<le> dq_capacity q')"
proof (cases "dq_capacity q < c")
  case True
  have "length xs \<le> dq_capacity q" using h room_capacity by (fastforce simp: holds_alt dq_capacity_def)
  with True have "length xs \<le> c" by simp
  from SetCapacityTo_holds [OF h this c] have "returns (SetCapacityTo esz c q) (\<lambda>q'. holds esz q' xs \<and> c \<le> dq_capacity q')"
    by (rule returns_mono) (use \<open>length xs \<le> c\<close> in \<open>auto simp: dq_capacity_def dest: room_capacity\<close>)
  with True show ?thesis by (simp add: reserve_def)
qed (use h in \<open>simp add: reserve_def\<close>)

lemma shrink_to_fit_holds:
  assumes h: "holds esz q xs"
  shows "returns (shrink_to_fit esz q) (\<lambda>q'. holds esz q' xs \<and> dq_capacity q' = length xs)"
proof (cases "xs = []")
  case True
  then show ?thesis using h dq_empty_holds [OF h]
    by (auto simp: shrink_to_fit_def holds_def dq_capacity_def dq_empty_def)
next
  case False
  with h obtain k where k: "has_room q xs k" by (auto simp: holds_alt)
  have "Suc (length xs) \<le> internal_capacity q" using room_capacity [OF k] by simp
  then have "esz * Suc (length xs) < 2 ^ 64" "Suc (length xs) < 2 ^ 63"
    using h mult_le_mono2 [of "Suc (length xs)" "internal_capacity q" esz] unfolding holds_def by linarith+
  from SetCapacityTo_holds [OF h order_refl this]
  have "returns (SetCapacityTo esz (length xs) q) (\<lambda>q'. holds esz q' xs \<and> dq_capacity q' = length xs)"
    by (rule returns_mono) (auto simp: dq_capacity_def dest: room_capacity)
  with False dq_empty_holds [OF h] dq_size_holds [OF h] show ?thesis by (simp add: shrink_to_fit_def)
qed

lemma resize_holds:
  assumes h: "holds esz q xs" and f: "fits_space esz n"
  shows "returns (resize d esz n v q) (\<lambda>q'. holds esz q' (take n xs @ replicate (n - length xs) v))"
proof -
  have sz: "dq_size q = length xs" by (rule dq_size_holds [OF h])
  consider "length xs < n" | "length xs = n" | "n < length xs" by linarith
  then show ?thesis
  proof cases
    case 1
    from ExpandCapacity_holds [OF h, of "n - length xs"] 1 f obtain q1 where
      q1: "ExpandCapacityIfNecessary esz (n - length xs) q = Inr q1" "holds esz q1 xs" by (auto elim: returnsE)
    from push_back_n_holds [OF q1(2), of "replicate (n - length xs) v" d] 1 f q1(1) sz show ?thesis
      by (auto simp: resize_def elim!: returnsE)
  next
    case 2
    with h sz show ?thesis by (simp add: resize_def)
  next
    case 3
    with h obtain k where k: "has_room q xs k" by (auto simp: holds_alt)
    have "dq_begin q + n < 2 ^ 64" using h room_begin [OF k] room_capacity [OF k] 3 by (simp add: holds_def)
    then have e: "size_t_add (dq_begin q) n mod internal_capacity q = slot q n" by (simp add: slot_def)
    from destruct_tail [OF k, of n] 3 obtain buf where
      b: "dq_DestructRange (slot q n) (dq_end q) (dq_buffer q) = Inr buf" "length buf = internal_capacity q"
        "has_room (q\<lparr>dq_buffer := buf, dq_end := slot q n\<rparr>) (take n xs) (k + (length xs - n))"
      by (auto elim: returnsE)
    then have "holds esz (q\<lparr>dq_buffer := buf, dq_end := slot q n\<rparr>) (take n xs)" using h by (auto simp: holds_alt)
    from ShrinkCapacity_holds [OF this] b(1) 3 sz e show ?thesis by (auto simp: resize_def Let_def elim!: returnsE)
  qed
qed

end
