(* ===== verification/Rtc_DequeEdit.thy ===== *)
theory Rtc_DequeEdit
  imports Rtc_DequeOps
begin

text \<open>Inserting into and removing from the middle of the deque of theory \<open>Rtc_Deque\<close>.\<close>

section \<open>A list with a gap\<close>

definition gap :: "nat \<Rightarrow> nat \<Rightarrow> 'a list \<Rightarrow> 'a cells" where
  "gap c s xs = map Some (take s xs) @ replicate c None @ map Some (drop s xs)"

lemma length_gap [simp]: "length (gap c s xs) = length xs + c"
  by (simp add: gap_def)

lemma nth_gap:
  assumes "s \<le> length xs" "p < length xs + c"
  shows "gap c s xs ! p = (if p < s then Some (xs ! p) else if p < s + c then None else Some (xs ! (p - c)))"
  using assms by (auto simp: gap_def nth_append)

lemma gap_left:
  assumes "s < length xs" "0 < c"
  shows "(gap c (Suc s) xs @ zs)[s + c := Some (xs ! s), s := None] = gap c s xs @ zs"
proof (rule nth_equalityI)
  fix p
  assume "p < length ((gap c (Suc s) xs @ zs)[s + c := Some (xs ! s), s := None])"
  then show "(gap c (Suc s) xs @ zs)[s + c := Some (xs ! s), s := None] ! p = (gap c s xs @ zs) ! p"
    using assms nth_gap [of "Suc s" xs p c] nth_gap [of s xs p c] by (auto simp: nth_append nth_list_update)
qed simp

lemma gap_right:
  assumes "s < length xs" "0 < c"
  shows "(gap c s xs @ zs)[s := Some (xs ! s), s + c := None] = gap c (Suc s) xs @ zs"
proof (rule nth_equalityI)
  fix p
  assume "p < length ((gap c s xs @ zs)[s := Some (xs ! s), s + c := None])"
  then show "(gap c s xs @ zs)[s := Some (xs ! s), s + c := None] ! p = (gap c (Suc s) xs @ zs) ! p"
    using assms nth_gap [of "Suc s" xs p c] nth_gap [of s xs p c] by (auto simp: nth_append nth_list_update)
qed simp

lemma gap_end: "gap c (length xs) xs = map Some xs @ replicate c None"
  by (simp add: gap_def)

lemma gap_fill:
  "i \<le> length xs \<Longrightarrow> take i (gap (length vs) i xs @ zs) @ map Some vs @ drop (i + length vs) (gap (length vs) i xs @ zs) =
    map Some (take i xs @ vs @ drop i xs) @ zs"
  by (simp add: gap_def)

section \<open>The loops\<close>

text \<open>Only the cells change, not their number.\<close>

definition same_frame :: "'a circular_deque \<Rightarrow> 'a circular_deque \<Rightarrow> bool" where
  "same_frame q q' \<longleftrightarrow> (\<exists>buf. q' = q\<lparr>dq_buffer := buf\<rparr> \<and> length buf = internal_capacity q)"

lemma same_frame_refl [simp]: "same_frame q q"
  unfolding same_frame_def by (rule exI [of _ "dq_buffer q"]) simp

lemma same_frame_update: "same_frame (q\<lparr>dq_buffer := buf\<rparr>) q' \<Longrightarrow> length buf = internal_capacity q \<Longrightarrow> same_frame q q'"
  by (auto simp: same_frame_def)

lemma at_pos_cong [simp]:
  "length buf = internal_capacity q \<Longrightarrow> at_pos (q\<lparr>dq_buffer := buf\<rparr>) i it = at_pos q i it"
  "at_pos (q\<lparr>dq_end := e\<rparr>) i it = at_pos q i it"
  by (simp_all add: at_pos_def)

lemma same_frameD:
  "same_frame q q' \<Longrightarrow> dq_begin q' = dq_begin q \<and> dq_end q' = dq_end q \<and> generation q' = generation q \<and>
    internal_capacity q' = internal_capacity q \<and> slot q' i = slot q i"
  by (auto simp: same_frame_def)

lemma shift_right_run:
  assumes "ring q (gap c s xs @ zs)" "zs \<noteq> []" "dq_end q = slot q (length xs + c)"
    and "at_pos q s src" "at_pos q (s + c) dest" "at_pos q i stop" "i \<le> s" "s \<le> length xs" "0 < c" "s - i < fuel"
  shows "returns (shift_right d fuel src dest stop q) (\<lambda>q'. ring q' (gap c i xs @ zs) \<and> same_frame q q')"
  using assms
proof (induction "s - i" arbitrary: s fuel src dest q)
  case 0
  obtain f where f: "fuel = Suc f" using "0.prems"(10) by (cases fuel) auto
  have "iter_eq d src stop = Inr True"
    using iter_eq_pos [OF "0.prems"(1,4,6)] "0.hyps" "0.prems" by simp
  then show ?case using 0 f by simp
next
  case (Suc m)
  obtain f where f: "fuel = Suc f" using Suc.prems(10) by (cases fuel) auto
  obtain s' where s: "s = Suc s'" using Suc.hyps(2) by (cases s) auto
  let ?cs = "gap c s xs @ zs"
  have len: "s < length ?cs" "s + c < length ?cs" "length xs + c < length ?cs" using Suc.prems(2,8) by (cases zs; simp)+
  have "iter_eq d src stop = Inr False"
    using iter_eq_pos [OF Suc.prems(1,4,6)] Suc.hyps(2) len(1) by simp
  moreover obtain src' where src: "Decrement d q src = Inr src'" "at_pos q s' src'"
    using Decrement_pos [OF Suc.prems(1,3) len(3), of s' src d] Suc.prems(4,8) s by (auto elim: returnsE)
  moreover obtain dest' where dest: "Decrement d q dest = Inr dest'" "at_pos q (s' + c) dest'"
    using Decrement_pos [OF Suc.prems(1,3) len(3), of "s' + c" dest d] Suc.prems(5,8) s by (auto elim: returnsE)
  moreover have "?cs ! s' = Some (xs ! s')" using nth_gap [of s xs s' c] s Suc.prems(8) by (simp add: nth_append)
  then have "MoveOne (it_index src') (it_index dest') (dq_buffer q) =
      Inr ((dq_buffer q)[slot q (s' + c) := Some (xs ! s'), slot q s' := None])"
    using MoveOne_slot [OF Suc.prems(1), of s' "s' + c"] src(2) dest(2) s len Suc.prems(9) by (simp add: at_pos_def)
  ultimately have step: "shift_right d fuel src dest stop q = shift_right d f src' dest' stop
      (q\<lparr>dq_buffer := (dq_buffer q)[slot q (s' + c) := Some (xs ! s'), slot q s' := None]\<rparr>)" (is "_ = shift_right _ _ _ _ _ ?q")
    using f by simp
  have r1: "ring (q\<lparr>dq_buffer := (dq_buffer q)[slot q (s' + c) := Some (xs ! s')]\<rparr>) (?cs[s' + c := Some (xs ! s')])"
    using Suc.prems(1) len s by (intro ring_update) auto
  have "ring ?q (?cs[s' + c := Some (xs ! s'), s' := None])" using ring_update [OF r1, of s' None] len s by simp
  then have "ring ?q (gap c s' xs @ zs)" using gap_left [of s' xs c zs] s Suc.prems(8,9) by simp
  then have "returns (shift_right d f src' dest' stop ?q) (\<lambda>q'. ring q' (gap c i xs @ zs) \<and> same_frame ?q q')"
    using Suc.prems Suc.hyps(2) src(2) dest(2) s f by (intro Suc.hyps(1) [of s']) auto
  then show ?case unfolding step by (rule returns_mono) (auto intro: same_frame_update)
qed

lemma shift_left_run:
  assumes "ring q (gap c s ys @ zs)" "zs \<noteq> []" "dq_end q = slot q (length ys + c)"
    and "at_pos q (s + c) src" "at_pos q (length ys + c) stop" "at_pos q s dest" "s \<le> length ys" "0 < c" "length ys - s < fuel"
  shows "returns (shift_left d fuel src stop dest q) (\<lambda>(it, q').
    at_pos q' (length ys) it \<and> ring q' (gap c (length ys) ys @ zs) \<and> same_frame q q')"
  using assms
proof (induction "length ys - s" arbitrary: s fuel src dest q)
  case 0
  obtain f where f: "fuel = Suc f" using "0.prems"(9) by (cases fuel) auto
  have "iter_less d q src stop = Inr False"
    using iter_less_pos [OF "0.prems"(1,4,5)] "0.hyps" "0.prems" by simp
  then show ?case using 0 f by simp
next
  case (Suc m)
  obtain f where f: "fuel = Suc f" using Suc.prems(9) by (cases fuel) auto
  have s: "s < length ys" using Suc.hyps(2) by simp
  let ?cs = "gap c s ys @ zs"
  let ?q = "q\<lparr>dq_buffer := (dq_buffer q)[slot q s := Some (ys ! s), slot q (s + c) := None]\<rparr>"
  have len: "s < length ?cs" "s + c < length ?cs" "length ys + c < length ?cs" using Suc.prems(2) s by auto
  have less: "iter_less d q src stop = Inr True" using iter_less_pos [OF Suc.prems(1,4,5)] s len by simp
  have "?cs ! (s + c) = Some (ys ! s)" using nth_gap [of s ys "s + c" c] s by (simp add: nth_append)
  then have move: "MoveOne (it_index src) (it_index dest) (dq_buffer q) =
      Inr ((dq_buffer q)[slot q s := Some (ys ! s), slot q (s + c) := None])"
    using MoveOne_slot [OF Suc.prems(1), of "s + c" s] Suc.prems(4,6,8) len by (simp add: at_pos_def)
  have r1: "ring (q\<lparr>dq_buffer := (dq_buffer q)[slot q s := Some (ys ! s)]\<rparr>) (?cs[s := Some (ys ! s)])"
    using Suc.prems(1) len by (intro ring_update) auto
  have "ring ?q (?cs[s := Some (ys ! s), s + c := None])" using ring_update [OF r1, of "s + c" None] len by simp
  then have r: "ring ?q (gap c (Suc s) ys @ zs)" using gap_right [of s ys c zs] s Suc.prems(8) by simp
  have e: "dq_end ?q = slot ?q (length ys + c)" "length ys + c < length (gap c (Suc s) ys @ zs)"
    using Suc.prems(2,3) by simp_all
  obtain src' where src: "Increment d ?q src = Inr src'" "at_pos ?q (Suc s + c) src'"
    using Increment_pos [OF r e, of "s + c" src d] Suc.prems(4) s by (auto elim: returnsE)
  obtain dest' where dest: "Increment d ?q dest = Inr dest'" "at_pos ?q (Suc s) dest'"
    using Increment_pos [OF r e, of s dest d] Suc.prems(6) s by (auto elim: returnsE)
  have step: "shift_left d fuel src stop dest q = shift_left d f src' stop dest' ?q"
    using f less move src(1) dest(1) by simp
  have "returns (shift_left d f src' stop dest' ?q) (\<lambda>(it, q').
      at_pos q' (length ys) it \<and> ring q' (gap c (length ys) ys @ zs) \<and> same_frame ?q q')"
    using Suc.prems Suc.hyps(2) r src(2) dest(2) e s f by (intro Suc.hyps(1) [of "Suc s"]) auto
  then show ?case unfolding step by (rule returns_mono) (auto intro: same_frame_update)
qed

declare fill_room.simps [simp del]

lemma fill_room_run:
  assumes "ring q cs" "dq_end q = slot q n" "n < length cs"
    and "at_pos q p cur" "at_pos q (p + length vs) stop" "p + length vs \<le> n"
  shows "returns (fill_room d vs cur stop q) (\<lambda>q'.
    ring q' (take p cs @ map Some vs @ drop (p + length vs) cs) \<and> same_frame q q')"
  using assms
proof (induction vs arbitrary: q cs p cur)
  case Nil
  then have "iter_less d q cur stop = Inr False" using iter_less_pos [OF Nil(1,4,5)] by simp
  with Nil show ?case by (subst fill_room.simps) simp
next
  case (Cons v vs)
  let ?q = "q\<lparr>dq_buffer := (dq_buffer q)[slot q p := Some v]\<rparr>"
  have p: "p < length cs" "p < n" using Cons.prems(3,6) by auto
  have less: "iter_less d q cur stop = Inr True" using iter_less_pos [OF Cons.prems(1,4,5)] Cons.prems(3,6) by simp
  have con: "vb_construct (it_index cur) v (dq_buffer q) = Inr ((dq_buffer q)[slot q p := Some v])"
    using vb_construct_slot [OF Cons.prems(1)] Cons.prems(4) by (simp add: at_pos_def)
  have r: "ring ?q (cs[p := Some v])" using ring_update [OF Cons.prems(1) p(1)] .
  have e: "dq_end ?q = slot ?q n" "n < length (cs[p := Some v])" using Cons.prems(2,3) by simp_all
  obtain cur' where cur: "Increment d ?q cur = Inr cur'" "at_pos ?q (Suc p) cur'"
    using Increment_pos [OF r e, of p cur d] Cons.prems(4) p by (auto elim: returnsE)
  have step: "fill_room d (v # vs) cur stop q = fill_room d vs cur' stop ?q"
    using less con cur(1) by (subst fill_room.simps) (simp add: Let_def)
  have "returns (fill_room d vs cur' stop ?q) (\<lambda>q'.
      ring q' (take (Suc p) (cs[p := Some v]) @ map Some vs @ drop (Suc p + length vs) (cs[p := Some v])) \<and> same_frame ?q q')"
    using Cons.prems(5,6) r e cur(2) by (intro Cons.IH) auto
  moreover have "take (Suc p) (cs[p := Some v]) @ map Some vs @ drop (Suc p + length vs) (cs[p := Some v]) =
      take p cs @ map Some (v # vs) @ drop (p + length (v # vs)) cs"
    using p(1) by (simp add: take_Suc_conv_app_nth)
  ultimately show ?case unfolding step by (auto elim!: returns_mono intro: same_frame_update)
qed

section \<open>Insertion\<close>

lemma slot_add: "(slot q i + c) mod internal_capacity q = slot q (i + c)"
  by (simp add: slot_def mod_add_left_eq add.assoc)

lemma gap_0 [simp]: "gap 0 i xs = map Some xs"
  by (simp add: gap_def flip: map_append)

text \<open>A deque with a gap of \<open>c\<close> cells at position \<open>i\<close>.\<close>

definition opened :: "nat \<Rightarrow> 'a circular_deque \<Rightarrow> 'a list \<Rightarrow> nat \<Rightarrow> nat \<Rightarrow> bool" where
  "opened esz q xs i c \<longleftrightarrow> sized esz q \<and> (\<exists>k. ring q (gap c i xs @ replicate (Suc k) None)) \<and> dq_end q = slot q (length xs + c)"

lemma MakeRoomFor_run:
  assumes h: "holds esz q xs" and f: "fits_space esz (length xs + c)" and it: "at_pos q i it" "i \<le> length xs" "xs \<noteq> []"
  shows "returns (MakeRoomFor d esz c it q) (\<lambda>(ib, ie, q').
    opened esz q' xs i c \<and> at_pos q' i ib \<and> at_pos q' (i + c) ie \<and> generation q' = generation q)"
proof -
  obtain k0 where k0: "ring q (map Some xs @ replicate (Suc k0) None)" using h it(3) by (auto simp: holds_def)
  show ?thesis
  proof (cases "c = 0")
    case True
    with h it show ?thesis by (auto simp: MakeRoomFor_def opened_def holds_alt has_room_def)
  next
    case False
    have o: "OffsetFromBegin it q = i" using OffsetFromBegin_slot [OF k0] it by (simp add: at_pos_def)
    from ExpandCapacity_holds [OF h f] False obtain q1 k1 where
      q1: "ExpandCapacityIfNecessary esz c q = Inr q1" "holds esz q1 xs" "c \<le> k1" "has_room q1 xs k1" "generation q1 = generation q"
      by (auto elim!: returnsE)
    obtain k where k: "k1 = c + k" using q1(3) le_Suc_ex by blast
    let ?n = "internal_capacity q1" let ?zs = "replicate (Suc k) (None :: 'a option)"
    have "replicate (Suc (c + k)) None = replicate c None @ ?zs" by (simp only: replicate_add [symmetric] add_Suc_right)
    then have r: "ring q1 (gap c (length xs) xs @ ?zs)" and e: "dq_end q1 = slot q1 (length xs)"
      using q1(4) k by (simp_all add: has_room_def gap_end)
    have n: "?n = Suc (length xs + c + k)" "dq_begin q1 < ?n" using ringD [OF r] by auto
    have s: "?n < 2 ^ 63" "sized esz q1" using q1(2) by (auto simp: holds_def sized_def)
    have add: "size_t_add a b = a + b" if "a < ?n" "b \<le> ?n" for a b using that s by (intro size_t_add_eq) simp
    let ?ib = "it\<lparr>it_index := slot q1 i\<rparr>" let ?ie = "make_iterator q1 (slot q1 (i + c))"
    let ?q2 = "q1\<lparr>dq_end := slot q1 (length xs + c)\<rparr>"
    have "i \<le> ?n" "c \<le> ?n" using n it(2) by auto
    then have sums: "size_t_add (dq_begin q1) i = dq_begin q1 + i" "size_t_add (slot q1 i) c = slot q1 i + c"
      "size_t_add (dq_end q1) c = dq_end q1 + c"
      using add slot_less [OF r] n(2) unfolding e by blast+
    have pos: "size_t_add (dq_begin q1) i mod ?n = slot q1 i" "size_t_add (slot q1 i) c mod ?n = slot q1 (i + c)"
      "size_t_add (dq_end q1) c mod ?n = slot q1 (length xs + c)"
      unfolding sums unfolding e slot_add by (simp_all add: slot_def)
    have "returns (shift_right d ?n (dq_end_iter q1) (dq_end_iter ?q2) ?ib ?q2)
        (\<lambda>q'. ring q' (gap c i xs @ ?zs) \<and> same_frame ?q2 q')"
      using r it e n False q1(5)
      by (intro shift_right_run [of _ c "length xs"]) (auto simp: at_pos_def dq_end_iter_def make_iterator_def)
    then obtain q3 where q3: "shift_right d ?n (dq_end_iter q1) (dq_end_iter ?q2) ?ib ?q2 = Inr q3"
        "ring q3 (gap c i xs @ ?zs)" "same_frame ?q2 q3" by (auto elim: returnsE)
    note fr = same_frameD [OF q3(3)]
    have "MakeRoomFor d esz c it q = Inr (?ib, ?ie, q3)" using False o q1(1) pos q3(1) by (simp add: MakeRoomFor_def Let_def)
    moreover have "opened esz q3 xs i c"
      using q3(2) fr s(2) by (auto simp: opened_def sized_def)
    moreover have "at_pos q3 i ?ib" "at_pos q3 (i + c) ?ie" "generation q3 = generation q"
      using fr it(1) q1(5) by (auto simp: at_pos_def make_iterator_def)
    ultimately show ?thesis by simp
  qed
qed

lemma iter_begin:
  assumes "holds esz q xs" "at_pos q i pos" "i \<le> length xs"
  shows "iter_eq d pos (dq_begin_iter q) = Inr (i = 0)"
proof (cases "dq_buffer q = []")
  case True
  with assms show ?thesis
    by (auto simp: holds_def ring_def at_pos_def slot_def iter_eq_def CheckComparable_def dq_begin_iter_def make_iterator_def)
next
  case False
  with assms(1) obtain k where k: "ring q (map Some xs @ replicate (Suc k) None)" by (auto simp: holds_def)
  have "at_pos q 0 (dq_begin_iter q)" using slot_0 [OF k] by (simp add: at_pos_def dq_begin_iter_def make_iterator_def)
  from iter_eq_pos [OF k assms(2) this] assms(3) show ?thesis by simp
qed

lemma fill_opened:
  assumes o: "opened esz q xs i (length vs)" and at: "at_pos q i cur" "at_pos q (i + length vs) stop" "i \<le> length xs"
  shows "returns (fill_room d vs cur stop q) (\<lambda>q'. holds esz q' (take i xs @ vs @ drop i xs))"
proof -
  obtain k where r: "ring q (gap (length vs) i xs @ replicate (Suc k) None)" and e: "dq_end q = slot q (length xs + length vs)"
    and s: "sized esz q" using o by (auto simp: opened_def)
  have l: "length xs + length vs < length (gap (length vs) i xs @ replicate (Suc k) None)" by simp
  from fill_room_run [OF r e l at(1,2), of d] at(3) obtain q' where
    q': "fill_room d vs cur stop q = Inr q'" "same_frame q q'"
      "ring q' (map Some (take i xs @ vs @ drop i xs) @ replicate (Suc k) None)"
    unfolding gap_fill [OF at(3)] by (auto elim!: returnsE)
  note fr = same_frameD [OF q'(2)]
  have "has_room q' (take i xs @ vs @ drop i xs) k" using q'(3) fr e at(3) by (simp add: has_room_def add.commute)
  with q'(1) fr s show ?thesis by (auto simp: holds_alt sized_def)
qed

lemma insert_n_holds:
  assumes h: "holds esz q xs" and f: "fits_space esz (length xs + c)" and at: "at_pos q i pos" "i \<le> length xs"
  shows "returns (insert_n d esz pos c v q) (\<lambda>q'. holds esz q' (take i xs @ replicate c v @ drop i xs))"
proof -
  have u: "ValidateIterator d pos q = Inr ()"
    using at(1) by (simp add: ValidateIterator_def CheckUnstableUsage_def at_pos_def)
  note eq = iter_begin [OF h at, of d]
  show ?thesis
  proof (cases "i = 0")
    case True
    have "returns (ExpandCapacityIfNecessary esz c q) (\<lambda>q'. holds esz q' xs)"
    proof (cases "c = 0")
      case False
      with ExpandCapacity_holds [OF h f] show ?thesis by (auto elim!: returns_mono)
    next
      case True
      have "length xs \<le> dq_capacity q" using h room_capacity by (fastforce simp: holds_alt dq_capacity_def)
      moreover have "size_t_add (length xs) 0 = length xs" using f by (intro size_t_add_eq [THEN trans]) (auto simp: fits_space_def)
      ultimately show ?thesis using True h dq_size_holds [OF h] by (simp add: ExpandCapacityIfNecessary_def)
    qed
    then obtain q1 where q1: "ExpandCapacityIfNecessary esz c q = Inr q1" "holds esz q1 xs" by (auto elim: returnsE)
    from push_front_n_holds [OF q1(2) f, of d v] True u eq q1(1) show ?thesis by (simp add: insert_n_def)
  next
    case False
    have pos: "at_pos q i (make_iterator q (it_index pos))" using at(1) by (simp add: at_pos_def make_iterator_def)
    have "xs \<noteq> []" using False at(2) by auto
    from MakeRoomFor_run [OF h f pos at(2) this, of d] obtain ib ie q1 where
      m: "MakeRoomFor d esz c (make_iterator q (it_index pos)) q = Inr (ib, ie, q1)" "opened esz q1 xs i c"
        "at_pos q1 i ib" "at_pos q1 (i + c) ie" by (auto elim!: returnsE)
    from fill_opened [of esz q1 xs i "replicate c v" ib ie d] m at(2) False u eq show ?thesis
      by (auto simp: insert_n_def elim!: returnsE)
  qed
qed

lemma open_front:
  assumes room: "has_room q xs (c + k)" and s: "sized esz q" and b: "b = slot q (internal_capacity q - c)"
  shows "opened esz (q\<lparr>dq_begin := b\<rparr>) xs 0 c" "slot (q\<lparr>dq_begin := b\<rparr>) c = dq_begin q"
proof -
  let ?us = "map Some xs @ replicate (Suc k) None"
  have "replicate (Suc (c + k)) (None :: 'a option) = replicate (Suc k) None @ replicate c None"
    by (simp only: replicate_add [symmetric] add_Suc_right add.commute)
  then have r: "ring q (?us @ replicate c None)" and e: "dq_end q = slot q (length xs)"
    using room by (auto simp: has_room_def)
  have n: "internal_capacity q = length ?us + c" using ringD [OF r] by simp
  then have b': "b = slot q (length ?us)" using b by simp
  have t: "slot (q\<lparr>dq_begin := b\<rparr>) (c + i) = slot q i" for i
    using slot_turn [OF b', of "c + i"] slot_around [of q i] n by (simp add: add.assoc)
  show "slot (q\<lparr>dq_begin := b\<rparr>) c = dq_begin q" using t [of 0] slot_0 [OF r] by simp
  have "ring (q\<lparr>dq_begin := b\<rparr>) (gap c 0 xs @ replicate (Suc k) None)"
    using ring_turn [OF r b'] by (simp add: gap_def)
  then show "opened esz (q\<lparr>dq_begin := b\<rparr>) xs 0 c" using s e t [of "length xs"] by (auto simp: opened_def add.commute)
qed

lemma insert_range_holds:
  assumes h: "holds esz q xs" and f: "fits_space esz (length xs + length vs)" and at: "at_pos q i pos" "i \<le> length xs"
  shows "returns (insert_range d esz pos vs q) (\<lambda>q'. holds esz q' (take i xs @ vs @ drop i xs))"
proof -
  have u: "ValidateIterator d pos q = Inr ()"
    using at(1) by (simp add: ValidateIterator_def CheckUnstableUsage_def at_pos_def)
  note eq = iter_begin [OF h at, of d]
  consider "vs = []" | "vs \<noteq> []" "i = 0" | "vs \<noteq> []" "i \<noteq> 0" by blast
  then show ?thesis
  proof cases
    case 1
    with u h show ?thesis by (simp add: insert_range_def)
  next
    case 2
    from ExpandCapacity_holds [OF h f] 2 obtain q1 k1 where
      q1: "ExpandCapacityIfNecessary esz (length vs) q = Inr q1" "holds esz q1 xs" "length vs \<le> k1" "has_room q1 xs k1"
      by (auto elim!: returnsE)
    obtain k where k: "k1 = length vs + k" using q1(3) le_Suc_ex by blast
    let ?n = "internal_capacity q1" let ?b = "slot q1 (?n - length vs)" let ?q2 = "q1\<lparr>dq_begin := ?b\<rparr>"
    have n: "?n = Suc (length xs + k1)" "dq_begin q1 < ?n" using room_capacity [OF q1(4)] room_begin [OF q1(4)] by auto
    have s: "?n < 2 ^ 63" "sized esz q1" using q1(2) by (auto simp: holds_def sized_def)
    have "(size_t_add (dq_begin q1) ?n - length vs) mod ?n = ?b"
      using s n q1(3) by (subst size_t_add_eq) (auto simp: slot_def)
    moreover note open_front [OF q1(4) [unfolded k] s(2) refl]
    moreover have "at_pos ?q2 0 (dq_begin_iter ?q2)" "at_pos ?q2 (length vs) (dq_begin_iter q1)"
      using calculation(2,3) by (auto simp: at_pos_def dq_begin_iter_def make_iterator_def opened_def slot_0)
    ultimately show ?thesis
      using fill_opened [of esz ?q2 xs 0 vs "dq_begin_iter ?q2" "dq_begin_iter q1" d] 2 u eq q1(1)
      by (auto simp: insert_range_def Let_def elim!: returnsE)
  next
    case 3
    have pos: "at_pos q i (make_iterator q (it_index pos))" using at(1) by (simp add: at_pos_def make_iterator_def)
    have "xs \<noteq> []" using 3 at(2) by auto
    from MakeRoomFor_run [OF h f pos at(2) this, of d] obtain ib ie q1 where
      m: "MakeRoomFor d esz (length vs) (make_iterator q (it_index pos)) q = Inr (ib, ie, q1)" "opened esz q1 xs i (length vs)"
        "at_pos q1 i ib" "at_pos q1 (i + length vs) ie" by (auto elim!: returnsE)
    from fill_opened [OF m(2-4) at(2), of d] m(1) 3 u eq show ?thesis by (auto simp: insert_range_def elim!: returnsE)
  qed
qed

lemma emplace_holds:
  assumes h: "holds esz q xs" and f: "fits_space esz (length xs + 1)" and at: "at_pos q i pos" "i \<le> length xs"
  shows "returns (emplace d esz pos v q) (\<lambda>(it, q'). holds esz q' (take i xs @ v # drop i xs) \<and> at_pos q' i it)"
proof -
  have u: "ValidateIterator d pos q = Inr ()"
    using at(1) by (simp add: ValidateIterator_def CheckUnstableUsage_def at_pos_def)
  note eq = iter_begin [OF h at, of d]
  show ?thesis
  proof (cases "i = 0")
    case True
    from emplace_front_holds [OF h f, of d v] obtain q' where q': "emplace_front d esz v q = Inr q'" "holds esz q' (v # xs)"
      by (auto elim: returnsE)
    then have "slot q' 0 = dq_begin q'" using slot_0 by (fastforce simp: holds_def)
    with q' True u eq show ?thesis by (simp add: emplace_def at_pos_def dq_begin_iter_def make_iterator_def)
  next
    case False
    let ?q = "IncrementGeneration d q"
    have pos: "at_pos ?q i (make_iterator ?q (it_index pos))" using at(1) by (simp add: at_pos_def make_iterator_def)
    have "xs \<noteq> []" "holds esz ?q xs" using False at(2) h by auto
    from MakeRoomFor_run [OF this(2) f pos at(2) this(1), of d] obtain ib ie q1 where
      m: "MakeRoomFor d esz 1 (make_iterator ?q (it_index pos)) ?q = Inr (ib, ie, q1)" "opened esz q1 xs i 1" "at_pos q1 i ib"
      by (auto elim!: returnsE)
    obtain k where r: "ring q1 (gap 1 i xs @ replicate (Suc k) None)" and e: "dq_end q1 = slot q1 (length xs + 1)"
      and s: "sized esz q1" using m(2) by (auto simp: opened_def)
    let ?q2 = "q1\<lparr>dq_buffer := (dq_buffer q1)[slot q1 i := Some v]\<rparr>"
    have "(gap 1 i xs @ replicate (Suc k) None)[i := Some v] = map Some (take i xs @ v # drop i xs) @ replicate (Suc k) None"
      using at(2) by (simp add: gap_def list_update_append)
    then have "ring ?q2 (map Some (take i xs @ v # drop i xs) @ replicate (Suc k) None)"
      using ring_update [OF r, of i "Some v"] at(2) by simp
    then have "has_room ?q2 (take i xs @ v # drop i xs) k" using e at(2) by (simp add: has_room_def)
    then have "holds esz ?q2 (take i xs @ v # drop i xs)" using s by (auto simp: holds_alt)
    moreover have "vb_construct (it_index ib) v (dq_buffer q1) = Inr ((dq_buffer q1)[slot q1 i := Some v])"
      using vb_construct_slot [OF r] m(3) by (simp add: at_pos_def)
    ultimately show ?thesis using m(1,3) False u eq by (simp add: emplace_def Let_def)
  qed
qed

section \<open>Removal\<close>

lemma AddOffset_pos:
  assumes r: "ring q cs" and e: "dq_end q = slot q n" "n < length cs" and s: "length cs < 2 ^ 63"
    and at: "at_pos q i it" "i \<le> n" and \<delta>: "0 \<le> int i + \<delta>" "int i + \<delta> \<le> int n" "0 < \<delta> \<longrightarrow> i < n"
  shows "returns (AddOffset d q \<delta> it) (at_pos q (nat (int i + \<delta>)))"
proof -
  have u: "CheckUnstableUsage d it q = Inr ()" using at(1) by (simp add: CheckUnstableUsage_def at_pos_def)
  have v: "(if \<delta> \<le> 0 then CheckValidIndexOrEnd d (it_index it) q else CheckValidIndex d (it_index it) q) = Inr ()"
    using at valid_index [OF r e, of i d] valid_end [OF e(1), of d] \<delta>(3) by (cases "i = n") (auto simp: at_pos_def)
  have o: "OffsetFromBegin it q = i" using OffsetFromBegin_slot [OF r] at e(2) by (simp add: at_pos_def)
  have n: "length cs = internal_capacity q" "dq_begin q < internal_capacity q" using ringD [OF r] by auto
  obtain m where m: "int i + \<delta> = int m" using \<delta>(1) nonneg_int_cases by blast
  then have "m < length cs" using \<delta>(2) e(2) by simp
  then have "(int m + int (dq_begin q)) mod 2 ^ 64 = int (m + dq_begin q)" using n s by (simp add: mod_pos_pos_trivial)
  then have "nat ((int i + \<delta> + int (dq_begin q)) mod 2 ^ 64) mod internal_capacity q = slot q m"
    unfolding m by (simp only: nat_int slot_def add.commute)
  with u v o \<delta> n dq_size_slot [OF r e] at m show ?thesis by (auto simp: AddOffset_def Let_def at_pos_def)
qed

lemma erased_cells:
  assumes "i \<le> j" "j \<le> length xs"
  shows "take i (map Some xs @ zs) @ replicate (j - i) None @ drop j (map Some xs @ zs) =
    gap (j - i) i (take i xs @ drop j xs) @ zs"
  using assms by (simp add: gap_def take_map drop_map)

lemma erase_range_holds:
  assumes h: "holds esz q xs" and at: "at_pos q i first" "at_pos q j til" "i \<le> j" "j \<le> length xs"
  shows "returns (erase_range d first til q) (\<lambda>(it, q'). holds esz q' (take i xs @ drop j xs) \<and> at_pos q' i it)"
proof -
  let ?q = "IncrementGeneration d q"
  have u: "ValidateIterator d first q = Inr ()" "ValidateIterator d til q = Inr ()"
    using at(1,2) by (simp_all add: ValidateIterator_def CheckUnstableUsage_def at_pos_def)
  have idx: "it_index first = slot q i" "it_index til = slot q j" using at(1,2) by (simp_all add: at_pos_def)
  show ?thesis
  proof (cases "i = j")
    case True
    with h u idx show ?thesis by (simp add: erase_range_def Let_def at_pos_def make_iterator_def)
  next
    case False
    then have "xs \<noteq> []" using at(3,4) by auto
    with h obtain k where k: "ring q (map Some xs @ replicate (Suc k) None)" "dq_end q = slot q (length xs)"
      and s: "sized esz q" by (auto simp: holds_alt has_room_def)
    let ?ys = "take i xs @ drop j xs" let ?c = "j - i" let ?zs = "replicate (Suc k) (None :: 'a option)"
    have ij: "i < j" "length ?ys = length xs - ?c" "length ?ys + ?c = length xs" using False at(3,4) by auto
    have ne: "slot q i \<noteq> slot q j" using slot_inject [OF k(1), of i j] False at(3,4) by simp
    have "returns (dq_DestructRange (slot q i) (slot q j) (dq_buffer q)) (\<lambda>buf.
        ring (q\<lparr>dq_buffer := buf\<rparr>) (take i (map Some xs @ ?zs) @ replicate (j - i) None @ drop j (map Some xs @ ?zs)) \<and>
        length buf = internal_capacity q)"
      using at(3,4) by (intro destruct_slots [OF k(1)]) (auto simp: nth_append)
    then obtain buf where b: "dq_DestructRange (slot q i) (slot q j) (dq_buffer q) = Inr buf"
        "ring (q\<lparr>dq_buffer := buf\<rparr>) (gap ?c i ?ys @ ?zs)" "length buf = internal_capacity q"
      unfolding erased_cells [OF at(3,4)] by (auto elim: returnsE)
    let ?q1 = "?q\<lparr>dq_buffer := buf\<rparr>"
    have front: "slot q i = dq_begin q \<longleftrightarrow> i = 0" using slot_inject [OF k(1), of i 0] slot_0 [OF k(1)] at(3,4) by simp
    have destr: "(if slot q i < slot q j then vb_DestructRange (slot q i) (slot q j) (dq_buffer ?q)
        else rbind (vb_DestructRange (slot q i) (internal_capacity ?q) (dq_buffer ?q)) (vb_DestructRange 0 (slot q j))) = Inr buf"
      using b(1) ne by (auto simp: dq_DestructRange_def)
    have step: "erase_range d first til q =
        (if i = 0 then Inr (make_iterator ?q1 (slot q j), ?q1\<lparr>dq_begin := slot q j\<rparr>)
         else rbind (shift_left d (Suc (internal_capacity ?q1)) (make_iterator ?q1 (slot q j)) (dq_end_iter ?q1)
           (make_iterator ?q1 (slot q i)) ?q1) (\<lambda>(dest, q2). Inr (make_iterator q2 (slot q i), q2\<lparr>dq_end := it_index dest\<rparr>)))"
      using ne front b(3)
      by (simp add: erase_range_def Let_def u idx destr split del: if_split) (simp add: make_iterator_def)
    have r: "ring ?q1 (gap ?c i ?ys @ ?zs)" using b(2) by (simp add: ring_def)
    have e: "dq_end ?q1 = slot ?q1 (length ?ys + ?c)" using k(2) b(3) ij by simp
    have s1: "sized esz ?q1" using s b(3) by simp
    show ?thesis
    proof (cases "i = 0")
      case True
      let ?q2 = "?q1\<lparr>dq_begin := slot q j\<rparr>"
      have r': "ring ?q1 (replicate j None @ map Some (drop j xs) @ ?zs)" using r True by (simp add: gap_def)
      have b': "slot q j = slot ?q1 (length (replicate j (None :: 'a option)))" using b(3) by simp
      have "ring ?q2 (map Some (drop j xs) @ ?zs @ replicate j None)" using ring_turn [OF r' b'] by simp
      then have "ring ?q2 (map Some (drop j xs) @ replicate (Suc (k + j)) None)"
        by (simp add: replicate_add)
      moreover have "dq_end ?q2 = slot ?q2 (length (drop j xs))"
        using slot_turn [OF b', of "length (drop j xs)"] k(2) b(3) at(4) by simp
      ultimately have "has_room ?q2 (drop j xs) (k + j)" by (simp add: has_room_def)
      then have "holds esz ?q2 (drop j xs)" using s1 by (auto simp: holds_alt)
      moreover have "slot ?q2 0 = slot q j" using slot_turn [OF b', of 0] b(3) by simp
      ultimately show ?thesis using True by (simp add: step at_pos_def make_iterator_def)
    next
      case F: False
      have "length (gap ?c i ?ys @ ?zs) = internal_capacity ?q1" using ringD [OF r] by simp
      then have fuel: "length ?ys - i < Suc (internal_capacity ?q1)" by simp
      have "returns (shift_left d (Suc (internal_capacity ?q1)) (make_iterator ?q1 (slot q j)) (dq_end_iter ?q1)
            (make_iterator ?q1 (slot q i)) ?q1) (\<lambda>(it, q').
          at_pos q' (length ?ys) it \<and> ring q' (gap ?c (length ?ys) ?ys @ ?zs) \<and> same_frame ?q1 q')"
        using r e b(3) at(3,4) ij fuel
        by (intro shift_left_run [where s = i]) (auto simp: at_pos_def make_iterator_def dq_end_iter_def)
      then obtain it q2 where q2: "shift_left d (Suc (internal_capacity ?q1)) (make_iterator ?q1 (slot q j)) (dq_end_iter ?q1)
            (make_iterator ?q1 (slot q i)) ?q1 = Inr (it, q2)"
          "at_pos q2 (length ?ys) it" "ring q2 (gap ?c (length ?ys) ?ys @ ?zs)" "same_frame ?q1 q2"
        by (auto elim!: returnsE)
      note fr = same_frameD [OF q2(4)]
      let ?q3 = "q2\<lparr>dq_end := it_index it\<rparr>"
      have "replicate (Suc (?c + k)) (None :: 'a option) = replicate ?c None @ ?zs"
        by (simp only: replicate_add [symmetric] add_Suc_right)
      then have "has_room ?q3 ?ys (?c + k)" using q2(2,3) unfolding gap_end by (simp add: has_room_def at_pos_def)
      then have "holds esz ?q3 ?ys" using s1 fr by (auto simp: holds_alt sized_def)
      moreover have "at_pos ?q3 i (make_iterator q2 (slot q i))" using fr b(3) by (simp add: at_pos_def make_iterator_def)
      ultimately show ?thesis using F q2(1) by (simp add: step)
    qed
  qed
qed

lemma erase_one_holds:
  assumes h: "holds esz q xs" and at: "at_pos q i pos" "i < length xs"
  shows "returns (erase_one d pos q) (\<lambda>(it, q'). holds esz q' (take i xs @ drop (Suc i) xs) \<and> at_pos q' i it)"
proof -
  obtain k where k: "ring q (map Some xs @ replicate (Suc k) None)" "dq_end q = slot q (length xs)"
    using h at(2) by (auto simp: holds_def)
  have "length (map Some xs @ replicate (Suc k) None) < 2 ^ 63" using h ringD [OF k(1)] by (simp add: holds_def)
  from AddOffset_pos [OF k _ this at(1), of 1 d] at(2) obtain it where "AddOffset d q 1 pos = Inr it" "at_pos q (Suc i) it"
    by (auto simp: nat_add_distrib elim: returnsE)
  with erase_range_holds [OF h at(1), of "Suc i" it d] at(2) show ?thesis by (simp add: erase_one_def)
qed

end
