(* ===== verification/Rtc_DequeRun.thy ===== *)
theory Rtc_DequeRun
  imports Rtc_DequeEdit
begin

text \<open>Programs over one deque of theory \<open>Rtc_Deque\<close>, and the deque as a queue.\<close>

section \<open>Whole deques\<close>

lemma assign_n_holds:
  assumes h: "holds esz q xs" and f: "fits_space esz c"
  shows "returns (assign_n d esz c v q) (\<lambda>q'. holds esz q' (replicate c v))"
proof -
  obtain q1 where q1: "ClearRetainCapacity d q = Inr q1" "holds esz q1 []"
    using ClearRetainCapacity_holds [OF h, of d] by (auto elim: returnsE)
  from reserve_holds [OF q1(2), of c] fits_less [OF f, of "Suc c"] obtain q2 where
    q2: "reserve esz c q1 = Inr q2" "holds esz q2 []" by (auto elim!: returnsE)
  from push_back_n_holds [OF q2(2), of "replicate c v" d] f q1(1) q2(1) show ?thesis
    by (auto simp: assign_n_def elim!: returnsE)
qed

lemma assign_range_holds:
  assumes h: "holds esz q xs" and f: "fits_space esz (length vs)"
  shows "returns (assign_range d esz vs q) (\<lambda>q'. holds esz q' vs)"
proof -
  obtain q1 where q1: "ClearRetainCapacity d q = Inr q1" "holds esz q1 []"
    using ClearRetainCapacity_holds [OF h, of d] by (auto elim: returnsE)
  from push_back_n_holds [OF q1(2), of vs d] f q1(1) show ?thesis by (auto simp: assign_range_def elim!: returnsE)
qed

lemma dq_swap_holds:
  assumes "holds esz q xs" "holds esz r ys" "dq_swap d q r = (q', r')"
  shows "holds esz q' ys" "holds esz r' xs"
  using assms by (auto simp: dq_swap_def holds_def ring_def slot_def)

lemma move_assign_holds:
  assumes "holds esz q xs" "holds esz r ys"
  shows "returns (move_assign d r q) (\<lambda>(q', r'). holds esz q' ys \<and> holds esz r' [])"
proof -
  obtain q1 where "ClearRetainCapacity d q = Inr q1"
    using ClearRetainCapacity_holds [OF assms(1), of d] by (auto elim: returnsE)
  with assms(2) show ?thesis by (auto simp: move_assign_def holds_def ring_def slot_def)
qed

text \<open>The destructor leaves no object alive.\<close>

lemma dq_delete_all:
  assumes h: "holds esz q xs"
  shows "returns (dq_delete q) (\<lambda>buf. set buf \<subseteq> {None})"
proof (cases "dq_buffer q = []")
  case True
  with h show ?thesis by (auto simp: dq_delete_def dq_DestructRange_def holds_alt has_room_def ring_def)
next
  case False
  with h obtain k where k: "has_room q xs k" by (auto simp: holds_alt)
  have r: "ring q (map Some xs @ replicate (Suc k) None)" using k by (simp add: has_room_def)
  have "set buf \<subseteq> {None}" if "rotate (dq_begin q) buf = None # replicate m None" for buf :: "'a cells" and m
    using arg_cong [OF that, of set] by auto
  with destruct_tail [OF k, of 0] slot_0 [OF r] show ?thesis
    by (auto simp: dq_delete_def has_room_def ring_def elim!: returns_mono)
qed

lemma circular_deque_new_holds: "holds esz circular_deque_new []"
  by (simp add: holds_def circular_deque_new_def)

lemma iter_minus_pos:
  assumes "ring q cs" "at_pos q i it" "at_pos q j it'" "i < length cs" "j < length cs"
  shows "iter_minus d q it it' = Inr (int i - int j)"
  using assms OffsetFromBegin_slot [OF assms(1)] by (simp add: iter_minus_def CheckComparable_def at_pos_def)

lemma read_range_run:
  assumes r: "ring q (map Some xs @ replicate (Suc k) None)" and e: "dq_end q = slot q (length xs)"
    and at: "at_pos q i cur" "at_pos q (length xs) stop" "i \<le> length xs" "length xs - i < fuel"
  shows "read_range d fuel q cur stop = Inr (drop i xs)"
  using at
proof (induction "length xs - i" arbitrary: i cur fuel)
  case 0
  then obtain f where "fuel = Suc f" by (cases fuel) auto
  with 0 iter_eq_pos [OF r "0.prems"(1,2)] show ?case by simp
next
  case (Suc m)
  then obtain f where f: "fuel = Suc f" by (cases fuel) auto
  have i: "i < length xs" using Suc.hyps(2) by simp
  have "iter_eq d cur stop = Inr False" using iter_eq_pos [OF r Suc.prems(1,2)] i by simp
  moreover have "iter_deref d cur q = Inr (xs ! i)"
    using Suc.prems(1) valid_index(1) [OF r e, of i d] vb_read_slot [OF r, of i "xs ! i"] i
    by (simp add: iter_deref_def CheckUnstableUsage_def at_pos_def nth_append)
  moreover obtain cur' where "Increment d q cur = Inr cur'" "at_pos q (Suc i) cur'"
    using Increment_pos [OF r e, of i cur d] Suc.prems(1) i by (auto elim: returnsE)
  moreover from this have "read_range d f q cur' stop = Inr (drop (Suc i) xs)"
    using Suc.prems Suc.hyps(2) f i by (intro Suc.hyps(1)) auto
  ultimately show ?case using f i by (simp add: Cons_nth_drop_Suc)
qed

lemma elements_holds:
  assumes h: "holds esz q xs"
  shows "elements d q = Inr xs"
proof (cases "dq_buffer q = []")
  case True
  with h show ?thesis
    by (auto simp: elements_def holds_def ring_def iter_eq_def CheckComparable_def dq_begin_iter_def dq_end_iter_def make_iterator_def)
next
  case False
  with h obtain k where k: "ring q (map Some xs @ replicate (Suc k) None)" "dq_end q = slot q (length xs)"
    by (auto simp: holds_def)
  have "at_pos q 0 (dq_begin_iter q)" "at_pos q (length xs) (dq_end_iter q)"
    using slot_0 [OF k(1)] k(2) by (auto simp: at_pos_def dq_begin_iter_def dq_end_iter_def make_iterator_def)
  from read_range_run [OF k this, of "Suc (internal_capacity q)" d] ringD [OF k(1)] show ?thesis
    by (simp add: elements_def)
qed

text \<open>Copies have the elements of the original; a deque that was moved from is empty.\<close>

lemma deque_copy_holds:
  assumes h: "holds esz other xs" and f: "fits_space esz (length xs)"
  shows "returns (deque_copy d esz other) (\<lambda>q. holds esz q xs)"
proof -
  have s: "esz * Suc (length xs) < 2 ^ 64" "Suc (length xs) < 2 ^ 63" using fits_less [OF f, of "Suc (length xs)"] by auto
  then have add: "size_t_add (length xs) 1 = Suc (length xs)" by simp
  let ?q = "circular_deque_new\<lparr>dq_buffer := replicate (Suc (length xs)) (None :: 'a option)\<rparr>"
  have "has_room ?q [] (length xs)" by (simp add: has_room_def ring_def slot_def circular_deque_new_def)
  then have "holds esz ?q []" using s by (auto simp: holds_alt sized_def)
  from assign_range_holds [OF this f, of d] s add show ?thesis
    by (simp add: deque_copy_def VectorBuffer_new_def dq_size_holds [OF h] elements_holds [OF h])
qed

lemma deque_move_holds:
  assumes "holds esz other xs"
  shows "holds esz (fst (deque_move other)) xs \<and> holds esz (snd (deque_move other)) []"
  using assms by (auto simp: deque_move_def holds_def ring_def slot_def)

lemma copy_assign_holds:
  assumes h: "holds esz q ys" and o: "holds esz other xs" and f: "fits_space esz (length xs)"
  shows "returns (copy_assign d esz other q) (\<lambda>q'. holds esz q' xs)"
proof -
  from reserve_holds [OF h, of "length xs"] fits_less [OF f, of "Suc (length xs)"] obtain q1 where
    q1: "reserve esz (length xs) q = Inr q1" "holds esz q1 ys" by (auto elim!: returnsE)
  from assign_range_holds [OF q1(2) f, of d] q1(1) show ?thesis
    by (simp add: copy_assign_def dq_size_holds [OF o] elements_holds [OF o])
qed

lemma list_assign_holds:
  assumes h: "holds esz q xs" and f: "fits_space esz (length vs)"
  shows "returns (list_assign d esz vs q) (\<lambda>q'. holds esz q' vs)"
proof -
  from reserve_holds [OF h, of "length vs"] fits_less [OF f, of "Suc (length vs)"] obtain q1 where
    q1: "reserve esz (length vs) q = Inr q1" "holds esz q1 xs" by (auto elim!: returnsE)
  from assign_range_holds [OF q1(2) f, of d] q1(1) show ?thesis by (simp add: list_assign_def)
qed

lemma deque_constructors:
  shows "fits_space esz n \<Longrightarrow> returns (deque_fill d esz n v) (\<lambda>q. holds esz q (replicate n v))"
    and "fits_space esz (length vs) \<Longrightarrow> returns (deque_range d esz vs) (\<lambda>q. holds esz q vs)"
  using resize_holds [OF circular_deque_new_holds, of esz n d v] assign_range_holds [OF circular_deque_new_holds, of esz vs d]
  by (simp_all add: deque_fill_def deque_range_def)

section \<open>Programs\<close>

text \<open>Positions are given to the deque as iterators \<^verbatim>\<open>begin() + i\<close>.\<close>

datatype 'a dq_op = PushFront 'a | PushBack 'a | PopFront | PopBack | Resize nat 'a | Insert_n nat nat 'a
  | Insert_range nat "'a list" | Emplace nat 'a | Erase nat | Erase_range nat nat | Clear | Reserve nat | Shrink_to_fit
  | Assign_n nat 'a | Assign_range "'a list"

definition iter_plus :: "bool \<Rightarrow> 'a circular_deque \<Rightarrow> nat \<Rightarrow> iterator checked" where
  "iter_plus d q i = AddOffset d q (int i) (dq_begin_iter q)"

fun do_op :: "bool \<Rightarrow> nat \<Rightarrow> 'a dq_op \<Rightarrow> 'a circular_deque \<Rightarrow> 'a circular_deque checked" where
  "do_op d esz (PushFront v) q = emplace_front d esz v q"
| "do_op d esz (PushBack v) q = emplace_back d esz v q"
| "do_op d esz PopFront q = pop_front d esz q"
| "do_op d esz PopBack q = pop_back d esz q"
| "do_op d esz (Resize n v) q = resize d esz n v q"
| "do_op d esz (Insert_n i n v) q = rbind (iter_plus d q i) (\<lambda>pos. insert_n d esz pos n v q)"
| "do_op d esz (Insert_range i vs) q = rbind (iter_plus d q i) (\<lambda>pos. insert_range d esz pos vs q)"
| "do_op d esz (Emplace i v) q = rbind (iter_plus d q i) (\<lambda>pos. rbind (emplace d esz pos v q) (\<lambda>(_, q). Inr q))"
| "do_op d esz (Erase i) q = rbind (iter_plus d q i) (\<lambda>pos. rbind (erase_one d pos q) (\<lambda>(_, q). Inr q))"
| "do_op d esz (Erase_range i j) q =
     rbind (iter_plus d q i) (\<lambda>first. rbind (iter_plus d q j) (\<lambda>til. rbind (erase_range d first til q) (\<lambda>(_, q). Inr q)))"
| "do_op d esz Clear q = dq_clear d q"
| "do_op d esz (Reserve n) q = reserve esz n q"
| "do_op d esz Shrink_to_fit q = shrink_to_fit esz q"
| "do_op d esz (Assign_n n v) q = assign_n d esz n v q"
| "do_op d esz (Assign_range vs) q = assign_range d esz vs q"

fun do_ops :: "bool \<Rightarrow> nat \<Rightarrow> 'a dq_op list \<Rightarrow> 'a circular_deque \<Rightarrow> 'a circular_deque checked" where
  "do_ops d esz [] q = Inr q"
| "do_ops d esz (op # ops) q = rbind (do_op d esz op q) (do_ops d esz ops)"

text \<open>The same on lists, and when an operation may be called.\<close>

fun list_op :: "'a dq_op \<Rightarrow> 'a list \<Rightarrow> 'a list" where
  "list_op (PushFront v) xs = v # xs"
| "list_op (PushBack v) xs = xs @ [v]"
| "list_op PopFront xs = tl xs"
| "list_op PopBack xs = butlast xs"
| "list_op (Resize n v) xs = take n xs @ replicate (n - length xs) v"
| "list_op (Insert_n i n v) xs = take i xs @ replicate n v @ drop i xs"
| "list_op (Insert_range i vs) xs = take i xs @ vs @ drop i xs"
| "list_op (Emplace i v) xs = take i xs @ v # drop i xs"
| "list_op (Erase i) xs = take i xs @ drop (Suc i) xs"
| "list_op (Erase_range i j) xs = take i xs @ drop j xs"
| "list_op Clear xs = []"
| "list_op (Reserve n) xs = xs"
| "list_op Shrink_to_fit xs = xs"
| "list_op (Assign_n n v) xs = replicate n v"
| "list_op (Assign_range vs) xs = vs"

fun allowed :: "'a dq_op \<Rightarrow> 'a list \<Rightarrow> bool" where
  "allowed PopFront xs \<longleftrightarrow> xs \<noteq> []"
| "allowed PopBack xs \<longleftrightarrow> xs \<noteq> []"
| "allowed (Insert_n i n v) xs \<longleftrightarrow> i \<le> length xs"
| "allowed (Insert_range i vs) xs \<longleftrightarrow> i \<le> length xs"
| "allowed (Emplace i v) xs \<longleftrightarrow> i \<le> length xs"
| "allowed (Erase i) xs \<longleftrightarrow> i < length xs"
| "allowed (Erase_range i j) xs \<longleftrightarrow> i \<le> j \<and> j \<le> length xs"
| "allowed _ xs \<longleftrightarrow> True"

fun needed :: "'a dq_op \<Rightarrow> 'a list \<Rightarrow> nat" where
  "needed (Reserve n) xs = max n (length xs)"
| "needed op xs = length (list_op op xs)"

fun program_ok :: "nat \<Rightarrow> 'a dq_op list \<Rightarrow> 'a list \<Rightarrow> bool" where
  "program_ok esz [] xs \<longleftrightarrow> True"
| "program_ok esz (op # ops) xs \<longleftrightarrow> allowed op xs \<and> fits_space esz (needed op xs) \<and> program_ok esz ops (list_op op xs)"

lemma iter_plus_pos:
  assumes h: "holds esz q xs" and i: "i \<le> length xs"
  shows "returns (iter_plus d q i) (at_pos q i)"
proof (cases "dq_buffer q = []")
  case True
  with h i show ?thesis
    by (auto simp: iter_plus_def AddOffset_def CheckUnstableUsage_def CheckValidIndexOrEnd_def dq_begin_iter_def
        make_iterator_def at_pos_def slot_def holds_alt has_room_def ring_def)
next
  case False
  with h obtain k where k: "ring q (map Some xs @ replicate (Suc k) None)" "dq_end q = slot q (length xs)"
    by (auto simp: holds_def)
  have "length (map Some xs @ replicate (Suc k) None) < 2 ^ 63" using h ringD [OF k(1)] by (simp add: holds_def)
  moreover have "at_pos q 0 (dq_begin_iter q)" using slot_0 [OF k(1)] by (simp add: at_pos_def dq_begin_iter_def make_iterator_def)
  ultimately show ?thesis using AddOffset_pos [OF k, of 0 "dq_begin_iter q" "int i" d] i
    by (cases xs) (auto simp: iter_plus_def)
qed

lemma do_op_holds:
  assumes h: "holds esz q xs" and ok: "allowed op xs" and f: "fits_space esz (needed op xs)"
  shows "returns (do_op d esz op q) (\<lambda>q'. holds esz q' (list_op op xs))"
proof -
  have at: "\<exists>it. iter_plus d q i = Inr it \<and> at_pos q i it" if "i \<le> length xs" for i
    using iter_plus_pos [OF h that, of d] by (auto elim: returnsE)
  show ?thesis
  proof (cases op)
    case (PushFront v)
    with emplace_front_holds [OF h, of d v] f show ?thesis by simp
  next
    case (PushBack v)
    with emplace_back_holds [OF h, of d v] f show ?thesis by simp
  next
    case PopFront
    with ok obtain y ys where "xs = y # ys" by (cases xs) auto
    with PopFront pop_front_holds [of esz q y ys d] h show ?thesis by simp
  next
    case PopBack
    with ok obtain y ys where "xs = ys @ [y]" by (cases xs rule: rev_cases) auto
    with PopBack pop_back_holds [of esz q ys y d] h show ?thesis by simp
  next
    case (Resize n v)
    with f have "fits_space esz n" by (auto elim: fits_mono)
    with Resize resize_holds [OF h, of n d v] show ?thesis by simp
  next
    case (Insert_n i n v)
    with ok at [of i] insert_n_holds [OF h, of n i _ d v] f show ?thesis by (fastforce simp: add.commute)
  next
    case (Insert_range i vs)
    with ok at [of i] insert_range_holds [OF h, of vs i _ d] f show ?thesis by (fastforce simp: add.commute)
  next
    case (Emplace i v)
    with ok at [of i] emplace_holds [OF h, of i _ d v] f show ?thesis
      by (fastforce elim!: returns_mono)
  next
    case (Erase i)
    with ok at [of i] erase_one_holds [OF h, of i _ d] show ?thesis by (fastforce elim!: returns_mono)
  next
    case (Erase_range i j)
    with ok at [of i] at [of j] erase_range_holds [OF h, of i _ j _ d] show ?thesis by (fastforce elim!: returns_mono)
  next
    case Clear
    with dq_clear_holds [OF h, of d] show ?thesis by simp
  next
    case (Reserve n)
    with f have "fits_space esz n" by (auto elim: fits_mono)
    with Reserve reserve_holds [OF h, of n] fits_less [of esz n "Suc n"] show ?thesis by (auto elim!: returns_mono)
  next
    case Shrink_to_fit
    with shrink_to_fit_holds [OF h] show ?thesis by (auto elim!: returns_mono)
  next
    case (Assign_n n v)
    with assign_n_holds [OF h, of n d v] f show ?thesis by simp
  next
    case (Assign_range vs)
    with assign_range_holds [OF h, of vs d] f show ?thesis by simp
  qed
qed

lemma do_ops_holds:
  assumes "holds esz q xs" "program_ok esz ops xs"
  shows "returns (do_ops d esz ops q) (\<lambda>q'. holds esz q' (fold list_op ops xs))"
  using assms
proof (induction ops arbitrary: q xs)
  case (Cons op ops)
  from do_op_holds [OF Cons.prems(1), of op d] Cons.prems(2) obtain q' where
    "do_op d esz op q = Inr q'" "holds esz q' (list_op op xs)" by (auto elim: returnsE)
  with Cons.IH [of q' "list_op op xs"] Cons.prems(2) show ?case by simp
qed simp

text \<open>
  (C33) The circular deque is a list.  Any sequence of insertions, removals, assignments and changes of capacity, each called
  where its contract allows it, runs without a failed check and without touching a cell that holds no object,
  whether or not debug checks are compiled in and wherever the elements wrap around in the buffer.  Afterwards the deque
  has the elements that the same operations make of a list, and its destructor destroys each of them.
\<close>

theorem circular_deque_is_list:
  assumes "program_ok esz ops []"
  shows "returns (do_ops d esz ops circular_deque_new) (\<lambda>q. let xs = fold list_op ops [] in
    dq_size q = length xs \<and> (dq_empty q \<longleftrightarrow> xs = []) \<and> (\<forall>i < length xs. dq_at d i q = Inr (xs ! i)) \<and>
    (xs \<noteq> [] \<longrightarrow> dq_front d q = Inr (hd xs) \<and> dq_back d q = Inr (last xs)) \<and>
    returns (dq_delete q) (\<lambda>buf. set buf \<subseteq> {None}))"
proof -
  have "dq_front d q = Inr (hd xs) \<and> dq_back d q = Inr (last xs)" if "holds esz q xs" "xs \<noteq> []" for q :: "'a circular_deque" and xs
    using that dq_front_holds [of esz q "hd xs" "tl xs" d] dq_back_holds [of esz q "butlast xs" "last xs" d] by simp
  then show ?thesis
    using do_ops_holds [OF circular_deque_new_holds assms, of d]
    by (auto simp: Let_def dq_size_holds dq_empty_holds dq_at_holds dq_delete_all elim!: returns_mono)
qed

section \<open>A queue\<close>

text \<open>The elements of a deque as a function of its state, and the number of elements it takes in any case.\<close>

definition dq_items :: "'a circular_deque \<Rightarrow> 'a list" where
  "dq_items q = map the (take (dq_size q) (rotate (dq_begin q) (dq_buffer q)))"

definition dq_limit :: "nat \<Rightarrow> nat" where
  "dq_limit esz = min ((2 ^ 64 - 1) div (2 * max 1 esz) - 2) (2 ^ 62 - 3)"

lemma dq_items_holds: "holds esz q xs \<Longrightarrow> dq_items q = xs"
proof -
  assume h: "holds esz q xs"
  have "take (length xs) (rotate (dq_begin q) (dq_buffer q)) = map Some xs"
    using h by (auto simp: holds_def ring_def)
  then show "dq_items q = xs" using dq_size_holds [OF h] by (simp add: dq_items_def)
qed

lemma fits_limit:
  assumes "m < dq_limit esz"
  shows "fits_space esz (m + 1)"
proof -
  let ?e = "max 1 esz"
  have m: "m + 3 \<le> (2 ^ 64 - 1) div (2 * ?e)" "m + 4 \<le> 2 ^ 62"
    using assms less_diff_conv [of m "(2 ^ 64 - 1) div (2 * ?e)" 2] by (simp_all add: dq_limit_def)
  then have "(m + 3) * (2 * ?e) \<le> 2 ^ 64 - 1" by (meson div_times_less_eq_dividend le_trans mult_le_mono1)
  moreover have "esz * (2 * (m + 1) + 4) \<le> (m + 3) * (2 * ?e)" by (cases esz) (simp_all add: algebra_simps max_def)
  ultimately show ?thesis using m(2) by (auto simp: fits_space_def)
qed

text \<open>Appending at the back and taking from the front.\<close>

definition enqueue :: "bool \<Rightarrow> nat \<Rightarrow> 't \<Rightarrow> 'a \<Rightarrow> 'a circular_deque \<Rightarrow> (bool \<times> 'a circular_deque) checked" where
  "enqueue d esz t v q = rbind (emplace_back d esz v q) (\<lambda>q. Inr (True, q))"

definition dequeue :: "bool \<Rightarrow> nat \<Rightarrow> 't \<Rightarrow> 'a circular_deque \<Rightarrow> ('a option \<times> 'a circular_deque) checked" where
  "dequeue d esz t q =
     (if dq_empty q then Inr (None, q)
      else rbind (dq_front d q) (\<lambda>v. rbind (pop_front d esz q) (\<lambda>q. Inr (Some v, q))))"

interpretation deque_queue: fifo "enqueue d esz" "dequeue d esz" dq_items "\<lambda>q. holds esz q (dq_items q)" "\<lambda>_. True" "dq_limit esz"
  for d esz
proof
  fix q v t
  assume h: "holds esz q (dq_items q)"
  show "returns (enqueue d esz t v q) (\<lambda>(r, q'). holds esz q' (dq_items q') \<and> r \<and> dq_items q' = dq_items q @ [v])"
    if "length (dq_items q) < dq_limit esz"
    using emplace_back_holds [OF h fits_limit [OF that], of d v]
    by (auto simp: enqueue_def dq_items_holds elim!: returns_mono)
next
  fix q t
  assume h: "holds esz q (dq_items q)"
  show "returns (dequeue d esz t q) (\<lambda>(r, q'). holds esz q' (dq_items q') \<and>
      r = (case dq_items q of [] \<Rightarrow> None | x # _ \<Rightarrow> Some x) \<and> dq_items q' = tl (dq_items q))"
  proof (cases "dq_items q")
    case Nil
    with h dq_empty_holds [OF h] show ?thesis by (simp add: dequeue_def)
  next
    case (Cons x xs)
    with h have h': "holds esz q (x # xs)" by simp
    have "returns (pop_front d esz q) (\<lambda>q'. holds esz q' (dq_items q') \<and> dq_items q' = xs)"
      using pop_front_holds [OF h', of d] by (auto simp: dq_items_holds elim!: returns_mono)
    with Cons dq_empty_holds [OF h'] dq_front_holds [OF h', of d] show ?thesis
      by (auto simp: dequeue_def elim!: returnsE)
  qed
qed

text \<open>As long as it is not asked to hold more than the limit, the deque is a first-in first-out queue.\<close>

lemma deque_fifo:
  assumes "length (put_items ops) \<le> dq_limit esz"
  shows "returns (run_queue (enqueue d esz) (dequeue d esz) ops circular_deque_new)
    (\<lambda>(rs, q). stored ops rs = fetched rs @ dq_items q)"
proof -
  have h: "holds esz (circular_deque_new :: 'a circular_deque) []" by (rule circular_deque_new_holds)
  have i: "dq_items (circular_deque_new :: 'a circular_deque) = []" by (rule dq_items_holds [OF h])
  have "returns (run_queue (enqueue d esz) (dequeue d esz) ops circular_deque_new)
      (\<lambda>(rs, q). (rs, dq_items q) = spec_queue (dq_limit esz) ops [])"
    using deque_queue.run_within [of esz circular_deque_new ops d] h i assms by (auto elim!: returns_mono simp: list_all_iff)
  then show ?thesis by (rule returns_mono) (auto dest!: sym [of "(_, _)"] spec_queue_order)
qed

end
