(* ===== verification/Rtc_LinkedList.thy ===== *)
theory Rtc_LinkedList
  imports Rtc_Numeric "HOL-Library.Multiset"
begin

text \<open>
  The intrusive doubly linked list \<^verbatim>\<open>base/containers/linked_list.h\<close>.  Nodes are objects in a store of pointers, so that
  several lists can share it and a node can be moved from one list to another; following the null pointer or a pointer
  to no object is \<^const>\<open>Undefined\<close>.
\<close>

section \<open>Operations\<close>

record LinkNode =
  previous_node :: "nat option"
  next_node :: "nat option"

type_synonym heap = "nat \<Rightarrow> LinkNode option"

definition node_at :: "nat option \<Rightarrow> heap \<Rightarrow> (nat \<times> LinkNode) checked" where
  "node_at p h =
     (case p of None \<Rightarrow> Inl Undefined | Some a \<Rightarrow> (case h a of None \<Rightarrow> Inl Undefined | Some n \<Rightarrow> Inr (a, n)))"

definition set_next :: "nat option \<Rightarrow> nat option \<Rightarrow> heap \<Rightarrow> heap checked" where
  "set_next p v h = rbind (node_at p h) (\<lambda>(a, n). Inr (h(a \<mapsto> n\<lparr>next_node := v\<rparr>)))"

definition set_previous :: "nat option \<Rightarrow> nat option \<Rightarrow> heap \<Rightarrow> heap checked" where
  "set_previous p v h = rbind (node_at p h) (\<lambda>(a, n). Inr (h(a \<mapsto> n\<lparr>previous_node := v\<rparr>)))"

definition get_next :: "nat option \<Rightarrow> heap \<Rightarrow> nat option checked" where
  "get_next p h = rbind (node_at p h) (\<lambda>(_, n). Inr (next_node n))"

definition get_previous :: "nat option \<Rightarrow> heap \<Rightarrow> nat option checked" where
  "get_previous p h = rbind (node_at p h) (\<lambda>(_, n). Inr (previous_node n))"

definition LinkNode_new :: "nat \<Rightarrow> heap \<Rightarrow> heap" where
  "LinkNode_new this h = h(this \<mapsto> \<lparr>previous_node = None, next_node = None\<rparr>)"

text \<open>The move constructor takes the place of \<open>rhs\<close> in its list.\<close>

definition LinkNode_move :: "nat \<Rightarrow> nat \<Rightarrow> heap \<Rightarrow> heap checked" where
  "LinkNode_move this rhs h =
     rbind (get_next (Some rhs) h) (\<lambda>nx. rbind (set_next (Some rhs) None h) (\<lambda>h.
     rbind (get_previous (Some rhs) h) (\<lambda>pv. rbind (set_previous (Some rhs) None h) (\<lambda>h.
     let h = h(this \<mapsto> \<lparr>previous_node = pv, next_node = nx\<rparr>) in
     if nx \<noteq> None then rbind (set_previous nx (Some this) h) (\<lambda>h. set_next pv (Some this) h) else Inr h))))"

definition InsertBefore :: "nat \<Rightarrow> nat \<Rightarrow> heap \<Rightarrow> heap checked" where
  "InsertBefore this e h =
     rbind (set_next (Some this) (Some e) h) (\<lambda>h.
     rbind (get_previous (Some e) h) (\<lambda>pv. rbind (set_previous (Some this) pv h) (\<lambda>h.
     rbind (get_previous (Some e) h) (\<lambda>pv. rbind (set_next pv (Some this) h) (\<lambda>h.
     set_previous (Some e) (Some this) h)))))"

definition InsertAfter :: "nat \<Rightarrow> nat \<Rightarrow> heap \<Rightarrow> heap checked" where
  "InsertAfter this e h =
     rbind (get_next (Some e) h) (\<lambda>nx. rbind (set_next (Some this) nx h) (\<lambda>h.
     rbind (set_previous (Some this) (Some e) h) (\<lambda>h.
     rbind (get_next (Some e) h) (\<lambda>nx. rbind (set_previous nx (Some this) h) (\<lambda>h.
     set_next (Some e) (Some this) h)))))"

definition RemoveFromList :: "nat \<Rightarrow> heap \<Rightarrow> heap checked" where
  "RemoveFromList this h =
     rbind (get_previous (Some this) h) (\<lambda>pv. rbind (get_next (Some this) h) (\<lambda>nx. rbind (set_next pv nx h) (\<lambda>h.
     rbind (get_next (Some this) h) (\<lambda>nx. rbind (get_previous (Some this) h) (\<lambda>pv. rbind (set_previous nx pv h) (\<lambda>h.
     rbind (set_next (Some this) None h) (set_previous (Some this) None)))))))"

text \<open>A list is its root node.\<close>

definition LinkedList_new :: "nat \<Rightarrow> heap \<Rightarrow> heap" where
  "LinkedList_new root h = h(root \<mapsto> \<lparr>previous_node = Some root, next_node = Some root\<rparr>)"

definition Append :: "nat \<Rightarrow> nat \<Rightarrow> heap \<Rightarrow> heap checked" where
  "Append root e = InsertBefore e root"

definition list_head :: "nat \<Rightarrow> heap \<Rightarrow> nat option checked" where
  "list_head root = get_next (Some root)"

definition list_tail :: "nat \<Rightarrow> heap \<Rightarrow> nat option checked" where
  "list_tail root = get_previous (Some root)"

definition list_empty :: "nat \<Rightarrow> heap \<Rightarrow> bool checked" where
  "list_empty root h = rbind (list_head root h) (\<lambda>p. Inr (p = Some root))"

text \<open>The loops of the documentation that visit the nodes of a list forwards and backwards.\<close>

fun visit :: "(nat option \<Rightarrow> heap \<Rightarrow> nat option checked) \<Rightarrow> nat \<Rightarrow> nat option \<Rightarrow> nat \<Rightarrow> heap \<Rightarrow> nat list option checked" where
  "visit step 0 p root h = Inr None"
| "visit step (Suc fuel) p root h =
     (if p = Some root then Inr (Some [])
      else case p of
        None \<Rightarrow> Inl Undefined
      | Some a \<Rightarrow> rbind (step p h) (\<lambda>q. rbind (visit step fuel q root h) (\<lambda>r. Inr (map_option (Cons a) r))))"

definition nodes_forward :: "nat \<Rightarrow> nat \<Rightarrow> heap \<Rightarrow> nat list option checked" where
  "nodes_forward fuel root h = rbind (list_head root h) (\<lambda>p. visit get_next fuel p root h)"

definition nodes_backward :: "nat \<Rightarrow> nat \<Rightarrow> heap \<Rightarrow> nat list option checked" where
  "nodes_backward fuel root h = rbind (list_tail root h) (\<lambda>p. visit get_previous fuel p root h)"

section \<open>Chains\<close>

text \<open>What the store says about a node, and a chain of nodes linked in both directions.\<close>

definition nxt :: "heap \<Rightarrow> nat \<Rightarrow> nat option" where
  "nxt h a = (case h a of None \<Rightarrow> None | Some n \<Rightarrow> next_node n)"

definition prv :: "heap \<Rightarrow> nat \<Rightarrow> nat option" where
  "prv h a = (case h a of None \<Rightarrow> None | Some n \<Rightarrow> previous_node n)"

fun chain :: "heap \<Rightarrow> nat list \<Rightarrow> bool" where
  "chain h (a # b # as) \<longleftrightarrow> nxt h a = Some b \<and> prv h b = Some a \<and> chain h (b # as)"
| "chain h as \<longleftrightarrow> True"

lemma chain_append: "chain h (us @ m # vs) \<longleftrightarrow> chain h (us @ [m]) \<and> chain h (m # vs)"
proof (induction us)
  case (Cons u us)
  then show ?case by (cases us) auto
qed simp

lemma chain_snoc:
  assumes "xs \<noteq> []"
  shows "chain h (xs @ [u]) \<longleftrightarrow> chain h xs \<and> nxt h (last xs) = Some u \<and> prv h u = Some (last xs)"
  using assms chain_append [of h _ _ "[u]"] by (cases xs rule: rev_cases) auto

lemma chain_cong:
  assumes "\<And>a. a \<in> set (butlast as) \<Longrightarrow> nxt h' a = nxt h a" "\<And>a. a \<in> set (tl as) \<Longrightarrow> prv h' a = prv h a"
  shows "chain h' as \<longleftrightarrow> chain h as"
  using assms
proof (induction h as rule: chain.induct)
  case (1 h a b as)
  then show ?case by (cases as) auto
qed simp_all

lemma chain_same:
  assumes "\<And>a. a \<in> set as \<Longrightarrow> nxt h' a = nxt h a \<and> prv h' a = prv h a"
  shows "chain h' as \<longleftrightarrow> chain h as"
  using assms by (intro chain_cong; cases as) (auto dest: in_set_butlastD split: if_splits)

text \<open>The primitive accesses, on nodes that exist.\<close>

definition live_nodes :: "heap \<Rightarrow> nat set" where
  "live_nodes h = dom h"

lemma views:
  assumes "h a = Some n"
  shows "nxt (h(a \<mapsto> n\<lparr>next_node := v\<rparr>)) = (nxt h)(a := v)" "prv (h(a \<mapsto> n\<lparr>next_node := v\<rparr>)) = prv h"
    and "nxt (h(a \<mapsto> n\<lparr>previous_node := v\<rparr>)) = nxt h" "prv (h(a \<mapsto> n\<lparr>previous_node := v\<rparr>)) = (prv h)(a := v)"
  using assms by (auto simp: nxt_def prv_def fun_eq_iff)

lemma wp_get:
  assumes "a \<in> live_nodes h"
  shows "P (nxt h a) \<Longrightarrow> returns (get_next (Some a) h) P" "P (prv h a) \<Longrightarrow> returns (get_previous (Some a) h) P"
  using assms by (auto simp: live_nodes_def get_next_def get_previous_def node_at_def nxt_def prv_def)

lemma wp_set_next:
  assumes "a \<in> live_nodes h"
    and "\<And>h'. nxt h' = (nxt h)(a := v) \<Longrightarrow> prv h' = prv h \<Longrightarrow> live_nodes h' = live_nodes h \<Longrightarrow> P h'"
  shows "returns (set_next (Some a) v h) P"
proof -
  obtain n where n: "h a = Some n" using assms(1) by (auto simp: live_nodes_def)
  have "P (h(a \<mapsto> n\<lparr>next_node := v\<rparr>))" using n by (intro assms(2)) (auto simp: views live_nodes_def)
  with n show ?thesis by (simp add: set_next_def node_at_def)
qed

lemma wp_set_previous:
  assumes "a \<in> live_nodes h"
    and "\<And>h'. nxt h' = nxt h \<Longrightarrow> prv h' = (prv h)(a := v) \<Longrightarrow> live_nodes h' = live_nodes h \<Longrightarrow> P h'"
  shows "returns (set_previous (Some a) v h) P"
proof -
  obtain n where n: "h a = Some n" using assms(1) by (auto simp: live_nodes_def)
  have "P (h(a \<mapsto> n\<lparr>previous_node := v\<rparr>))" using n by (intro assms(2)) (auto simp: views live_nodes_def)
  with n show ?thesis by (simp add: set_previous_def node_at_def)
qed

lemmas wp_links = wp_get wp_set_next wp_set_previous

text \<open>What each operation does to the links.\<close>

lemma InsertBefore_links:
  assumes "p \<in> live_nodes h" "e \<in> live_nodes h" "p \<noteq> e" "prv h e = Some a" "a \<in> live_nodes h" "a \<noteq> p"
  shows "returns (InsertBefore p e h) (\<lambda>h'. nxt h' = (nxt h)(p := Some e, a := Some p) \<and>
    prv h' = (prv h)(p := Some a, e := Some p) \<and> live_nodes h' = live_nodes h)"
  unfolding InsertBefore_def using assms by (auto intro!: wp_links)

lemma InsertAfter_links:
  assumes "p \<in> live_nodes h" "e \<in> live_nodes h" "p \<noteq> e" "nxt h e = Some b" "b \<in> live_nodes h" "b \<noteq> p"
  shows "returns (InsertAfter p e h) (\<lambda>h'. nxt h' = (nxt h)(p := Some b, e := Some p) \<and>
    prv h' = (prv h)(p := Some e, b := Some p) \<and> live_nodes h' = live_nodes h)"
  unfolding InsertAfter_def using assms by (auto intro!: wp_links)

lemma RemoveFromList_links:
  assumes "p \<in> live_nodes h" "prv h p = Some a" "nxt h p = Some b" "a \<in> live_nodes h" "b \<in> live_nodes h" "a \<noteq> p" "b \<noteq> p"
  shows "returns (RemoveFromList p h) (\<lambda>h'. nxt h' = (nxt h)(a := Some b, p := None) \<and>
    prv h' = (prv h)(b := Some a, p := None) \<and> live_nodes h' = live_nodes h)"
  unfolding RemoveFromList_def using assms by (auto intro!: wp_links)

lemma new_views:
  "nxt (h(a \<mapsto> n)) = (nxt h)(a := next_node n)" "prv (h(a \<mapsto> n)) = (prv h)(a := previous_node n)"
  "live_nodes (h(a \<mapsto> n)) = insert a (live_nodes h)"
  by (auto simp: nxt_def prv_def live_nodes_def fun_eq_iff)

lemma LinkNode_move_links:
  assumes "rhs \<in> live_nodes h" "p \<notin> live_nodes h" "prv h rhs = Some a" "nxt h rhs = Some b" "a \<in> live_nodes h" "b \<in> live_nodes h" "a \<noteq> rhs" "b \<noteq> rhs"
  shows "returns (LinkNode_move p rhs h) (\<lambda>h'. nxt h' = (nxt h)(rhs := None, p := Some b, a := Some p) \<and>
    prv h' = (prv h)(rhs := None, p := Some a, b := Some p) \<and> live_nodes h' = insert p (live_nodes h))"
  unfolding LinkNode_move_def Let_def using assms by (auto intro!: wp_links simp: new_views)

lemma LinkNode_move_free:
  assumes "rhs \<in> live_nodes h" "p \<notin> live_nodes h" "prv h rhs = None" "nxt h rhs = None"
  shows "returns (LinkNode_move p rhs h) (\<lambda>h'. nxt h' = (nxt h)(p := None) \<and> prv h' = (prv h)(p := None) \<and>
    live_nodes h' = insert p (live_nodes h))"
proof -
  have [simp]: "(nxt h)(rhs := None) = nxt h" "(prv h)(rhs := None) = prv h" using assms(3,4) by auto
  show ?thesis unfolding LinkNode_move_def Let_def using assms by (auto intro!: wp_links simp: new_views)
qed

section \<open>Rings\<close>

text \<open>A ring is a list with its root as the first node; its cycle ends where it begins.\<close>

abbreviation cycle :: "nat list \<Rightarrow> nat list" where
  "cycle ring \<equiv> ring @ [hd ring]"

text \<open>The nodes \<open>ms\<close> between \<open>a\<close> and \<open>b\<close> are replaced by \<open>ms'\<close>.\<close>

lemma splice:
  assumes ch: "chain h (us @ a # ms @ b # vs)"
    and d: "distinct (butlast (us @ a # b # vs))" "distinct (tl (us @ a # b # vs))"
    and fresh: "(set ms \<union> set ms') \<inter> (set us \<union> {a, b} \<union> set vs) = {}"
    and n: "\<And>x. x \<notin> insert a (set ms \<union> set ms') \<Longrightarrow> nxt h' x = nxt h x"
    and p: "\<And>x. x \<notin> insert b (set ms \<union> set ms') \<Longrightarrow> prv h' x = prv h x"
    and new: "chain h' (a # ms' @ [b])"
  shows "chain h' (us @ a # ms' @ b # vs)"
proof -
  have 1: "chain h (us @ [a])" and 2: "chain h (b # vs)"
    using ch chain_append [of h us a "ms @ b # vs"] chain_append [of h "us @ a # ms" b vs] by auto
  have "chain h' (us @ [a]) = chain h (us @ [a])"
    by (rule chain_cong; rule n p; use d fresh in \<open>cases us; auto simp: butlast_append split: if_splits\<close>)
  moreover have "chain h' (b # vs) = chain h (b # vs)"
    by (rule chain_cong; rule n p; use d fresh in \<open>cases us; auto simp: butlast_append dest: in_set_butlastD split: if_splits\<close>)
  ultimately show ?thesis
    using 1 2 new chain_append [of h' us a "ms' @ b # vs"] chain_append [of h' "a # ms'" b vs] by simp
qed

section \<open>All lists of a store\<close>

text \<open>
  A store holds rings and nodes that are in no list.  Every node is in exactly one place.
\<close>

type_synonym lists = "nat list list \<times> nat list"

definition represents :: "heap \<Rightarrow> lists \<Rightarrow> bool" where
  "represents h L \<longleftrightarrow>
     distinct (concat (fst L) @ snd L) \<and> set (concat (fst L) @ snd L) = live_nodes h \<and>
     (\<forall>ring \<in> set (fst L). ring \<noteq> [] \<and> chain h (cycle ring)) \<and> (\<forall>x \<in> set (snd L). nxt h x = None \<and> prv h x = None)"

lemma rings_split:
  assumes "distinct (concat rings)" "e \<in> set (concat rings)"
  obtains R1 ring R2 where "rings = R1 @ ring # R2" "e \<in> set ring" "e \<notin> set (concat R1)" "e \<notin> set (concat R2)"
proof -
  obtain ring where "ring \<in> set rings" "e \<in> set ring" using assms(2) by auto
  then obtain R1 R2 where R: "rings = R1 @ ring # R2" by (meson split_list)
  then have "e \<notin> set (concat R1)" "e \<notin> set (concat R2)" using assms(1) \<open>e \<in> set ring\<close> by auto
  with R \<open>e \<in> set ring\<close> show thesis by (rule that)
qed

lemma set_cycle: "ring \<noteq> [] \<Longrightarrow> set (cycle ring) = set ring"
  by auto

lemma represents_splice:
  assumes rep: "represents h (R1 @ ring # R2, free)"
    and c: "cycle ring = us @ a # ms @ b # vs" "cycle ring' = us @ a # ms' @ b # vs" "ring' \<noteq> []"
    and fresh: "(set ms \<union> set ms') \<inter> (set us \<union> {a, b} \<union> set vs) = {}"
    and out: "set ms' \<inter> (set (concat R1) \<union> set (concat R2)) = {}"
    and n: "\<And>x. x \<notin> insert a (set ms \<union> set ms') \<Longrightarrow> nxt h' x = nxt h x"
    and p: "\<And>x. x \<notin> insert b (set ms \<union> set ms') \<Longrightarrow> prv h' x = prv h x"
    and new: "chain h' (a # ms' @ [b])"
    and D: "distinct (concat (R1 @ ring' # R2) @ free')" "set (concat (R1 @ ring' # R2) @ free') = live_nodes h'"
    and free: "set free' \<subseteq> (set free - set ms') \<union> set ms" "\<And>x. x \<in> set ms \<Longrightarrow> nxt h' x = None \<and> prv h' x = None"
  shows "represents h' (R1 @ ring' # R2, free')"
proof -
  have dist: "distinct (concat (R1 @ ring # R2) @ free)" and ne: "ring \<noteq> []" and ch: "chain h (cycle ring)"
    using rep by (auto simp: represents_def)
  have d: "distinct (butlast (us @ a # ms @ b # vs))" "distinct (tl (us @ a # ms @ b # vs))"
    using dist ne unfolding c(1) [symmetric] by (cases ring; auto)+
  have d': "distinct (butlast (us @ a # b # vs))" "distinct (tl (us @ a # b # vs))"
    using d by (cases us; auto simp: butlast_append split: if_splits)+
  have ab: "{a, b} \<subseteq> set ring" and ms: "set ms \<subseteq> set ring" using set_cycle [OF ne] unfolding c(1) by auto
  have "chain h' (cycle ring')" unfolding c(2) by (rule splice [OF ch [unfolded c(1)] d' fresh n p new])
  moreover have "chain h' (cycle r)" "r \<noteq> []" if "r \<in> set (R1 @ R2)" for r
  proof -
    have r: "chain h (cycle r)" "r \<noteq> []" using rep that by (auto simp: represents_def)
    have sub: "set (cycle r) \<subseteq> set (concat R1) \<union> set (concat R2)" using that set_cycle [OF r(2)] by auto
    have "(set (concat R1) \<union> set (concat R2)) \<inter> set ring = {}" using dist by auto
    then have "x \<notin> insert a (insert b (set ms \<union> set ms'))" if "x \<in> set (cycle r)" for x
      using subsetD [OF sub that] out ab ms by blast
    then have "chain h' (cycle r) = chain h (cycle r)"
      using n p by (intro chain_same) simp
    with r show "chain h' (cycle r)" "r \<noteq> []" by simp_all
  qed
  moreover have "nxt h' x = None \<and> prv h' x = None" if "x \<in> set free'" for x
  proof (cases "x \<in> set ms")
    case False
    then have "x \<in> set free" "x \<notin> set ms'" using free(1) that by auto
    moreover from this have "x \<noteq> a" "x \<noteq> b" using ab dist by auto
    ultimately show ?thesis using n [of x] p [of x] False rep by (auto simp: represents_def)
  qed (rule free(2))
  ultimately show ?thesis using D c(3) by (auto simp: represents_def)
qed

lemma chain_mid: "chain h (us @ a # b # vs) \<Longrightarrow> nxt h a = Some b \<and> prv h b = Some a"
  using chain_append [of h us a "b # vs"] by simp

lemma represents_insert:
  assumes rep: "represents h (R1 @ ring # R2, free)" and p: "p \<in> set free"
    and c: "cycle ring = us @ a # b # vs" "cycle ring' = us @ a # p # b # vs" "ring' \<noteq> []" "mset ring' = add_mset p (mset ring)"
    and l: "nxt h' = (nxt h)(p := Some b, a := Some p)" "prv h' = (prv h)(p := Some a, b := Some p)" "live_nodes h' = live_nodes h"
  shows "represents h' (R1 @ ring' # R2, remove1 p free)"
proof -
  have dist: "distinct (concat (R1 @ ring # R2) @ free)" and nd: "set (concat (R1 @ ring # R2) @ free) = live_nodes h" and ne: "ring \<noteq> []"
    using rep by (auto simp: represents_def)
  have pr: "p \<notin> set (concat (R1 @ ring # R2))" using dist p by auto
  then have pc: "p \<notin> set (us @ a # b # vs)" using set_cycle [OF ne] unfolding c(1) by auto
  have M: "mset (concat (R1 @ ring' # R2) @ remove1 p free) = mset (concat (R1 @ ring # R2) @ free)"
    using c(4) p by simp
  have "distinct (concat (R1 @ ring' # R2) @ remove1 p free)" using mset_eq_imp_distinct_iff [OF M] dist by blast
  moreover have "set (concat (R1 @ ring' # R2) @ remove1 p free) = live_nodes h'" using mset_eq_setD [OF M] nd l(3) by simp
  ultimately show ?thesis
    using pc pr dist l c(1-3) by (intro represents_splice [OF rep, where us = us and a = a and ms = "[]" and b = b and vs = vs and ms' = "[p]"]) auto
qed

section \<open>Programs\<close>

datatype link_op = NewNode nat | NewList nat | AppendTo nat nat | Before nat nat | After nat nat | Unlink nat
  | MoveNode nat nat | Destroy nat

fun do_link :: "link_op \<Rightarrow> heap \<Rightarrow> heap checked" where
  "do_link (NewNode p) h = Inr (LinkNode_new p h)"
| "do_link (NewList r) h = Inr (LinkedList_new r h)"
| "do_link (AppendTo r e) h = Append r e h"
| "do_link (Before p e) h = InsertBefore p e h"
| "do_link (After p e) h = InsertAfter p e h"
| "do_link (Unlink p) h = RemoveFromList p h"
| "do_link (MoveNode p rhs) h = LinkNode_move p rhs h"
| "do_link (Destroy p) h = Inr (h(p := None))"

fun do_links :: "link_op list \<Rightarrow> heap \<Rightarrow> heap checked" where
  "do_links [] h = Inr h"
| "do_links (op # ops) h = rbind (do_link op h) (do_links ops)"

text \<open>The same on lists: a node before the root is the last one.\<close>

definition ring_before :: "nat \<Rightarrow> nat \<Rightarrow> nat list \<Rightarrow> nat list" where
  "ring_before p e ring =
     (if ring \<noteq> [] \<and> e = hd ring then ring @ [p] else concat (map (\<lambda>x. if x = e then [p, x] else [x]) ring))"

definition ring_after :: "nat \<Rightarrow> nat \<Rightarrow> nat list \<Rightarrow> nat list" where
  "ring_after p e ring = concat (map (\<lambda>x. if x = e then [x, p] else [x]) ring)"

fun link_spec :: "link_op \<Rightarrow> lists \<Rightarrow> lists" where
  "link_spec (NewNode p) (rings, free) = (rings, p # free)"
| "link_spec (NewList r) (rings, free) = ([r] # rings, free)"
| "link_spec (AppendTo r e) (rings, free) = (map (\<lambda>ring. if hd ring = r then ring @ [e] else ring) rings, remove1 e free)"
| "link_spec (Before p e) (rings, free) = (map (ring_before p e) rings, remove1 p free)"
| "link_spec (After p e) (rings, free) = (map (ring_after p e) rings, remove1 p free)"
| "link_spec (Unlink p) (rings, free) = (map (filter (\<lambda>x. x \<noteq> p)) rings, p # free)"
| "link_spec (MoveNode p rhs) (rings, free) =
     (if rhs \<in> set free then (rings, p # free)
      else (map (map (\<lambda>x. if x = rhs then p else x)) rings, rhs # free))"
| "link_spec (Destroy p) (rings, free) = (rings, remove1 p free)"

fun link_ok :: "link_op \<Rightarrow> lists \<Rightarrow> bool" where
  "link_ok (NewNode p) (rings, free) \<longleftrightarrow> p \<notin> set (concat rings @ free)"
| "link_ok (NewList r) (rings, free) \<longleftrightarrow> r \<notin> set (concat rings @ free)"
| "link_ok (AppendTo r e) (rings, free) \<longleftrightarrow> r \<in> set (map hd rings) \<and> e \<in> set free"
| "link_ok (Before p e) (rings, free) \<longleftrightarrow> p \<in> set free \<and> e \<in> set (concat rings)"
| "link_ok (After p e) (rings, free) \<longleftrightarrow> p \<in> set free \<and> e \<in> set (concat rings)"
| "link_ok (Unlink p) (rings, free) \<longleftrightarrow> p \<in> set (concat (map tl rings))"
| "link_ok (MoveNode p rhs) (rings, free) \<longleftrightarrow>
     p \<notin> set (concat rings @ free) \<and> rhs \<in> set (concat (map tl rings) @ free)"
| "link_ok (Destroy p) (rings, free) \<longleftrightarrow> p \<in> set free"

fun links_ok :: "link_op list \<Rightarrow> lists \<Rightarrow> bool" where
  "links_ok [] L \<longleftrightarrow> True"
| "links_ok (op # ops) L \<longleftrightarrow> link_ok op L \<and> links_ok ops (link_spec op L)"

lemma concat_skip:
  assumes "e \<notin> set xs"
  shows "concat (map (\<lambda>x. if x = e then ys x else [x]) xs) = xs"
  using assms by (induction xs) auto

lemma ring_skip:
  assumes "e \<notin> set ring"
  shows "ring_before p e ring = ring" "ring_after p e ring = ring" "filter (\<lambda>x. x \<noteq> e) ring = ring"
    "map (\<lambda>x. if x = e then p else x) ring = ring"
proof -
  have "e \<noteq> hd ring" if "ring \<noteq> []" using assms that by auto
  then show "ring_before p e ring = ring"
    using assms by (auto simp: ring_before_def concat_skip)
qed (use assms in \<open>auto simp: ring_after_def filter_id_conv concat_skip intro!: map_idI\<close>)

lemma rings_skip:
  assumes "e \<notin> set (concat rings)"
  shows "map (ring_before p e) rings = rings" "map (ring_after p e) rings = rings" "map (filter (\<lambda>x. x \<noteq> e)) rings = rings"
    "map (map (\<lambda>x. if x = e then p else x)) rings = rings"
  using assms by (auto intro!: map_idI simp del: map_map dest: ring_skip)

text \<open>A ring around one of its nodes.\<close>

lemma ring_around:
  assumes "distinct (us @ e # vs)"
  shows "us \<noteq> [] \<Longrightarrow> ring_before p e (us @ e # vs) = us @ p # e # vs" "ring_before p e (e # vs) = e # vs @ [p]"
    "ring_after p e (us @ e # vs) = us @ e # p # vs" "filter (\<lambda>x. x \<noteq> e) (us @ e # vs) = us @ vs"
    "map (\<lambda>x. if x = e then p else x) (us @ e # vs) = us @ p # vs"
proof -
  have e: "e \<notin> set us" "e \<notin> set vs" using assms by auto
  show "ring_before p e (us @ e # vs) = us @ p # e # vs" if "us \<noteq> []"
    using e that hd_in_set [OF that] by (auto simp: ring_before_def concat_skip)
  show "ring_before p e (e # vs) = e # vs @ [p]" by (simp add: ring_before_def)
qed (use assms in \<open>auto simp: ring_after_def concat_skip ring_skip intro!: map_idI\<close>)

section \<open>The operations on represented stores\<close>

lemma representsD:
  assumes "represents h (rings, free)"
  shows "distinct (concat rings @ free)" "set (concat rings @ free) = live_nodes h"
    "ring \<in> set rings \<Longrightarrow> ring \<noteq> [] \<and> chain h (cycle ring)" "x \<in> set free \<Longrightarrow> nxt h x = None \<and> prv h x = None"
  using assms by (auto simp: represents_def)

lemma represents_split:
  assumes "represents h (rings, free)" "e \<in> set (concat rings)"
  obtains R1 us vs R2 where "rings = R1 @ (us @ e # vs) # R2" "e \<notin> set (concat R1)" "e \<notin> set (concat R2)"
    "distinct (us @ e # vs)"
proof -
  have "distinct (concat rings)" using representsD(1) [OF assms(1)] by simp
  from rings_split [OF this assms(2)] obtain R1 ring R2
    where R: "rings = R1 @ ring # R2" "e \<in> set ring" "e \<notin> set (concat R1)" "e \<notin> set (concat R2)" .
  obtain us vs where "ring = us @ e # vs" using R(2) by (meson split_list)
  with R \<open>distinct (concat rings)\<close> show thesis by (intro that [of R1 us vs R2]) auto
qed

lemma ring_nodes:
  assumes "represents h (R1 @ ring # R2, free)" "cycle ring = us @ a # b # vs"
  shows "a \<in> live_nodes h" "b \<in> live_nodes h" "nxt h a = Some b" "prv h b = Some a" "a \<notin> set free" "b \<notin> set free"
proof -
  have r: "ring \<noteq> []" "chain h (cycle ring)" using representsD(3) [OF assms(1)] by auto
  have "{a, b} \<subseteq> set ring" using set_cycle [OF r(1)] unfolding assms(2) by auto
  then show "a \<in> live_nodes h" "b \<in> live_nodes h" "a \<notin> set free" "b \<notin> set free" using representsD(1,2) [OF assms(1)] by auto
  show "nxt h a = Some b" "prv h b = Some a" using chain_mid r(2) unfolding assms(2) by blast+
qed

lemma InsertBefore_represents:
  assumes rep: "represents h (R1 @ ring # R2, free)" and p: "p \<in> set free"
    and c: "cycle ring = us @ a # e # vs" "cycle ring' = us @ a # p # e # vs" "ring' \<noteq> []" "mset ring' = add_mset p (mset ring)"
  shows "returns (InsertBefore p e h) (\<lambda>h'. represents h' (R1 @ ring' # R2, remove1 p free))"
proof -
  note a = ring_nodes [OF rep c(1)]
  have "p \<in> live_nodes h" using representsD(2) [OF rep] p by auto
  moreover have "p \<noteq> e" "a \<noteq> p" using p a(5,6) by auto
  ultimately have "returns (InsertBefore p e h) (\<lambda>h'. nxt h' = (nxt h)(p := Some e, a := Some p) \<and>
    prv h' = (prv h)(p := Some a, e := Some p) \<and> live_nodes h' = live_nodes h)" by (intro InsertBefore_links a)
  then show ?thesis by (rule returns_mono) (auto intro: represents_insert [OF rep p c])
qed

lemma InsertAfter_represents:
  assumes rep: "represents h (R1 @ ring # R2, free)" and p: "p \<in> set free"
    and c: "cycle ring = us @ e # b # vs" "cycle ring' = us @ e # p # b # vs" "ring' \<noteq> []" "mset ring' = add_mset p (mset ring)"
  shows "returns (InsertAfter p e h) (\<lambda>h'. represents h' (R1 @ ring' # R2, remove1 p free))"
proof -
  note a = ring_nodes [OF rep c(1)]
  have "p \<in> live_nodes h" using representsD(2) [OF rep] p by auto
  moreover have "p \<noteq> e" "b \<noteq> p" using p a(5,6) by auto
  ultimately have "returns (InsertAfter p e h) (\<lambda>h'. nxt h' = (nxt h)(p := Some b, e := Some p) \<and>
    prv h' = (prv h)(p := Some e, b := Some p) \<and> live_nodes h' = live_nodes h)" by (intro InsertAfter_links a)
  then show ?thesis by (rule returns_mono) (auto intro: represents_insert [OF rep p c])
qed

lemma cycle_next: "\<exists>b ws. vs @ [r] = b # ws"
  by (cases vs) auto

lemma do_Before:
  assumes rep: "represents h (rings, free)" and ok: "link_ok (Before p e) (rings, free)"
  shows "returns (InsertBefore p e h) (\<lambda>h'. represents h' (link_spec (Before p e) (rings, free)))"
proof -
  have p: "p \<in> set free" and e: "e \<in> set (concat rings)" using ok by auto
  from represents_split [OF rep e] obtain R1 us vs R2 where R: "rings = R1 @ (us @ e # vs) # R2"
    "e \<notin> set (concat R1)" "e \<notin> set (concat R2)" "distinct (us @ e # vs)" .
  have spec: "link_spec (Before p e) (rings, free) = (R1 @ ring_before p e (us @ e # vs) # R2, remove1 p free)"
    using R(1) rings_skip(1) [OF R(2)] rings_skip(1) [OF R(3)] by simp
  show ?thesis
  proof (cases us rule: rev_cases)
    case Nil
    obtain ws a where ws: "e # vs = ws @ [a]" by (cases "e # vs" rule: rev_cases) auto
    have b: "ring_before p e (us @ e # vs) = e # vs @ [p]" using ring_around(2) [OF R(4)] Nil by simp
    have "hd (ws @ [a]) = e" unfolding ws [symmetric] by simp
    then have c: "cycle (us @ e # vs) = ws @ a # e # []" "cycle (e # vs @ [p]) = ws @ a # p # e # []" using ws Nil by simp_all
    show ?thesis unfolding spec b by (rule InsertBefore_represents [OF rep [unfolded R(1)] p c]) (simp_all add: Nil)
  next
    case (snoc us' a)
    have b: "ring_before p e (us @ e # vs) = us @ p # e # vs" using ring_around(1) [OF R(4)] snoc by simp
    have c: "cycle (us @ e # vs) = us' @ a # e # vs @ [hd us]" "cycle (us @ p # e # vs) = us' @ a # p # e # vs @ [hd us]"
      using snoc by (cases us'; simp)+
    show ?thesis unfolding spec b by (rule InsertBefore_represents [OF rep [unfolded R(1)] p c]) simp_all
  qed
qed

lemma do_After:
  assumes rep: "represents h (rings, free)" and ok: "link_ok (After p e) (rings, free)"
  shows "returns (InsertAfter p e h) (\<lambda>h'. represents h' (link_spec (After p e) (rings, free)))"
proof -
  have p: "p \<in> set free" and e: "e \<in> set (concat rings)" using ok by auto
  from represents_split [OF rep e] obtain R1 us vs R2 where R: "rings = R1 @ (us @ e # vs) # R2"
    "e \<notin> set (concat R1)" "e \<notin> set (concat R2)" "distinct (us @ e # vs)" .
  have spec: "link_spec (After p e) (rings, free) = (R1 @ (us @ e # p # vs) # R2, remove1 p free)"
    using R(1) rings_skip(2) [OF R(2)] rings_skip(2) [OF R(3)] ring_around(3) [OF R(4)] by simp
  obtain b ws where ws: "vs @ [hd (us @ [e])] = b # ws" using cycle_next [of vs] by blast
  then have c: "cycle (us @ e # vs) = us @ e # b # ws" "cycle (us @ e # p # vs) = us @ e # p # b # ws"
    by (cases us; simp)+
  show ?thesis unfolding spec by (rule InsertAfter_represents [OF rep [unfolded R(1)] p c]) simp_all
qed

lemma do_AppendTo:
  assumes rep: "represents h (rings, free)" and ok: "link_ok (AppendTo r e) (rings, free)"
  shows "returns (Append r e h) (\<lambda>h'. represents h' (link_spec (AppendTo r e) (rings, free)))"
proof -
  have r: "r \<in> set (map hd rings)" and e: "e \<in> set free" using ok by auto
  have ne: "ring \<noteq> []" if "ring \<in> set rings" for ring using representsD(3) [OF rep that] by blast
  have in_ring: "r \<in> set (concat rings)" using r ne by (auto intro!: bexI)
  have "distinct (concat rings)" using representsD(1) [OF rep] by simp
  have "ring_before e r ring = (if hd ring = r then ring @ [e] else ring)" if ring: "ring \<in> set rings" for ring
  proof (cases "r \<in> set ring")
    case True
    obtain ring' where ring': "ring' \<in> set rings" "hd ring' = r" using r by auto
    then have "ring' = ring"
      using \<open>distinct (concat rings)\<close> ring True hd_in_set [OF ne [OF ring'(1)]] by (auto simp: distinct_concat_iff)
    then show ?thesis using ring' ne by (auto simp: ring_before_def)
  next
    case False
    then show ?thesis using ring_skip(1) [of r ring e] ne [OF ring] hd_in_set [of ring] by auto
  qed
  then have "link_spec (AppendTo r e) (rings, free) = link_spec (Before e r) (rings, free)" by simp
  then show ?thesis unfolding Append_def using e in_ring by (simp only: do_Before [OF rep] link_ok.simps)
qed

lemma inner_split:
  assumes rep: "represents h (rings, free)" and p: "p \<in> set (concat (map tl rings))"
  obtains R1 us a b vs ws R2 where "rings = R1 @ (us @ a # p # vs) # R2" "p \<notin> set (concat R1)" "p \<notin> set (concat R2)"
    "distinct (us @ a # p # vs)" "vs @ [hd (us @ [a])] = b # ws" "set (b # ws) \<subseteq> set (us @ a # vs)"
proof -
  obtain ring where ring: "ring \<in> set rings" "p \<in> set (tl ring)" using p by auto
  have pr: "p \<in> set ring" using ring(2) by (metis list.sel(2) list.set_sel(2))
  with ring(1) have p': "p \<in> set (concat rings)" by auto
  from represents_split [OF rep p'] obtain R1 us vs R2
    where R: "rings = R1 @ (us @ p # vs) # R2" "p \<notin> set (concat R1)" "p \<notin> set (concat R2)" "distinct (us @ p # vs)" .
  have "ring = us @ p # vs" using R(1-3) ring(1) pr by auto
  then have "us \<noteq> []" using ring(2) R(4) by (cases us) auto
  then obtain us' a where us: "us = us' @ [a]" by (cases us rule: rev_cases) auto
  obtain b ws where ws: "vs @ [hd (us' @ [a])] = b # ws" using cycle_next [of vs] by blast
  have "set (b # ws) \<subseteq> set (us' @ a # vs)" unfolding ws [symmetric] by (cases us') auto
  with R us ws show thesis by (intro that [of R1 us' a vs R2 b ws]) auto
qed

lemma do_Unlink:
  assumes rep: "represents h (rings, free)" and ok: "link_ok (Unlink p) (rings, free)"
  shows "returns (RemoveFromList p h) (\<lambda>h'. represents h' (link_spec (Unlink p) (rings, free)))"
proof -
  have "p \<in> set (concat (map tl rings))" using ok by simp
  from inner_split [OF rep this] obtain R1 us a b vs ws R2 where R: "rings = R1 @ (us @ a # p # vs) # R2"
    "p \<notin> set (concat R1)" "p \<notin> set (concat R2)" "distinct (us @ a # p # vs)" and ws: "vs @ [hd (us @ [a])] = b # ws"
    and sub: "set (b # ws) \<subseteq> set (us @ a # vs)" .
  have c: "cycle (us @ a # p # vs) = us @ a # [p] @ b # ws" "cycle (us @ a # vs) = us @ a # [] @ b # ws"
    using ws by (cases us; simp)+
  have spec: "link_spec (Unlink p) (rings, free) = (R1 @ (us @ a # vs) # R2, p # free)"
    using R(1) rings_skip(3) [OF R(2)] rings_skip(3) [OF R(3)] ring_around(4) [of "us @ [a]" p vs] R(4) by simp
  note rep' = rep [unfolded R(1)]
  note l = ring_nodes [OF rep', of us a p "b # ws"] ring_nodes [OF rep', of "us @ [a]" p b ws]
  have b: "b \<noteq> p" "p \<notin> set ws" "a \<noteq> p" using R(4) sub by auto
  have "returns (RemoveFromList p h) (\<lambda>h'. nxt h' = (nxt h)(a := Some b, p := None) \<and>
    prv h' = (prv h)(b := Some a, p := None) \<and> live_nodes h' = live_nodes h)"
    using l c(1) b by (intro RemoveFromList_links) auto
  then show ?thesis unfolding spec
  proof (rule returns_mono)
    fix h'
    assume h': "nxt h' = (nxt h)(a := Some b, p := None) \<and> prv h' = (prv h)(b := Some a, p := None) \<and> live_nodes h' = live_nodes h"
    show "represents h' (R1 @ (us @ a # vs) # R2, p # free)"
      by (rule represents_splice [OF rep' c]) (use h' b R(4) representsD(1,2) [OF rep'] in auto)
  qed
qed

lemma do_MoveNode:
  assumes rep: "represents h (rings, free)" and ok: "link_ok (MoveNode p rhs) (rings, free)"
  shows "returns (LinkNode_move p rhs h) (\<lambda>h'. represents h' (link_spec (MoveNode p rhs) (rings, free)))"
proof (cases "rhs \<in> set free")
  case True
  then have "returns (LinkNode_move p rhs h) (\<lambda>h'. nxt h' = (nxt h)(p := None) \<and> prv h' = (prv h)(p := None) \<and>
    live_nodes h' = insert p (live_nodes h))"
    using ok representsD [OF rep] by (intro LinkNode_move_free) auto
  moreover have "represents h' (rings, p # free)"
    if "nxt h' = (nxt h)(p := None) \<and> prv h' = (prv h)(p := None) \<and> live_nodes h' = insert p (live_nodes h)" for h'
  proof -
    have "chain h' (cycle ring) = chain h (cycle ring)" if "ring \<in> set rings" for ring
      using ok that \<open>_ \<and> _\<close> representsD(3) [OF rep that] by (intro chain_same) auto
    with that ok rep show ?thesis by (auto simp: represents_def)
  qed
  ultimately show ?thesis using True by (auto elim: returns_mono)
next
  case False
  then have rhs: "rhs \<in> set (concat (map tl rings))" and pn: "p \<notin> live_nodes h" using ok representsD(2) [OF rep] by auto
  from inner_split [OF rep rhs] obtain R1 us a b vs ws R2 where R: "rings = R1 @ (us @ a # rhs # vs) # R2"
    "rhs \<notin> set (concat R1)" "rhs \<notin> set (concat R2)" "distinct (us @ a # rhs # vs)" and ws: "vs @ [hd (us @ [a])] = b # ws"
    and sub: "set (b # ws) \<subseteq> set (us @ a # vs)" .
  have c: "cycle (us @ a # rhs # vs) = us @ a # [rhs] @ b # ws" "cycle (us @ a # p # vs) = us @ a # [p] @ b # ws"
    using ws by (cases us; simp)+
  have spec: "link_spec (MoveNode p rhs) (rings, free) = (R1 @ (us @ a # p # vs) # R2, rhs # free)"
    using False R(1) rings_skip(4) [OF R(2)] rings_skip(4) [OF R(3)] ring_around(5) [of "us @ [a]" rhs vs] R(4) by simp
  note rep' = rep [unfolded R(1)]
  note l = ring_nodes [OF rep', of us a rhs "b # ws"] ring_nodes [OF rep', of "us @ [a]" rhs b ws]
  have b: "b \<noteq> rhs" "rhs \<notin> set ws" "a \<noteq> rhs" using R(4) sub by auto
  have "set (us @ a # b # ws) \<subseteq> live_nodes h"
    using sub representsD(2) [OF rep'] by auto
  then have pu: "p \<notin> set (us @ a # b # ws)" using pn by blast
  have "returns (LinkNode_move p rhs h) (\<lambda>h'. nxt h' = (nxt h)(rhs := None, p := Some b, a := Some p) \<and>
    prv h' = (prv h)(rhs := None, p := Some a, b := Some p) \<and> live_nodes h' = insert p (live_nodes h))"
    using l c(1) b pn by (intro LinkNode_move_links) auto
  then show ?thesis unfolding spec
  proof (rule returns_mono)
    fix h'
    assume h': "nxt h' = (nxt h)(rhs := None, p := Some b, a := Some p) \<and>
      prv h' = (prv h)(rhs := None, p := Some a, b := Some p) \<and> live_nodes h' = insert p (live_nodes h)"
    show "represents h' (R1 @ (us @ a # p # vs) # R2, rhs # free)"
      by (rule represents_splice [OF rep' c]) (use h' b pu pn R(4) representsD(1,2) [OF rep'] in auto)
  qed
qed

lemma represents_frame:
  assumes rep: "represents h (rings, free)"
    and n: "\<And>x. x \<noteq> p \<Longrightarrow> nxt h' x = nxt h x \<and> prv h' x = prv h x" and p: "p \<notin> set (concat rings)" and ring: "ring \<in> set rings"
  shows "chain h' (cycle ring)"
proof -
  have r: "ring \<noteq> []" "chain h (cycle ring)" using representsD(3) [OF rep ring] by auto
  have "a \<noteq> p" if "a \<in> set (cycle ring)" for a using that p ring set_cycle [OF r(1)] by auto
  then have "chain h' (cycle ring) = chain h (cycle ring)" by (intro chain_same n)
  with r show ?thesis by simp
qed

lemma do_NewNode:
  assumes rep: "represents h (rings, free)" and ok: "link_ok (NewNode p) (rings, free)"
  shows "represents (LinkNode_new p h) (link_spec (NewNode p) (rings, free))"
proof -
  have "p \<notin> set (concat rings)" using ok by simp
  from represents_frame [OF rep _ this, of "LinkNode_new p h"] representsD [OF rep] ok
  show ?thesis by (auto simp: represents_def LinkNode_new_def new_views)
qed

lemma do_NewList:
  assumes rep: "represents h (rings, free)" and ok: "link_ok (NewList r) (rings, free)"
  shows "represents (LinkedList_new r h) (link_spec (NewList r) (rings, free))"
proof -
  have "r \<notin> set (concat rings)" using ok by simp
  from represents_frame [OF rep _ this, of "LinkedList_new r h"] representsD [OF rep] ok
  show ?thesis by (auto simp: represents_def LinkedList_new_def new_views)
qed

lemma do_Destroy:
  assumes rep: "represents h (rings, free)" and ok: "link_ok (Destroy p) (rings, free)"
  shows "represents (h(p := None)) (link_spec (Destroy p) (rings, free))"
proof -
  have v: "nxt (h(p := None)) = (nxt h)(p := None)" "prv (h(p := None)) = (prv h)(p := None)" "live_nodes (h(p := None)) = live_nodes h - {p}"
    by (auto simp: nxt_def prv_def live_nodes_def fun_eq_iff)
  have "p \<notin> set (concat rings)" using representsD(1) [OF rep] ok by auto
  from represents_frame [OF rep _ this, of "h(p := None)"] representsD [OF rep] ok
  show ?thesis by (auto simp: represents_def v)
qed

lemma do_link_represents:
  assumes "represents h L" "link_ok op L"
  shows "returns (do_link op h) (\<lambda>h'. represents h' (link_spec op L))"
proof -
  obtain rings free where L: "L = (rings, free)" by (cases L)
  show ?thesis
    using assms unfolding L
    by (cases op; simp only: do_link.simps returns_simps do_NewNode do_NewList do_AppendTo do_Before do_After do_Unlink do_MoveNode do_Destroy)
qed

lemma do_links_represents:
  assumes "represents h L" "links_ok ops L"
  shows "returns (do_links ops h) (\<lambda>h'. represents h' (fold link_spec ops L))"
  using assms
proof (induction ops arbitrary: h L)
  case (Cons op ops)
  have "returns (do_link op h) (\<lambda>h'. represents h' (link_spec op L))" using Cons.prems by (intro do_link_represents) auto
  moreover have "links_ok ops (link_spec op L)" using Cons.prems(2) by simp
  ultimately show ?case unfolding do_links.simps returns_rbind fold.simps comp_apply by (elim returns_mono Cons.IH)
qed simp

section \<open>What a reader of a list sees\<close>

lemma get_link: "a \<in> live_nodes h \<Longrightarrow> get_next (Some a) h = Inr (nxt h a)" "a \<in> live_nodes h \<Longrightarrow> get_previous (Some a) h = Inr (prv h a)"
  by (auto simp: live_nodes_def get_next_def get_previous_def node_at_def nxt_def prv_def)

lemma visit_forward:
  assumes "chain h (us @ [root])" "root \<notin> set us" "set us \<subseteq> live_nodes h"
  shows "visit get_next (Suc (length us)) (Some (hd (us @ [root]))) root h = Inr (Some us)"
  using assms
proof (induction us)
  case (Cons u us)
  then have "nxt h u = Some (hd (us @ [root]))" "chain h (us @ [root])" by (cases us; simp)+
  with Cons show ?case by (auto simp: get_link simp del: visit.simps(2) simp: visit.simps(2) [of _ "Suc (length us)"])
qed simp

lemma visit_backward:
  assumes "chain h (root # us)" "root \<notin> set us" "set us \<subseteq> live_nodes h"
  shows "visit get_previous (Suc (length us)) (Some (last (root # us))) root h = Inr (Some (rev us))"
  using assms
proof (induction us rule: rev_induct)
  case (snoc u us)
  have "prv h u = Some (last (root # us))" "chain h (root # us)"
    using snoc.prems(1) chain_snoc [of "root # us" h u] by simp_all
  moreover have "last (root # us @ [u]) = u" by simp
  ultimately show ?case
    using snoc by (auto simp: get_link simp del: visit.simps(2) last.simps simp: visit.simps(2) [of _ "Suc (length us)"])
qed simp

lemma ring_visits:
  assumes rep: "represents h (rings, free)" and "ring \<in> set rings"
  shows "nodes_forward (length ring) (hd ring) h = Inr (Some (tl ring))"
    and "nodes_backward (length ring) (hd ring) h = Inr (Some (rev (tl ring)))"
    and "list_empty (hd ring) h = Inr (tl ring = [])"
proof -
  obtain r us where ring: "ring = r # us" using representsD(3) [OF assms] by (cases ring) auto
  have ch: "chain h (r # us @ [r])" using representsD(3) [OF assms] ring by simp
  obtain R1 R2 where R: "rings = R1 @ (r # us) # R2" using assms(2) ring by (meson split_list)
  have d: "r \<notin> set us" and nd: "set us \<subseteq> live_nodes h" "r \<in> live_nodes h"
    using representsD(1,2) [OF rep] unfolding R by auto
  have f: "nxt h r = Some (hd (us @ [r]))" "chain h (us @ [r])" using ch by (cases us; simp)+
  have b: "prv h r = Some (last (r # us))" "chain h (r # us)" using ch chain_snoc [of "r # us" h r] by simp_all
  show "nodes_forward (length ring) (hd ring) h = Inr (Some (tl ring))"
    using visit_forward [OF f(2) d nd(1)] by (simp add: ring nodes_forward_def list_head_def get_link nd(2) f(1) del: visit.simps)
  show "nodes_backward (length ring) (hd ring) h = Inr (Some (rev (tl ring)))"
    using visit_backward [OF b(2) d nd(1)]
    by (simp add: ring nodes_backward_def list_tail_def get_link nd(2) b(1) del: visit.simps last.simps)
  show "list_empty (hd ring) h = Inr (tl ring = [])"
    using f(1) d nd by (cases us) (auto simp: ring list_empty_def list_head_def get_link)
qed

lemma cycle_previous:
  obtains a ws rs where "cycle (us @ x # vs) = ws @ a # x # rs"
proof (cases us rule: rev_cases)
  case (snoc us' a)
  then show ?thesis using that [of us' a "vs @ [hd us]"] by (cases us') auto
next
  case Nil
  show ?thesis
  proof (cases vs rule: rev_cases)
    case (snoc vs' a)
    then show ?thesis using Nil that [of "x # vs'" a "[]"] by simp
  qed (use Nil that [of "[]" x "[]"] in simp)
qed

lemma linked_iff:
  assumes rep: "represents h (rings, free)" and x: "x \<in> set (concat rings @ free)"
  shows "\<exists>q p. get_next (Some x) h = Inr q \<and> get_previous (Some x) h = Inr p \<and>
    (q = None \<longleftrightarrow> x \<in> set free) \<and> (p = None \<longleftrightarrow> x \<in> set free)"
proof (cases "x \<in> set free")
  case True
  then have "x \<in> live_nodes h" "nxt h x = None" "prv h x = None" using representsD(2,4) [OF rep] by auto
  then show ?thesis using True by (simp add: get_link)
next
  case False
  then have c: "x \<in> set (concat rings)" and n: "x \<in> live_nodes h" using x representsD(2) [OF rep] by auto
  from represents_split [OF rep c] obtain R1 us vs R2 where R: "rings = R1 @ (us @ x # vs) # R2" .
  obtain b ws where "vs @ [hd (us @ [x])] = b # ws" using cycle_next [of vs] by blast
  then have "cycle (us @ x # vs) = us @ x # b # ws" by (cases us; simp)
  note next_link = ring_nodes(3) [OF rep [unfolded R] this]
  obtain a ws' rs where "cycle (us @ x # vs) = ws' @ a # x # rs" by (rule cycle_previous)
  from ring_nodes(4) [OF rep [unfolded R] this] next_link show ?thesis using n False by (simp add: get_link)
qed

text \<open>
  The example of the documentation inserts a node of a list before itself.  The node becomes its own successor, and the
  loop that visits the list from its head never reaches the root.
\<close>

lemma insert_before_itself:
  assumes "h = [0 \<mapsto> \<lparr>previous_node = Some 1, next_node = Some 1\<rparr>, 1 \<mapsto> \<lparr>previous_node = Some 0, next_node = Some 0\<rparr>]"
  shows "returns (InsertBefore 1 1 h) (\<lambda>h'. nodes_forward fuel 0 h' = Inr None)"
proof -
  define h' :: heap where "h' = h(1 \<mapsto> \<lparr>previous_node = Some 1, next_node = Some 1\<rparr>)"
  have "InsertBefore 1 1 h = Inr h'"
    by (simp add: InsertBefore_def set_next_def set_previous_def get_previous_def node_at_def assms h'_def)
  moreover have "get_next (Some 1) h' = Inr (Some 1)" "list_head 0 h' = Inr (Some 1)"
    by (simp_all add: get_next_def list_head_def node_at_def h'_def assms)
  moreover have "visit get_next fuel (Some 1) 0 h' = Inr None"
    using \<open>get_next (Some 1) h' = Inr (Some 1)\<close> by (induction fuel) simp_all
  ultimately show ?thesis by (simp add: nodes_forward_def)
qed

text \<open>
  (C34) Refinement.  Programs that create nodes and lists, append, insert, remove and move nodes and destroy those in no
  list run without following a null or dangling pointer, and the store then holds exactly the lists of the abstract
  program: walking forwards from the head visits the nodes of a list in order and ends at its root, walking backwards
  visits them in reverse, \<^verbatim>\<open>empty\<close> tells whether there are any, and both links of a node are null exactly when the
  node is in no list.
\<close>

theorem linked_lists_correct:
  assumes "links_ok ops ([], [])" and "fold link_spec ops ([], []) = (rings, free)"
  shows "\<exists>h. do_links ops (\<lambda>_. None) = Inr h \<and>
    (\<forall>ring \<in> set rings. nodes_forward (length ring) (hd ring) h = Inr (Some (tl ring)) \<and>
       nodes_backward (length ring) (hd ring) h = Inr (Some (rev (tl ring))) \<and> list_empty (hd ring) h = Inr (tl ring = [])) \<and>
    (\<forall>x \<in> set (concat rings @ free). \<exists>q p. get_next (Some x) h = Inr q \<and> get_previous (Some x) h = Inr p \<and>
       (q = None \<longleftrightarrow> x \<in> set free) \<and> (p = None \<longleftrightarrow> x \<in> set free))"
proof -
  have "represents (\<lambda>_. None) ([], [])" by (auto simp: represents_def live_nodes_def)
  from do_links_represents [OF this assms(1)] assms(2)
  obtain h where h: "do_links ops (\<lambda>_. None) = Inr h" "represents h (rings, free)" by (auto elim: returnsE)
  show ?thesis using h(1) ring_visits [OF h(2)] linked_iff [OF h(2)] by blast
qed

end
