(* ===== verification/Rtc_FlatTree.thy ===== *)
theory Rtc_FlatTree
  imports Rtc_Numeric "HOL-Library.Multiset"
begin

text \<open>
  The sorted vector behind \<^verbatim>\<open>base::flat_set\<close> and \<^verbatim>\<open>base::flat_map\<close>, \<^verbatim>\<open>base/containers/flat_tree.h\<close> and
  \<^verbatim>\<open>flat_map.h\<close>.  A tree is the vector of its values; an iterator is a position of it.  The key comparison
  \<^verbatim>\<open>KeyCompare\<close> and the extraction of a key from a value, \<^verbatim>\<open>GetKeyFromValue\<close>, are the arguments \<open>lt\<close> and \<open>key\<close>.
\<close>

section \<open>Algorithms of the standard library\<close>

text \<open>\<^verbatim>\<open>std::lower_bound\<close> and \<^verbatim>\<open>std::upper_bound\<close>: the furthest position such that all elements before it satisfy the condition.\<close>

definition std_partition_point :: "('a \<Rightarrow> bool) \<Rightarrow> 'a list \<Rightarrow> nat" where
  "std_partition_point P xs = length (takeWhile P xs)"

text \<open>\<^verbatim>\<open>std::stable_sort\<close>: sorted, with equivalent elements in their order.\<close>

fun stable_insert :: "('a \<Rightarrow> 'a \<Rightarrow> bool) \<Rightarrow> 'a \<Rightarrow> 'a list \<Rightarrow> 'a list" where
  "stable_insert cmp x [] = [x]"
| "stable_insert cmp x (y # ys) = (if cmp y x then y # stable_insert cmp x ys else x # y # ys)"

definition std_stable_sort :: "('a \<Rightarrow> 'a \<Rightarrow> bool) \<Rightarrow> 'a list \<Rightarrow> 'a list" where
  "std_stable_sort cmp xs = foldr (stable_insert cmp) xs []"

text \<open>\<^verbatim>\<open>std::unique\<close> keeps the first of consecutive equal elements, \<^verbatim>\<open>std::adjacent_find\<close> finds the first two.\<close>

fun std_unique :: "('a \<Rightarrow> 'a \<Rightarrow> bool) \<Rightarrow> 'a list \<Rightarrow> 'a list" where
  "std_unique eq (x # y # ys) = (if eq x y then std_unique eq (x # ys) else x # std_unique eq (y # ys))"
| "std_unique eq xs = xs"

fun std_adjacent_find :: "('a \<Rightarrow> 'a \<Rightarrow> bool) \<Rightarrow> 'a list \<Rightarrow> nat" where
  "std_adjacent_find eq (x # y # ys) = (if eq x y then 0 else Suc (std_adjacent_find eq (y # ys)))"
| "std_adjacent_find eq xs = length xs"

text \<open>\<^verbatim>\<open>std::inplace_merge\<close>: elements of the first range come before equivalent ones of the second.\<close>

fun std_merge :: "('a \<Rightarrow> 'a \<Rightarrow> bool) \<Rightarrow> 'a list \<Rightarrow> 'a list \<Rightarrow> 'a list" where
  "std_merge cmp [] ys = ys"
| "std_merge cmp xs [] = xs"
| "std_merge cmp (x # xs) (y # ys) =
     (if cmp y x then y # std_merge cmp (x # xs) ys else x # std_merge cmp xs (y # ys))"

section \<open>Removing duplicates\<close>

text \<open>
  \<^verbatim>\<open>LastUnique\<close> works in place: the positions \<open>replacable\<close>, \<open>first\<close> and \<open>next\<close> move over the vector, which is given
  with the position of the end of what is kept.  An element that was moved from keeps its value.
\<close>

function last_unique_loop :: "('a \<Rightarrow> 'a \<Rightarrow> bool) \<Rightarrow> nat \<Rightarrow> nat \<Rightarrow> nat \<Rightarrow> 'a list \<Rightarrow> nat \<times> nat \<times> 'a list" where
  "last_unique_loop compare replacable first nxt xs =
     (if length xs \<le> nxt then (replacable, first, xs)
      else if \<not> compare (xs ! first) (xs ! nxt)
           then last_unique_loop compare (Suc replacable) (Suc first) (Suc nxt) (xs[replacable := xs ! first])
           else last_unique_loop compare replacable (Suc first) (Suc nxt) xs)"
  by pat_completeness auto
termination by (relation "measure (\<lambda>(_, _, _, nxt, xs). length xs - nxt)") auto

definition LastUnique :: "('a \<Rightarrow> 'a \<Rightarrow> bool) \<Rightarrow> 'a list \<Rightarrow> 'a list \<times> nat" where
  "LastUnique compare xs =
     (let replacable = std_adjacent_find compare xs in
      if replacable = length xs then (xs, length xs)
      else let first = Suc replacable in
      if first = length xs then (xs, replacable)
      else let (replacable, first, xs) = last_unique_loop compare replacable first (Suc first) xs
           in (xs[replacable := xs ! first], Suc replacable))"

datatype FlatContainerDupes = KEEP_FIRST_OF_DUPES | KEEP_LAST_OF_DUPES

text \<open>Sorts the values from \<open>first\<close> to \<open>end\<close> and erases the duplicates among them.\<close>

definition value_comp :: "('k \<Rightarrow> 'k \<Rightarrow> bool) \<Rightarrow> ('v \<Rightarrow> 'k) \<Rightarrow> 'v \<Rightarrow> 'v \<Rightarrow> bool" where
  "value_comp lt key a b = lt (key a) (key b)"

definition sort_and_unique :: "('k \<Rightarrow> 'k \<Rightarrow> bool) \<Rightarrow> ('v \<Rightarrow> 'k) \<Rightarrow> nat \<Rightarrow> nat \<Rightarrow> FlatContainerDupes \<Rightarrow> 'v list \<Rightarrow> 'v list" where
  "sort_and_unique lt key first end_pos dupes t =
     (let range = std_stable_sort (value_comp lt key) (take (end_pos - first) (drop first t));
          comparator = (\<lambda>lhs rhs. \<not> value_comp lt key lhs rhs);
          kept = (case dupes of
              KEEP_FIRST_OF_DUPES \<Rightarrow> std_unique comparator range
            | KEEP_LAST_OF_DUPES \<Rightarrow> (let (range, erase_after) = LastUnique comparator range in take erase_after range))
      in take first t @ kept @ drop end_pos t)"

section \<open>Searching\<close>

definition ft_lower_bound :: "('k \<Rightarrow> 'k \<Rightarrow> bool) \<Rightarrow> ('v \<Rightarrow> 'k) \<Rightarrow> 'k \<Rightarrow> 'v list \<Rightarrow> nat" where
  "ft_lower_bound lt key k t = std_partition_point (\<lambda>v. lt (key v) k) t"

definition ft_upper_bound :: "('k \<Rightarrow> 'k \<Rightarrow> bool) \<Rightarrow> ('v \<Rightarrow> 'k) \<Rightarrow> 'k \<Rightarrow> 'v list \<Rightarrow> nat" where
  "ft_upper_bound lt key k t = std_partition_point (\<lambda>v. \<not> lt k (key v)) t"

definition ft_equal_range :: "('k \<Rightarrow> 'k \<Rightarrow> bool) \<Rightarrow> ('v \<Rightarrow> 'k) \<Rightarrow> 'k \<Rightarrow> 'v list \<Rightarrow> nat \<times> nat" where
  "ft_equal_range lt key k t =
     (let lower = ft_lower_bound lt key k t in
      if lower = length t \<or> lt k (key (t ! lower)) then (lower, lower) else (lower, Suc lower))"

definition ft_count :: "('k \<Rightarrow> 'k \<Rightarrow> bool) \<Rightarrow> ('v \<Rightarrow> 'k) \<Rightarrow> 'k \<Rightarrow> 'v list \<Rightarrow> nat" where
  "ft_count lt key k t = (let (first, last_pos) = ft_equal_range lt key k t in last_pos - first)"

definition ft_find :: "('k \<Rightarrow> 'k \<Rightarrow> bool) \<Rightarrow> ('v \<Rightarrow> 'k) \<Rightarrow> 'k \<Rightarrow> 'v list \<Rightarrow> nat" where
  "ft_find lt key k t = (let (first, last_pos) = ft_equal_range lt key k t in if first = last_pos then length t else first)"

definition ft_contains :: "('k \<Rightarrow> 'k \<Rightarrow> bool) \<Rightarrow> ('v \<Rightarrow> 'k) \<Rightarrow> 'k \<Rightarrow> 'v list \<Rightarrow> bool" where
  "ft_contains lt key k t = (let lower = ft_lower_bound lt key k t in lower \<noteq> length t \<and> \<not> lt k (key (t ! lower)))"

section \<open>Inserting\<close>

definition unsafe_emplace :: "nat \<Rightarrow> 'v \<Rightarrow> 'v list \<Rightarrow> 'v list \<times> nat" where
  "unsafe_emplace position v t = (take position t @ v # drop position t, position)"

text \<open>Every insertion returns the vector, the position of the element and whether it is new.\<close>

definition emplace_key_args :: "('k \<Rightarrow> 'k \<Rightarrow> bool) \<Rightarrow> ('v \<Rightarrow> 'k) \<Rightarrow> 'k \<Rightarrow> 'v \<Rightarrow> 'v list \<Rightarrow> 'v list \<times> nat \<times> bool" where
  "emplace_key_args lt key k v t =
     (let lower = ft_lower_bound lt key k t in
      if lower = length t \<or> lt k (key (t ! lower))
      then let (t, position) = unsafe_emplace lower v t in (t, position, True)
      else (t, lower, False))"

definition emplace_hint_key_args ::
  "('k \<Rightarrow> 'k \<Rightarrow> bool) \<Rightarrow> ('v \<Rightarrow> 'k) \<Rightarrow> nat \<Rightarrow> 'k \<Rightarrow> 'v \<Rightarrow> 'v list \<Rightarrow> 'v list \<times> nat \<times> bool" where
  "emplace_hint_key_args lt key hint k v t =
     (if hint = 0 \<or> lt (key (t ! (hint - 1))) k then
        (if hint = length t \<or> lt k (key (t ! hint))
         then let (t, position) = unsafe_emplace hint v t in (t, position, True)
         else if \<not> lt (key (t ! hint)) k then (t, hint, False)
         else emplace_key_args lt key k v t)
      else emplace_key_args lt key k v t)"

definition ft_insert :: "('k \<Rightarrow> 'k \<Rightarrow> bool) \<Rightarrow> ('v \<Rightarrow> 'k) \<Rightarrow> 'v \<Rightarrow> 'v list \<Rightarrow> 'v list \<times> nat \<times> bool" where
  "ft_insert lt key v t = emplace_key_args lt key (key v) v t"

definition ft_insert_hint :: "('k \<Rightarrow> 'k \<Rightarrow> bool) \<Rightarrow> ('v \<Rightarrow> 'k) \<Rightarrow> nat \<Rightarrow> 'v \<Rightarrow> 'v list \<Rightarrow> 'v list \<times> nat" where
  "ft_insert_hint lt key hint v t = (let (t, position, _) = emplace_hint_key_args lt key hint (key v) v t in (t, position))"

definition ft_insert_or_assign :: "('k \<Rightarrow> 'k \<Rightarrow> bool) \<Rightarrow> ('v \<Rightarrow> 'k) \<Rightarrow> 'v \<Rightarrow> 'v list \<Rightarrow> 'v list \<times> nat \<times> bool" where
  "ft_insert_or_assign lt key v t =
     (let position = ft_lower_bound lt key (key v) t in
      if position = length t \<or> value_comp lt key v (t ! position)
      then let (t, position) = unsafe_emplace position v t in (t, position, True)
      else (t[position := v], position, False))"

definition append_or_assign ::
  "('k \<Rightarrow> 'k \<Rightarrow> bool) \<Rightarrow> ('v \<Rightarrow> 'k) \<Rightarrow> nat \<Rightarrow> nat \<Rightarrow> 'v \<Rightarrow> 'v list \<Rightarrow> 'v list \<times> nat \<times> bool" where
  "append_or_assign lt key first last_pos v t =
     (let position = first + std_partition_point (\<lambda>x. value_comp lt key x v) (take (last_pos - first) (drop first t)) in
      if position = last_pos \<or> value_comp lt key v (t ! position) then (t @ [v], position, True)
      else (t[position := v], position, False))"

definition append_unique ::
  "('k \<Rightarrow> 'k \<Rightarrow> bool) \<Rightarrow> ('v \<Rightarrow> 'k) \<Rightarrow> nat \<Rightarrow> nat \<Rightarrow> 'v \<Rightarrow> 'v list \<Rightarrow> 'v list \<times> nat \<times> bool" where
  "append_unique lt key first last_pos v t =
     (let position = first + std_partition_point (\<lambda>x. value_comp lt key x v) (take (last_pos - first) (drop first t)) in
      if position = last_pos \<or> value_comp lt key v (t ! position) then (t @ [v], position, True)
      else (t, position, False))"

text \<open>The loops of the insertion of a range.\<close>

fun assign_each :: "('k \<Rightarrow> 'k \<Rightarrow> bool) \<Rightarrow> ('v \<Rightarrow> 'k) \<Rightarrow> 'v list \<Rightarrow> 'v list \<Rightarrow> 'v list" where
  "assign_each lt key [] t = t"
| "assign_each lt key (v # vs) t = assign_each lt key vs (fst (ft_insert_or_assign lt key v t))"

text \<open>\<^verbatim>\<open>std::copy\<close> to an \<^verbatim>\<open>std::inserter\<close>: the hint is the position after the last inserted element.\<close>

fun copy_to_inserter :: "('k \<Rightarrow> 'k \<Rightarrow> bool) \<Rightarrow> ('v \<Rightarrow> 'k) \<Rightarrow> nat \<Rightarrow> 'v list \<Rightarrow> 'v list \<Rightarrow> 'v list" where
  "copy_to_inserter lt key hint [] t = t"
| "copy_to_inserter lt key hint (v # vs) t =
     (let (t, position) = ft_insert_hint lt key hint v t in copy_to_inserter lt key (Suc position) vs t)"

fun append_each :: "('k \<Rightarrow> 'k \<Rightarrow> bool) \<Rightarrow> ('v \<Rightarrow> 'k) \<Rightarrow> bool \<Rightarrow> nat \<Rightarrow> 'v list \<Rightarrow> nat \<Rightarrow> 'v list \<Rightarrow> nat \<times> 'v list" where
  "append_each lt key overwrite_existing original_size [] pos_first_new t = (pos_first_new, t)"
| "append_each lt key overwrite_existing original_size (v # vs) pos_first_new t =
     (let (t, position, appended) =
            (if overwrite_existing then append_or_assign lt key 0 original_size v t
             else append_unique lt key 0 original_size v t)
      in append_each lt key overwrite_existing original_size vs
           (if appended then min pos_first_new position else pos_first_new) t)"

definition ft_insert_range ::
  "('k \<Rightarrow> 'k \<Rightarrow> bool) \<Rightarrow> ('v \<Rightarrow> 'k) \<Rightarrow> bool \<Rightarrow> 'v list \<Rightarrow> FlatContainerDupes \<Rightarrow> 'v list \<Rightarrow> 'v list" where
  "ft_insert_range lt key multipass vs dupes t =
     (if vs = [] then t
      else let overwrite_existing = (dupes = KEEP_LAST_OF_DUPES);
               insert_inplace = (multipass \<and> length vs = 1) in
      if insert_inplace then
        (if overwrite_existing then assign_each lt key vs t else copy_to_inserter lt key (length t) vs t)
      else let original_size = length t;
               (pos_first_new, t) = append_each lt key overwrite_existing original_size vs original_size t;
               t = sort_and_unique lt key original_size (length t) dupes t
           in take pos_first_new t @
              std_merge (value_comp lt key) (take (original_size - pos_first_new) (drop pos_first_new t)) (drop original_size t))"

section \<open>Construction, erasing and the rest\<close>

definition flat_tree_range :: "('k \<Rightarrow> 'k \<Rightarrow> bool) \<Rightarrow> ('v \<Rightarrow> 'k) \<Rightarrow> 'v list \<Rightarrow> FlatContainerDupes \<Rightarrow> 'v list" where
  "flat_tree_range lt key items dupes = sort_and_unique lt key 0 (length items) dupes items"

definition ft_assign_list :: "('k \<Rightarrow> 'k \<Rightarrow> bool) \<Rightarrow> ('v \<Rightarrow> 'k) \<Rightarrow> 'v list \<Rightarrow> 'v list \<Rightarrow> 'v list" where
  "ft_assign_list lt key ilist t = sort_and_unique lt key 0 (length ilist) KEEP_FIRST_OF_DUPES ilist"

definition ft_erase_range :: "nat \<Rightarrow> nat \<Rightarrow> 'v list \<Rightarrow> 'v list" where
  "ft_erase_range first last_pos t = take first t @ drop last_pos t"

definition ft_erase :: "('k \<Rightarrow> 'k \<Rightarrow> bool) \<Rightarrow> ('v \<Rightarrow> 'k) \<Rightarrow> 'k \<Rightarrow> 'v list \<Rightarrow> 'v list \<times> nat" where
  "ft_erase lt key k t =
     (let (first, last_pos) = ft_equal_range lt key k t; res = last_pos - first
      in (ft_erase_range first last_pos t, res))"

definition ft_erase_at :: "nat \<Rightarrow> 'v list \<Rightarrow> 'v list" where
  "ft_erase_at position t = take position t @ drop (Suc position) t"

definition ft_EraseIf :: "('v \<Rightarrow> bool) \<Rightarrow> 'v list \<Rightarrow> 'v list" where
  "ft_EraseIf pred t = filter (\<lambda>v. \<not> pred v) t"

definition ft_clear :: "'v list \<Rightarrow> 'v list" where
  "ft_clear t = []"

section \<open>Maps\<close>

text \<open>A map is a tree of pairs with \<^const>\<open>fst\<close> as key.  Access to a missing key adds the value \<open>mapped\<close> of \<^verbatim>\<open>mapped_type()\<close>.\<close>

definition fm_access :: "('k \<Rightarrow> 'k \<Rightarrow> bool) \<Rightarrow> 'm \<Rightarrow> 'k \<Rightarrow> ('k \<times> 'm) list \<Rightarrow> ('k \<times> 'm) list \<times> nat" where
  "fm_access lt mapped k t =
     (let found = ft_lower_bound lt fst k t in
      if found = length t \<or> lt k (fst (t ! found)) then unsafe_emplace found (k, mapped) t else (t, found))"

definition fm_insert_or_assign :: "('k \<Rightarrow> 'k \<Rightarrow> bool) \<Rightarrow> 'k \<Rightarrow> 'm \<Rightarrow> ('k \<times> 'm) list \<Rightarrow> ('k \<times> 'm) list \<times> nat \<times> bool" where
  "fm_insert_or_assign lt k obj t =
     (let (t, position, inserted) = emplace_key_args lt fst k (k, obj) t in
      if \<not> inserted then (t[position := (fst (t ! position), obj)], position, inserted) else (t, position, inserted))"

definition fm_insert_or_assign_hint :: "('k \<Rightarrow> 'k \<Rightarrow> bool) \<Rightarrow> nat \<Rightarrow> 'k \<Rightarrow> 'm \<Rightarrow> ('k \<times> 'm) list \<Rightarrow> ('k \<times> 'm) list \<times> nat" where
  "fm_insert_or_assign_hint lt hint k obj t =
     (let (t, position, inserted) = emplace_hint_key_args lt fst hint k (k, obj) t in
      if \<not> inserted then (t[position := (fst (t ! position), obj)], position) else (t, position))"

definition fm_try_emplace :: "('k \<Rightarrow> 'k \<Rightarrow> bool) \<Rightarrow> 'k \<Rightarrow> 'm \<Rightarrow> ('k \<times> 'm) list \<Rightarrow> ('k \<times> 'm) list \<times> nat \<times> bool" where
  "fm_try_emplace lt k m t = emplace_key_args lt fst k (k, m) t"

definition fm_try_emplace_hint :: "('k \<Rightarrow> 'k \<Rightarrow> bool) \<Rightarrow> nat \<Rightarrow> 'k \<Rightarrow> 'm \<Rightarrow> ('k \<times> 'm) list \<Rightarrow> ('k \<times> 'm) list \<times> nat" where
  "fm_try_emplace_hint lt hint k m t =
     (let (t, position, _) = emplace_hint_key_args lt fst hint k (k, m) t in (t, position))"

end
