(* ===== verification/Rtc_FlatOrder.thy ===== *)
theory Rtc_FlatOrder
  imports Rtc_FlatTree
begin

text \<open>
  The vector of a flat tree as a strictly ordered list, for any strict weak ordering of the keys: what each operation
  does to the values found by their keys.
\<close>

section \<open>Keys\<close>

definition equivalent :: "('k \<Rightarrow> 'k \<Rightarrow> bool) \<Rightarrow> 'k \<Rightarrow> 'k \<Rightarrow> bool" where
  "equivalent lt a b \<longleftrightarrow> \<not> lt a b \<and> \<not> lt b a"

definition strictly_ordered :: "('k \<Rightarrow> 'k \<Rightarrow> bool) \<Rightarrow> ('v \<Rightarrow> 'k) \<Rightarrow> 'v list \<Rightarrow> bool" where
  "strictly_ordered lt key t \<longleftrightarrow> sorted_wrt (value_comp lt key) t"

text \<open>The first value with a key equivalent to a given one.\<close>

fun lookup :: "('k \<Rightarrow> 'k \<Rightarrow> bool) \<Rightarrow> ('v \<Rightarrow> 'k) \<Rightarrow> 'v list \<Rightarrow> 'k \<Rightarrow> 'v option" where
  "lookup lt key [] k = None"
| "lookup lt key (v # t) k = (if equivalent lt k (key v) then Some v else lookup lt key t k)"

lemma lookup_append: "lookup lt key (t @ t') k = (case lookup lt key t k of None \<Rightarrow> lookup lt key t' k | Some v \<Rightarrow> Some v)"
  by (induction t) auto

lemma lookup_None: "lookup lt key t k = None \<longleftrightarrow> (\<forall>v \<in> set t. \<not> equivalent lt k (key v))"
  by (induction t) auto

lemma lookup_SomeD: "lookup lt key t k = Some v \<Longrightarrow> v \<in> set t \<and> equivalent lt k (key v)"
  by (induction t) (auto split: if_splits)

lemma equivalent_sym: "equivalent lt a b \<longleftrightarrow> equivalent lt b a"
  by (auto simp: equivalent_def)

text \<open>What the comparison of a container promises.\<close>

locale strict_weak =
  fixes lt :: "'k \<Rightarrow> 'k \<Rightarrow> bool"
  assumes lt_irrefl: "\<not> lt a a"
    and lt_trans: "lt a b \<Longrightarrow> lt b c \<Longrightarrow> lt a c"
    and equivalent_trans: "equivalent lt a b \<Longrightarrow> equivalent lt b c \<Longrightarrow> equivalent lt a c"
begin

lemma equivalent_refl [simp]: "equivalent lt a a"
  by (simp add: equivalent_def lt_irrefl)

lemma lt_asym: "lt a b \<Longrightarrow> \<not> lt b a"
  using lt_trans lt_irrefl by blast

lemma lt_cong:
  assumes "equivalent lt a b"
  shows "lt a c \<longleftrightarrow> lt b c" "lt c a \<longleftrightarrow> lt c b"
proof -
  have left: "lt y c" if e: "equivalent lt x y" and l: "lt x c" for x y
  proof -
    have "\<not> lt c y" using e lt_trans [OF l, of y] by (auto simp: equivalent_def)
    moreover have "\<not> equivalent lt y c" using equivalent_trans [OF e, of c] l by (auto simp: equivalent_def)
    ultimately show ?thesis by (simp add: equivalent_def)
  qed
  have right: "lt c y" if e: "equivalent lt x y" and l: "lt c x" for x y
  proof -
    have "\<not> lt y c" using e lt_trans [OF _ l, of y] by (auto simp: equivalent_def)
    moreover have "\<not> equivalent lt y c" using equivalent_trans [OF e, of c] l by (auto simp: equivalent_def)
    ultimately show ?thesis by (simp add: equivalent_def)
  qed
  have "equivalent lt b a" using assms equivalent_sym [of lt a b] by simp
  with assms left right show "lt a c \<longleftrightarrow> lt b c" "lt c a \<longleftrightarrow> lt c b" by blast+
qed

lemma equivalent_cong: "equivalent lt a b \<Longrightarrow> equivalent lt a c \<longleftrightarrow> equivalent lt b c"
  using lt_cong [of a b c] unfolding equivalent_def by blast

lemma not_lt_trans:
  assumes "\<not> lt b a" "\<not> lt c b"
  shows "\<not> lt c a"
proof
  assume l: "lt c a"
  have "\<not> lt b c" using lt_trans [OF _ l] assms(1) by blast
  then have "equivalent lt b c" using assms(2) by (simp add: equivalent_def)
  from lt_cong(1) [OF this] l assms(1) show False by blast
qed

lemma not_equivalent: "lt a b \<Longrightarrow> \<not> equivalent lt a b" "lt a b \<Longrightarrow> \<not> equivalent lt b a"
  by (simp_all add: equivalent_def)

lemma lookup_cong: "equivalent lt k k' \<Longrightarrow> lookup lt key t k = lookup lt key t k'"
  by (induction t) (auto simp: equivalent_cong)

lemma ordered_append:
  "strictly_ordered lt key (us @ vs) \<longleftrightarrow> strictly_ordered lt key us \<and> strictly_ordered lt key vs \<and> (\<forall>u \<in> set us. \<forall>v \<in> set vs. lt (key u) (key v))"
  by (simp add: strictly_ordered_def sorted_wrt_append value_comp_def)

lemma ordered_Cons: "strictly_ordered lt key (u # vs) \<longleftrightarrow> strictly_ordered lt key vs \<and> (\<forall>v \<in> set vs. lt (key u) (key v))"
  by (auto simp: strictly_ordered_def value_comp_def)

lemma ordered_Nil [simp]: "strictly_ordered lt key []"
  by (simp add: strictly_ordered_def)

lemmas ordered_simps = ordered_append ordered_Cons

lemma lookup_iff:
  assumes "strictly_ordered lt key t"
  shows "lookup lt key t k = Some v \<longleftrightarrow> v \<in> set t \<and> equivalent lt k (key v)"
  using assms
proof (induction t)
  case (Cons w t)
  have "\<not> equivalent lt k (key u)" if "equivalent lt k (key w)" "u \<in> set t" for u
    using Cons.prems that equivalent_cong [OF that(1)] by (auto simp: ordered_Cons not_equivalent)
  then show ?case using Cons by (auto simp: ordered_Cons)
qed simp

text \<open>An ordered vector is determined by what is found in it.\<close>

lemma ordered_unique:
  assumes "strictly_ordered lt key t" "strictly_ordered lt key t'" "set t = set t'"
  shows "t = t'"
  using assms
proof (induction t arbitrary: t')
  case (Cons v t)
  then obtain w s where t': "t' = w # s" by (cases t') auto
  have "v = w"
  proof (rule ccontr)
    assume "v \<noteq> w"
    then have "v \<in> set s" "w \<in> set t" using Cons.prems(3) t' by auto
    then have "lt (key w) (key v)" "lt (key v) (key w)" using Cons.prems t' by (auto simp: ordered_Cons)
    then show False using lt_asym by blast
  qed
  moreover have "v \<notin> set t" "w \<notin> set s" using Cons.prems(1,2) t' lt_irrefl by (auto simp: ordered_Cons)
  ultimately show ?case using Cons.IH [of s] Cons.prems t' by (auto simp: ordered_Cons insert_ident)
qed auto

lemma ordered_ext:
  assumes t: "strictly_ordered lt key t" "strictly_ordered lt key t'" and l: "\<And>k. lookup lt key t k = lookup lt key t' k"
  shows "t = t'"
proof (rule ordered_unique [OF t])
  have "v \<in> set t \<longleftrightarrow> v \<in> set t'" for v
    using lookup_iff [OF t(1), of "key v" v] lookup_iff [OF t(2), of "key v" v] l by simp
  then show "set t = set t'" by blast
qed

section \<open>Positions\<close>

text \<open>An ordered vector around a key: the key is absent, or one value has it.\<close>

lemma around_key:
  assumes t: "strictly_ordered lt key t"
  obtains (absent) us vs where "t = us @ vs" "\<forall>u \<in> set us. lt (key u) k" "\<forall>v \<in> set vs. lt k (key v)"
  | (present) us v vs where "t = us @ v # vs" "\<forall>u \<in> set us. lt (key u) k" "equivalent lt k (key v)" "\<forall>v \<in> set vs. lt k (key v)"
proof -
  define us where "us = takeWhile (\<lambda>v. lt (key v) k) t"
  define ws where "ws = dropWhile (\<lambda>v. lt (key v) k) t"
  have tw: "t = us @ ws" by (simp add: us_def ws_def)
  have us: "\<forall>u \<in> set us. lt (key u) k" by (auto simp: us_def dest: set_takeWhileD)
  show thesis
  proof (cases ws)
    case Nil
    with tw us show thesis by (intro absent [of us "[]"]) auto
  next
    case (Cons w vs)
    then have w: "\<not> lt (key w) k" using hd_dropWhile [of "\<lambda>v. lt (key v) k" t] by (simp add: ws_def [symmetric])
    have o: "\<forall>v \<in> set vs. lt (key w) (key v)" using t tw Cons by (simp add: ordered_simps)
    show thesis
    proof (cases "lt k (key w)")
      case True
      with o lt_trans have "\<forall>v \<in> set vs. lt k (key v)" by blast
      with tw us Cons True show thesis by (intro absent [of us ws]) auto
    next
      case False
      with w have e: "equivalent lt k (key w)" by (simp add: equivalent_def)
      with o have "\<forall>v \<in> set vs. lt k (key v)" using lt_cong(1) by blast
      with tw us Cons e show thesis by (intro present [of us w vs]) auto
    qed
  qed
qed

lemma partition_point_absent:
  assumes "\<forall>u \<in> set us. lt (key u) k" "\<forall>v \<in> set vs. \<not> lt (key v) k"
  shows "std_partition_point (\<lambda>v. lt (key v) k) (us @ vs) = length us"
  using assms by (cases vs) (simp_all add: std_partition_point_def takeWhile_eq_all_conv [THEN iffD2])

lemma lower_bound_absent:
  assumes "\<forall>u \<in> set us. lt (key u) k" "\<forall>v \<in> set vs. lt k (key v)"
  shows "ft_lower_bound lt key k (us @ vs) = length us"
  using assms lt_asym by (auto simp: ft_lower_bound_def intro!: partition_point_absent)

lemma lower_bound_present:
  assumes "\<forall>u \<in> set us. lt (key u) k" "equivalent lt k (key v)" "\<forall>v \<in> set vs. lt k (key v)"
  shows "ft_lower_bound lt key k (us @ v # vs) = length us"
  using assms lt_asym by (auto simp: ft_lower_bound_def equivalent_def intro!: partition_point_absent)

lemma here_absent: "\<forall>v \<in> set vs. lt k (key v) \<Longrightarrow> length us = length (us @ vs) \<or> lt k (key ((us @ vs) ! length us))"
  by (cases vs) simp_all

lemma here_present:
  "equivalent lt k (key v) \<Longrightarrow> \<not> (length us = length (us @ v # vs) \<or> lt k (key ((us @ v # vs) ! length us)))"
  by (simp add: equivalent_def)

lemma lookup_absent:
  assumes "\<forall>u \<in> set us. lt (key u) k" "\<forall>v \<in> set vs. lt k (key v)"
  shows "lookup lt key (us @ vs) k = None"
  using assms by (auto simp: lookup_None not_equivalent)

lemma lookup_present:
  assumes "\<forall>u \<in> set us. lt (key u) k" "equivalent lt k (key v)" "\<forall>v \<in> set vs. lt k (key v)"
  shows "lookup lt key (us @ v # vs) k = Some v"
proof -
  have "lookup lt key us k = None" using assms by (auto simp: lookup_None not_equivalent)
  then show ?thesis using assms(2) by (simp add: lookup_append)
qed

section \<open>Single values\<close>

lemma same_key: "equivalent lt a c \<Longrightarrow> equivalent lt b c \<Longrightarrow> equivalent lt a b"
  using equivalent_trans [of a c b] equivalent_sym [of lt b c] by simp

lemma lookup_same: "equivalent lt a c \<Longrightarrow> equivalent lt b c \<Longrightarrow> lookup lt key t a = lookup lt key t b"
  using lookup_cong same_key by blast

lemma lookup_middle:
  assumes "\<forall>u \<in> set us. lt (key u) k" "\<forall>v \<in> set vs. lt k (key v)" "equivalent lt k (key v)"
  shows "lookup lt key (us @ v # vs) k' = (if equivalent lt k' (key v) then Some v else lookup lt key (us @ vs) k')"
proof (cases "equivalent lt k' (key v)")
  case True
  then show ?thesis using lookup_same [OF True assms(3), of key "us @ v # vs"] lookup_present [OF assms(1,3,2)] by simp
qed (simp add: lookup_append split: option.split)

lemma ordered_middle:
  assumes "strictly_ordered lt key (us @ vs)" "\<forall>u \<in> set us. lt (key u) k" "\<forall>v \<in> set vs. lt k (key v)" "equivalent lt k (key v)"
  shows "strictly_ordered lt key (us @ v # vs)"
  using assms lt_cong [OF assms(4)] by (auto simp: ordered_simps)

lemma emplace_absent:
  assumes "\<forall>u \<in> set us. lt (key u) k" "\<forall>v \<in> set vs. lt k (key v)"
  shows "emplace_key_args lt key k v (us @ vs) = (us @ v # vs, length us, True)"
  using here_absent [where key = key and us = us, OF assms(2)] lower_bound_absent [OF assms]
  by (auto simp: emplace_key_args_def unsafe_emplace_def Let_def)

lemma emplace_present:
  assumes "\<forall>u \<in> set us. lt (key u) k" "equivalent lt k (key w)" "\<forall>v \<in> set vs. lt k (key v)"
  shows "emplace_key_args lt key k v (us @ w # vs) = (us @ w # vs, length us, False)"
  using here_present [where key = key and us = us and vs = vs, OF assms(2)] lower_bound_present [OF assms] by (simp add: emplace_key_args_def Let_def)

text \<open>Insertion keeps a value that is there: a tree behaves like its values followed by the new one.\<close>

lemma emplace_outcome:
  assumes t: "strictly_ordered lt key t" and k: "equivalent lt k (key v)"
  shows "case emplace_key_args lt key k v t of (t', position, new) \<Rightarrow>
    strictly_ordered lt key t' \<and> (\<forall>k'. lookup lt key t' k' = lookup lt key (t @ [v]) k') \<and> position < length t' \<and>
    lookup lt key t' k = Some (t' ! position) \<and> (new \<longleftrightarrow> lookup lt key t k = None)"
  using t
proof (cases rule: around_key [where k = k])
  case (absent us vs)
  have "lookup lt key (us @ v # vs) k' = lookup lt key ((us @ vs) @ [v]) k'" for k'
    using lookup_absent [OF absent(2,3)] lookup_same [OF _ k, of k' key "us @ vs"]
    unfolding lookup_middle [OF absent(2,3) k] lookup_append [of _ _ "us @ vs"] by (auto split: option.split)
  then show ?thesis
    using ordered_middle [OF t [unfolded absent(1)] absent(2,3) k] lookup_present [OF absent(2) k absent(3)]
      lookup_absent [OF absent(2,3)]
    by (simp add: absent(1) emplace_absent [OF absent(2,3)])
next
  case (present us w vs)
  have l: "lookup lt key t k = Some w" using lookup_present [OF present(2-4)] present(1) by simp
  have "lookup lt key t k' = lookup lt key (t @ [v]) k'" for k'
    using l lookup_same [OF _ k, of k' key t] by (auto simp: lookup_append split: option.split)
  then show ?thesis
    using t l by (simp add: present(1) emplace_present [OF present(2-4)])
qed

text \<open>Assignment replaces a value that is there: a tree behaves like the new value followed by the old ones.\<close>

lemma assign_absent:
  assumes "\<forall>u \<in> set us. lt (key u) (key v)" "\<forall>w \<in> set vs. lt (key v) (key w)"
  shows "ft_insert_or_assign lt key v (us @ vs) = (us @ v # vs, length us, True)"
  using here_absent [where key = key and us = us, OF assms(2)] lower_bound_absent [OF assms]
  by (auto simp: ft_insert_or_assign_def unsafe_emplace_def value_comp_def Let_def)

lemma assign_present:
  assumes "\<forall>u \<in> set us. lt (key u) (key v)" "equivalent lt (key v) (key w)" "\<forall>w \<in> set vs. lt (key v) (key w)"
  shows "ft_insert_or_assign lt key v (us @ w # vs) = (us @ v # vs, length us, False)"
  using here_present [where key = key and us = us and vs = vs, OF assms(2)] lower_bound_present [OF assms]
  by (simp add: ft_insert_or_assign_def value_comp_def Let_def)

lemma assign_outcome:
  assumes t: "strictly_ordered lt key t"
  shows "case ft_insert_or_assign lt key v t of (t', position, new) \<Rightarrow>
    strictly_ordered lt key t' \<and> (\<forall>k'. lookup lt key t' k' = lookup lt key (v # t) k') \<and> position < length t' \<and> t' ! position = v \<and>
    (new \<longleftrightarrow> lookup lt key t (key v) = None)"
  using t
proof (cases rule: around_key [where k = "key v"])
  case (absent us vs)
  then show ?thesis
    using ordered_middle [OF t [unfolded absent(1)] absent(2,3) equivalent_refl] lookup_absent [OF absent(2,3)]
      lookup_middle [OF absent(2,3) equivalent_refl]
    by (simp add: absent(1) assign_absent)
next
  case (present us w vs)
  have o: "strictly_ordered lt key (us @ vs)" using t present(1) by (simp add: ordered_simps)
  have "lookup lt key (us @ v # vs) k' = lookup lt key (v # us @ w # vs) k'" for k'
    using lookup_middle [OF present(2,4,3), of k'] lookup_middle [OF present(2,4) equivalent_refl, of k']
      same_key [of k' "key w" "key v"] present(3) by auto
  then show ?thesis
    using ordered_middle [OF o present(2,4) equivalent_refl] lookup_present [OF present(2-4)] present
    by (simp add: present(1) assign_present [OF present(2-4)])
qed

text \<open>A hint has no effect on the result.\<close>

lemma ordered_nth: "strictly_ordered lt key t \<Longrightarrow> i < j \<Longrightarrow> j < length t \<Longrightarrow> lt (key (t ! i)) (key (t ! j))"
  by (simp add: strictly_ordered_def sorted_wrt_iff_nth_less value_comp_def)

lemma before_hint:
  assumes "strictly_ordered lt key t" "hint \<le> length t" "hint = 0 \<or> lt (key (t ! (hint - 1))) k"
  shows "\<forall>u \<in> set (take hint t). lt (key u) k"
proof
  fix u
  assume "u \<in> set (take hint t)"
  then obtain i where i: "i < hint" "u = t ! i" using assms(2) by (auto simp: in_set_conv_nth)
  then have l: "lt (key (t ! (hint - 1))) k" using assms(3) by auto
  show "lt (key u) k"
  proof (cases "i = hint - 1")
    case False
    then have "lt (key u) (key (t ! (hint - 1)))" using i assms(1,2) by (auto intro: ordered_nth)
    then show ?thesis by (rule lt_trans [OF _ l])
  qed (use l i in simp)
qed

lemma hint_irrelevant:
  assumes t: "strictly_ordered lt key t" and hint: "hint \<le> length t"
  shows "emplace_hint_key_args lt key hint k v t = emplace_key_args lt key k v t"
proof (cases "hint = 0 \<or> lt (key (t ! (hint - 1))) k")
  case True
  note b = before_hint [OF t hint True]
  have split: "t = take hint t @ t ! hint # drop (Suc hint) t" if "hint < length t" using that by (simp add: id_take_nth_drop)
  have o: "\<forall>w \<in> set (drop (Suc hint) t). lt (key (t ! hint)) (key w)" if "hint < length t"
    using t split [OF that] ordered_append [of key "take hint t"] by (metis ordered_Cons)
  consider "hint = length t \<or> lt k (key (t ! hint))" | "hint < length t" "equivalent lt k (key (t ! hint))"
    | "hint < length t" "lt (key (t ! hint)) k"
    using hint lt_asym by (fastforce simp: equivalent_def)
  then show ?thesis
  proof cases
    case 1
    have "\<forall>w \<in> set (drop hint t). lt k (key w)"
    proof (cases "hint < length t")
      case True
      with 1 o lt_trans show ?thesis by (auto simp: Cons_nth_drop_Suc [OF True, symmetric])
    qed simp
    from emplace_absent [OF b this, of v] 1 True hint show ?thesis
      by (simp add: emplace_hint_key_args_def unsafe_emplace_def min_def)
  next
    case 2
    then have "\<forall>w \<in> set (drop (Suc hint) t). lt k (key w)" using o lt_cong(1) [OF 2(2)] by blast
    from emplace_present [OF b 2(2) this, of v] 2 True hint show ?thesis
      unfolding split [OF 2(1), symmetric] by (auto simp: emplace_hint_key_args_def equivalent_def min_def)
  next
    case 3
    then show ?thesis using True lt_asym by (auto simp: emplace_hint_key_args_def)
  qed
qed (auto simp: emplace_hint_key_args_def)

text \<open>Searching and erasing.\<close>

lemma equal_range_absent:
  assumes "\<forall>u \<in> set us. lt (key u) k" "\<forall>v \<in> set vs. lt k (key v)"
  shows "ft_equal_range lt key k (us @ vs) = (length us, length us)"
  using here_absent [where key = key and us = us, OF assms(2)] lower_bound_absent [OF assms]
  by (auto simp: ft_equal_range_def Let_def)

lemma equal_range_present:
  assumes "\<forall>u \<in> set us. lt (key u) k" "equivalent lt k (key w)" "\<forall>v \<in> set vs. lt k (key v)"
  shows "ft_equal_range lt key k (us @ w # vs) = (length us, Suc (length us))"
  using here_present [where key = key and us = us and vs = vs, OF assms(2)] lower_bound_present [OF assms]
  by (simp add: ft_equal_range_def Let_def)

lemma search_outcome:
  assumes t: "strictly_ordered lt key t"
  shows "(case lookup lt key t k of
      None \<Rightarrow> ft_find lt key k t = length t
    | Some v \<Rightarrow> ft_find lt key k t < length t \<and> t ! ft_find lt key k t = v) \<and>
    (ft_contains lt key k t \<longleftrightarrow> lookup lt key t k \<noteq> None) \<and>
    ft_count lt key k t = (if lookup lt key t k = None then 0 else 1) \<and>
    ft_equal_range lt key k t = (ft_lower_bound lt key k t, ft_upper_bound lt key k t)"
  using t
proof (cases rule: around_key [where k = k])
  case (absent us vs)
  have "ft_upper_bound lt key k (us @ vs) = length us"
    using absent lt_asym by (cases vs) (auto simp: ft_upper_bound_def std_partition_point_def takeWhile_eq_all_conv [THEN iffD2])
  then show ?thesis
    using here_absent [where key = key and us = us, OF absent(3)] lower_bound_absent [OF absent(2,3)] lookup_absent [OF absent(2,3)]
      equal_range_absent [OF absent(2,3)]
    by (auto simp: absent(1) ft_find_def ft_contains_def ft_count_def Let_def)
next
  case (present us w vs)
  have "ft_upper_bound lt key k (us @ w # vs) = Suc (length us)"
    using present lt_asym
    by (cases vs) (auto simp: ft_upper_bound_def std_partition_point_def equivalent_def takeWhile_eq_all_conv [THEN iffD2])
  then show ?thesis
    using here_present [where key = key and us = us and vs = vs, OF present(3)] lower_bound_present [OF present(2-4)]
      lookup_present [OF present(2-4)] equal_range_present [OF present(2-4)]
    by (auto simp: present(1) ft_find_def ft_contains_def ft_count_def Let_def)
qed

lemma ordered_filter: "strictly_ordered lt key t \<Longrightarrow> strictly_ordered lt key (filter P t)"
  by (simp add: strictly_ordered_def sorted_wrt_filter)

lemma erase_outcome:
  assumes t: "strictly_ordered lt key t"
  shows "ft_erase lt key k t =
    (filter (\<lambda>v. \<not> equivalent lt k (key v)) t, if lookup lt key t k = None then 0 else 1)"
  using t
proof (cases rule: around_key [where k = k])
  case (absent us vs)
  have "filter (\<lambda>v. \<not> equivalent lt k (key v)) (us @ vs) = us @ vs"
    using absent not_equivalent by (auto simp: filter_id_conv)
  then show ?thesis
    using equal_range_absent [OF absent(2,3)] lookup_absent [OF absent(2,3)]
    by (simp add: absent(1) ft_erase_def ft_erase_range_def)
next
  case (present us w vs)
  have "filter (\<lambda>v. \<not> equivalent lt k (key v)) us = us" "filter (\<lambda>v. \<not> equivalent lt k (key v)) vs = vs"
    using present not_equivalent by (auto simp: filter_id_conv)
  then show ?thesis
    using equal_range_present [OF present(2-4)] lookup_present [OF present(2-4)] present(3)
    by (simp add: present(1) ft_erase_def ft_erase_range_def)
qed

end

end
