(* ===== verification/Rtc_FlatRange.thy ===== *)
theory Rtc_FlatRange
  imports Rtc_FlatOrder
begin

text \<open>
  The insertion of a range into a flat tree: sorting, removing duplicates and merging are together the insertion of the
  values one by one.
\<close>

section \<open>Removing duplicates in place\<close>

text \<open>What \<^verbatim>\<open>LastUnique\<close> keeps.\<close>

fun last_of_equal :: "('a \<Rightarrow> 'a \<Rightarrow> bool) \<Rightarrow> 'a list \<Rightarrow> 'a list" where
  "last_of_equal eq (x # y # ys) = (if eq x y then last_of_equal eq (y # ys) else x # last_of_equal eq (y # ys))"
| "last_of_equal eq xs = xs"

declare last_unique_loop.simps [simp del]

lemma last_of_equal_step:
  assumes "Suc i < length xs"
  shows "last_of_equal eq (drop i xs) =
    (if eq (xs ! i) (xs ! Suc i) then last_of_equal eq (drop (Suc i) xs) else xs ! i # last_of_equal eq (drop (Suc i) xs))"
proof -
  have "drop i xs = xs ! i # xs ! Suc i # drop (Suc (Suc i)) xs" "drop (Suc i) xs = xs ! Suc i # drop (Suc (Suc i)) xs"
    using assms by (simp_all add: Cons_nth_drop_Suc)
  then show ?thesis by simp
qed

lemma take_write: "r < length xs \<Longrightarrow> take (Suc r) (xs[r := x]) = take r xs @ [x]"
  by (simp add: take_Suc_conv_app_nth)

lemma last_unique_loop_result:
  assumes "r < f" "f < length xs" "last_unique_loop compare r f (Suc f) xs = (r', f', xs')"
  shows "take (Suc r') (xs'[r' := xs' ! f']) = take r xs @ last_of_equal compare (drop f xs)"
  using assms
proof (induction "length xs - f" arbitrary: r f xs rule: less_induct)
  case less
  show ?case
  proof (cases "Suc f < length xs")
    case False
    then have "drop f xs = [xs ! f]" using less.prems(2) by (metis Cons_nth_drop_Suc drop_all not_less)
    moreover have "r' = r" "f' = f" "xs' = xs" using less.prems(3) False by (simp_all add: last_unique_loop.simps)
    ultimately show ?thesis using less.prems(1,2) by (simp add: take_write)
  next
    case True
    show ?thesis
    proof (cases "compare (xs ! f) (xs ! Suc f)")
      case eq: True
      then have "last_unique_loop compare r (Suc f) (Suc (Suc f)) xs = (r', f', xs')"
        using less.prems(3) True by (simp add: last_unique_loop.simps [of _ _ f])
      from less.hyps [OF _ _ True this] less.prems(1,2) True eq show ?thesis
        by (simp add: last_of_equal_step [OF True])
    next
      case neq: False
      let ?xs = "xs[r := xs ! f]"
      have "last_unique_loop compare (Suc r) (Suc f) (Suc (Suc f)) ?xs = (r', f', xs')"
        using less.prems(3) True neq by (simp add: last_unique_loop.simps [of _ _ f])
      moreover have "take (Suc r) ?xs = take r xs @ [xs ! f]" "drop (Suc f) ?xs = drop (Suc f) xs"
        using less.prems(1,2) by (simp_all add: take_write)
      ultimately show ?thesis
        using less.hyps [of ?xs "Suc f" "Suc r"] less.prems(1,2) True neq by (simp add: last_of_equal_step [OF True])
    qed
  qed
qed

lemma adjacent_find_last_of_equal:
  "if std_adjacent_find eq xs = length xs then last_of_equal eq xs = xs
   else Suc (std_adjacent_find eq xs) < length xs \<and>
     last_of_equal eq xs = take (std_adjacent_find eq xs) xs @ last_of_equal eq (drop (Suc (std_adjacent_find eq xs)) xs)"
  by (induction eq xs rule: std_adjacent_find.induct) (auto split: if_splits)

lemma LastUnique_result:
  assumes "LastUnique compare xs = (xs', n)"
  shows "take n xs' = last_of_equal compare xs"
proof (cases "std_adjacent_find compare xs = length xs")
  case True
  then show ?thesis using assms adjacent_find_last_of_equal [of compare xs] by (auto simp: LastUnique_def)
next
  case False
  then have a: "Suc (std_adjacent_find compare xs) < length xs"
    "last_of_equal compare xs =
       take (std_adjacent_find compare xs) xs @ last_of_equal compare (drop (Suc (std_adjacent_find compare xs)) xs)"
    using adjacent_find_last_of_equal [of compare xs] by (simp_all split: if_splits)
  obtain r' f' ys where l: "last_unique_loop compare (std_adjacent_find compare xs) (Suc (std_adjacent_find compare xs))
    (Suc (Suc (std_adjacent_find compare xs))) xs = (r', f', ys)" by (metis prod_cases3)
  have "xs' = ys[r' := ys ! f']" "n = Suc r'" using assms False a(1) l by (auto simp: LastUnique_def)
  with last_unique_loop_result [OF _ a(1) l] a(2) show ?thesis by simp
qed

section \<open>Sorting\<close>

lemma mset_stable_insert: "mset (stable_insert cmp x ys) = add_mset x (mset ys)"
  by (induction ys) auto

lemma set_stable_insert: "set (stable_insert cmp x ys) = insert x (set ys)"
  using mset_stable_insert [of cmp x ys] by (metis set_mset_add_mset_insert set_mset_mset)

lemma set_stable_sort: "set (std_stable_sort cmp xs) = set xs"
  by (induction xs) (auto simp: std_stable_sort_def set_stable_insert)

text \<open>The order in which the values of a range take precedence.\<close>

definition preference :: "FlatContainerDupes \<Rightarrow> 'v list \<Rightarrow> 'v list" where
  "preference dupes vs = (case dupes of KEEP_FIRST_OF_DUPES \<Rightarrow> vs | KEEP_LAST_OF_DUPES \<Rightarrow> rev vs)"

context strict_weak
begin

abbreviation weakly :: "('v \<Rightarrow> 'k) \<Rightarrow> 'v list \<Rightarrow> bool" where
  "weakly key xs \<equiv> sorted_wrt (\<lambda>a b. \<not> lt (key b) (key a)) xs"

lemma stable_insert_sorted: "weakly key ys \<Longrightarrow> weakly key (stable_insert (value_comp lt key) x ys)"
proof (induction ys)
  case (Cons y ys)
  have "\<not> lt (key z) (key x)" if "\<not> lt (key y) (key x)" "z \<in> set ys" for z
    using Cons.prems that not_lt_trans [of "key y" "key x" "key z"] by auto
  then show ?case using Cons lt_asym [of "key y" "key x"] by (auto simp: set_stable_insert value_comp_def)
qed simp

lemma stable_sort_sorted: "weakly key (std_stable_sort (value_comp lt key) xs)"
  by (induction xs) (auto simp: std_stable_sort_def intro: stable_insert_sorted)

lemma stable_insert_filter:
  "filter (\<lambda>v. equivalent lt k (key v)) (stable_insert (value_comp lt key) x ys) =
   filter (\<lambda>v. equivalent lt k (key v)) (x # ys)"
proof (induction ys)
  case (Cons y ys)
  have "\<not> (equivalent lt k (key x) \<and> equivalent lt k (key y))" if "lt (key y) (key x)"
    using that equivalent_cong [of k "key x" "key y"] not_equivalent by blast
  then show ?case using Cons by (auto simp: value_comp_def)
qed simp

lemma stable_sort_filter:
  "filter (\<lambda>v. equivalent lt k (key v)) (std_stable_sort (value_comp lt key) xs) = filter (\<lambda>v. equivalent lt k (key v)) xs"
proof (induction xs)
  case (Cons x xs)
  have "std_stable_sort (value_comp lt key) (x # xs) = stable_insert (value_comp lt key) x (std_stable_sort (value_comp lt key) xs)"
    by (simp add: std_stable_sort_def)
  then show ?case using Cons by (simp add: stable_insert_filter)
qed (simp add: std_stable_sort_def)

lemma lookup_filter:
  "lookup lt key xs k = (case filter (\<lambda>v. equivalent lt k (key v)) xs of [] \<Rightarrow> None | v # vs \<Rightarrow> Some v)"
  by (induction xs) auto

lemma lookup_stable_sort:
  "lookup lt key (std_stable_sort (value_comp lt key) xs) k = lookup lt key xs k"
  "lookup lt key (rev (std_stable_sort (value_comp lt key) xs)) k = lookup lt key (rev xs) k"
  by (simp_all add: lookup_filter rev_filter [symmetric] stable_sort_filter)

section \<open>Duplicates\<close>

lemma set_std_unique: "set (std_unique eq xs) \<subseteq> set xs"
  by (induction eq xs rule: std_unique.induct) auto

lemma set_last_of_equal: "set (last_of_equal eq xs) \<subseteq> set xs"
  by (induction eq xs rule: last_of_equal.induct) auto

abbreviation not_less :: "('v \<Rightarrow> 'k) \<Rightarrow> 'v \<Rightarrow> 'v \<Rightarrow> bool" where
  "not_less key \<equiv> (\<lambda>a b. \<not> value_comp lt key a b)"

lemma weakly_less:
  assumes "weakly key (x # y # ys)" "lt (key x) (key y)" "z \<in> set (y # ys)"
  shows "lt (key x) (key z)"
  using assms not_lt_trans [of "key z" "key y" "key x"] by auto

lemma weakly_equal: "weakly key (x # y # ys) \<Longrightarrow> \<not> lt (key x) (key y) \<Longrightarrow> equivalent lt (key x) (key y)"
  by (simp add: equivalent_def)

lemma std_unique_outcome:
  assumes "weakly key xs"
  shows "strictly_ordered lt key (std_unique (not_less key) xs) \<and> (\<forall>k. lookup lt key (std_unique (not_less key) xs) k = lookup lt key xs k)"
  using assms
proof (induction "not_less key" xs rule: std_unique.induct)
  case (1 x y ys)
  show ?case
  proof (cases "lt (key x) (key y)")
    case True
    then have u: "std_unique (not_less key) (x # y # ys) = x # std_unique (not_less key) (y # ys)" by (simp add: value_comp_def)
    have IH: "strictly_ordered lt key (std_unique (not_less key) (y # ys))"
      "lookup lt key (std_unique (not_less key) (y # ys)) k = lookup lt key (y # ys) k" for k
      using "1"(2) True "1.prems" by (simp_all add: value_comp_def)
    have "lt (key x) (key z)" if "z \<in> set (std_unique (not_less key) (y # ys))" for z
      by (rule weakly_less [OF "1.prems" True subsetD [OF set_std_unique that]])
    with IH(1) show ?thesis unfolding u by (simp add: ordered_Cons IH(2) del: std_unique.simps)
  next
    case False
    then have u: "std_unique (not_less key) (x # y # ys) = std_unique (not_less key) (x # ys)" by (simp add: value_comp_def)
    have IH: "strictly_ordered lt key (std_unique (not_less key) (x # ys))"
      "lookup lt key (std_unique (not_less key) (x # ys)) k = lookup lt key (x # ys) k" for k
      using "1"(1) False "1.prems" by (simp_all add: value_comp_def)
    have "equivalent lt k (key x)" if "equivalent lt k (key y)" for k
      by (rule same_key [OF that weakly_equal [OF "1.prems" False]])
    with IH(1) show ?thesis unfolding u by (simp add: IH(2) del: std_unique.simps)
  qed
qed (auto simp: ordered_Cons)

lemma last_of_equal_outcome:
  assumes "weakly key xs"
  shows "strictly_ordered lt key (last_of_equal (not_less key) xs) \<and>
    (\<forall>k. lookup lt key (last_of_equal (not_less key) xs) k = lookup lt key (rev xs) k)"
  using assms
proof (induction "not_less key" xs rule: last_of_equal.induct)
  case (1 x y ys)
  have r: "lookup lt key (rev (x # y # ys)) k =
    (case lookup lt key (rev (y # ys)) k of None \<Rightarrow> lookup lt key [x] k | Some v \<Rightarrow> Some v)" for k
    unfolding rev.simps(2) [of x] lookup_append ..
  have w: "weakly key (y # ys)" using "1.prems" by simp
  show ?case
  proof (cases "lt (key x) (key y)")
    case True
    note l = weakly_less [OF "1.prems" True]
    have u: "last_of_equal (not_less key) (x # y # ys) = x # last_of_equal (not_less key) (y # ys)"
      using True by (simp add: value_comp_def)
    have IH: "strictly_ordered lt key (last_of_equal (not_less key) (y # ys))"
      "lookup lt key (last_of_equal (not_less key) (y # ys)) k = lookup lt key (rev (y # ys)) k" for k
      using "1"(2) True w by (simp_all add: value_comp_def)
    have "lt (key x) (key z)" if "z \<in> set (last_of_equal (not_less key) (y # ys))" for z
      by (rule l [OF subsetD [OF set_last_of_equal that]])
    moreover have "lookup lt key (rev (y # ys)) k = None" if "equivalent lt k (key x)" for k
      using l equivalent_cong [OF that] not_equivalent(1) [of "key x"] by (auto simp: lookup_None)
    ultimately show ?thesis unfolding u r
      using IH(1) by (auto simp: IH(2) ordered_Cons simp del: last_of_equal.simps rev.simps split: option.split)
  next
    case False
    have u: "last_of_equal (not_less key) (x # y # ys) = last_of_equal (not_less key) (y # ys)"
      using False by (simp add: value_comp_def)
    have IH: "strictly_ordered lt key (last_of_equal (not_less key) (y # ys))"
      "lookup lt key (last_of_equal (not_less key) (y # ys)) k = lookup lt key (rev (y # ys)) k" for k
      using "1"(1) False w by (simp_all add: value_comp_def)
    have "lookup lt key (rev (y # ys)) k \<noteq> None" if "equivalent lt k (key x)" for k
      using weakly_equal [OF "1.prems" False] equivalent_cong [OF that, of "key y"] by (auto simp: lookup_None)
    then show ?thesis unfolding u r
      using IH(1) by (auto simp: IH(2) simp del: last_of_equal.simps rev.simps split: option.split)
  qed
qed (auto simp: ordered_Cons)

section \<open>Sorting and merging a range\<close>

lemma sort_and_unique_outcome:
  "\<exists>u. sort_and_unique lt key (length t) (length (t @ vs)) dupes (t @ vs) = t @ u \<and> strictly_ordered lt key u \<and> set u \<subseteq> set vs \<and>
     (\<forall>k. lookup lt key u k = lookup lt key (preference dupes vs) k)"
proof -
  let ?s = "std_stable_sort (value_comp lt key) vs"
  obtain xs' n where L: "LastUnique (not_less key) ?s = (xs', n)" by (metis surj_pair)
  define u where "u = (case dupes of KEEP_FIRST_OF_DUPES \<Rightarrow> std_unique (not_less key) ?s | KEEP_LAST_OF_DUPES \<Rightarrow> last_of_equal (not_less key) ?s)"
  have "sort_and_unique lt key (length t) (length (t @ vs)) dupes (t @ vs) = t @ u"
    using L LastUnique_result [OF L] by (simp add: sort_and_unique_def u_def Let_def split: FlatContainerDupes.split)
  moreover have "strictly_ordered lt key u \<and> (\<forall>k. lookup lt key u k = lookup lt key (preference dupes vs) k)"
    using std_unique_outcome [OF stable_sort_sorted, of key vs] last_of_equal_outcome [OF stable_sort_sorted, of key vs]
    by (simp add: u_def preference_def lookup_stable_sort split: FlatContainerDupes.split)
  moreover have "set u \<subseteq> set vs"
    using set_std_unique [of "not_less key" ?s] set_last_of_equal [of "not_less key" ?s] set_stable_sort [of "value_comp lt key" vs]
    by (simp add: u_def split: FlatContainerDupes.split)
  ultimately show ?thesis by blast
qed

lemma set_std_merge: "set (std_merge cmp xs ys) = set xs \<union> set ys"
  by (induction cmp xs ys rule: std_merge.induct) auto

lemma ordered_merge:
  assumes "strictly_ordered lt key xs" "strictly_ordered lt key ys" "\<forall>x \<in> set xs. \<forall>y \<in> set ys. \<not> equivalent lt (key x) (key y)"
  shows "strictly_ordered lt key (std_merge (value_comp lt key) xs ys)"
  using assms
proof (induction "value_comp lt key" xs ys rule: std_merge.induct)
  case (3 x xs y ys)
  show ?case
  proof (cases "lt (key y) (key x)")
    case True
    then have "\<forall>z \<in> set (x # xs). lt (key y) (key z)" using "3.prems"(1) lt_trans [OF True] by (auto simp: ordered_Cons)
    with True 3 show ?thesis by (auto simp: value_comp_def ordered_Cons set_std_merge)
  next
    case False
    then have l: "lt (key x) (key y)" using "3.prems"(3) by (simp add: equivalent_def)
    then have "\<forall>z \<in> set (y # ys). lt (key x) (key z)" using "3.prems"(2) lt_trans [OF l] by (auto simp: ordered_Cons)
    with False 3 show ?thesis by (auto simp: value_comp_def ordered_Cons set_std_merge)
  qed
qed simp_all

lemma lookup_union:
  assumes r: "strictly_ordered lt key r" and s: "set r = set a \<union> set b"
  shows "lookup lt key r k = lookup lt key (a @ b) k"
proof (cases "lookup lt key (a @ b) k")
  case None
  then have "lookup lt key r k = None" using s by (auto simp: lookup_None)
  with None show ?thesis by simp
next
  case (Some v)
  from lookup_SomeD [OF this] have "lookup lt key r k = Some v" using s by (auto simp: lookup_iff [OF r])
  with Some show ?thesis by simp
qed

section \<open>Appending\<close>

lemma lower_bound_le: "ft_lower_bound lt key k t \<le> length t"
  by (simp add: ft_lower_bound_def std_partition_point_def length_takeWhile_le)

lemma append_unique_eq:
  "append_unique lt key 0 (length t) v (t @ vs) =
    (case ft_insert lt key v t of (_, position, new) \<Rightarrow> if new then (t @ (vs @ [v]), position, True) else (t @ vs, position, False))"
  using lower_bound_le [of key "key v" t] unfolding ft_lower_bound_def
  by (auto simp: append_unique_def ft_insert_def emplace_key_args_def unsafe_emplace_def ft_lower_bound_def value_comp_def
      nth_append Let_def)

lemma append_or_assign_eq:
  "append_or_assign lt key 0 (length t) v (t @ vs) =
    (case ft_insert_or_assign lt key v t of (t', position, new) \<Rightarrow>
       if new then (t @ (vs @ [v]), position, True) else (t' @ vs, position, False))"
  using lower_bound_le [of key "key v" t] unfolding ft_lower_bound_def
  by (auto simp: append_or_assign_def ft_insert_or_assign_def unsafe_emplace_def ft_lower_bound_def value_comp_def
      nth_append list_update_append Let_def)

text \<open>What holds while values are appended after the ordered part \<open>t\<close>.\<close>

definition appending :: "('v \<Rightarrow> 'k) \<Rightarrow> nat \<Rightarrow> 'v list \<Rightarrow> 'v list \<Rightarrow> nat \<Rightarrow> bool" where
  "appending key n t new position \<longleftrightarrow> strictly_ordered lt key t \<and> length t = n \<and> position \<le> n \<and>
     (\<forall>v \<in> set new. lookup lt key t (key v) = None \<and> (\<forall>u \<in> set (take position t). lt (key u) (key v)))"

lemma before_lower_bound: "u \<in> set (take (ft_lower_bound lt key k t) t) \<Longrightarrow> lt (key u) k"
  by (metis ft_lower_bound_def std_partition_point_def takeWhile_eq_take set_takeWhileD)

lemma appending_new:
  assumes "appending key n t vs pos" "lookup lt key t (key v) = None"
  shows "appending key n t (vs @ [v]) (min pos (ft_lower_bound lt key (key v) t))"
proof -
  have "lt (key u) (key v)" if "u \<in> set (take (min pos (ft_lower_bound lt key (key v) t)) t)" for u
    using that set_take_subset_set_take [of "min pos (ft_lower_bound lt key (key v) t)" "ft_lower_bound lt key (key v) t" t]
    by (intro before_lower_bound) auto
  moreover have "set (take (min pos m) t) \<subseteq> set (take pos t)" for m by (intro set_take_subset_set_take) simp
  ultimately show ?thesis using assms unfolding appending_def by fastforce
qed

lemma assign_position: "ft_insert_or_assign lt key v t = (t', p, new) \<Longrightarrow> p = ft_lower_bound lt key (key v) t"
  by (auto simp: ft_insert_or_assign_def unsafe_emplace_def Let_def split: if_splits)

lemma insert_position: "ft_insert lt key v t = (t', p, new) \<Longrightarrow> p = ft_lower_bound lt key (key v) t"
  by (auto simp: ft_insert_def emplace_key_args_def unsafe_emplace_def Let_def split: if_splits)

lemma lookup_keep:
  assumes "lookup lt key t (key v) \<noteq> None"
  shows "lookup lt key (t @ vs) k = lookup lt key ((t @ vs) @ [v]) k"
proof (cases "equivalent lt k (key v)")
  case True
  then have "lookup lt key t k \<noteq> None" using lookup_cong [OF True, of key t] assms by simp
  then show ?thesis by (auto simp: lookup_append)
qed (simp add: lookup_append split: option.split)

lemma append_unique_step:
  assumes J: "appending key n t vs pos"
  shows "\<exists>vs' p new. append_unique lt key 0 n v (t @ vs) = (t @ vs', p, new) \<and>
    appending key n t vs' (if new then min pos p else pos) \<and> (\<forall>k. lookup lt key (t @ vs') k = lookup lt key ((t @ vs) @ [v]) k)"
proof -
  have t: "strictly_ordered lt key t" "length t = n" using J by (auto simp: appending_def)
  obtain t' p new where i: "ft_insert lt key v t = (t', p, new)" by (metis prod_cases3)
  have "new \<longleftrightarrow> lookup lt key t (key v) = None"
    using emplace_outcome [OF t(1) equivalent_refl, of v] i by (simp add: ft_insert_def)
  then show ?thesis
    using append_unique_eq [of key t v vs] t(2) i J lookup_keep [of key t v vs] appending_new [OF J] insert_position [OF i]
    by (cases new) auto
qed

lemma lookup_overwrite:
  assumes J: "appending key n t vs pos" and v: "lookup lt key t (key v) \<noteq> None" and l: "\<forall>k. lookup lt key t' k = lookup lt key (v # t) k"
  shows "lookup lt key (rev vs @ t') k = lookup lt key (v # rev vs @ t) k"
    and "a \<in> set vs \<Longrightarrow> lookup lt key t' (key a) = None"
proof -
  have n: "\<not> equivalent lt (key a) (key v)" if "a \<in> set vs" for a
    using J that v lookup_cong [of "key a" "key v" key t] by (auto simp: appending_def)
  then show "a \<in> set vs \<Longrightarrow> lookup lt key t' (key a) = None" using J l by (auto simp: appending_def)
  have "lookup lt key (rev vs) k = None" if "equivalent lt k (key v)"
    using n same_key [of "key _" k "key v"] equivalent_cong [OF that] equivalent_sym [of lt "key v"] by (auto simp: lookup_None)
  then show "lookup lt key (rev vs @ t') k = lookup lt key (v # rev vs @ t) k"
    using l by (auto simp: lookup_append split: option.split)
qed

lemma append_or_assign_step:
  assumes J: "appending key n t vs pos"
  shows "\<exists>t' vs' p new. append_or_assign lt key 0 n v (t @ vs) = (t' @ vs', p, new) \<and>
    appending key n t' vs' (if new then min pos p else pos) \<and>
    (\<forall>k. lookup lt key (rev vs' @ t') k = lookup lt key (v # rev vs @ t) k)"
proof -
  have t: "strictly_ordered lt key t" "length t = n" using J by (auto simp: appending_def)
  obtain t' p new where i: "ft_insert_or_assign lt key v t = (t', p, new)" by (metis prod_cases3)
  have o: "strictly_ordered lt key t'" "\<forall>k. lookup lt key t' k = lookup lt key (v # t) k" "new \<longleftrightarrow> lookup lt key t (key v) = None"
    using assign_outcome [OF t(1), of v] i by simp_all
  note eq = append_or_assign_eq [of key t v vs, unfolded t(2) i prod.case]
  show ?thesis
  proof (cases new)
    case True
    show ?thesis
    proof (intro exI conjI allI)
      show "append_or_assign lt key 0 n v (t @ vs) = (t @ (vs @ [v]), p, True)" using eq True by simp
      show "appending key n t (vs @ [v]) (if True then min pos p else pos)"
        using appending_new [OF J, of v] o(3) True assign_position [OF i] by simp
    qed simp
  next
    case False
    then have v: "lookup lt key t (key v) \<noteq> None" using o(3) by simp
    have w: "t' = t[p := v]" "p < n" "\<not> lt (key v) (key (t ! p))"
      using i False lower_bound_le [of key "key v" t] t(2)
      by (auto simp: ft_insert_or_assign_def unsafe_emplace_def value_comp_def Let_def split: if_splits)
    have e: "equivalent lt (key (t ! p)) (key v)"
      using t(1)
    proof (cases rule: around_key [where k = "key v"])
      case (absent us us')
      then show ?thesis using lookup_absent [OF absent(2,3)] v by simp
    next
      case (present us x us')
      then show ?thesis using lower_bound_present [OF present(2-4)] assign_position [OF i] equivalent_sym [of lt "key x"] by simp
    qed
    have "lt (key u) (key a)" if a: "a \<in> set vs" and u: "u \<in> set (take pos t')" for a u
    proof -
      obtain j where j: "j < pos" "j < n" "u = t[p := v] ! j" using u w(1) t(2) by (auto simp: in_set_conv_nth)
      have "t ! j \<in> set (take pos t)" using j t(2) by (auto simp: in_set_conv_nth)
      then have "lt (key (t ! j)) (key a)" using J a by (auto simp: appending_def)
      then show ?thesis using j w(2) t(2) lt_cong(1) [OF e] by (cases "j = p") auto
    qed
    then have "appending key n t' vs pos" using J o(1) lookup_overwrite(2) [OF J v o(2)] w(1) by (auto simp: appending_def)
    then have "appending key n t' vs (if False then min pos p else pos)" by simp
    moreover have "append_or_assign lt key 0 n v (t @ vs) = (t' @ vs, p, False)" using eq False by simp
    ultimately show ?thesis using lookup_overwrite(1) [OF J v o(2)] by blast
  qed
qed

lemma append_each_outcome:
  assumes "appending key n t vs pos"
  shows "\<exists>pos' t' vs'. append_each lt key (dupes = KEEP_LAST_OF_DUPES) n ws pos (t @ vs) = (pos', t' @ vs') \<and>
    appending key n t' vs' pos' \<and>
    (case dupes of
       KEEP_FIRST_OF_DUPES \<Rightarrow> \<forall>k. lookup lt key (t' @ vs') k = lookup lt key ((t @ vs) @ ws) k
     | KEEP_LAST_OF_DUPES \<Rightarrow> \<forall>k. lookup lt key (rev vs' @ t') k = lookup lt key (rev ws @ rev vs @ t) k)"
  using assms
proof (induction ws arbitrary: t vs pos)
  case (Cons w ws)
  show ?case
  proof (cases dupes)
    case KEEP_FIRST_OF_DUPES
    from append_unique_step [OF Cons.prems, of w] obtain vs1 p new where s: "append_unique lt key 0 n w (t @ vs) = (t @ vs1, p, new)"
      "appending key n t vs1 (if new then min pos p else pos)" "\<forall>k. lookup lt key (t @ vs1) k = lookup lt key ((t @ vs) @ [w]) k"
      by blast
    have "lookup lt key ((t @ vs1) @ ws) k = lookup lt key ((t @ vs) @ w # ws) k" for k
      using s(3) lookup_append [of lt key "(t @ vs) @ [w]" ws k] lookup_append [of lt key "t @ vs1" ws k] by simp
    then show ?thesis using Cons.IH [OF s(2)] s(1) KEEP_FIRST_OF_DUPES by simp
  next
    case KEEP_LAST_OF_DUPES
    from append_or_assign_step [OF Cons.prems, of w] obtain t1 vs1 p new where s: "append_or_assign lt key 0 n w (t @ vs) = (t1 @ vs1, p, new)"
      "appending key n t1 vs1 (if new then min pos p else pos)" "\<forall>k. lookup lt key (rev vs1 @ t1) k = lookup lt key (w # rev vs @ t) k"
      by blast
    have "lookup lt key (rev ws @ rev vs1 @ t1) k = lookup lt key (rev (w # ws) @ rev vs @ t) k" for k
      using s(3) lookup_append [of lt key "rev ws" "rev vs1 @ t1" k] lookup_append [of lt key "rev ws" "w # rev vs @ t" k]
      by (simp split: option.split)
    then show ?thesis using Cons.IH [OF s(2)] s(1) KEEP_LAST_OF_DUPES by simp
  qed
qed (auto split: FlatContainerDupes.split)

section \<open>One by one\<close>

text \<open>The reference: the values are inserted one at a time, or inserted and assigned.\<close>

lemma insert_each:
  assumes "strictly_ordered lt key t"
  shows "strictly_ordered lt key (fold (\<lambda>v t. fst (ft_insert lt key v t)) vs t) \<and>
    (\<forall>k. lookup lt key (fold (\<lambda>v t. fst (ft_insert lt key v t)) vs t) k = lookup lt key (t @ vs) k)"
  using assms
proof (induction vs arbitrary: t)
  case (Cons v vs)
  have o: "strictly_ordered lt key (fst (ft_insert lt key v t))" "\<forall>k. lookup lt key (fst (ft_insert lt key v t)) k = lookup lt key (t @ [v]) k"
    using emplace_outcome [OF Cons.prems equivalent_refl, of v] by (auto simp: ft_insert_def split: prod.splits)
  have "lookup lt key (fst (ft_insert lt key v t) @ vs) k = lookup lt key (t @ v # vs) k" for k
    using o(2) lookup_append [of lt key "t @ [v]" vs k] by (simp add: lookup_append [of lt key "fst _"])
  with Cons.IH [OF o(1)] show ?case by simp
qed simp

lemma assign_each_outcome:
  assumes "strictly_ordered lt key t"
  shows "strictly_ordered lt key (assign_each lt key vs t) \<and> (\<forall>k. lookup lt key (assign_each lt key vs t) k = lookup lt key (rev vs @ t) k)"
  using assms
proof (induction vs arbitrary: t)
  case (Cons v vs)
  have o: "strictly_ordered lt key (fst (ft_insert_or_assign lt key v t))"
    "\<forall>k. lookup lt key (fst (ft_insert_or_assign lt key v t)) k = lookup lt key (v # t) k"
    using assign_outcome [OF Cons.prems, of v] by (auto split: prod.splits)
  have "lookup lt key (rev vs @ fst (ft_insert_or_assign lt key v t)) k = lookup lt key (rev vs @ v # t) k" for k
    using o(2) by (simp add: lookup_append split: option.split)
  with Cons.IH [OF o(1)] show ?case by simp
qed simp

section \<open>The range\<close>

lemma batch_outcome:
  assumes t: "strictly_ordered lt key t" and ne: "vs \<noteq> []" and many: "\<not> (multipass \<and> length vs = 1)"
  shows "strictly_ordered lt key (ft_insert_range lt key multipass vs dupes t) \<and>
    (\<forall>k. lookup lt key (ft_insert_range lt key multipass vs dupes t) k =
      lookup lt key (case dupes of KEEP_FIRST_OF_DUPES \<Rightarrow> t @ vs | KEEP_LAST_OF_DUPES \<Rightarrow> rev vs @ t) k)"
proof -
  have "appending key (length t) t [] (length t)" using t by (simp add: appending_def)
  from append_each_outcome [OF this, of dupes vs, unfolded append_Nil2 rev.simps(1) append_Nil] obtain pos t' new
    where a: "append_each lt key (dupes = KEEP_LAST_OF_DUPES) (length t) vs (length t) t = (pos, t' @ new)"
      "appending key (length t) t' new pos"
      "case dupes of KEEP_FIRST_OF_DUPES \<Rightarrow> \<forall>k. lookup lt key (t' @ new) k = lookup lt key (t @ vs) k
       | KEEP_LAST_OF_DUPES \<Rightarrow> \<forall>k. lookup lt key (rev new @ t') k = lookup lt key (rev vs @ t) k" by blast
  from sort_and_unique_outcome [of key t' new dupes] obtain u where u:
    "sort_and_unique lt key (length t') (length (t' @ new)) dupes (t' @ new) = t' @ u" "strictly_ordered lt key u" "set u \<subseteq> set new"
    "\<forall>k. lookup lt key u k = lookup lt key (preference dupes new) k" by blast
  let ?r = "take pos t' @ std_merge (value_comp lt key) (drop pos t') u"
  have t': "strictly_ordered lt key t'" "length t' = length t" "pos \<le> length t"
    and n: "\<forall>v \<in> set u. lookup lt key t' (key v) = None \<and> (\<forall>w \<in> set (take pos t'). lt (key w) (key v))"
    using a(2) u(3) by (auto simp: appending_def)
  have res: "ft_insert_range lt key multipass vs dupes t = ?r"
    using ne many a(1) u(1) t'(2,3) by (auto simp: ft_insert_range_def Let_def)
  have split: "strictly_ordered lt key (take pos t')" "strictly_ordered lt key (drop pos t')" "\<forall>x \<in> set (take pos t'). \<forall>y \<in> set (drop pos t'). lt (key x) (key y)"
    using t'(1) ordered_append [of key "take pos t'" "drop pos t'"] by simp_all
  have "\<not> equivalent lt (key x) (key y)" if "x \<in> set (drop pos t')" "y \<in> set u" for x y
    using n that equivalent_sym [of lt "key x" "key y"] in_set_dropD [OF that(1)] by (auto simp: lookup_None)
  then have o: "strictly_ordered lt key ?r"
    using split n by (auto simp: ordered_append set_std_merge intro!: ordered_merge u(2))
  have sets: "set ?r = set t' \<union> set u" "set ?r = set u \<union> set t'"
    using set_append [of "take pos t'" "drop pos t'"] by (auto simp: set_std_merge)
  note l = lookup_union [OF o sets(1)] lookup_union [OF o sets(2)]
  have "lookup lt key ?r k = lookup lt key (case dupes of KEEP_FIRST_OF_DUPES \<Rightarrow> t @ vs | KEEP_LAST_OF_DUPES \<Rightarrow> rev vs @ t) k" for k
  proof (cases dupes)
    case KEEP_FIRST_OF_DUPES
    then have "lookup lt key (t' @ u) k = lookup lt key (t' @ new) k"
      using u(4) by (simp add: lookup_append preference_def split: option.split)
    with a(3) KEEP_FIRST_OF_DUPES show ?thesis unfolding l(1) by simp
  next
    case KEEP_LAST_OF_DUPES
    then have "lookup lt key (u @ t') k = lookup lt key (rev new @ t') k"
      using u(4) by (simp add: lookup_append preference_def split: option.split)
    with a(3) KEEP_LAST_OF_DUPES show ?thesis unfolding l(2) by simp
  qed
  with o res show ?thesis by simp
qed

lemma range_is_each:
  assumes t: "strictly_ordered lt key t"
  shows "ft_insert_range lt key multipass vs KEEP_FIRST_OF_DUPES t = fold (\<lambda>v t. fst (ft_insert lt key v t)) vs t"
    and "ft_insert_range lt key multipass vs KEEP_LAST_OF_DUPES t = fold (\<lambda>v t. fst (ft_insert_or_assign lt key v t)) vs t"
proof -
  have f: "assign_each lt key vs t = fold (\<lambda>v t. fst (ft_insert_or_assign lt key v t)) vs t" for vs t
    by (induction vs arbitrary: t) simp_all
  have one: "copy_to_inserter lt key (length t) [v] t = fst (ft_insert lt key v t)" for v
    using hint_irrelevant [OF t, of "length t" "key v" v] by (simp add: ft_insert_hint_def ft_insert_def split: prod.split)
  show "ft_insert_range lt key multipass vs KEEP_FIRST_OF_DUPES t = fold (\<lambda>v t. fst (ft_insert lt key v t)) vs t"
  proof (cases "vs = [] \<or> multipass \<and> length vs = 1")
    case True
    then show ?thesis using one by (cases vs) (auto simp: ft_insert_range_def)
  next
    case False
    then show ?thesis using batch_outcome [OF t, of vs multipass KEEP_FIRST_OF_DUPES] insert_each [OF t, of vs]
      by (intro ordered_ext [of key]) simp_all
  qed
  show "ft_insert_range lt key multipass vs KEEP_LAST_OF_DUPES t = fold (\<lambda>v t. fst (ft_insert_or_assign lt key v t)) vs t"
  proof (cases "vs = [] \<or> multipass \<and> length vs = 1")
    case True
    then show ?thesis by (cases vs) (auto simp: ft_insert_range_def)
  next
    case False
    then show ?thesis using batch_outcome [OF t, of vs multipass KEEP_LAST_OF_DUPES] assign_each_outcome [OF t, of vs]
      unfolding f [symmetric] by (intro ordered_ext [of key]) simp_all
  qed
qed

lemma constructor_is_each:
  "flat_tree_range lt key vs KEEP_FIRST_OF_DUPES = fold (\<lambda>v t. fst (ft_insert lt key v t)) vs []"
  "flat_tree_range lt key vs KEEP_LAST_OF_DUPES = fold (\<lambda>v t. fst (ft_insert_or_assign lt key v t)) vs []"
proof -
  have f: "assign_each lt key vs t = fold (\<lambda>v t. fst (ft_insert_or_assign lt key v t)) vs t" for vs t
    by (induction vs arbitrary: t) simp_all
  have c: "strictly_ordered lt key (flat_tree_range lt key vs dupes) \<and>
    (\<forall>k. lookup lt key (flat_tree_range lt key vs dupes) k = lookup lt key (preference dupes vs) k)" for dupes
    using sort_and_unique_outcome [of key "[]" vs dupes] by (auto simp: flat_tree_range_def)
  show "flat_tree_range lt key vs KEEP_FIRST_OF_DUPES = fold (\<lambda>v t. fst (ft_insert lt key v t)) vs []"
    using c [of KEEP_FIRST_OF_DUPES] insert_each [of key "[]" vs] by (intro ordered_ext [of key]) (simp_all add: preference_def)
  show "flat_tree_range lt key vs KEEP_LAST_OF_DUPES = fold (\<lambda>v t. fst (ft_insert_or_assign lt key v t)) vs []"
    using c [of KEEP_LAST_OF_DUPES] assign_each_outcome [of key "[]" vs] unfolding f [symmetric]
    by (intro ordered_ext [of key]) (simp_all add: preference_def)
qed

end

end
