(* ===== verification/Rtc_FlatMap.thy ===== *)
theory Rtc_FlatMap
  imports Rtc_FlatRange
begin

text \<open>
  Programs over \<^verbatim>\<open>base::flat_map\<close> and the map they act on: any strict weak ordering of the keys gives the same answers
  as a function from keys to their values.
\<close>

section \<open>The default comparison\<close>

interpretation std_less: strict_weak "(<) :: 'a :: linorder \<Rightarrow> 'a \<Rightarrow> bool"
  by unfold_locales (auto simp: equivalent_def)

section \<open>Programs\<close>

text \<open>Hints are iterators found by a search for some key.  \<open>WriteAt\<close> is an assignment to \<^verbatim>\<open>map[key]\<close>.\<close>

datatype ('k, 'm) map_op = ReadAt 'k | WriteAt 'k 'm | PutAt 'k 'm | PutAtHint 'k 'k 'm | TryEmplace 'k 'm
  | TryEmplaceHint 'k 'k 'm | InsertRange bool "('k \<times> 'm) list" FlatContainerDupes | EraseKey 'k
  | EraseMatching "'k \<times> 'm \<Rightarrow> bool" | Find 'k | Contains 'k | Count 'k | AssignList "('k \<times> 'm) list" | ClearAll

datatype ('k, 'm) map_out = Mapped 'm | Inserted bool | Element "('k \<times> 'm) option" | Present bool | Number nat | Done

fun do_map :: "('k \<Rightarrow> 'k \<Rightarrow> bool) \<Rightarrow> 'm \<Rightarrow> ('k, 'm) map_op \<Rightarrow> ('k \<times> 'm) list \<Rightarrow> ('k, 'm) map_out \<times> ('k \<times> 'm) list" where
  "do_map lt mapped (ReadAt k) t = (let (t, p) = fm_access lt mapped k t in (Mapped (snd (t ! p)), t))"
| "do_map lt mapped (WriteAt k m) t = (let (t, p) = fm_access lt mapped k t in (Done, t[p := (fst (t ! p), m)]))"
| "do_map lt mapped (PutAt k m) t = (let (t, p, new) = fm_insert_or_assign lt k m t in (Inserted new, t))"
| "do_map lt mapped (PutAtHint h k m) t =
     (let (t, p) = fm_insert_or_assign_hint lt (ft_lower_bound lt fst h t) k m t in (Element (Some (t ! p)), t))"
| "do_map lt mapped (TryEmplace k m) t = (let (t, p, new) = fm_try_emplace lt k m t in (Inserted new, t))"
| "do_map lt mapped (TryEmplaceHint h k m) t =
     (let (t, p) = fm_try_emplace_hint lt (ft_lower_bound lt fst h t) k m t in (Element (Some (t ! p)), t))"
| "do_map lt mapped (InsertRange multipass vs dupes) t = (Done, ft_insert_range lt fst multipass vs dupes t)"
| "do_map lt mapped (EraseKey k) t = (let (t, n) = ft_erase lt fst k t in (Number n, t))"
| "do_map lt mapped (EraseMatching pred) t = (Done, ft_EraseIf pred t)"
| "do_map lt mapped (Find k) t =
     (let p = ft_find lt fst k t in (Element (if p = length t then None else Some (t ! p)), t))"
| "do_map lt mapped (Contains k) t = (Present (ft_contains lt fst k t), t)"
| "do_map lt mapped (Count k) t = (Number (ft_count lt fst k t), t)"
| "do_map lt mapped (AssignList vs) t = (Done, ft_assign_list lt fst vs t)"
| "do_map lt mapped ClearAll t = (Done, ft_clear t)"

fun run_map :: "('k \<Rightarrow> 'k \<Rightarrow> bool) \<Rightarrow> 'm \<Rightarrow> ('k, 'm) map_op list \<Rightarrow> ('k \<times> 'm) list \<Rightarrow> ('k, 'm) map_out list \<times> ('k \<times> 'm) list" where
  "run_map lt mapped [] t = ([], t)"
| "run_map lt mapped (op # ops) t =
     (let (out, t) = do_map lt mapped op t; (outs, t) = run_map lt mapped ops t in (out # outs, t))"

text \<open>The same on a function that gives the element of a key.  A key keeps the spelling it was first inserted with.\<close>

type_synonym ('k, 'm) element_map = "'k \<Rightarrow> ('k \<times> 'm) option"

definition put :: "('k \<Rightarrow> 'k \<Rightarrow> bool) \<Rightarrow> 'k \<times> 'm \<Rightarrow> ('k, 'm) element_map \<Rightarrow> ('k, 'm) element_map" where
  "put lt v f = (\<lambda>k. if equivalent lt k (fst v) then Some v else f k)"

definition put_new :: "('k \<Rightarrow> 'k \<Rightarrow> bool) \<Rightarrow> 'k \<times> 'm \<Rightarrow> ('k, 'm) element_map \<Rightarrow> ('k, 'm) element_map" where
  "put_new lt v f = (if f (fst v) = None then put lt v f else f)"

definition put_mapped :: "('k \<Rightarrow> 'k \<Rightarrow> bool) \<Rightarrow> 'k \<Rightarrow> 'm \<Rightarrow> ('k, 'm) element_map \<Rightarrow> ('k, 'm) element_map" where
  "put_mapped lt k m f = put lt (case f k of None \<Rightarrow> k | Some v \<Rightarrow> fst v, m) f"

fun map_spec :: "('k \<Rightarrow> 'k \<Rightarrow> bool) \<Rightarrow> 'm \<Rightarrow> ('k, 'm) map_op \<Rightarrow> ('k, 'm) element_map \<Rightarrow> ('k, 'm) map_out \<times> ('k, 'm) element_map" where
  "map_spec lt mapped (ReadAt k) f =
     (Mapped (case f k of None \<Rightarrow> mapped | Some v \<Rightarrow> snd v), put_new lt (k, mapped) f)"
| "map_spec lt mapped (WriteAt k m) f = (Done, put_mapped lt k m f)"
| "map_spec lt mapped (PutAt k m) f = (Inserted (f k = None), put_mapped lt k m f)"
| "map_spec lt mapped (PutAtHint h k m) f = (Element (put_mapped lt k m f k), put_mapped lt k m f)"
| "map_spec lt mapped (TryEmplace k m) f = (Inserted (f k = None), put_new lt (k, m) f)"
| "map_spec lt mapped (TryEmplaceHint h k m) f = (Element (put_new lt (k, m) f k), put_new lt (k, m) f)"
| "map_spec lt mapped (InsertRange multipass vs dupes) f =
     (Done, fold (case dupes of KEEP_FIRST_OF_DUPES \<Rightarrow> put_new lt | KEEP_LAST_OF_DUPES \<Rightarrow> put lt) vs f)"
| "map_spec lt mapped (EraseKey k) f =
     (Number (if f k = None then 0 else 1), \<lambda>k'. if equivalent lt k' k then None else f k')"
| "map_spec lt mapped (EraseMatching pred) f =
     (Done, \<lambda>k. case f k of None \<Rightarrow> None | Some v \<Rightarrow> if pred v then None else Some v)"
| "map_spec lt mapped (Find k) f = (Element (f k), f)"
| "map_spec lt mapped (Contains k) f = (Present (f k \<noteq> None), f)"
| "map_spec lt mapped (Count k) f = (Number (if f k = None then 0 else 1), f)"
| "map_spec lt mapped (AssignList vs) f = (Done, fold (put_new lt) vs (\<lambda>_. None))"
| "map_spec lt mapped ClearAll f = (Done, \<lambda>_. None)"

fun spec_map :: "('k \<Rightarrow> 'k \<Rightarrow> bool) \<Rightarrow> 'm \<Rightarrow> ('k, 'm) map_op list \<Rightarrow> ('k, 'm) element_map \<Rightarrow> ('k, 'm) map_out list \<times> ('k, 'm) element_map" where
  "spec_map lt mapped [] f = ([], f)"
| "spec_map lt mapped (op # ops) f =
     (let (out, f) = map_spec lt mapped op f; (outs, f) = spec_map lt mapped ops f in (out # outs, f))"

section \<open>Simulation\<close>

context strict_weak
begin

abbreviation holds :: "('k \<times> 'm) list \<Rightarrow> ('k, 'm) element_map \<Rightarrow> bool" where
  "holds t f \<equiv> strictly_ordered lt fst t \<and> lookup lt fst t = f"

lemma put_new_lookup:
  assumes "\<forall>k'. lookup lt fst t' k' = lookup lt fst (t @ [v]) k'"
  shows "lookup lt fst t' = put_new lt v (lookup lt fst t)"
proof
  fix k'
  show "lookup lt fst t' k' = put_new lt v (lookup lt fst t) k'"
    using assms lookup_cong [of k' "fst v" fst t]
    by (auto simp: put_new_def put_def lookup_append split: option.split)
qed

lemma put_lookup: "\<forall>k'. lookup lt fst t' k' = lookup lt fst (v # t) k' \<Longrightarrow> lookup lt fst t' = put lt v (lookup lt fst t)"
  by (auto simp: put_def)

lemma emplace_keeps:
  fixes v :: "'k \<times> 'm"
  assumes t: "strictly_ordered lt fst t" and e: "emplace_key_args lt fst (fst v) v t = (t', p, new)"
  shows "holds t' (put_new lt v (lookup lt fst t))" "p < length t'" "lookup lt fst t' (fst v) = Some (t' ! p)"
    "new \<longleftrightarrow> lookup lt fst t (fst v) = None"
  using emplace_outcome [OF t equivalent_refl, of v] e by (auto intro: put_new_lookup)

lemma access_is_emplace:
  "emplace_key_args lt fst k (k, mapped) t = (t', p, new) \<Longrightarrow> fm_access lt mapped k t = (t', p)"
  by (auto simp: fm_access_def emplace_key_args_def unsafe_emplace_def Let_def split: if_splits)

text \<open>The mapped value of an element is replaced through its position.\<close>

lemma write_position:
  assumes t: "strictly_ordered lt fst t" and p: "p < length t" "equivalent lt k (fst (t ! p))"
  shows "strictly_ordered lt fst (t[p := (fst (t ! p), m)])"
    "lookup lt fst (t[p := (fst (t ! p), m)]) = put lt (fst (t ! p), m) (lookup lt fst t)"
proof -
  define us vs where "us = take p t" and "vs = drop (Suc p) t"
  have s: "t = us @ t ! p # vs" "t[p := (fst (t ! p), m)] = us @ (fst (t ! p), m) # vs"
    using p by (simp_all add: us_def vs_def id_take_nth_drop upd_conv_take_nth_drop)
  have "strictly_ordered lt fst (us @ t ! p # vs)" using t by (simp only: s(1) [symmetric])
  then have a: "\<forall>u \<in> set us. lt (fst u) (fst (t ! p))" "\<forall>v \<in> set vs. lt (fst (t ! p)) (fst v)" "strictly_ordered lt fst (us @ vs)"
    by (simp_all add: ordered_simps)
  show "strictly_ordered lt fst (t[p := (fst (t ! p), m)])" unfolding s(2) by (rule ordered_middle [OF a(3) a(1,2)]) simp
  show "lookup lt fst (t[p := (fst (t ! p), m)]) = put lt (fst (t ! p), m) (lookup lt fst t)"
  proof
    fix k'
    have "lookup lt fst t k' = (if equivalent lt k' (fst (t ! p)) then Some (t ! p) else lookup lt fst (us @ vs) k')"
      using lookup_middle [OF a(1,2) equivalent_refl, of k'] by (simp only: s(1) [symmetric])
    moreover have "lookup lt fst (us @ (fst (t ! p), m) # vs) k' = (if equivalent lt k' (fst (t ! p)) then Some (fst (t ! p), m) else lookup lt fst (us @ vs) k')"
      using lookup_middle [OF a(1,2), of "(fst (t ! p), m)" k'] by simp
    ultimately show "lookup lt fst (t[p := (fst (t ! p), m)]) k' = put lt (fst (t ! p), m) (lookup lt fst t) k'"
      unfolding s(2) by (simp add: put_def)
  qed
qed

lemma found_value:
  assumes "lookup lt fst t' = put_new lt (k, m) f" "lookup lt fst t' k = Some v"
  shows "v = (case f k of None \<Rightarrow> (k, m) | Some v \<Rightarrow> v)"
  using assms by (auto simp: put_new_def put_def split: option.splits)

lemma put_found:
  assumes t: "strictly_ordered lt fst t'" "lookup lt fst t' = put_new lt (k, m0) f" and p: "p < length t'" "lookup lt fst t' k = Some (t' ! p)"
  shows "holds (t'[p := (fst (t' ! p), m)]) (put_mapped lt k m f)"
proof -
  have e: "equivalent lt k (fst (t' ! p))" using lookup_SomeD [OF p(2)] by simp
  have "put lt (fst (t' ! p), m) (put_new lt (k, m0) f) = put_mapped lt k m f"
    unfolding found_value [OF t(2) p(2)] by (cases "f k") (auto simp: put_new_def put_mapped_def put_def fun_eq_iff)
  with write_position [OF t(1) p(1) e, of m] t(2) show ?thesis by simp
qed

lemma insert_or_assign_holds:
  assumes t: "holds t f" and e: "emplace_key_args lt fst k (k, m) t = (t', p, new)"
  shows "holds (if new then t' else t'[p := (fst (t' ! p), m)]) (put_mapped lt k m f)"
    "(if new then t' else t'[p := (fst (t' ! p), m)]) ! p = (case f k of None \<Rightarrow> k | Some v \<Rightarrow> fst v, m)"
proof -
  note h = emplace_keeps [of t "(k, m)", OF conjunct1 [OF t], unfolded fst_conv, OF e]
  have f: "lookup lt fst t = f" using t by simp
  have q: "t' ! p = (case f k of None \<Rightarrow> (k, m) | Some v \<Rightarrow> v)"
    using found_value [of t' k m f] h(1,3) f by simp
  show "holds (if new then t' else t'[p := (fst (t' ! p), m)]) (put_mapped lt k m f)"
    using put_found [of t' k m f p m] h f by (cases new) (auto simp: put_new_def put_mapped_def)
  show "(if new then t' else t'[p := (fst (t' ! p), m)]) ! p = (case f k of None \<Rightarrow> k | Some v \<Rightarrow> fst v, m)"
    using q h(2,4) f by (auto split: option.splits)
qed

lemma put_mapped_self: "holds t f \<Longrightarrow> put_mapped lt k m f k = Some (case f k of None \<Rightarrow> k | Some v \<Rightarrow> fst v, m)"
  using lookup_SomeD [of lt fst t k] by (auto simp: put_mapped_def put_def split: option.split)

lemma fold_put_new: "holds t f \<Longrightarrow> holds (fold (\<lambda>v t. fst (ft_insert lt fst v t)) vs t) (fold (put_new lt) vs f)"
proof (induction vs arbitrary: t f)
  case (Cons v vs)
  obtain t' p new where e: "emplace_key_args lt fst (fst v) v t = (t', p, new)" by (metis prod_cases3)
  have "holds t' (put_new lt v f)" using emplace_keeps(1) [OF conjunct1 [OF Cons.prems] e] Cons.prems by simp
  from Cons.IH [OF this] e show ?case by (simp add: ft_insert_def)
qed simp

lemma fold_put: "holds t f \<Longrightarrow> holds (fold (\<lambda>v t. fst (ft_insert_or_assign lt fst v t)) vs t) (fold (put lt) vs f)"
proof (induction vs arbitrary: t f)
  case (Cons v vs)
  have "holds (fst (ft_insert_or_assign lt fst v t)) (put lt v f)"
    using assign_outcome [OF conjunct1 [OF Cons.prems], of v] Cons.prems put_lookup [of _ v t] by (auto split: prod.splits)
  from Cons.IH [OF this] show ?case by simp
qed simp

lemma lookup_erase: "lookup lt fst (filter (\<lambda>v. \<not> equivalent lt k (fst v)) t) k' = (if equivalent lt k' k then None else lookup lt fst t k')"
proof (induction t)
  case (Cons v t)
  then show ?case
    using equivalent_cong [of k' k "fst v"] same_key [of k' "fst v" k] by auto
qed simp

lemma lookup_erase_if:
  assumes t: "strictly_ordered lt fst t"
  shows "lookup lt fst (filter (\<lambda>v. \<not> pred v) t) k =
    (case lookup lt fst t k of None \<Rightarrow> None | Some v \<Rightarrow> if pred v then None else Some v)"
proof (cases "lookup lt fst (filter (\<lambda>v. \<not> pred v) t) k")
  case None
  then have "pred v" if "lookup lt fst t k = Some v" for v using lookup_SomeD [OF that] by (cases v) (auto simp: lookup_None)
  with None show ?thesis by (auto split: option.split)
next
  case (Some v)
  from lookup_SomeD [OF this] have "lookup lt fst t k = Some v" "\<not> pred v" by (auto simp: lookup_iff [OF t])
  with Some show ?thesis by simp
qed

lemma do_map_holds:
  assumes t: "holds t f"
  shows "fst (do_map lt mapped op t) = fst (map_spec lt mapped op f) \<and>
    holds (snd (do_map lt mapped op t)) (snd (map_spec lt mapped op f))"
proof -
  have o: "strictly_ordered lt fst t" and f: "lookup lt fst t = f" using t by auto
  have hint: "emplace_hint_key_args lt fst (ft_lower_bound lt fst h t) k v t = emplace_key_args lt fst k v t" for h k v
    by (rule hint_irrelevant [OF o lower_bound_le])
  have emp: "\<exists>t' p new. emplace_key_args lt fst k (k, m) t = (t', p, new)" for k m by (metis prod_cases3)
  note search = search_outcome [OF o, unfolded f]
  show ?thesis
  proof (cases op)
    case (ReadAt k)
    obtain t' p new where e: "emplace_key_args lt fst k (k, mapped) t = (t', p, new)" using emp by blast
    note h = emplace_keeps [of t "(k, mapped)", OF o, unfolded fst_conv f, OF e]
    have "t' ! p = (case f k of None \<Rightarrow> (k, mapped) | Some v \<Rightarrow> v)"
      using found_value [of t' k mapped f] h(1,3) by simp
    then show ?thesis using ReadAt h(1) access_is_emplace [OF e] by (auto split: option.split)
  next
    case (WriteAt k m)
    obtain t' p new where e: "emplace_key_args lt fst k (k, mapped) t = (t', p, new)" using emp by blast
    note h = emplace_keeps [of t "(k, mapped)", OF o, unfolded fst_conv f, OF e]
    show ?thesis using WriteAt put_found [of t' k mapped f p m] h access_is_emplace [OF e] by simp
  next
    case (PutAt k m)
    obtain t' p new where e: "emplace_key_args lt fst k (k, m) t = (t', p, new)" using emp by blast
    show ?thesis
      using PutAt insert_or_assign_holds(1) [OF t e] emplace_keeps(4) [of t "(k, m)", OF o, unfolded fst_conv f, OF e] e
      by (auto simp: fm_insert_or_assign_def)
  next
    case (PutAtHint h k m)
    obtain t' p new where e: "emplace_key_args lt fst k (k, m) t = (t', p, new)" using emp by blast
    show ?thesis
      using PutAtHint insert_or_assign_holds [OF t e] put_mapped_self [OF t, of k m] e
      by (cases new) (simp_all add: fm_insert_or_assign_hint_def hint)
  next
    case (TryEmplace k m)
    obtain t' p new where e: "emplace_key_args lt fst k (k, m) t = (t', p, new)" using emp by blast
    show ?thesis
      using TryEmplace emplace_keeps [of t "(k, m)", OF o, unfolded fst_conv f, OF e] e by (simp add: fm_try_emplace_def)
  next
    case (TryEmplaceHint h k m)
    obtain t' p new where e: "emplace_key_args lt fst k (k, m) t = (t', p, new)" using emp by blast
    show ?thesis
      using TryEmplaceHint emplace_keeps [of t "(k, m)", OF o, unfolded fst_conv f, OF e] e
      by (simp add: fm_try_emplace_hint_def hint)
  next
    case (InsertRange multipass vs dupes)
    then show ?thesis
      using fold_put_new [OF t, of vs] fold_put [OF t, of vs] by (cases dupes) (simp_all add: range_is_each [OF o])
  next
    case (EraseKey k)
    then show ?thesis using f by (auto simp: erase_outcome [OF o] ordered_filter [OF o] lookup_erase fun_eq_iff)
  next
    case (EraseMatching pred)
    then show ?thesis using f by (auto simp: ft_EraseIf_def ordered_filter [OF o] lookup_erase_if [OF o] fun_eq_iff)
  next
    case (Find k)
    then show ?thesis using search [of k] o f by (cases "f k") auto
  next
    case (AssignList vs)
    then show ?thesis
      using fold_put_new [of "[]" "\<lambda>_. None" vs] constructor_is_each(1) [of fst vs]
      by (simp add: ft_assign_list_def flat_tree_range_def fun_eq_iff)
  next
    case (Contains k)
    then show ?thesis using search [of k] o f by simp
  next
    case (Count k)
    then show ?thesis using search [of k] o f by simp
  next
    case ClearAll
    then show ?thesis by (simp add: ft_clear_def fun_eq_iff)
  qed
qed

lemma run_map_holds:
  assumes "holds t f"
  shows "fst (run_map lt mapped ops t) = fst (spec_map lt mapped ops f) \<and>
    holds (snd (run_map lt mapped ops t)) (snd (spec_map lt mapped ops f))"
  using assms
proof (induction ops arbitrary: t f)
  case (Cons op ops)
  from do_map_holds [OF Cons.prems, of mapped op]
  have d: "fst (do_map lt mapped op t) = fst (map_spec lt mapped op f)" "holds (snd (do_map lt mapped op t)) (snd (map_spec lt mapped op f))"
    by simp_all
  from Cons.IH [OF d(2)] d(1) show ?case by (simp add: case_prod_beta Let_def)
qed simp

end

section \<open>Properties\<close>

text \<open>
  (C35) Refinement.  With any strict weak ordering of the keys, programs over a flat map give the same results as over a
  function from keys to elements, the vector stays strictly ordered, and holds exactly the elements of the
  function.  Hints change nothing.
\<close>

theorem flat_map_is_map:
  assumes "strict_weak lt"
  shows "fst (run_map lt mapped ops []) = fst (spec_map lt mapped ops (\<lambda>_. None)) \<and>
    strictly_ordered lt fst (snd (run_map lt mapped ops [])) \<and>
    lookup lt fst (snd (run_map lt mapped ops [])) = snd (spec_map lt mapped ops (\<lambda>_. None))"
  by (rule strict_weak.run_map_holds [OF assms]) (simp add: strict_weak.ordered_Nil [OF assms] fun_eq_iff)

text \<open>
  Insertion of a range.  Appending, sorting, removing duplicates and merging are the insertion of the values one by
  one, for ranges that can be read once or more often: with \<^verbatim>\<open>KEEP_FIRST_OF_DUPES\<close> an element stays, with
  \<^verbatim>\<open>KEEP_LAST_OF_DUPES\<close> it is replaced; the same holds for the construction from a range.
\<close>

theorem insert_range_one_by_one:
  assumes "strict_weak lt" "strictly_ordered lt key t"
  shows "ft_insert_range lt key multipass vs KEEP_FIRST_OF_DUPES t = fold (\<lambda>v t. fst (ft_insert lt key v t)) vs t \<and>
    ft_insert_range lt key multipass vs KEEP_LAST_OF_DUPES t = fold (\<lambda>v t. fst (ft_insert_or_assign lt key v t)) vs t \<and>
    flat_tree_range lt key vs KEEP_FIRST_OF_DUPES = fold (\<lambda>v t. fst (ft_insert lt key v t)) vs [] \<and>
    flat_tree_range lt key vs KEEP_LAST_OF_DUPES = fold (\<lambda>v t. fst (ft_insert_or_assign lt key v t)) vs []"
  using strict_weak.range_is_each [OF assms] strict_weak.constructor_is_each [OF assms(1)] by blast

end
