(* ===== verification/Rtc_MruCache.thy ===== *)
theory Rtc_MruCache
  imports Rtc_Numeric
begin

text \<open>
  The cache of the most recently used items, \<^verbatim>\<open>base/containers/mru_cache.h\<close>: a list of items in the order of their use
  and an index from keys to the nodes of the list.  A node keeps its number when it is moved, so iterators are the
  numbers of nodes, and \<^const>\<open>None\<close> is the end.  Keys are equivalent only if they are equal.
\<close>

section \<open>Operations\<close>

record ('k, 'p) mru_cache =
  ordering_nodes :: "(nat \<times> 'k \<times> 'p) list"
  index :: "('k \<times> nat) list"
  max_size :: nat
  fresh_node :: nat

definition mru_new :: "nat \<Rightarrow> ('k, 'p) mru_cache" where
  "mru_new m = \<lparr>ordering_nodes = [], index = [], max_size = m, fresh_node = 0\<rparr>"

definition NO_AUTO_EVICT :: nat where
  "NO_AUTO_EVICT = 0"

definition mru_size :: "bool \<Rightarrow> ('k, 'p) mru_cache \<Rightarrow> nat checked" where
  "mru_size d c = rbind (RTC_DCHECK d (length (index c) = length (ordering_nodes c))) (\<lambda>_. Inr (length (index c)))"

definition mru_empty :: "('k, 'p) mru_cache \<Rightarrow> bool" where
  "mru_empty c \<longleftrightarrow> ordering_nodes c = []"

text \<open>Access through an iterator, and the iterator of the following item.\<close>

definition item_at :: "nat option \<Rightarrow> ('k, 'p) mru_cache \<Rightarrow> ('k \<times> 'p) checked" where
  "item_at it c = (case it of None \<Rightarrow> Inl Undefined | Some n \<Rightarrow>
     (case map_of (ordering_nodes c) n of None \<Rightarrow> Inl Undefined | Some v \<Rightarrow> Inr v))"

fun following :: "nat \<Rightarrow> (nat \<times> 'a) list \<Rightarrow> nat option" where
  "following n (x # y # xs) = (if fst x = n then Some (fst y) else following n (y # xs))"
| "following n xs = None"

definition mru_Erase :: "nat option \<Rightarrow> ('k, 'p) mru_cache \<Rightarrow> (nat option \<times> ('k, 'p) mru_cache) checked" where
  "mru_Erase pos c =
     rbind (item_at pos c) (\<lambda>v.
     let c = c\<lparr>index := filter (\<lambda>e. fst e \<noteq> fst v) (index c)\<rparr>; n = the pos in
     Inr (following n (ordering_nodes c), c\<lparr>ordering_nodes := filter (\<lambda>e. fst e \<noteq> n) (ordering_nodes c)\<rparr>))"

text \<open>
  A reverse iterator is the iterator after the item it stands for; \<open>base\<close> of the incremented one is that item.
\<close>

definition mru_rbegin :: "('k, 'p) mru_cache \<Rightarrow> nat option" where
  "mru_rbegin c = (if ordering_nodes c = [] then None else Some (fst (last (ordering_nodes c))))"

definition mru_Erase_reverse :: "nat option \<Rightarrow> ('k, 'p) mru_cache \<Rightarrow> (nat option \<times> ('k, 'p) mru_cache) checked" where
  "mru_Erase_reverse pos c = mru_Erase pos c"

fun shrink_loop :: "nat \<Rightarrow> nat \<Rightarrow> ('k, 'p) mru_cache \<Rightarrow> ('k, 'p) mru_cache checked" where
  "shrink_loop 0 new_size c = Inr c"
| "shrink_loop (Suc i) new_size c =
     (if Suc i > new_size
      then rbind (mru_Erase_reverse (mru_rbegin c) c) (\<lambda>(_, c). shrink_loop i new_size c)
      else Inr c)"

definition ShrinkToSize :: "bool \<Rightarrow> nat \<Rightarrow> ('k, 'p) mru_cache \<Rightarrow> ('k, 'p) mru_cache checked" where
  "ShrinkToSize d new_size c = rbind (mru_size d c) (\<lambda>i. shrink_loop i new_size c)"

definition mru_Put :: "bool \<Rightarrow> 'k \<Rightarrow> 'p \<Rightarrow> ('k, 'p) mru_cache \<Rightarrow> (nat option \<times> ('k, 'p) mru_cache) checked" where
  "mru_Put d key payload c =
     rbind (case map_of (index c) key of
         Some it \<Rightarrow> rbind (mru_Erase (Some it) c) (\<lambda>(_, c). Inr c)
       | None \<Rightarrow> if max_size c \<noteq> NO_AUTO_EVICT then ShrinkToSize d (max_size c - 1) c else Inr c) (\<lambda>c.
     let n = fresh_node c;
         c = c\<lparr>ordering_nodes := (n, key, payload) # ordering_nodes c, fresh_node := Suc n\<rparr>;
         c = (if map_of (index c) key = None then c\<lparr>index := (key, n) # index c\<rparr> else c)
     in Inr (Some n, c))"

definition mru_Get :: "'k \<Rightarrow> ('k, 'p) mru_cache \<Rightarrow> (nat option \<times> ('k, 'p) mru_cache) checked" where
  "mru_Get key c =
     (case map_of (index c) key of
        None \<Rightarrow> Inr (None, c)
      | Some iter \<Rightarrow> rbind (item_at (Some iter) c) (\<lambda>v.
          Inr (Some iter, c\<lparr>ordering_nodes := (iter, v) # filter (\<lambda>e. fst e \<noteq> iter) (ordering_nodes c)\<rparr>)))"

definition mru_Peek :: "'k \<Rightarrow> ('k, 'p) mru_cache \<Rightarrow> nat option" where
  "mru_Peek key c = map_of (index c) key"

definition mru_Swap :: "('k, 'p) mru_cache \<Rightarrow> ('k, 'p) mru_cache \<Rightarrow> ('k, 'p) mru_cache \<times> ('k, 'p) mru_cache" where
  "mru_Swap this other =
     (this\<lparr>ordering_nodes := ordering_nodes other, index := index other, max_size := max_size other, fresh_node := max (fresh_node this) (fresh_node other)\<rparr>,
      other\<lparr>ordering_nodes := ordering_nodes this, index := index this, max_size := max_size this, fresh_node := max (fresh_node this) (fresh_node other)\<rparr>)"

definition mru_Clear :: "('k, 'p) mru_cache \<Rightarrow> ('k, 'p) mru_cache" where
  "mru_Clear c = c\<lparr>index := [], ordering_nodes := []\<rparr>"

section \<open>The index\<close>

definition items_of :: "('k, 'p) mru_cache \<Rightarrow> ('k \<times> 'p) list" where
  "items_of c = map snd (ordering_nodes c)"

definition cache_inv :: "('k, 'p) mru_cache \<Rightarrow> bool" where
  "cache_inv c \<longleftrightarrow>
     distinct (map fst (ordering_nodes c)) \<and> distinct (map fst (items_of c)) \<and> distinct (map fst (index c)) \<and>
     (\<forall>k n. (k, n) \<in> set (index c) \<longleftrightarrow> (\<exists>p. (n, k, p) \<in> set (ordering_nodes c))) \<and> (\<forall>e \<in> set (ordering_nodes c). fst e < fresh_node c)"

lemma index_lookup:
  assumes "cache_inv c"
  shows "map_of (index c) k = Some n \<longleftrightarrow> (\<exists>p. (n, k, p) \<in> set (ordering_nodes c))"
  using assms by (auto simp: cache_inv_def)

lemma index_None:
  assumes "cache_inv c"
  shows "map_of (index c) k = None \<longleftrightarrow> k \<notin> fst ` set (items_of c)"
  using index_lookup [OF assms] by (cases "map_of (index c) k") (force simp: items_of_def)+

lemma node_lookup:
  assumes "cache_inv c"
  shows "map_of (ordering_nodes c) n = Some v \<longleftrightarrow> (n, v) \<in> set (ordering_nodes c)"
  using assms by (simp add: cache_inv_def)

lemma index_size:
  assumes "cache_inv c"
  shows "length (index c) = length (ordering_nodes c)"
proof -
  have d: "distinct (map fst (index c))" "distinct (map fst (items_of c))" using assms by (auto simp: cache_inv_def)
  have "k \<in> fst ` set (index c) \<longleftrightarrow> k \<in> fst ` set (items_of c)" for k
    using index_None [OF assms, of k] by (simp add: map_of_eq_None_iff)
  then have "fst ` set (index c) = fst ` set (items_of c)" by blast
  then have "length (map fst (index c)) = length (map fst (items_of c))"
    using distinct_card [OF d(1)] distinct_card [OF d(2)] by simp
  then show ?thesis by (simp add: items_of_def)
qed

lemma size_exact: "cache_inv c \<Longrightarrow> mru_size d c = Inr (length (items_of c))"
  by (simp add: mru_size_def index_size items_of_def)

text \<open>The nodes of a list with distinct keys: removing a node is removing its key.\<close>

lemma same_node:
  assumes "cache_inv c" "(n, k, p) \<in> set (ordering_nodes c)" "(n', k', p') \<in> set (ordering_nodes c)"
  shows "n' = n \<longleftrightarrow> k' = k"
proof -
  have i: "inj_on fst (set (ordering_nodes c))" "inj_on (fst \<circ> snd) (set (ordering_nodes c))"
    using assms(1) by (auto simp: cache_inv_def items_of_def distinct_map comp_def)
  show ?thesis using inj_onD [OF i(1) _ assms(3,2)] inj_onD [OF i(2) _ assms(3,2)] by auto
qed

lemma filter_node:
  assumes "cache_inv c" "(n, k, p) \<in> set (ordering_nodes c)"
  shows "map snd (filter (\<lambda>e. fst e \<noteq> n) (ordering_nodes c)) = filter (\<lambda>v. fst v \<noteq> k) (items_of c)"
proof -
  have "filter (\<lambda>e. fst e \<noteq> n) (ordering_nodes c) = filter (\<lambda>e. fst (snd e) \<noteq> k) (ordering_nodes c)"
    by (rule filter_cong [OF refl]) (auto dest: same_node [OF assms])
  then show ?thesis by (simp add: items_of_def filter_map comp_def)
qed

section \<open>What the operations do\<close>

lemma Erase_outcome:
  assumes c: "cache_inv c" and n: "(n, k, p) \<in> set (ordering_nodes c)"
  shows "returns (mru_Erase (Some n) c) (\<lambda>(_, c'). cache_inv c' \<and> items_of c' = filter (\<lambda>v. fst v \<noteq> k) (items_of c) \<and>
    max_size c' = max_size c)"
proof -
  let ?c = "c\<lparr>index := filter (\<lambda>e. fst e \<noteq> k) (index c), ordering_nodes := filter (\<lambda>e. fst e \<noteq> n) (ordering_nodes c)\<rparr>"
  have v: "items_of ?c = filter (\<lambda>v. fst v \<noteq> k) (items_of c)" using filter_node [OF c n] by (simp add: items_of_def)
  have "cache_inv ?c"
    using c unfolding cache_inv_def v by (auto simp: distinct_map_filter dest: same_node [OF c n])
  with v show ?thesis using node_lookup [OF c, of n "(k, p)"] n by (simp add: mru_Erase_def item_at_def Let_def)
qed

lemma filter_last:
  assumes "distinct (map fst xs)" "xs \<noteq> []"
  shows "filter (\<lambda>v. fst v \<noteq> fst (last xs)) xs = butlast xs"
proof -
  obtain ys y where xs: "xs = ys @ [y]" using assms(2) by (cases xs rule: rev_cases) auto
  then have ny: "fst y \<notin> fst ` set ys" using assms(1) by simp
  have "fst v \<noteq> fst y" if "v \<in> set ys" for v using ny imageI [OF that, of fst] by metis
  then show ?thesis using xs by (simp add: filter_id_conv)
qed

lemma shrink_outcome:
  assumes "cache_inv c" "i = length (ordering_nodes c)"
  shows "returns (shrink_loop i m c) (\<lambda>c'. cache_inv c' \<and> items_of c' = take m (items_of c) \<and> max_size c' = max_size c)"
  using assms
proof (induction i arbitrary: c)
  case (Suc i)
  show ?case
  proof (cases "Suc i > m")
    case True
    obtain n k p where l: "last (ordering_nodes c) = (n, k, p)" by (cases "last (ordering_nodes c)")
    have ne: "ordering_nodes c \<noteq> []" using Suc.prems(2) by auto
    with l have n: "(n, k, p) \<in> set (ordering_nodes c)" by (metis last_in_set)
    have v: "filter (\<lambda>v. fst v \<noteq> k) (items_of c) = butlast (items_of c)"
      using filter_last [of "items_of c"] Suc.prems(1) ne l by (auto simp: cache_inv_def items_of_def last_map)
    have "returns (mru_Erase (Some n) c) (\<lambda>(_, c'). cache_inv c' \<and> items_of c' = butlast (items_of c) \<and> max_size c' = max_size c)"
      using Erase_outcome [OF Suc.prems(1) n] unfolding v .
    moreover have "returns (shrink_loop i m c') (\<lambda>c''. cache_inv c'' \<and> items_of c'' = take m (items_of c) \<and> max_size c'' = max_size c)"
      if c': "cache_inv c'" "items_of c' = butlast (items_of c)" "max_size c' = max_size c" for c'
    proof -
      have "i = length (ordering_nodes c')"
        using arg_cong [OF c'(2), of length] Suc.prems(2) by (simp add: items_of_def)
      moreover have "take m (butlast (items_of c)) = take m (items_of c)"
        using True Suc.prems(2) by (simp add: take_butlast items_of_def)
      ultimately show ?thesis using Suc.IH [OF c'(1)] c' by simp
    qed
    ultimately show ?thesis
      using True ne l by (auto simp: mru_Erase_reverse_def mru_rbegin_def elim!: returns_mono)
  next
    case False
    then show ?thesis using Suc.prems(1) Suc.prems(2) [symmetric] by (simp add: items_of_def)
  qed
qed (simp add: items_of_def)

lemma ShrinkToSize_outcome:
  assumes "cache_inv c"
  shows "returns (ShrinkToSize d m c) (\<lambda>c'. cache_inv c' \<and> items_of c' = take m (items_of c) \<and> max_size c' = max_size c)"
  using shrink_outcome [OF assms] index_size [OF assms] by (simp add: ShrinkToSize_def mru_size_def)

lemma push_inv:
  assumes "cache_inv c" "k \<notin> fst ` set (items_of c)"
  shows "cache_inv (c\<lparr>ordering_nodes := (fresh_node c, k, p) # ordering_nodes c, fresh_node := Suc (fresh_node c), index := (k, fresh_node c) # index c\<rparr>)"
proof -
  have i: "k \<notin> fst ` set (index c)" using index_None [OF assms(1)] assms(2) by (simp add: map_of_eq_None_iff)
  have "fresh_node c \<notin> fst ` set (ordering_nodes c)" using assms(1) by (auto simp: cache_inv_def)
  moreover have "\<forall>e \<in> set (ordering_nodes c). fst e < Suc (fresh_node c)" using assms(1) by (auto simp: cache_inv_def less_Suc_eq)
  moreover have "(k, q) \<notin> set (index c)" for q using i by force
  moreover have "(fresh_node c, q) \<notin> set (ordering_nodes c)" for q using calculation(1) by force
  ultimately show ?thesis using assms i unfolding cache_inv_def by (auto simp: items_of_def)
qed

lemma Put_outcome:
  assumes c: "cache_inv c"
  shows "returns (mru_Put d k p c) (\<lambda>(it, c'). cache_inv c' \<and> max_size c' = max_size c \<and> item_at it c' = Inr (k, p) \<and>
    items_of c' = (k, p) # (if k \<in> fst ` set (items_of c) then filter (\<lambda>v. fst v \<noteq> k) (items_of c)
      else if max_size c \<noteq> 0 then take (max_size c - 1) (items_of c) else items_of c))"
proof -
  let ?vs = "if k \<in> fst ` set (items_of c) then filter (\<lambda>v. fst v \<noteq> k) (items_of c)
      else if max_size c \<noteq> 0 then take (max_size c - 1) (items_of c) else items_of c"
  have "returns (case map_of (index c) k of
         Some it \<Rightarrow> rbind (mru_Erase (Some it) c) (\<lambda>(_, c). Inr c)
       | None \<Rightarrow> if max_size c \<noteq> NO_AUTO_EVICT then ShrinkToSize d (max_size c - 1) c else Inr c)
     (\<lambda>c'. cache_inv c' \<and> max_size c' = max_size c \<and> items_of c' = ?vs)"
  proof (cases "map_of (index c) k")
    case None
    then show ?thesis
      using index_None [OF c, of k] ShrinkToSize_outcome [OF c, of d "max_size c - 1"] c
      by (auto simp: NO_AUTO_EVICT_def elim!: returns_mono)
  next
    case (Some n)
    then obtain q where "(n, k, q) \<in> set (ordering_nodes c)" using index_lookup [OF c] by blast
    with Erase_outcome [OF c this] Some show ?thesis
      using index_None [OF c, of k] by (auto elim!: returns_mono split: prod.splits)
  qed
  moreover have "k \<notin> fst ` set ?vs" by (auto dest: in_set_takeD)
  then have "cache_inv c' \<and> max_size c' = max_size c \<and> items_of c' = ?vs \<Longrightarrow>
      map_of (index c') k = None \<and>
      cache_inv (c'\<lparr>ordering_nodes := (fresh_node c', k, p) # ordering_nodes c', fresh_node := Suc (fresh_node c'), index := (k, fresh_node c') # index c'\<rparr>)" for c'
    using push_inv [of c' k p] index_None [of c' k] by simp
  ultimately show ?thesis
    unfolding mru_Put_def returns_rbind
    by (elim returns_mono) (simp add: Let_def item_at_def items_of_def)
qed

lemma Get_outcome:
  assumes c: "cache_inv c"
  shows "returns (mru_Get k c) (\<lambda>(it, c'). cache_inv c' \<and> max_size c' = max_size c \<and>
    (case map_of (items_of c) k of
       None \<Rightarrow> it = None \<and> c' = c
     | Some p \<Rightarrow> item_at it c' = Inr (k, p) \<and> items_of c' = (k, p) # filter (\<lambda>v. fst v \<noteq> k) (items_of c)))"
proof (cases "map_of (index c) k")
  case None
  then have "map_of (items_of c) k = None" using index_None [OF c] by (simp add: map_of_eq_None_iff)
  with None c show ?thesis by (simp add: mru_Get_def)
next
  case (Some n)
  then obtain p where n: "(n, k, p) \<in> set (ordering_nodes c)" using index_lookup [OF c] by blast
  let ?c = "c\<lparr>ordering_nodes := (n, k, p) # filter (\<lambda>e. fst e \<noteq> n) (ordering_nodes c)\<rparr>"
  have v: "items_of ?c = (k, p) # filter (\<lambda>v. fst v \<noteq> k) (items_of c)" using filter_node [OF c n] by (simp add: items_of_def)
  have "(k, p) \<in> set (items_of c)" "distinct (map fst (items_of c))" using n c by (force simp: items_of_def cache_inv_def)+
  then have m: "map_of (items_of c) k = Some p" by simp
  have i: "inj_on fst (set (ordering_nodes c))" using c by (simp add: cache_inv_def distinct_map)
  have "e = (n, k, p)" if "e \<in> set (ordering_nodes c)" "fst e = n" for e using inj_onD [OF i _ that(1) n] that(2) by simp
  then have "insert (n, k, p) {e \<in> set (ordering_nodes c). fst e \<noteq> n} = set (ordering_nodes c)" using n by blast
  then have same: "set (ordering_nodes ?c) = set (ordering_nodes c)" by simp
  have "distinct (map fst (ordering_nodes ?c))" "distinct (map fst (items_of ?c))"
    unfolding v using c by (auto simp: cache_inv_def distinct_map_filter)
  then have "cache_inv ?c" using c unfolding cache_inv_def same by simp
  with v m Some n show ?thesis using node_lookup [OF c, of n "(k, p)"] by (simp add: mru_Get_def item_at_def)
qed

section \<open>The most recently used items\<close>

text \<open>
  Programs, with the payload that the returned iterator refers to.  \<open>Forget\<close> erases the item that \<^verbatim>\<open>Peek\<close> finds.
\<close>

datatype ('k, 'p) mru_op = Remember 'k 'p | Recall 'k | PeekAt 'k | Forget 'k | ShrinkTo nat | ForgetAll

definition payload_at :: "nat option \<Rightarrow> ('k, 'p) mru_cache \<Rightarrow> 'p option checked" where
  "payload_at it c = (if it = None then Inr None else rbind (item_at it c) (\<lambda>v. Inr (Some (snd v))))"

fun do_mru :: "bool \<Rightarrow> ('k, 'p) mru_op \<Rightarrow> ('k, 'p) mru_cache \<Rightarrow> ('p option \<times> ('k, 'p) mru_cache) checked" where
  "do_mru d (Remember k p) c = rbind (mru_Put d k p c) (\<lambda>(it, c). rbind (payload_at it c) (\<lambda>q. Inr (q, c)))"
| "do_mru d (Recall k) c = rbind (mru_Get k c) (\<lambda>(it, c). rbind (payload_at it c) (\<lambda>q. Inr (q, c)))"
| "do_mru d (PeekAt k) c = rbind (payload_at (mru_Peek k c) c) (\<lambda>q. Inr (q, c))"
| "do_mru d (Forget k) c =
     (if mru_Peek k c = None then Inr (None, c) else rbind (mru_Erase (mru_Peek k c) c) (\<lambda>(_, c). Inr (None, c)))"
| "do_mru d (ShrinkTo n) c = rbind (ShrinkToSize d n c) (\<lambda>c. Inr (None, c))"
| "do_mru d ForgetAll c = Inr (None, mru_Clear c)"

fun run_mru :: "bool \<Rightarrow> ('k, 'p) mru_op list \<Rightarrow> ('k, 'p) mru_cache \<Rightarrow> ('p option list \<times> ('k, 'p) mru_cache) checked" where
  "run_mru d [] c = Inr ([], c)"
| "run_mru d (op # ops) c = rbind (do_mru d op c) (\<lambda>(q, c). rbind (run_mru d ops c) (\<lambda>(qs, c). Inr (q # qs, c)))"

text \<open>
  The reference: the list of at most \<open>m\<close> items, the most recent first, of any number if \<open>m\<close> is \<^const>\<open>NO_AUTO_EVICT\<close>.
  An item that is put or got moves to the front, and what then exceeds the size is dropped at the end.
\<close>

definition window :: "nat \<Rightarrow> 'a list \<Rightarrow> 'a list" where
  "window m xs = (if m = NO_AUTO_EVICT then xs else take m xs)"

definition to_front :: "'k \<Rightarrow> 'p \<Rightarrow> ('k \<times> 'p) list \<Rightarrow> ('k \<times> 'p) list" where
  "to_front k p xs = (k, p) # filter (\<lambda>v. fst v \<noteq> k) xs"

fun recent_spec :: "nat \<Rightarrow> ('k, 'p) mru_op \<Rightarrow> ('k \<times> 'p) list \<Rightarrow> 'p option \<times> ('k \<times> 'p) list" where
  "recent_spec m (Remember k p) xs = (Some p, window m (to_front k p xs))"
| "recent_spec m (Recall k) xs = (case map_of xs k of None \<Rightarrow> (None, xs) | Some p \<Rightarrow> (Some p, to_front k p xs))"
| "recent_spec m (PeekAt k) xs = (map_of xs k, xs)"
| "recent_spec m (Forget k) xs = (None, filter (\<lambda>v. fst v \<noteq> k) xs)"
| "recent_spec m (ShrinkTo n) xs = (None, take n xs)"
| "recent_spec m ForgetAll xs = (None, [])"

fun run_recent :: "nat \<Rightarrow> ('k, 'p) mru_op list \<Rightarrow> ('k \<times> 'p) list \<Rightarrow> 'p option list \<times> ('k \<times> 'p) list" where
  "run_recent m [] xs = ([], xs)"
| "run_recent m (op # ops) xs = (let (q, xs) = recent_spec m op xs; (qs, xs) = run_recent m ops xs in (q # qs, xs))"

definition bounded :: "nat \<Rightarrow> 'a list \<Rightarrow> bool" where
  "bounded m xs \<longleftrightarrow> m \<noteq> NO_AUTO_EVICT \<longrightarrow> length xs \<le> m"

definition shows_items :: "nat \<Rightarrow> ('k, 'p) mru_cache \<Rightarrow> ('k \<times> 'p) list \<Rightarrow> bool" where
  "shows_items m c xs \<longleftrightarrow> cache_inv c \<and> max_size c = m \<and> items_of c = xs \<and> bounded m xs"

lemma absent_key: "k \<notin> fst ` set xs \<Longrightarrow> filter (\<lambda>v. fst v \<noteq> k) xs = xs"
  by (auto simp: filter_id_conv image_iff)

lemma filter_shorter: "k \<in> fst ` set xs \<Longrightarrow> Suc (length (filter (\<lambda>v. fst v \<noteq> k) xs)) \<le> length xs"
  by (auto simp: Suc_le_eq intro!: length_filter_less)

text \<open>What \<^verbatim>\<open>Put\<close> leaves is the item in front of the others, cut to the size.\<close>

lemma window_use:
  assumes "bounded m xs"
  shows "(k, p) # (if k \<in> fst ` set xs then filter (\<lambda>v. fst v \<noteq> k) xs else if m \<noteq> 0 then take (m - 1) xs else xs) =
    window m (to_front k p xs)"
proof (cases "k \<in> fst ` set xs")
  case True
  from filter_shorter [OF True] assms show ?thesis using True by (auto simp: window_def to_front_def bounded_def)
next
  case False
  then show ?thesis by (cases m) (simp_all add: absent_key window_def to_front_def NO_AUTO_EVICT_def)
qed

lemma bounded_window: "bounded m (window m xs)"
  by (simp add: bounded_def window_def)

lemma bounded_less: "bounded m xs \<Longrightarrow> length ys \<le> length xs \<Longrightarrow> bounded m ys"
  by (auto simp: bounded_def)

lemma bounded_to_front: "bounded m xs \<Longrightarrow> map_of xs k = Some p \<Longrightarrow> bounded m (to_front k p xs)"
  using filter_shorter [of k xs] by (force simp: bounded_def to_front_def dest: map_of_SomeD)

lemma payload_found: "item_at it c = Inr (k, p) \<Longrightarrow> payload_at it c = Inr (Some p)"
  by (cases it) (simp_all add: item_at_def payload_at_def)

lemma item_found: "cache_inv c \<Longrightarrow> (n, k, p) \<in> set (ordering_nodes c) \<Longrightarrow> item_at (Some n) c = Inr (k, p)"
  using node_lookup [of c n "(k, p)"] by (simp add: item_at_def)

lemma peek_found:
  assumes c: "cache_inv c"
  shows "case map_of (items_of c) k of
      None \<Rightarrow> mru_Peek k c = None
    | Some p \<Rightarrow> \<exists>n. mru_Peek k c = Some n \<and> (n, k, p) \<in> set (ordering_nodes c)"
proof (cases "mru_Peek k c")
  case None
  then have "map_of (items_of c) k = None" using index_None [OF c, of k] by (simp add: mru_Peek_def map_of_eq_None_iff)
  with None show ?thesis by simp
next
  case (Some n)
  then obtain p where n: "(n, k, p) \<in> set (ordering_nodes c)" using index_lookup [OF c] by (auto simp: mru_Peek_def)
  have "(k, p) \<in> set (items_of c)" "distinct (map fst (items_of c))" using n c by (force simp: items_of_def cache_inv_def)+
  then show ?thesis using n Some by simp
qed

text \<open>The index finds exactly the items.\<close>

lemma peek_item:
  assumes "cache_inv c"
  shows "case map_of (items_of c) k of None \<Rightarrow> mru_Peek k c = None | Some p \<Rightarrow> item_at (mru_Peek k c) c = Inr (k, p)"
  using peek_found [OF assms, of k] item_found [OF assms] by (auto split: option.split)

lemma do_mru_items:
  assumes w: "shows_items m c xs"
  shows "returns (do_mru d op c) (\<lambda>(q, c'). q = fst (recent_spec m op xs) \<and> shows_items m c' (snd (recent_spec m op xs)))"
proof -
  have c: "cache_inv c" "max_size c = m" "items_of c = xs" "bounded m xs" using w by (auto simp: shows_items_def)
  show ?thesis
  proof (cases op)
    case (Remember k p)
    have "returns (mru_Put d k p c) (\<lambda>(it, c'). cache_inv c' \<and> max_size c' = m \<and> item_at it c' = Inr (k, p) \<and>
      items_of c' = window m (to_front k p xs))"
      using Put_outcome [OF c(1), of d k p] unfolding c(2,3) window_use [OF c(4)] .
    then show ?thesis using bounded_window
      by (auto simp: Remember shows_items_def payload_found elim!: returns_mono)
  next
    case (Recall k)
    show ?thesis
    proof (cases "map_of xs k")
      case None
      then show ?thesis using Get_outcome [OF c(1), of k] w unfolding c(3)
        by (auto simp: Recall payload_at_def elim!: returns_mono)
    next
      case (Some p)
      have "returns (mru_Get k c) (\<lambda>(it, c'). cache_inv c' \<and> max_size c' = m \<and> item_at it c' = Inr (k, p) \<and> items_of c' = to_front k p xs)"
        using Get_outcome [OF c(1), of k] Some unfolding c(2,3) to_front_def by simp
      then show ?thesis using bounded_to_front [OF c(4) Some] Some
        by (auto simp: Recall shows_items_def payload_found elim!: returns_mono)
    qed
  next
    case (PeekAt k)
    show ?thesis using peek_item [OF c(1), of k] w payload_found [of "mru_Peek k c" c k] c(3)
      by (cases "map_of xs k") (auto simp: PeekAt payload_at_def)
  next
    case (Forget k)
    show ?thesis
    proof (cases "map_of xs k")
      case None
      then have "filter (\<lambda>v. fst v \<noteq> k) xs = xs" by (simp add: absent_key map_of_eq_None_iff)
      with None show ?thesis using peek_found [OF c(1), of k] c w by (simp add: Forget)
    next
      case (Some p)
      then obtain n where n: "mru_Peek k c = Some n" "(n, k, p) \<in> set (ordering_nodes c)" using peek_found [OF c(1), of k] c(3) by auto
      from Erase_outcome [OF c(1) n(2)] show ?thesis using c n(1) bounded_less [OF c(4) length_filter_le]
        by (auto simp: Forget shows_items_def elim!: returns_mono)
    qed
  next
    case (ShrinkTo n)
    from ShrinkToSize_outcome [OF c(1), of d n] show ?thesis using c bounded_less [OF c(4), of "take n xs"]
      by (auto simp: ShrinkTo shows_items_def elim!: returns_mono)
  next
    case ForgetAll
    then show ?thesis using c by (auto simp: mru_Clear_def shows_items_def cache_inv_def items_of_def bounded_def)
  qed
qed

lemma run_mru_items:
  assumes "shows_items m c xs"
  shows "returns (run_mru d ops c) (\<lambda>(qs, c'). qs = fst (run_recent m ops xs) \<and> shows_items m c' (snd (run_recent m ops xs)))"
  using assms
proof (induction ops arbitrary: c xs)
  case (Cons op ops)
  obtain q ys where s: "recent_spec m op xs = (q, ys)" by fastforce
  have "returns (do_mru d op c) (\<lambda>(q', c'). q' = q \<and> shows_items m c' ys)" using do_mru_items [OF Cons.prems, of d op] s by simp
  then show ?case using Cons.IH [of _ ys] s by (force elim!: returns_mono split: prod.splits)
qed simp

text \<open>
  (C36) The cache holds the most recently used items.  Any program runs without using an invalid iterator and without a
  failed check; its answers and, from the most recent on, its items are those of the list of at most \<open>m\<close> items
  in which an item that is put or got moves to the front, the least recent ones that exceed \<open>m\<close> are dropped when a new one is
  put, and erasing, shrinking and clearing remove items.  At the end the index finds exactly the items of the list: for every key the
  iterator of its item, and the end for every other key.
\<close>

theorem mru_cache_window:
  fixes ops :: "('k, 'p) mru_op list"
  shows "returns (run_mru d ops (mru_new m)) (\<lambda>(qs, c).
     qs = fst (run_recent m ops []) \<and> items_of c = snd (run_recent m ops []) \<and> distinct (map fst (items_of c)) \<and>
     (\<forall>k. case map_of (items_of c) k of None \<Rightarrow> mru_Peek k c = None | Some p \<Rightarrow> item_at (mru_Peek k c) c = Inr (k, p)) \<and>
     mru_size d c = Inr (length (items_of c)) \<and> (m \<noteq> NO_AUTO_EVICT \<longrightarrow> length (items_of c) \<le> m))"
proof -
  have "shows_items m (mru_new m :: ('k, 'p) mru_cache) []"
    by (simp add: shows_items_def cache_inv_def mru_new_def items_of_def bounded_def)
  note run = run_mru_items [OF this, of d ops]
  have fin: "distinct (map fst (items_of c)) \<and>
     (\<forall>k. case map_of (items_of c) k of None \<Rightarrow> mru_Peek k c = None | Some p \<Rightarrow> item_at (mru_Peek k c) c = Inr (k, p)) \<and>
     mru_size d c = Inr (length (items_of c)) \<and> (m \<noteq> NO_AUTO_EVICT \<longrightarrow> length (items_of c) \<le> m)"
    if sh: "shows_items m c xs" for c xs
  proof -
    have c: "cache_inv c" "bounded m (items_of c)" using sh by (auto simp: shows_items_def)
    have "distinct (map fst (items_of c))" using c(1) by (simp add: cache_inv_def)
    then show ?thesis using peek_item [OF c(1)] size_exact [OF c(1), of d] c(2) by (simp add: bounded_def)
  qed
  show ?thesis by (rule returns_mono [OF run]) (use fin in \<open>auto simp: shows_items_def\<close>)
qed

end
