(* ===== verification/Rtc_IdMap.thy ===== *)
theory Rtc_IdMap
  imports Rtc_FlatMap "HOL-Library.Sublist"
begin

text \<open>
  The map from identifiers to objects \<^verbatim>\<open>base/containers/id_map.h\<close>, from which elements can be removed while it is
  iterated over.  The hash table is the list of its elements in the order of iteration; where a new element goes is
  not specified and is the argument \<open>arrange\<close>.  The removed identifiers are a flat set.  A pointer that is null
  is \<^const>\<open>None\<close>.
\<close>

section \<open>The map\<close>

text \<open>The key of a value of a flat set, \<^verbatim>\<open>GetKeyFromValueIdentity\<close>, is the value.\<close>

definition identity_key :: "'k \<Rightarrow> 'k" where
  "identity_key k = k"

record 'v id_map =
  iteration_depth :: int
  removed_ids :: "int list"
  next_id :: int
  id_data :: "(int \<times> 'v option) list"
  check_on_null_data :: bool

definition IDMap_new :: "'v id_map" where
  "IDMap_new = \<lparr>iteration_depth = 0, removed_ids = [], next_id = 1, id_data = [], check_on_null_data = False\<rparr>"

definition set_check_on_null_data :: "bool \<Rightarrow> 'v id_map \<Rightarrow> 'v id_map" where
  "set_check_on_null_data b m = m\<lparr>check_on_null_data := b\<rparr>"

definition IsRemoved :: "int \<Rightarrow> 'v id_map \<Rightarrow> bool" where
  "IsRemoved k m \<longleftrightarrow> ft_find (<) identity_key k (removed_ids m) \<noteq> length (removed_ids m)"

text \<open>The assignment to the value of an element, and \<^verbatim>\<open>data_[id] = data\<close>.\<close>

definition replace_value :: "int \<Rightarrow> 'v option \<Rightarrow> (int \<times> 'v option) list \<Rightarrow> (int \<times> 'v option) list" where
  "replace_value k v es = map (\<lambda>e. if fst e = k then (k, v) else e) es"

definition store_data ::
  "((int \<times> 'v option) \<Rightarrow> (int \<times> 'v option) list \<Rightarrow> (int \<times> 'v option) list) \<Rightarrow> int \<Rightarrow> 'v option \<Rightarrow> 'v id_map \<Rightarrow> 'v id_map" where
  "store_data arrange k v m =
     (if k \<in> set (map fst (id_data m))
      then m\<lparr>id_data := replace_value k v (id_data m)\<rparr>
      else m\<lparr>id_data := arrange (k, v) (id_data m)\<rparr>)"

definition id_Add ::
  "bool \<Rightarrow> ((int \<times> 'v option) \<Rightarrow> (int \<times> 'v option) list \<Rightarrow> (int \<times> 'v option) list) \<Rightarrow> 'v option \<Rightarrow> 'v id_map \<Rightarrow>
   (int \<times> 'v id_map) checked" where
  "id_Add d arrange v m =
     rbind (RTC_DCHECK d (\<not> check_on_null_data m \<or> v \<noteq> None)) (\<lambda>_.
     let this_id = next_id m in
     rbind (RTC_DCHECK d (this_id \<notin> set (map fst (id_data m)))) (\<lambda>_.
     let m = store_data arrange this_id v m in
     if in_range Int32 (next_id m + 1) then Inr (this_id, m\<lparr>next_id := next_id m + 1\<rparr>) else Inl Undefined))"

definition id_AddWithID ::
  "bool \<Rightarrow> ((int \<times> 'v option) \<Rightarrow> (int \<times> 'v option) list \<Rightarrow> (int \<times> 'v option) list) \<Rightarrow> 'v option \<Rightarrow> int \<Rightarrow> 'v id_map \<Rightarrow>
   'v id_map checked" where
  "id_AddWithID d arrange v k m =
     rbind (RTC_DCHECK d (\<not> check_on_null_data m \<or> v \<noteq> None)) (\<lambda>_.
     rbind (if IsRemoved k m then Inr (m\<lparr>removed_ids := fst (ft_erase (<) identity_key k (removed_ids m))\<rparr>)
            else rbind (RTC_DCHECK d (k \<notin> set (map fst (id_data m)))) (\<lambda>_. Inr m)) (\<lambda>m.
     Inr (store_data arrange k v m)))"

definition id_Remove :: "bool \<Rightarrow> int \<Rightarrow> 'v id_map \<Rightarrow> 'v id_map checked" where
  "id_Remove d k m =
     (if k \<notin> set (map fst (id_data m)) \<or> IsRemoved k m then rbind (RTC_DCHECK d False) (\<lambda>_. Inr m)
      else if iteration_depth m = 0 then Inr (m\<lparr>id_data := filter (\<lambda>e. fst e \<noteq> k) (id_data m)\<rparr>)
      else Inr (m\<lparr>removed_ids := fst (ft_insert (<) identity_key k (removed_ids m))\<rparr>))"

definition id_Replace :: "bool \<Rightarrow> int \<Rightarrow> 'v option \<Rightarrow> 'v id_map \<Rightarrow> ('v option \<times> 'v id_map) checked" where
  "id_Replace d k v m =
     rbind (RTC_DCHECK d (\<not> check_on_null_data m \<or> v \<noteq> None)) (\<lambda>_.
     rbind (RTC_DCHECK d (k \<in> set (map fst (id_data m)))) (\<lambda>_.
     rbind (RTC_DCHECK d (\<not> IsRemoved k m)) (\<lambda>_.
     case map_of (id_data m) k of
       None \<Rightarrow> Inl Undefined
     | Some old \<Rightarrow> Inr (old, m\<lparr>id_data := replace_value k v (id_data m)\<rparr>))))"

definition id_Clear :: "'v id_map \<Rightarrow> 'v id_map" where
  "id_Clear m =
     (if iteration_depth m = 0 then m\<lparr>id_data := []\<rparr>
      else m\<lparr>removed_ids := ft_insert_range (<) identity_key True (map fst (id_data m)) KEEP_FIRST_OF_DUPES (removed_ids m)\<rparr>)"

definition id_size :: "'v id_map \<Rightarrow> nat" where
  "id_size m = length (id_data m) - length (removed_ids m)"

definition id_IsEmpty :: "'v id_map \<Rightarrow> bool" where
  "id_IsEmpty m \<longleftrightarrow> id_size m = 0"

definition id_Lookup :: "int \<Rightarrow> 'v id_map \<Rightarrow> 'v option" where
  "id_Lookup k m =
     (case map_of (id_data m) k of None \<Rightarrow> None | Some v \<Rightarrow> if v = None \<or> IsRemoved k m then None else v)"

definition Compact :: "bool \<Rightarrow> 'v id_map \<Rightarrow> 'v id_map checked" where
  "Compact d m =
     rbind (RTC_DCHECK d (iteration_depth m = 0)) (\<lambda>_.
     Inr (m\<lparr>id_data := fold (\<lambda>k. filter (\<lambda>e. fst e \<noteq> k)) (removed_ids m) (id_data m), removed_ids := []\<rparr>))"

section \<open>Iterators\<close>

text \<open>
  An iterator is the identifier of its element, \<^const>\<open>None\<close> at the end.  The elements from an iterator on; an iterator to
  an element that is gone cannot be used.
\<close>

definition elements_from :: "int option \<Rightarrow> 'v id_map \<Rightarrow> int list checked" where
  "elements_from it m =
     (case it of
        None \<Rightarrow> Inr []
      | Some k \<Rightarrow> if k \<in> set (map fst (id_data m)) then Inr (dropWhile (\<lambda>x. x \<noteq> k) (map fst (id_data m))) else Inl Undefined)"

fun SkipRemovedEntries :: "'v id_map \<Rightarrow> int list \<Rightarrow> int option" where
  "SkipRemovedEntries m [] = None"
| "SkipRemovedEntries m (k # ks) = (if IsRemoved k m then SkipRemovedEntries m ks else Some k)"

definition Iterator_Init :: "int option \<Rightarrow> 'v id_map \<Rightarrow> (int option \<times> 'v id_map) checked" where
  "Iterator_Init it m =
     (if in_range Int32 (iteration_depth m + 1) then
        let m = m\<lparr>iteration_depth := iteration_depth m + 1\<rparr> in
        rbind (elements_from it m) (\<lambda>ks. Inr (SkipRemovedEntries m ks, m))
      else Inl Undefined)"

definition id_begin :: "'v id_map \<Rightarrow> int option" where
  "id_begin m = (case id_data m of [] \<Rightarrow> None | e # es \<Rightarrow> Some (fst e))"

definition Iterator_new :: "'v id_map \<Rightarrow> (int option \<times> 'v id_map) checked" where
  "Iterator_new m = Iterator_Init (id_begin m) m"

definition Iterator_copy :: "int option \<Rightarrow> 'v id_map \<Rightarrow> (int option \<times> 'v id_map) checked" where
  "Iterator_copy it m = Iterator_Init it m"

definition Iterator_delete :: "bool \<Rightarrow> 'v id_map \<Rightarrow> 'v id_map checked" where
  "Iterator_delete d m =
     rbind (RTC_DCHECK d (0 < iteration_depth m)) (\<lambda>_.
     let m = m\<lparr>iteration_depth := iteration_depth m - 1\<rparr> in
     if iteration_depth m = 0 then Compact d m else Inr m)"

definition IsAtEnd :: "int option \<Rightarrow> bool" where
  "IsAtEnd it \<longleftrightarrow> it = None"

definition GetCurrentKey :: "int option \<Rightarrow> 'v id_map \<Rightarrow> int checked" where
  "GetCurrentKey it m = rbind (elements_from it m) (\<lambda>ks. case ks of [] \<Rightarrow> Inl Undefined | k # ks \<Rightarrow> Inr k)"

definition GetCurrentValue :: "int option \<Rightarrow> 'v id_map \<Rightarrow> 'v option checked" where
  "GetCurrentValue it m =
     rbind (GetCurrentKey it m) (\<lambda>k. Inr (case map_of (id_data m) k of
         None \<Rightarrow> None | Some v \<Rightarrow> if v = None \<or> IsRemoved k m then None else v))"

definition Iterator_Advance :: "int option \<Rightarrow> 'v id_map \<Rightarrow> int option checked" where
  "Iterator_Advance it m =
     rbind (elements_from it m) (\<lambda>ks. case ks of [] \<Rightarrow> Inl Undefined | k # ks \<Rightarrow> Inr (SkipRemovedEntries m ks))"

section \<open>The map that clients see\<close>

definition live :: "'v id_map \<Rightarrow> int \<Rightarrow> 'v option option" where
  "live m k = (if k \<in> set (removed_ids m) then None else map_of (id_data m) k)"

definition id_inv :: "'v id_map \<Rightarrow> bool" where
  "id_inv m \<longleftrightarrow> strictly_ordered (<) identity_key (removed_ids m) \<and> set (removed_ids m) \<subseteq> fst ` set (id_data m) \<and>
     distinct (map fst (id_data m)) \<and> 0 \<le> iteration_depth m \<and> (iteration_depth m = 0 \<longrightarrow> removed_ids m = [])"

lemma less_equivalent [simp]: "equivalent (<) (a :: int) b \<longleftrightarrow> a = b"
  by (auto simp: equivalent_def)

lemma lookup_member: "lookup (<) identity_key t k = None \<longleftrightarrow> (k :: int) \<notin> set t"
  by (auto simp: lookup_None identity_key_def)

lemma IsRemoved_iff:
  assumes "strictly_ordered (<) identity_key (removed_ids m)"
  shows "IsRemoved k m \<longleftrightarrow> k \<in> set (removed_ids m)"
  using std_less.search_outcome [OF assms, of k] lookup_member [of "removed_ids m" k]
  by (cases "lookup (<) identity_key (removed_ids m) k") (auto simp: IsRemoved_def)

lemma distinct_ordered: "strictly_ordered (<) identity_key t \<Longrightarrow> distinct (t :: int list)"
  by (induction t) (auto simp: std_less.ordered_Cons identity_key_def)

text \<open>Removed identifiers as a set.\<close>

lemma insert_removed:
  fixes t :: "int list"
  assumes "strictly_ordered (<) identity_key t"
  shows "strictly_ordered (<) identity_key (fst (ft_insert (<) identity_key k t))" "set (fst (ft_insert (<) identity_key k t)) = insert k (set t)"
proof -
  have o: "strictly_ordered (<) identity_key (fst (ft_insert (<) identity_key k t)) \<and> (\<forall>x. lookup (<) identity_key (fst (ft_insert (<) identity_key k t)) x = lookup (<) identity_key (t @ [k]) x)"
    using std_less.emplace_outcome [OF assms std_less.equivalent_refl, of k]
    by (auto simp: ft_insert_def split: prod.splits)
  then show "strictly_ordered (<) identity_key (fst (ft_insert (<) identity_key k t))" by simp
  have "x \<notin> set (fst (ft_insert (<) identity_key k t)) \<longleftrightarrow> x \<notin> set (t @ [k])" for x
    using o lookup_member by metis
  then show "set (fst (ft_insert (<) identity_key k t)) = insert k (set t)" by auto
qed

lemma erase_removed:
  fixes t :: "int list"
  assumes "strictly_ordered (<) identity_key t"
  shows "strictly_ordered (<) identity_key (fst (ft_erase (<) identity_key k t))" "set (fst (ft_erase (<) identity_key k t)) = set t - {k}"
  using std_less.erase_outcome [OF assms, of k] std_less.ordered_filter [OF assms] by (auto simp: identity_key_def)

lemma insert_all_removed:
  fixes t :: "int list"
  assumes "strictly_ordered (<) identity_key t"
  shows "strictly_ordered (<) identity_key (ft_insert_range (<) identity_key multipass ks KEEP_FIRST_OF_DUPES t) \<and>
    set (ft_insert_range (<) identity_key multipass ks KEEP_FIRST_OF_DUPES t) = set ks \<union> set t"
  unfolding std_less.range_is_each(1) [OF assms] using assms
proof (induction ks arbitrary: t)
  case (Cons k ks)
  from Cons.IH [OF insert_removed(1) [OF Cons.prems]] show ?case by (auto simp: insert_removed [OF Cons.prems])
qed simp

section \<open>What the operations do to it\<close>

lemma Lookup_live: "id_inv m \<Longrightarrow> id_Lookup k m = (case live m k of None \<Rightarrow> None | Some v \<Rightarrow> v)"
  by (auto simp: id_Lookup_def live_def id_inv_def IsRemoved_iff split: option.split)

lemma dom_live: "dom (live m) = fst ` set (id_data m) - set (removed_ids m)"
proof -
  have "k \<in> fst ` set (id_data m) \<longleftrightarrow> map_of (id_data m) k \<noteq> None" for k by (simp add: map_of_eq_None_iff)
  then show ?thesis unfolding live_def dom_def by auto
qed

lemma size_live:
  assumes "id_inv m"
  shows "id_size m = card (dom (live m))"
proof -
  have d: "distinct (map fst (id_data m))" "distinct (removed_ids m)" and s: "set (removed_ids m) \<subseteq> fst ` set (id_data m)"
    using assms distinct_ordered by (auto simp: id_inv_def)
  have "card (fst ` set (id_data m) - set (removed_ids m)) = card (fst ` set (id_data m)) - card (set (removed_ids m))"
    using s by (intro card_Diff_subset) auto
  then show ?thesis
    unfolding dom_live id_size_def using distinct_card [OF d(1)] distinct_card [OF d(2)] by simp
qed

lemma map_of_erase: "map_of (filter (\<lambda>e. fst e \<noteq> k) es) = (map_of es)(k := None)"
  by (induction es) (auto simp: fun_eq_iff)

lemma Remove_live:
  assumes m: "id_inv m" and k: "live m k \<noteq> None"
  shows "returns (id_Remove d k m) (\<lambda>m'. id_inv m' \<and> live m' = (live m)(k := None) \<and>
    iteration_depth m' = iteration_depth m \<and> (iteration_depth m \<noteq> 0 \<longrightarrow> id_data m' = id_data m))"
proof -
  have o: "strictly_ordered (<) identity_key (removed_ids m)" using m by (simp add: id_inv_def)
  have r: "k \<notin> set (removed_ids m)" and d: "k \<in> fst ` set (id_data m)"
    using k by (auto simp: live_def split: if_splits dest: map_of_SomeD) (metis fst_conv imageI map_of_SomeD)
  then have g: "\<not> (k \<notin> set (map fst (id_data m)) \<or> IsRemoved k m)" using IsRemoved_iff [OF o] by simp
  show ?thesis
  proof (cases "iteration_depth m = 0")
    case True
    then have e: "removed_ids m = []" using m by (simp add: id_inv_def)
    note f = map_of_erase [of k "id_data m"]
    show ?thesis using True g m e
      by (auto simp: id_Remove_def id_inv_def live_def distinct_map_filter f fun_eq_iff)
  next
    case False
    then show ?thesis using g m insert_removed [OF o, of k] d
      by (auto simp: id_Remove_def id_inv_def live_def fun_eq_iff)
  qed
qed

lemma Clear_live: "id_inv m \<Longrightarrow> id_inv (id_Clear m) \<and> live (id_Clear m) = (\<lambda>_. None)"
  using insert_all_removed [of "removed_ids m" True "map fst (id_data m)"]
  by (auto simp: id_Clear_def id_inv_def live_def fun_eq_iff map_of_eq_None_iff)

lemma keys_replace: "map fst (replace_value k v es) = map fst es" "fst ` set (replace_value k v es) = fst ` set es"
proof -
  show m: "map fst (replace_value k v es) = map fst es" by (auto simp: replace_value_def)
  show "fst ` set (replace_value k v es) = fst ` set es" using arg_cong [OF m, of set] by simp
qed

lemma map_of_replace: "k \<in> fst ` set es \<Longrightarrow> map_of (replace_value k v es) = (map_of es)(k \<mapsto> v)"
proof -
  have "map_of (replace_value k v es) x = (if x = k then map_option (\<lambda>_. v) (map_of es k) else map_of es x)" for x
    by (induction es) (auto simp: replace_value_def)
  moreover assume "k \<in> fst ` set es"
  then have "map_of es k \<noteq> None" by (simp add: map_of_eq_None_iff)
  ultimately show ?thesis by (auto simp: fun_eq_iff)
qed

lemma Replace_live:
  assumes m: "id_inv m" and k: "live m k = Some old" and v: "check_on_null_data m \<longrightarrow> v \<noteq> None"
  shows "returns (id_Replace d k v m) (\<lambda>(old', m'). old' = old \<and> id_inv m' \<and> live m' = (live m)(k \<mapsto> v))"
proof -
  have o: "strictly_ordered (<) identity_key (removed_ids m)" using m by (simp add: id_inv_def)
  have r: "k \<notin> set (removed_ids m)" "map_of (id_data m) k = Some old" using k by (auto simp: live_def split: if_splits)
  then have d: "k \<in> fst ` set (id_data m)" by (metis map_of_eq_None_iff option.distinct(1))
  show ?thesis
    using m r d v IsRemoved_iff [OF o, of k] map_of_replace [OF d, of v]
    by (auto simp: id_Replace_def id_inv_def live_def fun_eq_iff keys_replace)
qed

text \<open>A new element, where the hash table puts it.\<close>

lemma map_of_perm:
  assumes "mset es' = mset es" "distinct (map fst es)"
  shows "map_of es' = map_of es"
proof -
  have "distinct (map fst es')" using assms by (metis mset_eq_imp_distinct_iff mset_map)
  then show ?thesis using assms mset_eq_setD [OF assms(1)] by (simp add: map_of_inject_set)
qed

lemma store_new:
  assumes a: "\<And>e es. mset (arrange e es) = add_mset e (mset es)"
    and d: "distinct (map fst (id_data m))" and k: "k \<notin> fst ` set (id_data m)"
  shows "map_of (id_data (store_data arrange k v m)) = (map_of (id_data m))(k \<mapsto> v)"
    "distinct (map fst (id_data (store_data arrange k v m)))"
    "fst ` set (id_data (store_data arrange k v m)) = insert k (fst ` set (id_data m))"
proof -
  have s: "id_data (store_data arrange k v m) = arrange (k, v) (id_data m)" using k by (simp add: store_data_def)
  have e: "mset (arrange (k, v) (id_data m)) = mset ((k, v) # id_data m)" using a by simp
  have d': "distinct (map fst ((k, v) # id_data m))" using d k by simp
  show "map_of (id_data (store_data arrange k v m)) = (map_of (id_data m))(k \<mapsto> v)"
    unfolding s map_of_perm [OF e d'] by simp
  show "distinct (map fst (id_data (store_data arrange k v m)))"
    unfolding s using d' e by (metis mset_eq_imp_distinct_iff mset_map)
  show "fst ` set (id_data (store_data arrange k v m)) = insert k (fst ` set (id_data m))"
    unfolding s using mset_eq_setD [OF e] by simp
qed

lemma Add_live:
  assumes m: "id_inv m" and a: "\<And>e es. mset (arrange e es) = add_mset e (mset es)"
    and k: "live m (next_id m) = None" "iteration_depth m = 0" "next_id m < 2147483647" "-2147483649 < next_id m"
    and v: "check_on_null_data m \<longrightarrow> v \<noteq> None"
  shows "returns (id_Add d arrange v m) (\<lambda>(k, m'). k = next_id m \<and> id_inv m' \<and> live m' = (live m)(k \<mapsto> v) \<and> next_id m' = next_id m + 1)"
proof -
  have r: "removed_ids m = []" and d: "distinct (map fst (id_data m))" using m k(2) by (auto simp: id_inv_def)
  then have n: "next_id m \<notin> fst ` set (id_data m)" using k(1) by (simp add: live_def map_of_eq_None_iff)
  note st = store_new [OF a d n, of v]
  have [simp]: "next_id (store_data arrange k v m) = next_id m" "removed_ids (store_data arrange k v m) = removed_ids m"
    "iteration_depth (store_data arrange k v m) = iteration_depth m" for k v
    by (simp_all add: store_data_def)
  show ?thesis
    using m r n v st k(2,3,4) by (auto simp: id_Add_def Let_def id_inv_def live_def in_range_def fun_eq_iff)
qed

lemma AddWithID_live:
  assumes m: "id_inv m" and a: "\<And>e es. mset (arrange e es) = add_mset e (mset es)"
    and k: "live m k = None" "iteration_depth m = 0 \<or> k \<in> fst ` set (id_data m)" and v: "check_on_null_data m \<longrightarrow> v \<noteq> None"
  shows "returns (id_AddWithID d arrange v k m) (\<lambda>m'. id_inv m' \<and> live m' = (live m)(k \<mapsto> v) \<and>
    iteration_depth m' = iteration_depth m \<and> (iteration_depth m \<noteq> 0 \<longrightarrow> map fst (id_data m') = map fst (id_data m)))"
proof -
  have o: "strictly_ordered (<) identity_key (removed_ids m)" and d: "distinct (map fst (id_data m))" using m by (auto simp: id_inv_def)
  show ?thesis
  proof (cases "k \<in> set (removed_ids m)")
    case True
    then have dk: "k \<in> fst ` set (id_data m)" using m by (auto simp: id_inv_def)
    with True show ?thesis
      using m v erase_removed [OF o, of k] map_of_replace [OF dk, of v]
      by (auto simp: id_AddWithID_def IsRemoved_iff [OF o] store_data_def id_inv_def live_def keys_replace fun_eq_iff)
  next
    case False
    then have n: "k \<notin> fst ` set (id_data m)" using k(1) by (simp add: live_def map_of_eq_None_iff)
    then have "iteration_depth m = 0" "removed_ids m = []" using k(2) m by (auto simp: id_inv_def)
    moreover have [simp]: "removed_ids (store_data arrange k v m) = removed_ids m"
      "iteration_depth (store_data arrange k v m) = iteration_depth m" by (simp_all add: store_data_def)
    ultimately show ?thesis
      using m n v store_new [OF a d n, of v]
      by (auto simp: id_AddWithID_def IsRemoved_iff [OF o] id_inv_def live_def fun_eq_iff)
  qed
qed

text \<open>The end of the outermost iteration.\<close>

lemma fold_erase: "fold (\<lambda>k. filter (\<lambda>e. fst e \<noteq> k)) ks es = filter (\<lambda>e. fst e \<notin> set ks) es"
  by (induction ks arbitrary: es) (auto intro: filter_cong)

lemma map_of_filter_keys: "map_of (filter (\<lambda>e. fst e \<notin> A) es) k = (if k \<in> A then None else map_of es k)"
  by (induction es) auto

lemma Iterator_delete_live:
  assumes m: "id_inv m" and p: "0 < iteration_depth m"
  shows "returns (Iterator_delete d m) (\<lambda>m'. id_inv m' \<and> live m' = live m \<and> iteration_depth m' = iteration_depth m - 1)"
  using m p
  by (auto simp: Iterator_delete_def Compact_def Let_def fold_erase id_inv_def live_def map_of_filter_keys distinct_map_filter fun_eq_iff)

section \<open>Iteration\<close>

lemma elements_from_suffix:
  assumes "map fst (id_data m) = pre @ post" "distinct (map fst (id_data m))"
  shows "elements_from (case post of [] \<Rightarrow> None | k # _ \<Rightarrow> Some k) m = Inr post"
proof (cases post)
  case (Cons k ks)
  then have "k \<notin> set pre" "k \<in> set (map fst (id_data m))" using assms by auto
  then show ?thesis using assms(1) Cons by (auto simp: elements_from_def dropWhile_append)
qed (simp add: elements_from_def)

text \<open>
  A loop over the map, whose body removes elements: for the visited element \<open>k\<close> those of \<open>body k\<close> that are still
  there.
\<close>

fun remove_each :: "bool \<Rightarrow> int list \<Rightarrow> 'v id_map \<Rightarrow> 'v id_map checked" where
  "remove_each d [] m = Inr m"
| "remove_each d (k # ks) m =
     rbind (if id_Lookup k m \<noteq> None then id_Remove d k m else Inr m) (remove_each d ks)"

fun traverse :: "bool \<Rightarrow> (int \<Rightarrow> int list) \<Rightarrow> nat \<Rightarrow> int option \<Rightarrow> 'v id_map \<Rightarrow> (int list \<times> 'v id_map) option checked" where
  "traverse d body 0 it m = Inr None"
| "traverse d body (Suc fuel) it m =
     (if IsAtEnd it then Inr (Some ([], m))
      else
        rbind (GetCurrentKey it m) (\<lambda>k.
        rbind (remove_each d (body k) m) (\<lambda>m.
        rbind (Iterator_Advance it m) (\<lambda>it.
        rbind (traverse d body fuel it m) (\<lambda>r. Inr (map_option (\<lambda>(ks, m). (k # ks, m)) r))))))"

definition iterate :: "bool \<Rightarrow> (int \<Rightarrow> int list) \<Rightarrow> nat \<Rightarrow> 'v id_map \<Rightarrow> (int list \<times> 'v id_map) option checked" where
  "iterate d body fuel m =
     rbind (Iterator_new m) (\<lambda>(it, m).
     rbind (traverse d body fuel it m) (\<lambda>r.
       case r of None \<Rightarrow> Inr None | Some (ks, m) \<Rightarrow> rbind (Iterator_delete d m) (\<lambda>m. Inr (Some (ks, m)))))"

definition shrinks :: "'v id_map \<Rightarrow> 'v id_map \<Rightarrow> bool" where
  "shrinks m m' \<longleftrightarrow> id_inv m' \<and> iteration_depth m' = iteration_depth m \<and> id_data m' = id_data m \<and>
     live m' \<subseteq>\<^sub>m live m"

lemma shrinks_refl: "id_inv m \<Longrightarrow> shrinks m m"
  by (simp add: shrinks_def)

lemma shrinks_trans: "shrinks m m' \<Longrightarrow> shrinks m' m'' \<Longrightarrow> shrinks m m''"
  by (auto simp: shrinks_def intro: map_le_trans)

text \<open>
  The same loop over the list of identifiers and the map that clients see: an element that is not there any more is
  passed over, a visited one has its body's removals done at once.
\<close>

fun drop_each :: "int list \<Rightarrow> (int \<Rightarrow> 'v option option) \<Rightarrow> int \<Rightarrow> 'v option option" where
  "drop_each [] l = l"
| "drop_each (k # ks) l = drop_each ks (if l k = None \<or> l k = Some None then l else l(k := None))"

fun visits :: "(int \<Rightarrow> int list) \<Rightarrow> int list \<Rightarrow> (int \<Rightarrow> 'v option option) \<Rightarrow> int list \<times> (int \<Rightarrow> 'v option option)" where
  "visits body [] l = ([], l)"
| "visits body (k # ks) l =
     (if l k = None then visits body ks l
      else let (vs, l) = visits body ks (drop_each (body k) l) in (k # vs, l))"

lemma visits_Cons:
  "l k \<noteq> None \<Longrightarrow> visits body (k # ks) l =
     (k # fst (visits body ks (drop_each (body k) l)), snd (visits body ks (drop_each (body k) l)))"
  by (cases "l k") (auto split: prod.split)

lemma drop_each_le: "drop_each ks l \<subseteq>\<^sub>m l"
proof (induction ks arbitrary: l)
  case (Cons k ks)
  have "(if l k = None \<or> l k = Some None then l else l(k := None)) \<subseteq>\<^sub>m l" by (simp add: map_le_def)
  from map_le_trans [OF Cons this] show ?case by simp
qed simp

lemma map_le_None: "l' \<subseteq>\<^sub>m l \<Longrightarrow> l k = None \<Longrightarrow> l' k = None"
  by (auto simp: map_le_def dom_def)

lemma map_le_Null: "l' \<subseteq>\<^sub>m l \<Longrightarrow> l k = None \<or> l k = Some None \<Longrightarrow> l' k = None \<or> l' k = Some None"
  by (cases "l' k") (auto simp: map_le_def dom_def)

lemma drop_each_gone: "k \<in> set ks \<Longrightarrow> drop_each ks l k = None \<or> drop_each ks l k = Some None"
proof (induction ks arbitrary: l)
  case (Cons j ks)
  show ?case
  proof (cases "k \<in> set ks")
    case False
    then have j: "k = j" using Cons.prems by simp
    let ?l = "if l j = None \<or> l j = Some None then l else l(j := None)"
    have "?l j = None \<or> ?l j = Some None" by auto
    from map_le_Null [where k = j and l = ?l and l' = "drop_each ks ?l", OF drop_each_le this]
    show ?thesis unfolding j drop_each.simps .
  qed (use Cons.IH in simp)
qed simp

lemma visits_le: "snd (visits body ks l) \<subseteq>\<^sub>m l"
  by (induction body ks l rule: visits.induct) (auto intro: map_le_trans drop_each_le split: prod.split)

lemma visits_subseq: "subseq (fst (visits body ks l)) ks"
  by (induction body ks l rule: visits.induct) (auto split: prod.split)

lemma visits_skip: "\<forall>k\<in>set p. l k = None \<Longrightarrow> visits body (p @ ks) l = visits body ks l"
  by (induction p) auto

text \<open>Whoever is not missing at the end was visited, and what the visited elements' bodies remove is gone.\<close>

lemma visits_complete: "dom (snd (visits body ks l)) \<inter> set ks \<subseteq> set (fst (visits body ks l))"
proof (induction body ks l rule: visits.induct)
  case (2 body k ks l)
  show ?case
  proof (cases "l k = None")
    case True
    then show ?thesis using 2(1) map_le_None [OF visits_le, of l k body ks] by auto
  next
    case False
    then show ?thesis using 2(2) [OF False] by (cases "visits body ks (drop_each (body k) l)") auto
  qed
qed simp

lemma visits_gone:
  "k \<in> set (fst (visits body ks l)) \<Longrightarrow> j \<in> set (body k) \<Longrightarrow>
   snd (visits body ks l) j = None \<or> snd (visits body ks l) j = Some None"
proof (induction body ks l rule: visits.induct)
  case (2 body i ks l)
  let ?l = "drop_each (body i) l"
  show ?case
  proof (cases "l i = None")
    case True
    then show ?thesis using 2 by simp
  next
    case False
    then have v: "visits body (i # ks) l = (i # fst (visits body ks ?l), snd (visits body ks ?l))"
      by (rule visits_Cons)
    show ?thesis
    proof (cases "k \<in> set (fst (visits body ks ?l))")
      case True
      then show ?thesis using 2(2) [OF False] 2(4) v by simp
    next
      case False
      then have "j \<in> set (body i)" using 2(3,4) v by auto
      from map_le_Null [where k = j and l = ?l, OF visits_le drop_each_gone [OF this]] show ?thesis unfolding v snd_conv .
    qed
  qed
qed simp

text \<open>What the body of an earlier visit removes is not visited.\<close>

lemma visited_live: "k \<in> set (fst (visits body ks l)) \<Longrightarrow> l k \<noteq> None"
proof (induction body ks l rule: visits.induct)
  case (2 body i ks l)
  show ?case
  proof (cases "l i = None")
    case False
    then have "k = i \<or> k \<in> set (fst (visits body ks (drop_each (body i) l)))" using 2(3) visits_Cons [where l = l and k = i, OF False] by auto
    then show ?thesis using 2(2) [OF False] False map_le_None [OF drop_each_le, of l k "body i"] by metis
  qed (use 2 in simp)
qed simp

lemma visits_unremoved: "sorted_wrt (\<lambda>k j. j \<notin> set (body k) \<or> l j = Some None) (fst (visits body ks l))"
proof (induction body ks l rule: visits.induct)
  case (2 body i ks l)
  let ?l = "drop_each (body i) l"
  have null: "l j = Some None" if "?l j = Some None" for j
    using that drop_each_le [of "body i" l] by (auto simp: map_le_def dom_def)
  show ?case
  proof (cases "l i = None")
    case False
    have "j \<notin> set (body i) \<or> l j = Some None" if "j \<in> set (fst (visits body ks ?l))" for j
      using visited_live [OF that] drop_each_gone [of j "body i" l] null [of j] by argo
    moreover have "sorted_wrt (\<lambda>k j. j \<notin> set (body k) \<or> l j = Some None) (fst (visits body ks ?l))"
      using 2(2) [OF False] by (rule sorted_wrt_mono_rel [rotated]) (auto intro: null)
    ultimately show ?thesis unfolding visits_Cons [where l = l and k = i, OF False] by simp
  qed (use 2 in simp)
qed simp

lemma remove_each_drops:
  assumes "id_inv m" "iteration_depth m \<noteq> 0"
  shows "returns (remove_each d ks m) (\<lambda>m'. shrinks m m' \<and> live m' = drop_each ks (live m))"
  using assms
proof (induction ks arbitrary: m)
  case (Cons k ks)
  let ?l = "if live m k = None \<or> live m k = Some None then live m else (live m)(k := None)"
  have step: "returns (if id_Lookup k m \<noteq> None then id_Remove d k m else Inr m) (\<lambda>m'. shrinks m m' \<and> live m' = ?l)"
  proof (cases "id_Lookup k m = None")
    case False
    then have l: "live m k \<noteq> None" "live m k \<noteq> Some None" using Lookup_live [OF Cons.prems(1), of k] by (cases "live m k"; auto)+
    have "returns (id_Remove d k m) (\<lambda>m'. shrinks m m' \<and> live m' = (live m)(k := None))"
      by (rule returns_mono [OF Remove_live [OF Cons.prems(1) l(1), of d]])
        (use Cons.prems(2) in \<open>auto simp: shrinks_def map_le_def\<close>)
    moreover have "(if live m k = None \<or> live m k = Some None then live m else (live m)(k := None)) = (live m)(k := None)"
      using l by metis
    ultimately show ?thesis using False by simp
  next
    case True
    then have "live m k = None \<or> live m k = Some None" using Lookup_live [OF Cons.prems(1), of k] by (cases "live m k") auto
    then show ?thesis using True by (auto simp: shrinks_refl Cons.prems)
  qed
  have "returns (remove_each d ks m') (\<lambda>m''. shrinks m m'' \<and> live m'' = drop_each (k # ks) (live m))"
    if m': "shrinks m m' \<and> live m' = ?l" for m'
  proof -
    have "id_inv m'" "iteration_depth m' \<noteq> 0" using m' Cons.prems(2) by (auto simp: shrinks_def)
    from Cons.IH [OF this] show ?thesis using shrinks_trans [of m m'] m' by (elim returns_mono) simp
  qed
  then show ?case unfolding remove_each.simps returns_rbind by (rule returns_mono [OF step])
qed (simp add: shrinks_refl)

text \<open>From an iterator on, the loop over the table is the loop over the identifiers.\<close>

definition iterator_to :: "int list \<Rightarrow> int option" where
  "iterator_to ks = (case ks of [] \<Rightarrow> None | k # _ \<Rightarrow> Some k)"

lemma skip_to:
  assumes "id_inv m"
  shows "\<exists>p1 p2. ks = p1 @ p2 \<and> (\<forall>k\<in>set p1. live m k = None) \<and> (\<forall>k\<in>set (take 1 p2). k \<notin> set (removed_ids m)) \<and>
    SkipRemovedEntries m ks = iterator_to p2"
proof (induction ks)
  case (Cons k ks)
  have o: "strictly_ordered (<) identity_key (removed_ids m)" using assms by (simp add: id_inv_def)
  show ?case
  proof (cases "IsRemoved k m")
    case True
    then have "live m k = None" using IsRemoved_iff [OF o] by (simp add: live_def)
    with Cons True show ?thesis by (metis SkipRemovedEntries.simps(2) append_Cons set_ConsD)
  next
    case False
    then show ?thesis using IsRemoved_iff [OF o, of k]
      by (intro exI [of _ "[]"] exI [of _ "k # ks"]) (simp add: iterator_to_def)
  qed
qed (simp add: iterator_to_def)

lemma traverse_visits:
  assumes "id_inv m" "iteration_depth m \<noteq> 0" "map fst (id_data m) = pre @ post" "length post < fuel"
    and "\<forall>k\<in>set (take 1 post). k \<notin> set (removed_ids m)"
  shows "returns (traverse d body fuel (iterator_to post) m)
    (\<lambda>r. \<exists>ks m'. r = Some (ks, m') \<and> shrinks m m' \<and> visits body post (live m) = (ks, live m'))"
  using assms
proof (induction fuel arbitrary: m pre post)
  case (Suc fuel)
  have d: "distinct (map fst (id_data m))" using Suc.prems(1) by (simp add: id_inv_def)
  show ?case
  proof (cases post)
    case Nil
    then show ?thesis using Suc.prems(1) by (simp add: IsAtEnd_def iterator_to_def shrinks_refl)
  next
    case (Cons k rest)
    have e: "elements_from (Some k) m' = Inr (k # rest)" if "id_data m' = id_data m" for m' :: "'a id_map"
      using elements_from_suffix [of m' pre post] Suc.prems(3) d that Cons by simp
    have "k \<in> fst ` set (id_data m)" using arg_cong [OF Suc.prems(3), of set] Cons by auto
    then have k: "live m k \<noteq> None" using Suc.prems(5) Cons by (simp add: live_def map_of_eq_None_iff)
    have advance: "returns (rbind (Iterator_Advance (Some k) m') (\<lambda>it.
        rbind (traverse d body fuel it m') (\<lambda>r. Inr (map_option (\<lambda>(ks, m). (k # ks, m)) r))))
      (\<lambda>r. \<exists>ks m''. r = Some (ks, m'') \<and> shrinks m m'' \<and> visits body post (live m) = (ks, live m''))"
      if m': "shrinks m m' \<and> live m' = drop_each (body k) (live m)" for m'
    proof -
      have i: "id_inv m'" "iteration_depth m' \<noteq> 0" "map fst (id_data m') = pre @ k # rest" "id_data m' = id_data m"
        using m' Suc.prems(2,3) Cons by (auto simp: shrinks_def)
      from skip_to [OF i(1), of rest] obtain p1 p2 where p: "rest = p1 @ p2" "\<forall>k\<in>set p1. live m' k = None"
        "\<forall>k\<in>set (take 1 p2). k \<notin> set (removed_ids m')" "SkipRemovedEntries m' rest = iterator_to p2" by blast
      have "returns (traverse d body fuel (iterator_to p2) m')
        (\<lambda>r. \<exists>ks m''. r = Some (ks, m'') \<and> shrinks m' m'' \<and> visits body p2 (live m') = (ks, live m''))"
        using Suc.prems(4) Cons p(1) i(3) by (intro Suc.IH [OF i(1,2), of "pre @ k # p1"] p(3)) auto
      then have "returns (traverse d body fuel (iterator_to p2) m')
        (\<lambda>r. \<exists>ks m''. map_option (\<lambda>(ks, m). (k # ks, m)) r = Some (ks, m'') \<and> shrinks m m'' \<and>
          visits body post (live m) = (ks, live m''))"
        using shrinks_trans m' visits_skip [OF p(2), of body p2] k Cons p(1) by (elim returns_mono) auto
      then show ?thesis using e [OF i(4)] p(4) by (simp add: Iterator_Advance_def)
    qed
    have "returns (rbind (remove_each d (body k) m) (\<lambda>m'. rbind (Iterator_Advance (Some k) m') (\<lambda>it.
        rbind (traverse d body fuel it m') (\<lambda>r. Inr (map_option (\<lambda>(ks, m). (k # ks, m)) r)))))
      (\<lambda>r. \<exists>ks m''. r = Some (ks, m'') \<and> shrinks m m'' \<and> visits body post (live m) = (ks, live m''))"
      unfolding returns_rbind [of "remove_each d (body k) m"]
      by (rule returns_mono [OF remove_each_drops [OF Suc.prems(1,2)]]) (rule advance)
    then show ?thesis using Cons e [of m] by (simp add: IsAtEnd_def GetCurrentKey_def iterator_to_def)
  qed
qed simp

lemma distinct_subseq: "subseq xs ys \<Longrightarrow> set xs \<subseteq> set ys \<and> (distinct ys \<longrightarrow> distinct xs)"
  by (induction rule: list_emb.induct) auto

text \<open>
  (C37) Removal while iterating.  A loop over the map whose body removes any elements, the visited one included, ends after
  at most as many steps as there are elements, never uses an iterator to an element that is gone, and is the loop over
  the list of identifiers and the map that clients see, in which a removal takes effect at once: the identifiers it
  visits and the map it leaves are those of \<open>visits\<close>.  So it visits elements in the order of the table, each at most
  once, none that an earlier visit removed, and every element that is still there at the end; what the visited elements' bodies
  removed is gone for lookups and from the size, and once no iteration is left the table holds exactly the remaining elements.
\<close>

theorem idmap_removal_while_iterating:
  assumes "id_inv m" "iteration_depth m < 2147483647"
  shows "returns (iterate d body (Suc (length (id_data m))) m) (\<lambda>r. \<exists>ks m'. r = Some (ks, m') \<and> id_inv m' \<and>
    visits body (map fst (id_data m)) (live m) = (ks, live m') \<and>
    subseq ks (map fst (id_data m)) \<and> distinct ks \<and> live m' \<subseteq>\<^sub>m live m \<and> dom (live m') \<subseteq> set ks \<and>
    (\<forall>k\<in>set ks. \<forall>j\<in>set (body k). id_Lookup j m' = None) \<and>
    sorted_wrt (\<lambda>k j. j \<notin> set (body k) \<or> live m j = Some None) ks \<and>
    (\<forall>k. id_Lookup k m' = (case live m' k of None \<Rightarrow> None | Some v \<Rightarrow> v)) \<and> id_size m' = card (dom (live m')) \<and>
    (iteration_depth m = 0 \<longrightarrow> map_of (id_data m') = live m'))"
proof -
  let ?m = "m\<lparr>iteration_depth := iteration_depth m + 1\<rparr>" and ?keys = "map fst (id_data m)"
  have d: "distinct ?keys" "0 \<le> iteration_depth m" using assms(1) by (auto simp: id_inv_def)
  have m: "id_inv ?m" "iteration_depth ?m \<noteq> 0" "live ?m = live m" using assms(1) by (auto simp: id_inv_def live_def)
  have b: "id_begin m = (case ?keys of [] \<Rightarrow> None | k # _ \<Rightarrow> Some k)" by (simp add: id_begin_def split: list.split)
  have e: "elements_from (id_begin m) ?m = Inr ?keys"
    unfolding b using elements_from_suffix [of ?m "[]" ?keys] d by simp
  from skip_to [OF m(1), of ?keys] obtain p1 p2 where p: "?keys = p1 @ p2" "\<forall>k\<in>set p1. live m k = None"
    "\<forall>k\<in>set (take 1 p2). k \<notin> set (removed_ids ?m)" "SkipRemovedEntries ?m ?keys = iterator_to p2" unfolding m(3) by blast
  have new: "Iterator_new m = Inr (iterator_to p2, ?m)"
    using assms(2) d(2) e p(4) by (simp add: Iterator_new_def Iterator_Init_def in_range_def Let_def)
  have v: "visits body ?keys (live m) = visits body p2 (live m)" unfolding p(1) by (rule visits_skip [OF p(2)])
  have len: "length p2 < Suc (length (id_data m))" using arg_cong [OF p(1), of length] by simp
  have t: "returns (traverse d body (Suc (length (id_data m))) (iterator_to p2) ?m)
    (\<lambda>r. \<exists>ks m'. r = Some (ks, m') \<and> shrinks ?m m' \<and> visits body ?keys (live m) = (ks, live m'))"
    using traverse_visits [OF m(1,2) _ len p(3), of p1 d body] p(1) unfolding m(3) v by simp
  have fin: "returns (Iterator_delete d m') (\<lambda>m''. id_inv m'' \<and> visits body ?keys (live m) = (ks, live m'') \<and>
      subseq ks ?keys \<and> distinct ks \<and> live m'' \<subseteq>\<^sub>m live m \<and> dom (live m'') \<subseteq> set ks \<and>
      (\<forall>k\<in>set ks. \<forall>j\<in>set (body k). id_Lookup j m'' = None) \<and>
      sorted_wrt (\<lambda>k j. j \<notin> set (body k) \<or> live m j = Some None) ks \<and>
      (\<forall>k. id_Lookup k m'' = (case live m'' k of None \<Rightarrow> None | Some v \<Rightarrow> v)) \<and>
      id_size m'' = card (dom (live m'')) \<and> (iteration_depth m = 0 \<longrightarrow> map_of (id_data m'') = live m''))"
    if h: "shrinks ?m m'" "visits body ?keys (live m) = (ks, live m')" for ks m'
  proof -
    have i: "id_inv m'" "0 < iteration_depth m'" "iteration_depth m' = iteration_depth m + 1" "live m' \<subseteq>\<^sub>m live m"
      using h(1) d(2) m(3) by (auto simp: shrinks_def)
    have sub: "subseq ks ?keys" using visits_subseq [of body ?keys "live m"] h(2) by simp
    then have "distinct ks" using d(1) distinct_subseq by blast
    moreover have "dom (live m') \<subseteq> dom (live m)" using i(4) by (auto simp: map_le_def dom_def)
    then have "dom (live m') \<subseteq> set ?keys" unfolding dom_live by auto
    then have "dom (live m') \<subseteq> set ks" using visits_complete [of body ?keys "live m"] h(2) by auto
    moreover have "\<forall>k\<in>set ks. \<forall>j\<in>set (body k). (case live m' j of None \<Rightarrow> None | Some v \<Rightarrow> v) = None"
      using visits_gone [of _ body ?keys "live m"] h(2) by (metis fst_conv snd_conv option.simps(4,5))
    moreover have "sorted_wrt (\<lambda>k j. j \<notin> set (body k) \<or> live m j = Some None) ks"
      using visits_unremoved [of body "live m" ?keys] h(2) by simp
    moreover have "map_of (id_data m'') = live m''" if "id_inv m''" "iteration_depth m'' = 0" for m'' :: "'a id_map"
      using that by (auto simp: id_inv_def live_def fun_eq_iff)
    ultimately show ?thesis
      using Iterator_delete_live [OF i(1,2), of d] i(3,4) sub h(2) by (elim returns_mono) (auto simp: Lookup_live size_live)
  qed
  show ?thesis
    unfolding iterate_def new rbind_Inr prod.case returns_rbind by (rule returns_mono [OF t]) (auto elim!: returns_mono dest: fin)
qed

end
