(* ===== verification/Rtc_Examples.thy ===== *)
theory Rtc_Examples
  imports Rtc_Units Rtc_SeqNum Rtc_CowBuffer Rtc_ByteBuffer Rtc_SigslotRun Rtc_MovingMax Rtc_Percentile
    Rtc_SwapQueue Rtc_DequeRun Rtc_LinkedList Rtc_FlatMap
    Rtc_MruCache Rtc_IdMap
begin

text \<open>
  The properties of the libwebrtc headers on concrete inputs: each theorem applied where its
  hypotheses hold, with the definitions evaluated.
\<close>

section \<open>Numbers\<close>

theorem casts_exact_witness:
  "saturated_cast Uint8 Int32 300 = Inr 255 \<and> checked_cast Int8 Uint16 300 = Inl CheckFailed \<and>
   dchecked_cast True Int16 Int64 (-7) = Inr (-7)"
proof -
  have r: "in_range Int32 300" "in_range Uint16 300" "in_range Int64 (-7)" by (simp_all add: in_range_def)
  show ?thesis
    using casts_exact [OF r(1), of Uint8] casts_exact [OF r(2), of Int8] casts_exact [OF r(3), of Int16]
    by (simp add: in_range_def)
qed

theorem SafeClamp_exact_witness:
  "(\<exists>t. SafeClamp True None (Int32, -5) (Uint8, 10) (Uint16, 500) = Some (Inr (t, 10))) \<and>
   SafeClamp True None (Int32, 7) (Int32, 2) (Int32, 1) = Some (Inl DcheckFailed)"
proof -
  have w: "well_typed (Int32, -5)" "well_typed (Uint8, 10)" "well_typed (Uint16, 500)"
    "well_typed (Int32, 7)" "well_typed (Int32, 2)" "well_typed (Int32, 1)"
    by (simp_all add: well_typed_def in_range_def)
  show ?thesis
    using SafeClamp_exact [OF w(1-3), of True] SafeClamp_exact [OF w(4-6), of True] by auto
qed

section \<open>Units\<close>

theorem unit_arithmetic_witness:
  "unit_plus True False (UnitBase 3) (UnitBase (-5)) = Inr (UnitBase (-2)) \<and>
   Timestamp_minus True (UnitBase 3) (UnitBase 5) = Inl DcheckFailed \<and>
   unit_minus True True PlusInfinity PlusInfinity = Inl DcheckFailed"
proof -
  have v: "valid_unit (UnitBase 3)" "valid_unit (UnitBase 5)" "valid_unit (UnitBase (-5))" "valid_unit PlusInfinity"
    by (simp_all add: valid_unit_def in_range_def PlusInfinity_def PlusInfinityVal_def)
  show ?thesis
    using unit_arithmetic [OF v(1,3), of False] unit_arithmetic [OF v(1,2), of True] unit_arithmetic [OF v(4,4), of True]
    by (simp add: ext_def infinity_defs PlusInfinityVal_def MinusInfinityVal_def in_range_def)
qed

section \<open>Sequence numbers\<close>

theorem unwrap_recovers_witness:
  "returns (unwrap_all (Unwrap Uint16) \<lparr>last_value = None\<rparr> [65530, 4, 65535])
     (\<lambda>(rs, s'). rs = [65530, 65540, 65535]) \<and>
   returns (unwrap_all (Unwrap Uint32) \<lparr>last_value = None\<rparr> [4294967290, 4])
     (\<lambda>(rs, s'). rs = [4294967290, 4294967300]) \<and>
   returns (unwrap_all (SeqNum_Unwrap True Uint8 10) SeqNumUnwrapper_new [9, 1, 8])
     (\<lambda>(rs, s'). rs = [9, 11, 8])"
proof -
  have n: "narrow Uint8" by (simp add: narrow_def)
  show ?thesis
    using unwrap_recovers [of 65530 "[65540, 65535]"] unwrap_recovers [of 4294967290 "[4294967300]"]
      unwrap_recovers [of 9 "[11, 8]" Uint8 10 True] n
    by (simp add: wrap_at_def)
qed

section \<open>Buffers\<close>

definition ex_buffer :: "int BufferT" where
  "ex_buffer = \<lparr>buf_size = 2, buf_capacity = 2, buf_data = Some [Some 7, Some 8], buf_released = []\<rparr>"

lemma ex_buffer_copy: "BufferT_copy [7, 8] 0 = Inr ex_buffer"
  by (simp add: BufferT_copy_def BufferT_sized_def memcpy_to_def write_block_def ex_buffer_def Let_def)

lemma ex_buffer_reachable: "buffer_reachable d zof ex_buffer"
  by (rule buffer_reachable.copied [OF ex_buffer_copy]) simp_all

theorem buffer_is_list_witness:
  "returns (append_all (AppendData True False) [[1], [2, 3]] ex_buffer)
     (\<lambda>b. contents b = [Some 7, Some 8, Some 1, Some 2, Some 3]) \<and>
   returns (SetSize True False 1 ex_buffer) (\<lambda>b. buf_size b = 1 \<and> take 1 (contents b) = [Some 7])"
  using buffer_is_list [OF ex_buffer_reachable, where d = True and zof = False and xss = "[[1], [2, 3]]" and n = 1]
  by (simp add: ex_buffer_def contents_def [of "\<lparr>buf_size = 2, buf_capacity = 2, buf_data = Some [Some 7, Some 8], buf_released = []\<rparr>"]
      cells_def [of "\<lparr>buf_size = 2, buf_capacity = 2, buf_data = Some [Some 7, Some 8], buf_released = []\<rparr>"])

section \<open>Shared objects\<close>

definition ex_pointer :: "string rstate" where
  "ex_pointer = \<lparr>objects = (\<lambda>_. None)(5 \<mapsto> (1, ''frame'')), vars = (\<lambda>_. None)(0 \<mapsto> Some 5)\<rparr>"

lemma ex_pointer_reachable: "refptr_reachable ex_pointer (\<lambda>_. 0)"
  by (rule refptr_reachable.create [OF refptr_reachable.start, of 5 0 "''frame''"])
    (simp_all add: refptr_from_def AddRef_opt_def AddRef_def RefCountedObject_new_def set_ptr_def IncRef_def
      in_range_def ex_pointer_def)

lemma ex_pointer_room: "room ex_pointer (\<lambda>_. 0)"
proof -
  have "owners ex_pointer a = (if a = 5 then {0} else {})" for a
    by (auto simp: owners_def ex_pointer_def)
  then show ?thesis by (simp add: room_def owner_count_def)
qed

theorem refptr_safe_witness:
  "objects ex_pointer 5 \<noteq> None \<and>
   returns (exec (Copy 1 0) ex_pointer) (\<lambda>\<sigma>. refptr_reachable \<sigma> (\<lambda>_. 0)) \<and>
   returns (exec (Assign 0 0) ex_pointer) (\<lambda>\<sigma>. refptr_reachable \<sigma> (\<lambda>_. 0))"
proof -
  have safe: "returns (exec op ex_pointer) (\<lambda>\<sigma>. refptr_reachable \<sigma> (\<lambda>_. 0))" if "legal ex_pointer op" for op
    using refptr_safe [OF ex_pointer_reachable, of 0 _ _ op] ex_pointer_room that by (blast intro: returns_mono)
  have "objects ex_pointer 5 \<noteq> None"
    using refptr_safe [OF ex_pointer_reachable, of 5] by (simp add: ex_pointer_def)
  moreover have "legal ex_pointer (Copy 1 0)" "legal ex_pointer (Assign 0 0)" by (simp_all add: ex_pointer_def)
  ultimately show ?thesis using safe by blast
qed

text \<open>Two buffers that share their data, and a copy function for them.\<close>

definition ex_shared :: "int cow_state" where
  "ex_shared = \<lparr>objects = (\<lambda>_. None)(7 \<mapsto> (2, ex_buffer)), vars = (\<lambda>_. None)(0 \<mapsto> Some 7, 1 \<mapsto> Some 7)\<rparr>"

definition ex_clone :: "nat \<Rightarrow> nat \<Rightarrow> int cow_state \<Rightarrow> int cow_state checked" where
  "ex_clone x cap \<sigma> = cow_new_buffer x 8 [7, 8] cap \<sigma>"

lemma ex_shared_inv: "cow_inv ex_shared" "room ex_shared (\<lambda>_. 0)"
proof -
  have o: "owner_count ex_shared (\<lambda>_. 0) a = (if a = 7 then 2 else 0)" for a
  proof -
    have "owners ex_shared a = (if a = 7 then {0, 1} else {})" by (auto simp: owners_def ex_shared_def)
    then show ?thesis by (simp add: owner_count_def)
  qed
  show "room ex_shared (\<lambda>_. 0)" by (simp add: room_def o)
  have "counted ex_shared (\<lambda>_. 0)" by (auto simp: counted_def o) (simp_all add: ex_shared_def)
  then show "cow_inv ex_shared"
    by (auto simp: cow_inv_def payload_def ex_shared_def ex_buffer_def buffer_inv_def cells_def split: if_splits)
qed

lemma ex_shared_contents: "held ex_shared 0 = Some 7" "cow_contents ex_shared 0 = [Some 7, Some 8]"
    "cow_contents ex_shared 1 = [Some 7, Some 8]"
  by (simp_all add: cow_contents_def held_def payload_def ex_shared_def ex_buffer_def contents_def cells_def)

lemma ex_clone_cloned: "returns (ex_clone 0 cap ex_shared) (cloned 0 ex_shared)"
proof -
  have v: "vars ex_shared 0 \<noteq> None" "objects ex_shared 8 = None" by (simp_all add: ex_shared_def)
  have nf: "owners ex_shared 8 = {}" by (auto simp: owners_def ex_shared_def)
  have b: "returns (ex_clone 0 cap ex_shared) (cow_becomes ex_shared 0 [Some 7, Some 8])"
    using new_buffer_becomes [OF ex_shared_inv v(2,1), of "[7, 8]" cap] by (simp add: ex_clone_def)
  have c: "counted ex_shared (\<lambda>_. 0)" using ex_shared_inv(1) by (simp add: cow_inv_def)
  obtain b where copy: "BufferT_copy [7, 8 :: int] cap = Inr b"
    using copy_returns [of "[7, 8 :: int]" cap] by (auto elim: returnsE)
  have "returns (ex_clone 0 cap ex_shared) (\<lambda>\<sigma>. vars \<sigma> = (vars ex_shared)(0 \<mapsto> Some 8))"
    using returns_mono [OF assign_new_counted [OF c ex_shared_inv(2) v(2,1), of b]]
    by (simp add: ex_clone_def cow_new_buffer_def copy)
  from returns_conj [OF b this] show ?thesis
  proof (rule returns_mono)
    fix \<sigma>
    assume s: "cow_becomes ex_shared 0 [Some 7, Some 8] \<sigma> \<and> vars \<sigma> = (vars ex_shared)(0 \<mapsto> Some 8)"
    then have "held \<sigma> 0 = Some 8" "owners \<sigma> 8 = {0}"
      using nf by (auto simp: held_def owners_def split: if_splits)
    then show "cloned 0 ex_shared \<sigma>"
      using s ex_shared_contents by (auto simp: cloned_def cow_becomes_def) (metis gr0I)
  qed
qed

theorem cow_copies_independent_witness:
  "returns (cow_AppendData True ex_clone 0 9 [4] ex_shared) (\<lambda>\<sigma>.
     cow_contents \<sigma> 0 = [Some 7, Some 8, Some 4] \<and> cow_contents \<sigma> 1 = [Some 7, Some 8]) \<and>
   returns (cow_put True ex_clone 0 1 3 ex_shared) (\<lambda>\<sigma>.
     cow_contents \<sigma> 0 = [Some 7, Some 3] \<and> cow_contents \<sigma> 1 = [Some 7, Some 8]) \<and>
   returns (cow_move_assign True 2 0 1 ex_shared) (\<lambda>\<sigma>. cow_contents \<sigma> 0 = [Some 7, Some 8] \<and> cow_contents \<sigma> 1 = [])"
proof -
  have v: "objects ex_shared 9 = None" "vars ex_shared 0 \<noteq> None" "vars ex_shared 1 \<noteq> None" "vars ex_shared 2 = None"
    by (simp_all add: ex_shared_def)
  note cow = cow_copies_independent [OF ex_shared_inv v, of ex_clone, OF ex_clone_cloned]
  have "returns (cow_AppendData True ex_clone 0 9 [4] ex_shared) (cow_becomes ex_shared 0 [Some 7, Some 8, Some 4])"
    using cow [where xs = "[4]" and d = True] ex_shared_contents by simp
  moreover have "returns (cow_put True ex_clone 0 1 3 ex_shared) (cow_becomes ex_shared 0 [Some 7, Some 3])"
    using cow [where i = 1 and d = True and v = 3] ex_shared_contents by simp
  moreover have "returns (cow_move_assign True 2 0 1 ex_shared) (\<lambda>\<sigma>'. cow_inv \<sigma>' \<and> dom (vars \<sigma>') = dom (vars ex_shared) \<and>
      (\<forall>y. cow_contents \<sigma>' y = (if y = 0 then cow_contents ex_shared 1 else if y = 1 then [] else cow_contents ex_shared y)))"
    using cow [where d = True] by blast
  ultimately show ?thesis
    using ex_shared_contents(3) by (auto simp: cow_becomes_def elim!: returns_mono)
qed

section \<open>Bytes\<close>

theorem byte_io_roundtrip_witness:
  "WriteBigEndian Int32 3 [1, 2, 3, 4] (-2) = Inr (to_be 3 (-2) @ [4]) \<and>
   ReadBigEndian Int32 3 (to_be 3 (-2) @ [4]) = Inr (-2) \<and>
   ReadLittleEndian Int64 5 (to_le 5 (-2) @ []) = Inl Undefined"
proof -
  have i: "instantiable Int32 3" "instantiable Int64 5" by (simp_all add: instantiable_def)
  have f: "fits Int32 3 (-2)" "fits Int64 5 (-2)" by (simp_all add: fits_def)
  show ?thesis
    using byte_io_roundtrip [OF i(1) _ f(1), of "[1, 2, 3, 4]"] byte_io_roundtrip [OF i(2) _ f(2), of "[1, 2, 3, 4, 5]"]
    by (simp add: sign_extend_undefined_def)
qed

theorem byte_buffer_message_witness:
  "\<exists>bs. returns (rbind (ByteBufferWriter_new True ORDER_NETWORK) (write_items True False [U24 0x010203, U8 7, UVarint 5]))
     (\<lambda>w. written w = map Some bs) \<and> bs = [1, 2, 3, 7, 5]"
proof -
  have b: "concat (map (item_bytes big ORDER_NETWORK) [U24 0x010203, U8 7, UVarint 5]) = [1, 2, 3, 7, 5]" for big
    by (simp add: ordered_def to_be_def numeral_3_eq_3 uvarint.simps)
  show ?thesis
    using byte_buffer_message [of False "[U24 0x010203, U8 7, UVarint 5]" True True] unfolding b by auto
qed

section \<open>Signals\<close>

text \<open>Two objects are connected to a signal; the slot of the first destroys the second one.\<close>

definition ex_slot :: "(nat \<times> string \<times> int) list \<Rightarrow> (string, int) sop list" where
  "ex_slot log = (if fst (last log) = 1 then [DeleteSlots 2] else [])"

definition ex_program :: "(string, int) sop list" where
  "ex_program = [NewSignal 0, NewSlots 1, NewSlots 2, Connect 0 1 ''OnState'', Connect 0 2 ''OnState'', Emit 0 5]"

lemmas sigslot_eval = empty_world_def signal_new_def has_slots_new_def set_signal_def set_senders_def connect_def
  push_back_def get_signal_def get_senders_def do_signal_connect_def do_signal_disconnect_def insort_insert_key_def
  disconnect_def erase_def has_slots_delete_def do_disconnect_all_def emit_begin_def emit_next_def begin_iter_def
  do_slot_disconnect_def emit_end_def

lemma ex_program_run: "\<exists>w. run True ex_slot 12 (Do ex_program) empty_world = Some (Inr w) \<and> calls w = [(1, ''OnState'', 5)]"
  by (simp add: ex_program_def ex_slot_def numeral_eq_Suc sigslot_eval)

theorem sigslot_safe_witness:
  "case run False ex_slot 12 (Do ex_program) empty_world of
     None \<Rightarrow> True | Some (Inl fault) \<Rightarrow> False | Some (Inr w) \<Rightarrow> all_ok w \<and> (\<forall>s p. linked w s p \<longleftrightarrow> knows w p s)"
proof -
  have "run True ex_slot 12 (Do ex_program) empty_world \<noteq> Some (Inl Misuse)" using ex_program_run by auto
  then show ?thesis using sigslot_safe [of ex_slot 12 ex_program] by blast
qed

section \<open>Windows, percentiles and queues\<close>

theorem moving_max_exact_witness:
  "run_max True [AddSample (7 :: nat) 0, AddSample 3 5, QueryMax 10, QueryMax 12, AddSample 9 12, QueryMax 40]
     (MovingMaxCounter_new 10) = Inr [Some 7, Some 3, None]"
proof -
  let ?ops = "[AddSample (7 :: nat) 0, AddSample 3 5, QueryMax 10, QueryMax 12, AddSample 9 12, QueryMax 40]"
  have "sorted (op_times ?ops)" "\<forall>t \<in> set (op_times ?ops). in_range Int64 t \<and> in_range Int64 (t - 10)"
    by (simp_all add: in_range_def)
  from moving_max_exact [OF this, of True] show ?thesis by (simp add: window_max_def)
qed

theorem percentile_exact_witness:
  "rbind (PercentileFilter_new (Float 1 0)) (run_filter [InsertValue (5 :: nat), InsertValue 9, EraseValue 4, EraseValue 9]) =
   Inr [(True, 5), (True, 9), (False, 9), (True, 5)]"
proof -
  let ?ops = "[InsertValue (5 :: nat), InsertValue 9, EraseValue 4, EraseValue 9]"
  have "is_percentile (Float 1 0)" "list_all (\<lambda>n. n \<le> 2 ^ 24) (collection_sizes ?ops [])" by simp_all
  from percentile_exact [OF this] obtain pos where
    pos: "rbind (PercentileFilter_new (Float 1 0)) (run_filter ?ops) = Inr (reference pos ?ops [])"
      "\<forall>n. 0 < n \<and> n \<le> 2 ^ 24 \<longrightarrow> near_position (Float 1 0) n (pos n)" by blast
  have "pos 1 = 0" "pos 2 = 1" using pos(2) [rule_format, of 1] pos(2) [rule_format, of 2] by auto
  then show ?thesis using pos(1) by (simp add: numeral_2_eq_2)
qed

theorem swap_queue_fifo_witness:
  "(\<exists>q b. rbind (SwapQueue_new True (\<lambda>x. x < 100) 1 0) (\<lambda>q.
      run_queue (produce True (\<lambda>x. x < 100)) (consume True (\<lambda>x. x < 100))
        [Put ''p'' 5, Put ''r'' 6, Get ''c'', Get ''c''] (q, \<lambda>_. 1)) =
    Inr ([Stored True, Stored False, Fetched (Some (5 :: nat)), Fetched None], q, b))"
  using swap_queue_fifo [of "\<lambda>x. x < 100" "0 :: nat" "\<lambda>_. 1" "[Put ''p'' 5, Put ''r'' 6, Get ''c'', Get ''c'']" True 1]
  by (auto elim!: returnsE)

theorem circular_deque_is_list_witness:
  "returns (do_ops True 8 [PushBack 1, PushFront (2 :: nat), PushBack 3, PopFront, Insert_range 1 [7, 8], Erase 0]
     circular_deque_new)
   (\<lambda>q. dq_size q = 3 \<and> dq_at True 0 q = Inr 7 \<and> dq_front True q = Inr 7 \<and> dq_back True q = Inr 3)"
proof -
  have "program_ok 8 [PushBack 1, PushFront (2 :: nat), PushBack 3, PopFront, Insert_range 1 [7, 8], Erase 0] []"
    by (simp add: fits_space_def)
  from circular_deque_is_list [OF this, of True] show ?thesis by (auto elim!: returns_mono)
qed

theorem linked_lists_correct_witness:
  "\<exists>h. do_links [NewList 0, NewNode 1, NewNode 2, NewNode 3, AppendTo 0 1, AppendTo 0 3, Before 2 3, Unlink 1, MoveNode 4 2]
      (\<lambda>_. None) = Inr h \<and>
    nodes_forward 3 0 h = Inr (Some [4, 3]) \<and> nodes_backward 3 0 h = Inr (Some [3, 4]) \<and> list_empty 0 h = Inr False \<and>
    get_next (Some 1) h = Inr None \<and> get_previous (Some 1) h = Inr None"
proof -
  let ?ops = "[NewList 0, NewNode 1, NewNode 2, NewNode 3, AppendTo 0 1, AppendTo 0 3, Before 2 3, Unlink 1, MoveNode 4 2]"
  have "links_ok ?ops ([], [])" "fold link_spec ?ops ([], []) = ([[0, 4, 3]], [2, 1])"
    by (simp_all add: ring_before_def)
  from linked_lists_correct [OF this] show ?thesis by (auto simp: numeral_3_eq_3)
qed

theorem flat_map_is_map_witness:
  "fst (run_map (<) 0 [PutAt 3 30, WriteAt 1 10, InsertRange True [(3, 31), (2, 20)] KEEP_LAST_OF_DUPES, ReadAt (7 :: nat),
      TryEmplaceHint 2 1 11, EraseKey 2, Find 3, Contains 2] []) =
   [Inserted True, Done, Done, Mapped (0 :: nat), Element (Some (1, 10)), Number 1, Element (Some (3, 31)), Present False]"
  unfolding flat_map_is_map [OF std_less.strict_weak_axioms, THEN conjunct1]
  by (simp add: put_def put_new_def put_mapped_def equivalent_def)

theorem mru_cache_window_witness:
  "returns (run_mru True [Remember ''a'' (1 :: nat), Remember ''b'' 2, Recall ''a'', Remember ''c'' 3, Recall ''b'', Forget ''c'', PeekAt ''a'']
     (mru_new 2)) (\<lambda>(qs, c). qs = [Some 1, Some 2, Some 1, Some 3, None, None, Some 1] \<and> items_of c = [(''a'', 1)] \<and>
     item_at (mru_Peek ''a'' c) c = Inr (''a'', 1) \<and> mru_Peek ''c'' c = None)"
  using mru_cache_window [of True "[Remember ''a'' (1 :: nat), Remember ''b'' 2, Recall ''a'', Remember ''c'' 3, Recall ''b'', Forget ''c'', PeekAt ''a'']" 2]
  by (elim returns_mono)
    (auto simp: window_def to_front_def NO_AUTO_EVICT_def dest: spec [of _ "''a''"] spec [of _ "''c''"])

definition ex_ids :: "nat id_map" where
  "ex_ids = IDMap_new\<lparr>id_data := [(1, Some 10), (2, Some 20), (3, Some 30)], next_id := 4\<rparr>"

theorem idmap_removal_while_iterating_witness:
  "returns (iterate True (\<lambda>k. if k = 1 then [1, 2] else []) 4 ex_ids) (\<lambda>r. \<exists>m'. r = Some ([1, 3], m') \<and> id_inv m' \<and>
     id_Lookup 1 m' = None \<and> id_Lookup 2 m' = None \<and> id_Lookup 3 m' = Some 30 \<and> map_of (id_data m') = live m')"
proof -
  let ?body = "\<lambda>k :: int. if k = 1 then [1, 2 :: int] else []"
  have i: "id_inv ex_ids" "iteration_depth ex_ids < 2147483647"
    by (simp_all add: ex_ids_def IDMap_new_def id_inv_def strictly_ordered_def)
  have k: "map fst (id_data ex_ids) = [1, 2, 3]" "Suc (length (id_data ex_ids)) = 4" "iteration_depth ex_ids = 0"
    by (simp_all add: ex_ids_def IDMap_new_def)
  define l where "l = (live ex_ids)(1 := None, 2 := None)"
  have v: "visits ?body [1, 2, 3] (live ex_ids) = ([1, 3], l)"
    by (simp add: l_def live_def ex_ids_def IDMap_new_def)
  have three: "l 3 = Some (Some 30)" by (simp add: l_def live_def ex_ids_def IDMap_new_def)
  from idmap_removal_while_iterating [OF i, of True ?body, unfolded k v] show ?thesis
    by (rule returns_mono) (use three in auto)
qed

end
