(* ===== verification/Spec2Isabelle.thy ===== *)
theory Spec2Isabelle
  imports Examples Rtc_Examples
begin

text \<open>
  \<^bold>\<open>Wadi: a verified model of a WHIP camera streamer.\<close>

  Wadi opens a camera, lets libwebrtc make a session description offer for it, keeps the codecs
  it was asked to keep, posts the offer to a WHIP server over HTTP, and makes the body of the answer the
  remote description of the connection.  On a Jetson board an encoder class hands the frames to
  the video hardware.  This development models the program's own code and header-only classes of
  libwebrtc that come with it: numbers, units, buffers, smart pointers, signals and containers.

  \<^bold>\<open>Parts of the program and where they are modelled.\<close>

  \<^item> \<open>Wadi_Prelude\<close>: machine widths, results with exceptions as values (\<^verbatim>\<open>Inl\<close> is
    the exception), the operations of \<^verbatim>\<open>std::string\<close> the sources use.
  \<^item> \<open>Http_Chars\<close>, \<open>Http_Uri\<close>, \<open>Http_Parse\<close>, \<open>Http_Encode\<close>:
    the pure functions of \<^verbatim>\<open>include/HTTPRequest/Request.hpp\<close>: character classes and numbers,
    \<^verbatim>\<open>parseUri\<close>, the response parsers, the request encoders with Base 64.  An iterator pair
    is the list of characters between the iterators.  The lemmas are round trips with printers, exact
    characterisations of what is accepted, and the progress of the parsers, stated as locales
    that the loops around them use.
  \<^item> \<open>Http_Response\<close>: the state machine that \<^verbatim>\<open>Request::send\<close> runs over received blocks
    (header section, Content-Length body, chunked body).  A specification that sees the whole
    stream at once is refined by the machine, whatever blocks the stream is cut into after the header section, which has to be
    complete in the first block: a block that ends before it makes the machine stop with an empty response.
  \<^item> \<open>Sys\<close>, \<open>Http_Socket\<close>, \<open>Http_Ownership\<close>, \<open>Http_Send\<close>: the outside world as a script of answers and
    a trace of calls; \<^verbatim>\<open>class Socket\<close> with its \<^verbatim>\<open>select\<close> loops, retries and
    destructor; the constructor of \<^verbatim>\<open>Request\<close> and \<^verbatim>\<open>Request::send\<close>.
    The lemmas say which bytes go out, which resources are released and when, that the
    result is the one of \<open>Http_Response\<close>, and that a call without a timeout returns when the system answers.  Programs that
    create, move, assign and destroy sockets close every descriptor once.
  \<^item> \<open>Sdp\<close>: \<^verbatim>\<open>SDPForceCodecs\<close> of \<^verbatim>\<open>src/whip.cpp\<close>, with the positions of
    \<^verbatim>\<open>std::string\<close> as 64-bit words, since the code adds to \<^verbatim>\<open>npos\<close>.
  \<^item> \<open>Config\<close>: \<^verbatim>\<open>parse_args\<close> and \<^verbatim>\<open>WadiConfig\<close> of \<^verbatim>\<open>src/main.cpp\<close>.
  \<^item> \<open>V4l\<close>, \<open>Whip\<close>: the camera (\<^verbatim>\<open>src/v4l.cpp\<close>) and the session
    (\<^verbatim>\<open>src/whip.cpp\<close>, \<^verbatim>\<open>main\<close>), which compose the parts above.  The callback of the offer is followed from the text
    that libwebrtc produces to the bytes of the request and from the response back to the remote description.
  \<^item> \<open>Jetson_Context\<close>, \<open>Jetson\<close>: \<^verbatim>\<open>video_encode.h\<close> and
    \<^verbatim>\<open>jetson_encoder.cpp\<close>: set-up, the callback of the capture plane, encoding, release, the factory.
    The results come with the exact sequence of calls of the multimedia API, the bytes copied into its buffers included.
  \<^item> \<open>Rtc_Numeric\<close>: \<^verbatim>\<open>rtc_base/numerics/safe_conversions.h\<close>, \<^verbatim>\<open>safe_compare.h\<close> and
    \<^verbatim>\<open>safe_minmax.h\<close> for every C++ integer type, a type being its width and signedness.
  \<^item> \<open>Rtc_Units\<close>: \<^verbatim>\<open>rtc_base/units/unit_base.h\<close> and the units of \<^verbatim>\<open>api/units\<close>
    (time, data size, data rate), refined to integers extended by two infinities.
  \<^item> \<open>Rtc_SeqNum\<close>: wrapping sequence numbers and timestamps and their unwrappers
    (\<^verbatim>\<open>module_common_types_public.h\<close>, \<^verbatim>\<open>mod_ops.h\<close>, \<^verbatim>\<open>sequence_number_util.h\<close>).  Both
    unwrappers provide one interface, the locale of a counter, in which recovery of a stream is proved once.
  \<^item> \<open>Rtc_Buffer\<close>, \<open>Rtc_RefPtr\<close>, \<open>Rtc_CowBuffer\<close>: \<^verbatim>\<open>rtc_base/buffer.h\<close> over heap
    blocks with uninitialised cells, \<^verbatim>\<open>scoped_refptr\<close> with its counters over a store of objects,
    and the copy-on-write buffer made of the two.  Invariants are proved for every reachable state by
    rule induction.  What each operation does to its own buffer and to all others is stated, moves and swaps included.
  \<^item> \<open>Rtc_ByteIO\<close>, \<open>Rtc_ByteBuffer\<close>: integers as bytes in either order
    (\<^verbatim>\<open>byte_io.h\<close>, \<^verbatim>\<open>byte_order.h\<close>) with the rules of C++ for shifts, and the writer of
    \<^verbatim>\<open>byte_buffer.h\<close> over the buffer above.  What is written is compared with digits in base 256 and read back.
  \<^item> \<open>Rtc_Sigslot\<close>, \<open>Rtc_SigslotRun\<close>: signals and slots (\<^verbatim>\<open>sigslot.h\<close>) over a store of
    objects and lists with stable iterators.  Programs and slots are sequences of operations; an invariant that links
    both sides of a connection holds through nested firing, and an emission calls its slots in order.
  \<^item> \<open>Rtc_MovingMax\<close>, \<open>Rtc_Percentile\<close>: the maximum over a moving window
    (\<^verbatim>\<open>moving_max_counter.h\<close>), and percentiles and medians kept up to date with an iterator into an ordered set
    (\<^verbatim>\<open>percentile_filter.h\<close>, \<^verbatim>\<open>moving_median_filter.h\<close>).  The incremental results equal those computed
    from all samples; the percentile is a single precision number, the rounding of the size and of the product is part of the
    model, and the position is related to the exact product.
  \<^item> \<open>Rtc_Fifo\<close>, \<open>Rtc_SwapQueue\<close>: the contract of a queue and of a bounded one as locales, and
    \<^verbatim>\<open>swap_queue.h\<close>, which meets the second.  Every interleaving of the operations of producers and consumers
    gives the answers of the bounded queue; an operation holds the lock throughout, so it is one step.
  \<^item> \<open>Rtc_Deque\<close>, \<open>Rtc_DequeRep\<close>, \<open>Rtc_DequeOps\<close>, \<open>Rtc_DequeEdit\<close>, \<open>Rtc_DequeRun\<close>:
    \<^verbatim>\<open>circular_deque.h\<close> and \<^verbatim>\<open>vector_buffer.h\<close> over raw cells that hold an object or not.  What the cells
    represent, the operations at the ends, the edits in the middle, and programs, which act as on a list and never
    read, construct over or destroy the wrong cell.  The deque is an instance of the queue contract.
  \<^item> \<open>Rtc_LinkedList\<close>: the intrusive list \<^verbatim>\<open>linked_list.h\<close> over a store of pointers that several
    lists share.  Programs refine lists of nodes, forwards and backwards, and leave the links of other nodes null.
  \<^item> \<open>Rtc_FlatTree\<close>, \<open>Rtc_FlatOrder\<close>, \<open>Rtc_FlatRange\<close>, \<open>Rtc_FlatMap\<close>: the sorted vector behind
    \<^verbatim>\<open>flat_set\<close> and \<^verbatim>\<open>flat_map\<close> (\<^verbatim>\<open>flat_tree.h\<close>, \<^verbatim>\<open>flat_map.h\<close>).  The requirement on the
    comparison is the locale of strict weak orderings, with the default comparison as an instance; inside it a hint has no
    effect, the insertion of a range is the insertion of its values one by one, and programs refine a function
    from keys to elements.
  \<^item> \<open>Rtc_MruCache\<close>: the cache of recently used items (\<^verbatim>\<open>mru_cache.h\<close>), equal to a list of bounded
    length in which a used item moves to the front, with an index that finds exactly its items.
  \<^item> \<open>Rtc_IdMap\<close>: the map \<^verbatim>\<open>id_map.h\<close>, which uses a flat set to remember what was removed during an iteration;
    loops that remove elements are equal to a loop over the list of keys in which a removal takes effect at once.
  \<^item> \<open>Http_Properties\<close> holds properties of the HTTP functions one by one; \<open>Examples\<close> and
    \<open>Rtc_Examples\<close> apply each property that has hypotheses to a concrete input.

  \<^bold>\<open>How effects are modelled.\<close>  A function that only throws returns a sum.  A function
  that calls the operating system, libwebrtc or the Jetson library is a state transformer over the
  script of answers that the outside world will give; it returns, throws, or is blocked when the script is
  used up.  The script is therefore the only fuel: every loop of the model is bounded by its length, since
  each pass consumes an answer, and the liveness statement about \<^verbatim>\<open>send\<close> gives a script that is long
  enough.  Slots that fire signals may call each other without end, so a run of signals and slots takes the
  depth of calls as fuel: safety holds for every depth, and the theorem about the order of calls gives a depth at which an
  emission ends.  The loops over the nodes of a linked list and over an identifier map take the number of steps as fuel; the
  theorems show that the length of the list, or the number of elements and one, is enough.  The loops that
  shift the cells of a deque are bounded by the number of cells.  All other loops are structural or have a termination proof.
  The program's own wait for an offer may never end: it is a partial function, which returns exactly when there is an offer.  A failed \<^verbatim>\<open>assert\<close> or \<^verbatim>\<open>RTC_CHECK\<close> and undefined behaviour
  (an access outside an array, a null pointer, signed overflow, a reference count that overflows) are error values, and the
  theorems say when they occur.

  \<^bold>\<open>Parameters and hypotheses.\<close>  What the kernel, the resolver, libwebrtc and the Jetson library answer is
  arbitrary; a theorem that needs an answer to be sensible says so.  The values of constants in NVIDIA's headers
  are a record argument.  \<^verbatim>\<open>CloneDataIfReferenced\<close> is declared in the repository and defined
  outside it; it is an argument, with its documented effect, for capacities that hold the data, as a hypothesis.  The comparison of a flat container is an
  argument with the requirements of the standard as hypotheses, and so is the place a hash table gives a new element.

  \<^bold>\<open>Bounds.\<close>  Sizes wrap at 64 bits and string positions are 64-bit words: statements about long inputs
  carry the bound below which no position wraps.  Unwrapped positions are bounded by half of the 64-bit range.
  A reference counter is a 32-bit signed integer, so the invariant
  of \<^verbatim>\<open>scoped_refptr\<close> holds up to 2147483647 owners of one object.

  \<^bold>\<open>Not modelled.\<close>  The branches for Windows; log output and the observers that only write
  to the log; the overloads for floating-point numbers in the numeric headers and units;
  functions that are declared in the repository and defined elsewhere, such as \<^verbatim>\<open>ByteBufferReader\<close>; pointers into the
  block of a buffer; null arguments of the swap queue, which has none in the model; and arguments that refer to an element of the container they are passed to; of the deque the
  functions \<^verbatim>\<open>Erase\<close> and \<^verbatim>\<open>EraseIf\<close> and reverse iterators, of the flat containers what only passes a call on to
  \<^verbatim>\<open>std::vector\<close>; checks of the calling thread.  The rest of the vendored headers of libwebrtc mostly declare interfaces of the
  prebuilt library, whose code is not part of the repository.  Concurrency is modelled only where the code fixes an order or
  holds a lock: the swap queue is explored in all interleavings of its operations, the callback of the capture plane is
  an operation of its own, and its interleavings with the encoding thread are not explored.
\<close>

end
